(* ===== verification/Prelude.thy ===== *)
theory Prelude
  imports Main "HOL-Library.Word" "HOL-Library.Multiset"
begin

text \<open>
  Shared vocabulary of the development.

  \<^item> \<open>'a run\<close>: the outcome of a piece of C code. \<open>None\<close> is "does not return",
    \<open>ret x\<close> is a normal return of \<open>x\<close>, \<open>fail e\<close> is a stop with error \<open>e\<close>: a failed
    \<open>assert\<close>, an \<open>A3_PANIC\<close>, or an access C leaves undefined.
  \<^item> \<open>size_t\<close> (\<open>src/include/a3/types.h\<close> and \<open>stddef.h\<close>): a 64-bit unsigned number. It is a
    \<open>nat\<close> here, and each \<open>+\<close>, \<open>-\<close>, \<open>*\<close> of the code is \<open>sz_add\<close>, \<open>sz_sub\<close>, \<open>sz_mul\<close>, which
    wrap around modulo \<open>2 ^ 64\<close>.
  \<^item> generic lemmas on lists, association lists and modular arithmetic.
\<close>

section \<open>Outcomes\<close>

text \<open>
  The ways a C function can stop without returning. All but the first two and \<open>Thrown\<close> are undefined
  behaviour: the model stops there, so a theorem that an operation returns also says that it
  performs no such access.
\<close>

datatype c_error =
    Assert_failed   \<comment> \<open>\<open>assert\<close> of a debug build\<close>
  | Panicked        \<comment> \<open>\<open>A3_PANIC\<close>, \<open>A3_UNWRAPN\<close> and their kin\<close>
  | Null_deref
  | Out_of_bounds
  | Use_after_free
  | Bad_free        \<comment> \<open>\<open>free\<close> or \<open>realloc\<close> of a pointer \<open>malloc\<close> did not return\<close>
  | Overlap         \<comment> \<open>\<open>memcpy\<close> on overlapping ranges\<close>
  | Div_by_zero
  | Thrown          \<comment> \<open>an exception that leaves a C++ function\<close>
  | No_return       \<comment> \<open>the end of a C++ function that should have returned a value\<close>

type_synonym 'a run = "(c_error + 'a) option"

abbreviation ret :: "'a \<Rightarrow> 'a run" where
  "ret x \<equiv> Some (Inr x)"

abbreviation fail :: "c_error \<Rightarrow> 'a run" where
  "fail e \<equiv> Some (Inl e)"

abbreviation diverge :: "'a run" where
  "diverge \<equiv> None"

definition bind_run :: "'a run \<Rightarrow> ('a \<Rightarrow> 'b run) \<Rightarrow> 'b run" where
  "bind_run m f =
     (case m of None \<Rightarrow> None | Some (Inl e) \<Rightarrow> Some (Inl e) | Some (Inr x) \<Rightarrow> f x)"

definition require :: "bool \<Rightarrow> c_error \<Rightarrow> 'a run \<Rightarrow> 'a run" where
  "require b e k = (if b then k else fail e)"

abbreviation assert_c :: "bool \<Rightarrow> 'a run \<Rightarrow> 'a run" where
  "assert_c b k \<equiv> require b Assert_failed k"

named_theorems run_simps \<open>evaluation of outcomes\<close>

lemma bind_run_simps [simp, run_simps]:
  "bind_run (ret x) f = f x"
  "bind_run (fail e) f = fail e"
  "bind_run diverge f = diverge"
  by (simp_all add: bind_run_def)

lemma require_simps [simp, run_simps]:
  "require True e k = k"
  "require False e k = fail e"
  by (simp_all add: require_def)

lemma require_ret_iff [run_simps]: "require b e k = ret x \<longleftrightarrow> b \<and> k = ret x"
  by (simp add: require_def)

lemma bind_run_ret_iff [run_simps]:
  "bind_run m f = ret y \<longleftrightarrow> (\<exists>x. m = ret x \<and> f x = ret y)"
  by (auto simp: bind_run_def split: option.splits sum.splits)

lemma bind_run_assoc: "bind_run (bind_run m f) g = bind_run m (\<lambda>x. bind_run (f x) g)"
  by (auto simp: bind_run_def split: option.splits sum.splits)

lemma bind_run_cong [fundef_cong]:
  assumes "m = m'" and "\<And>x. m' = ret x \<Longrightarrow> f x = f' x"
  shows "bind_run m f = bind_run m' f'"
  using assms by (auto simp: bind_run_def split: option.splits sum.splits)

lemma bind_run_mono [partial_function_mono]:
  assumes "mono_option B" and "\<And>y. mono_option (\<lambda>f. C y f)"
  shows "mono_option (\<lambda>f. bind_run (B f) (\<lambda>y. C y f))"
proof -
  have "bind_run (B f) (\<lambda>y. C y f) =
      Option.bind (B f) (\<lambda>r. case r of Inl e \<Rightarrow> Some (Inl e) | Inr y \<Rightarrow> C y f)" for f
    by (simp add: bind_run_def split: option.split)
  moreover have "mono_option (\<lambda>f. Option.bind (B f)
      (\<lambda>r. case r of Inl e \<Rightarrow> Some (Inl e) | Inr y \<Rightarrow> C y f))"
  proof (intro bind_mono assms(1))
    fix r
    show "mono_option (\<lambda>f. case r of Inl e \<Rightarrow> Some (Inl e) | Inr y \<Rightarrow> C y f)"
      by (cases r) (simp_all add: assms(2) option.const_mono)
  qed
  ultimately show ?thesis by simp
qed

lemma require_mono [partial_function_mono]:
  assumes "mono_option B"
  shows "mono_option (\<lambda>f. require b e (B f))"
  using assms by (cases b) (simp_all add: option.const_mono)

text \<open>A counted loop: the body runs once for each index of the list, in order.\<close>

primrec for_run :: "'i list \<Rightarrow> ('i \<Rightarrow> 's \<Rightarrow> 's run) \<Rightarrow> 's \<Rightarrow> 's run" where
  "for_run [] body s = ret s"
| "for_run (i # is) body s = bind_run (body i s) (for_run is body)"

lemma for_run_append: "for_run (is @ js) body s = bind_run (for_run is body s) (for_run js body)"
proof (induction "is" arbitrary: s)
  case (Cons i "is")
  have "for_run (is @ js) body = (\<lambda>s. bind_run (for_run is body s) (for_run js body))"
    by (rule ext) (rule Cons.IH)
  then show ?case by (simp add: bind_run_assoc)
qed simp

text \<open>Loop rule: an invariant over the indices already done.\<close>

text \<open>Two loops in step.\<close>

lemma for_run_pair:
  assumes "\<And>i s t. i \<in> set is \<Longrightarrow> R s t \<Longrightarrow> \<exists>s' t'. f i s = ret s' \<and> g i t = ret t' \<and> R s' t'" and "R s t"
  shows "\<exists>s' t'. for_run is f s = ret s' \<and> for_run is g t = ret t' \<and> R s' t'"
  using assms
proof (induction "is" arbitrary: s t)
  case (Cons i "is")
  then obtain s1 t1 where "f i s = ret s1" "g i t = ret t1" "R s1 t1" by (metis list.set_intros(1))
  moreover from this(3) have "\<exists>s' t'. for_run is f s1 = ret s' \<and> for_run is g t1 = ret t' \<and> R s' t'"
    using Cons.prems(1) by (intro Cons.IH) auto
  ultimately show ?case by simp
qed simp

lemma for_run_upt_rule:
  assumes "P lo s" and "lo \<le> hi"
    and step: "\<And>i s. lo \<le> i \<Longrightarrow> i < hi \<Longrightarrow> P i s \<Longrightarrow> \<exists>s'. body i s = ret s' \<and> P (Suc i) s'"
  shows "\<exists>s'. for_run [lo..<hi] body s = ret s' \<and> P hi s'"
  using assms(2) step
proof (induction hi rule: dec_induct)
  case base
  then show ?case using assms(1) by simp
next
  case (step n)
  then obtain s1 where 1: "for_run [lo..<n] body s = ret s1" "P n s1" by fastforce
  with step obtain s2 where "body n s1 = ret s2" "P (Suc n) s2" by fastforce
  with 1 step.hyps show ?case by (simp add: for_run_append)
qed

text \<open>Reading and writing a C array held as a list: out of range is an error.\<close>

definition array_get :: "'a list \<Rightarrow> nat \<Rightarrow> 'a run" where
  "array_get xs i = (if i < length xs then ret (xs ! i) else fail Out_of_bounds)"

definition array_set :: "'a list \<Rightarrow> nat \<Rightarrow> 'a \<Rightarrow> 'a list run" where
  "array_set xs i x = (if i < length xs then ret (xs[i := x]) else fail Out_of_bounds)"

lemma array_get_ok [simp]: "i < length xs \<Longrightarrow> array_get xs i = ret (xs ! i)"
  by (simp add: array_get_def)

lemma array_set_ok [simp]: "i < length xs \<Longrightarrow> array_set xs i x = ret (xs[i := x])"
  by (simp add: array_set_def)

section \<open>64-bit sizes\<close>

type_synonym size_t = nat
type_synonym u8 = "8 word"
type_synonym u64 = "64 word"

definition size_mod :: nat where
  "size_mod = 2 ^ 64"

definition sz_add :: "size_t \<Rightarrow> size_t \<Rightarrow> size_t" where
  "sz_add a b = (a + b) mod size_mod"

definition sz_sub :: "size_t \<Rightarrow> size_t \<Rightarrow> size_t" where
  "sz_sub a b = (a + (size_mod - b mod size_mod)) mod size_mod"

definition sz_mul :: "size_t \<Rightarrow> size_t \<Rightarrow> size_t" where
  "sz_mul a b = (a * b) mod size_mod"

lemma size_mod_pos [simp]: "0 < size_mod"
  by (simp add: size_mod_def)

lemma size_mod_gt [simp]: "Suc 0 < size_mod" "size_mod \<noteq> 0"
  by (simp_all add: size_mod_def)

lemma sz_add_eq [simp]: "a + b < size_mod \<Longrightarrow> sz_add a b = a + b"
  by (simp add: sz_add_def)

lemma sz_mul_eq [simp]: "a * b < size_mod \<Longrightarrow> sz_mul a b = a * b"
  by (simp add: sz_mul_def)

lemma sz_sub_eq [simp]:
  assumes "b \<le> a" and "a < size_mod"
  shows "sz_sub a b = a - b"
proof -
  have "b mod size_mod = b" using assms by simp
  moreover have "a + (size_mod - b) = (a - b) + size_mod" using assms by linarith
  ultimately show ?thesis using assms(2) unfolding sz_sub_def by (metis less_imp_diff_less mod_add_self2 mod_less)
qed

lemma sz_sub_wrap:
  assumes "a < b" and "b < size_mod"
  shows "sz_sub a b = size_mod - (b - a)"
proof -
  have "a + (size_mod - b) = size_mod - (b - a)" using assms by linarith
  then show ?thesis using assms by (simp add: sz_sub_def)
qed

lemma sz_bounds [simp]:
  "sz_add a b < size_mod" "sz_sub a b < size_mod" "sz_mul a b < size_mod"
  by (simp_all add: sz_add_def sz_sub_def sz_mul_def)

end
