(* ===== verification/Ht.thy ===== *)
theory Ht
  imports Prelude
begin

text \<open>
  The Robin Hood hash table of \<open>src/include/a3/ht.h\<close>: the structures of
  \<open>A3_HT_DEFINE_STRUCTS\<close> and the functions of \<open>A3_HT_DEFINE_METHODS_HASHER\<close>.

  The macro arguments \<open>H\<close> (hash function) and \<open>C\<close> (comparator) are the fields \<open>hasher\<close> and
  \<open>comparator\<close> of \<open>ht_params\<close>; HighwayHash, the default \<open>H\<close>, is not part of this repository
  and stays a parameter that reads the table's hash key and the key, as
  \<open>A3_HT_DEFAULT_HASH\<close> does. \<open>zero_key\<close> and \<open>zero_value\<close> are the objects whose bytes are all
  zero, which \<open>calloc\<close> leaves in a fresh entry. An entry whose \<open>hash\<close> is 0 is free. A block
  that was not allocated, or was released, is the empty list, so any access to it is out
  of bounds. \<open>ok\<close> arguments say whether the \<open>calloc\<close> of that call succeeds.
\<close>

section \<open>Structures\<close>

record ('k, 'v) ht_entry =
  entry_key :: 'k
  entry_value :: 'v
  entry_hash :: u64

record ('k, 'v) ht =
  can_grow :: bool
  ht_size :: size_t
  cap :: size_t
  hash_key :: "u8 list"   \<comment> \<open>\<open>uint64_t hash_key[4]\<close>, byte by byte\<close>
  duplicate_cb :: "('v \<Rightarrow> 'v \<Rightarrow> bool \<times> 'v) option"
  entries :: "('k, 'v) ht_entry list"

record ('k, 'v) ht_params =
  hasher :: "u8 list \<Rightarrow> 'k \<Rightarrow> u64"
  comparator :: "'k \<Rightarrow> 'k \<Rightarrow> int"
  zero_key :: 'k
  zero_value :: 'v

definition ht_initial_cap :: size_t where
  "ht_initial_cap = 31"

definition ht_load_factor :: size_t where
  "ht_load_factor = 90"

definition ht_hash_key_size :: size_t where
  "ht_hash_key_size = 4"

text \<open>A block of \<open>n\<close> zeroed entries, as \<open>calloc\<close> returns it.\<close>

definition ht_zero_entry :: "('k, 'v) ht_params \<Rightarrow> ('k, 'v) ht_entry" where
  "ht_zero_entry p = \<lparr>entry_key = zero_key p, entry_value = zero_value p, entry_hash = 0\<rparr>"

definition ht_calloc :: "('k, 'v) ht_params \<Rightarrow> bool \<Rightarrow> size_t \<Rightarrow> ('k, 'v) ht_entry list" where
  "ht_calloc p ok n = (if ok then replicate n (ht_zero_entry p) else [])"

section \<open>Operations\<close>

definition ht_hash :: "('k, 'v) ht_params \<Rightarrow> ('k, 'v) ht \<Rightarrow> 'k \<Rightarrow> u64" where
  "ht_hash p t k = (let r = hasher p (hash_key t) k in if r \<noteq> 0 then r else 1)"

definition ht_probe_count :: "('k, 'v) ht \<Rightarrow> size_t \<Rightarrow> u64 \<Rightarrow> size_t" where
  "ht_probe_count t index h = sz_sub (sz_add index (cap t)) (unat h mod cap t) mod cap t"

text \<open>
  The probe loop of \<open>A3_HT_INSERT_AT\<close>: \<open>i\<close> and \<open>pc\<close> are its loop variables, \<open>h\<close>, \<open>k\<close>, \<open>v\<close>
  the entry being carried. The C loop has no exit condition, so the model is partial.
\<close>

partial_function (option) ht_insert_loop ::
  "('k, 'v) ht_params \<Rightarrow> ('k, 'v) ht \<Rightarrow> size_t \<Rightarrow> size_t \<Rightarrow> u64 \<Rightarrow> 'k \<Rightarrow> 'v \<Rightarrow>
    (bool \<times> ('k, 'v) ht) run" where
  "ht_insert_loop p t i pc h k v =
     bind_run (array_get (entries t) i) (\<lambda>e.
       if entry_hash e = 0 then
         ret (True, t\<lparr>entries := (entries t)[i := \<lparr>entry_key = k, entry_value = v, entry_hash = h\<rparr>]\<rparr>)
       else if h = entry_hash e \<and> comparator p k (entry_key e) = 0 then
         (case duplicate_cb t of
            None \<Rightarrow> ret (False, t)
          | Some cb \<Rightarrow>
              (let (r, v') = cb (entry_value e) v
               in ret (r, t\<lparr>entries := (entries t)[i := e\<lparr>entry_value := v'\<rparr>]\<rparr>)))
       else if ht_probe_count t i (entry_hash e) < pc then
         ht_insert_loop p
           (t\<lparr>entries := (entries t)[i := \<lparr>entry_key = k, entry_value = v, entry_hash = h\<rparr>]\<rparr>)
           (sz_add i 1 mod cap t)
           (sz_add (ht_probe_count t i (entry_hash e)) 1)
           (entry_hash e) (entry_key e) (entry_value e)
       else ht_insert_loop p t (sz_add i 1 mod cap t) (sz_add pc 1) h k v)"

definition ht_insert_at ::
  "('k, 'v) ht_params \<Rightarrow> ('k, 'v) ht \<Rightarrow> u64 \<Rightarrow> 'k \<Rightarrow> 'v \<Rightarrow> (bool \<times> ('k, 'v) ht) run" where
  "ht_insert_at p t h k v =
     assert_c (h \<noteq> 0) (assert_c (0 < cap t)
       (ht_insert_loop p t (unat h mod cap t) 0 h k v))"

text \<open>\<open>A3_SSIZE_T\<close> values: the cast of a \<open>size_t\<close>.\<close>

definition ssize_of :: "size_t \<Rightarrow> int" where
  "ssize_of n = (if n < 2 ^ 63 then int n else int n - 2 ^ 64)"

function ht_next_entry :: "('k, 'v) ht \<Rightarrow> size_t \<Rightarrow> int run" where
  "ht_next_entry t index =
     (if index < cap t then
        bind_run (array_get (entries t) index) (\<lambda>e.
          if entry_hash e \<noteq> 0 then ret (ssize_of index) else ht_next_entry t (index + 1))
      else ret (- 1))"
  by pat_completeness auto
termination
  by (relation "measure (\<lambda>(t, index). cap t - index)") auto

declare ht_next_entry.simps [simp del]

definition ht_rehash_step ::
  "('k, 'v) ht_params \<Rightarrow> ('k, 'v) ht_entry list \<Rightarrow> nat \<Rightarrow> ('k, 'v) ht \<Rightarrow> ('k, 'v) ht run" where
  "ht_rehash_step p prev i t =
     bind_run (array_get prev i) (\<lambda>e.
       if entry_hash e = 0 then ret t
       else bind_run (ht_insert_at p t (entry_hash e) (entry_key e) (entry_value e))
              (\<lambda>(r, t'). ret t'))"

definition ht_resize ::
  "('k, 'v) ht_params \<Rightarrow> bool \<Rightarrow> ('k, 'v) ht \<Rightarrow> size_t \<Rightarrow> ('k, 'v) ht run" where
  "ht_resize p ok t new_cap =
     assert_c (cap t < new_cap)
       (for_run [0..<cap t] (ht_rehash_step p (entries t))
          (t\<lparr>cap := new_cap, entries := ht_calloc p ok new_cap\<rparr>))"

definition ht_grow ::
  "('k, 'v) ht_params \<Rightarrow> bool \<Rightarrow> ('k, 'v) ht \<Rightarrow> (bool \<times> ('k, 'v) ht) run" where
  "ht_grow p ok t =
     (if \<not> can_grow t then ret (False, t)
      else bind_run (ht_resize p ok t (sz_mul (cap t) 2)) (\<lambda>t'. ret (True, t')))"

partial_function (option) ht_find_loop ::
  "('k, 'v) ht_params \<Rightarrow> ('k, 'v) ht \<Rightarrow> size_t \<Rightarrow> size_t \<Rightarrow> u64 \<Rightarrow> 'k \<Rightarrow> int run" where
  "ht_find_loop p t i pc h k =
     bind_run (array_get (entries t) i) (\<lambda>e.
       if entry_hash e = 0 \<or> ht_probe_count t i (entry_hash e) < pc then ret (- 1)
       else if h = entry_hash e \<and> comparator p k (entry_key e) = 0 then ret (ssize_of i)
       else ht_find_loop p t (sz_add i 1 mod cap t) (sz_add pc 1) h k)"

definition ht_find_index :: "('k, 'v) ht_params \<Rightarrow> ('k, 'v) ht \<Rightarrow> 'k \<Rightarrow> int run" where
  "ht_find_index p t k =
     require (0 < cap t) Div_by_zero
       (ht_find_loop p t (unat (ht_hash p t k) mod cap t) 0 (ht_hash p t k) k)"

text \<open>A pointer into \<open>entries\<close> is the index it points at; \<open>None\<close> is \<open>NULL\<close>.\<close>

definition ht_find_entry :: "('k, 'v) ht_params \<Rightarrow> ('k, 'v) ht \<Rightarrow> 'k \<Rightarrow> nat option run" where
  "ht_find_entry p t k =
     bind_run (ht_find_index p t k) (\<lambda>i. ret (if i < 0 then None else Some (nat i)))"

definition ht_find :: "('k, 'v) ht_params \<Rightarrow> ('k, 'v) ht \<Rightarrow> 'k \<Rightarrow> 'v option run" where
  "ht_find p t k =
     bind_run (ht_find_entry p t k) (\<lambda>r. case r of
         None \<Rightarrow> ret None
       | Some i \<Rightarrow> bind_run (array_get (entries t) i) (\<lambda>e. ret (Some (entry_value e))))"

text \<open>
  \<open>A3_HT_INIT\<close>: \<open>key\<close> is the caller's key bytes, if any; \<open>rnd i\<close> the \<open>i\<close>-th \<open>rand()\<close>, as a
  byte. The \<open>memcpy\<close> copies \<open>A3_HT_HASH_KEY_SIZE\<close> bytes of the key.
\<close>

definition ht_init ::
  "('k, 'v) ht_params \<Rightarrow> bool \<Rightarrow> (nat \<Rightarrow> u8) \<Rightarrow> u8 list option \<Rightarrow> bool \<Rightarrow> ('k, 'v) ht run" where
  "ht_init p ok rnd key grow =
     bind_run (case key of
         Some bs \<Rightarrow> require (ht_hash_key_size \<le> length bs) Out_of_bounds
                      (ret (take ht_hash_key_size bs @ replicate (32 - ht_hash_key_size) 0))
       | None \<Rightarrow> ret (map rnd [0..<ht_hash_key_size * 8])) (\<lambda>hk.
     require ok Panicked
       (ret \<lparr>can_grow = grow, ht_size = 0, cap = ht_initial_cap, hash_key = hk,
             duplicate_cb = None, entries = ht_calloc p ok ht_initial_cap\<rparr>))"

definition ht_new ::
  "('k, 'v) ht_params \<Rightarrow> bool \<Rightarrow> bool \<Rightarrow> (nat \<Rightarrow> u8) \<Rightarrow> u8 list option \<Rightarrow> bool \<Rightarrow> ('k, 'v) ht run" where
  "ht_new p ok_table ok rnd key grow = assert_c ok_table (ht_init p ok rnd key grow)"

definition ht_set_duplicate_cb ::
  "('k, 'v) ht \<Rightarrow> ('v \<Rightarrow> 'v \<Rightarrow> bool \<times> 'v) option \<Rightarrow> ('k, 'v) ht" where
  "ht_set_duplicate_cb t cb = t\<lparr>duplicate_cb := cb\<rparr>"

text \<open>\<open>A3_HT_DESTROY\<close> releases the entries: no access to them is valid any more.\<close>

definition ht_destroy :: "('k, 'v) ht \<Rightarrow> ('k, 'v) ht" where
  "ht_destroy t = t\<lparr>entries := []\<rparr>"

text \<open>The hasher of \<open>A3_HT_DEFINE_METHODS\<close>: HighwayHash of the bytes of the key.\<close>

definition ht_default_hash :: "(u8 list \<Rightarrow> u8 list \<Rightarrow> u64) \<Rightarrow> ('k \<Rightarrow> u8 list) \<Rightarrow> u8 list \<Rightarrow> 'k \<Rightarrow> u64" where
  "ht_default_hash highway key_bytes hk k = highway (key_bytes k) hk"

text \<open>\<open>A3_HT_FREE\<close> also releases the table, which it asserts to be there.\<close>

definition ht_free :: "('k, 'v) ht option \<Rightarrow> unit run" where
  "ht_free table = assert_c (table \<noteq> None) (case table of None \<Rightarrow> ret () | Some t \<Rightarrow> (let t' = ht_destroy t in ret ()))"

definition ht_insert ::
  "('k, 'v) ht_params \<Rightarrow> bool \<Rightarrow> ('k, 'v) ht \<Rightarrow> 'k \<Rightarrow> 'v \<Rightarrow> (bool \<times> ('k, 'v) ht) run" where
  "ht_insert p ok t k v =
     bind_run
       (if sz_mul (cap t) ht_load_factor \<le> sz_mul (ht_size t) 100 then ht_grow p ok t
        else ret (True, t))
       (\<lambda>(grown, t1).
         if \<not> grown \<and> cap t1 \<le> ht_size t1 then ret (False, t1)
         else (let t2 = t1\<lparr>ht_size := sz_add (ht_size t1) 1\<rparr>
               in ht_insert_at p t2 (ht_hash p t2 k) k v))"

text \<open>\<open>A3_HT_SIZE\<close>: what the counter says, which is more than the number of keys after duplicate insertions.\<close>

definition ht_count :: "('k, 'v) ht option \<Rightarrow> size_t run" where
  "ht_count table = assert_c (table \<noteq> None) (case table of None \<Rightarrow> fail Null_deref | Some t \<Rightarrow> ret (ht_size t))"

text \<open>
  The shifting loop of \<open>A3_HT_DELETE_INDEX\<close>: \<open>ei\<close> is the index \<open>entry\<close> points at, \<open>i\<close> that of
  \<open>next_entry\<close>.
\<close>

partial_function (option) ht_shift_loop ::
  "('k, 'v) ht \<Rightarrow> nat \<Rightarrow> size_t \<Rightarrow> ('k, 'v) ht run" where
  "ht_shift_loop t ei i =
     bind_run (array_get (entries t) ei) (\<lambda>e.
     bind_run (array_get (entries t) i) (\<lambda>e'.
       if entry_hash e' \<noteq> 0 \<and> ht_probe_count t i (entry_hash e') \<noteq> 0 then
         ht_shift_loop (t\<lparr>entries := (entries t)[ei := e']\<rparr>) i (sz_add i 1 mod cap t)
       else ret (t\<lparr>entries := (entries t)[ei := e\<lparr>entry_hash := 0\<rparr>]\<rparr>)))"

definition ht_delete_index :: "('k, 'v) ht \<Rightarrow> size_t \<Rightarrow> (bool \<times> ('k, 'v) ht) run" where
  "ht_delete_index t index =
     (if entries t = [] \<and> index = 0 then ret (False, t)
      else bind_run (array_get (entries t) index) (\<lambda>e.
           require (0 < cap t) Div_by_zero
             (bind_run (ht_shift_loop
                 (t\<lparr>entries := (entries t)[index := e\<lparr>entry_hash := 0\<rparr>],
                    ht_size := sz_sub (ht_size t) 1\<rparr>)
                 index (sz_add index 1 mod cap t))
               (\<lambda>t'. ret (True, t')))))"

definition ht_delete :: "('k, 'v) ht_params \<Rightarrow> ('k, 'v) ht \<Rightarrow> 'k \<Rightarrow> (bool \<times> ('k, 'v) ht) run" where
  "ht_delete p t k =
     bind_run (ht_find_index p t k) (\<lambda>i.
       if i < 0 then ret (False, t) else ht_delete_index t (nat i))"

text \<open>The indices an \<open>A3_HT_FOR_EACH\<close> loop visits, in order, from \<open>K_OUT##_i = i\<close> on.\<close>

partial_function (option) ht_for_each_from :: "('k, 'v) ht \<Rightarrow> int \<Rightarrow> nat list run" where
  "ht_for_each_from t i =
     (if 0 \<le> i \<and> nat i < cap t then
        bind_run (ht_next_entry t (nat i + 1)) (\<lambda>j.
        bind_run (ht_for_each_from t j) (\<lambda>js. ret (nat i # js)))
      else ret [])"

definition ht_for_each :: "('k, 'v) ht \<Rightarrow> nat list run" where
  "ht_for_each t = bind_run (ht_next_entry t 0) (ht_for_each_from t)"

end
