(* ===== verification/Ht_Slots.thy ===== *)
theory Ht_Slots
  imports Ht
begin

text \<open>
  The slots of an entry array: distance of an entry from its home slot, the Robin Hood
  ordering \<open>rh_inv\<close>, the multiset of stored entries, and the state of the insertion loop of
  \<open>A3_HT_INSERT_AT\<close> with its one-step lemmas.
\<close>

section \<open>The slots of a table\<close>

definition occupied :: "('k, 'v) ht_entry \<Rightarrow> bool" where
  "occupied e \<longleftrightarrow> entry_hash e \<noteq> 0"

definition home :: "nat \<Rightarrow> ('k, 'v) ht_entry \<Rightarrow> nat" where
  "home n e = unat (entry_hash e) mod n"

definition slot_dist :: "nat \<Rightarrow> nat \<Rightarrow> nat \<Rightarrow> nat" where
  "slot_dist n i j = (i + n - j) mod n"

definition rank :: "('k, 'v) ht_entry list \<Rightarrow> nat \<Rightarrow> nat" where
  "rank es i = (if occupied (es ! i)
     then Suc (slot_dist (length es) i (home (length es) (es ! i))) else 0)"

definition rh_inv :: "('k, 'v) ht_entry list \<Rightarrow> bool" where
  "rh_inv es \<longleftrightarrow> (\<forall>i < length es. rank es (Suc i mod length es) \<le> Suc (rank es i))"

lemma rh_invD: "rh_inv es \<Longrightarrow> i < length es \<Longrightarrow> rank es (Suc i mod length es) \<le> Suc (rank es i)"
  by (simp add: rh_inv_def)

lemma slot_dist_lt [simp]: "0 < n \<Longrightarrow> slot_dist n i j < n"
  by (simp add: slot_dist_def)

lemma slot_dist_self [simp]: "slot_dist n i i = 0"
  by (simp add: slot_dist_def)

lemma slot_dist_add:
  assumes "j < n" "d < n"
  shows "slot_dist n ((j + d) mod n) j = d"
proof (cases "j + d < n")
  case True
  then show ?thesis using assms by (simp add: slot_dist_def)
next
  case False
  then have "(j + d) mod n = j + d - n" using assms by (simp add: mod_if)
  then show ?thesis using assms False by (simp add: slot_dist_def)
qed

lemma add_slot_dist:
  assumes "i < n" "j < n"
  shows "(j + slot_dist n i j) mod n = i"
proof (cases "j \<le> i")
  case True
  then have "slot_dist n i j = i - j" using assms by (simp add: slot_dist_def mod_if)
  then show ?thesis using True assms by simp
next
  case False
  then have "slot_dist n i j = i + n - j" using assms by (simp add: slot_dist_def)
  then show ?thesis using False assms by simp
qed

lemma slot_dist_Suc:
  assumes "i < n" "j < n" "Suc (slot_dist n i j) < n"
  shows "slot_dist n (Suc i mod n) j = Suc (slot_dist n i j)"
proof -
  let ?d = "slot_dist n i j"
  have "Suc i mod n = Suc ((j + ?d) mod n) mod n" by (simp add: add_slot_dist assms)
  also have "\<dots> = (j + Suc ?d) mod n" by (simp add: mod_Suc_eq)
  finally show ?thesis using slot_dist_add [of j n "Suc ?d"] assms by simp
qed

lemma slot_dist_towards:
  assumes "i < n" "j < n" "slot_dist n j i = Suc d"
  shows "slot_dist n j (Suc i mod n) = d"
proof -
  have n: "0 < n" and d: "d < n" using assms slot_dist_lt [of n j i] by linarith+
  have "j = (i + Suc d) mod n" using add_slot_dist [of j n i] assms by simp
  also have "\<dots> = (Suc i mod n + d) mod n" by (simp add: mod_add_left_eq)
  finally show ?thesis using slot_dist_add [of "Suc i mod n" n d] n d by simp
qed

lemma slot_dist_eq_0: "i < n \<Longrightarrow> j < n \<Longrightarrow> slot_dist n i j = 0 \<longleftrightarrow> i = j"
  using add_slot_dist [of i n j] by auto

lemma rank_le: "0 < length es \<Longrightarrow> rank es i \<le> length es"
  using slot_dist_lt [of "length es" i "home (length es) (es ! i)"]
  by (simp add: rank_def Suc_le_eq)

lemma rank_0_iff: "rank es i = 0 \<longleftrightarrow> \<not> occupied (es ! i)"
  by (simp add: rank_def)

lemma rank_forward:
  assumes "rh_inv es" "j < length es"
  shows "rank es ((j + d) mod length es) \<le> d + rank es j"
proof (induction d)
  case 0
  then show ?case using assms(2) by simp
next
  case (Suc d)
  let ?i = "(j + d) mod length es"
  have "?i < length es" using assms(2) by (intro mod_less_divisor) linarith
  then have "rank es (Suc ?i mod length es) \<le> Suc (rank es ?i)"
    using assms(1) by (simp add: rh_inv_def)
  moreover have "Suc ?i mod length es = (j + Suc d) mod length es" by (simp add: mod_Suc_eq)
  ultimately show ?case using Suc by simp
qed

lemma rank_le_dist:
  assumes "rh_inv es" "i < length es" "j < length es"
  shows "rank es i \<le> slot_dist (length es) i j + rank es j"
  using rank_forward [OF assms(1,3), of "slot_dist (length es) i j"]
  by (simp add: add_slot_dist assms)

lemma rank_lt_length:
  assumes "rh_inv es" "j < length es" "rank es j = 0" "i < length es"
  shows "rank es i < length es"
proof -
  have "slot_dist (length es) i j < length es" using assms(2) by (intro slot_dist_lt) linarith
  then show ?thesis using rank_le_dist [OF assms(1,4,2)] assms(3) by simp
qed

text \<open>Every slot from an entry's home up to the entry is occupied, at least that far from home.\<close>

lemma rank_on_path:
  assumes "rh_inv es" "s < length es" "rank es s = Suc d" "e \<le> d"
  shows "Suc e \<le> rank es ((home (length es) (es ! s) + e) mod length es)"
proof -
  let ?n = "length es" and ?h = "home (length es) (es ! s)"
  have n: "0 < ?n" using assms(2) by auto
  have h: "?h < ?n" using n by (simp add: home_def)
  have d: "d = slot_dist ?n s ?h" using assms(3) by (simp add: rank_def split: if_splits)
  have "((?h + e) mod ?n + (d - e)) mod ?n = (?h + e + (d - e)) mod ?n"
    by (rule mod_add_left_eq)
  also have "\<dots> = (?h + d) mod ?n" using assms(4) by simp
  also have "\<dots> = s" using assms(2) h by (simp add: d add_slot_dist)
  finally have "rank es s \<le> (d - e) + rank es ((?h + e) mod ?n)"
    using rank_forward [OF assms(1), of "(?h + e) mod ?n" "d - e"] n by simp
  then show ?thesis using assms by simp
qed

section \<open>Contents\<close>

definition contents :: "('k, 'v) ht_entry list \<Rightarrow> ('k, 'v) ht_entry multiset" where
  "contents es = filter_mset occupied (mset es)"

definition entry_pair :: "('k, 'v) ht_entry \<Rightarrow> 'k \<times> 'v" where
  "entry_pair e = (entry_key e, entry_value e)"

definition ht_assoc :: "('k, 'v) ht \<Rightarrow> ('k \<times> 'v) list" where
  "ht_assoc t = map entry_pair (filter occupied (entries t))"

definition ht_map :: "('k, 'v) ht \<Rightarrow> 'k \<rightharpoonup> 'v" where
  "ht_map t = map_of (ht_assoc t)"

lemma mset_ht_assoc: "mset (ht_assoc t) = image_mset entry_pair (contents (entries t))"
  by (simp add: ht_assoc_def contents_def mset_filter)

lemma contents_update:
  assumes "i < length es"
  shows "contents (es[i := x]) =
    (if occupied x then {#x#} else {#}) + (contents es - (if occupied (es ! i) then {#es ! i#} else {#}))"
proof -
  have "es ! i \<in># mset es" using assms by simp
  then show ?thesis using assms
    by (auto simp: contents_def mset_update filter_diff_mset)
qed

lemma mem_contents_nth: "i < length es \<Longrightarrow> occupied (es ! i) \<Longrightarrow> es ! i \<in># contents es"
  by (simp add: contents_def)

lemma contents_update_empty:
  "i < length es \<Longrightarrow> \<not> occupied (es ! i) \<Longrightarrow> occupied x \<Longrightarrow> contents (es[i := x]) = add_mset x (contents es)"
  by (simp add: contents_update)

lemma contents_update_swap:
  "i < length es \<Longrightarrow> occupied (es ! i) \<Longrightarrow> occupied x \<Longrightarrow>
     add_mset (es ! i) (contents (es[i := x])) = add_mset x (contents es)"
  by (simp add: contents_update mem_contents_nth)

lemma mem_contents: "e \<in># contents es \<longleftrightarrow> (\<exists>i < length es. es ! i = e \<and> occupied e)"
  by (auto simp: contents_def in_set_conv_nth)

lemma size_contents_le: "size (contents es) \<le> length es"
  unfolding contents_def by (metis size_filter_mset_lesseq size_mset)

lemma contents_lt_free:
  assumes "size (contents es) < length es"
  shows "\<exists>j < length es. rank es j = 0"
proof (rule ccontr)
  assume "\<not> ?thesis"
  then have "\<forall>e \<in># mset es. occupied e" by (auto simp: rank_0_iff in_set_conv_nth)
  then have "contents es = mset es" unfolding contents_def by (simp add: filter_mset_eq_conv)
  then show False using assms by simp
qed

lemma map_of_mset_cong:
  assumes "distinct (map fst xs)" "mset xs = mset ys"
  shows "map_of xs = map_of ys"
proof -
  have "distinct (map fst ys)"
    using assms by (metis mset_eq_imp_distinct_iff mset_map)
  moreover have "set xs = set ys" using assms(2) by (rule mset_eq_setD)
  ultimately show ?thesis using assms(1) by (simp add: map_of_inject_set)
qed


section \<open>Probing\<close>

lemma sz_add_mod_Suc: "i < n \<Longrightarrow> n < size_mod \<Longrightarrow> sz_add i 1 mod n = Suc i mod n"
  by simp

lemma ht_probe_count_eq:
  assumes "i < cap t" "2 * cap t < size_mod"
  shows "ht_probe_count t i h = slot_dist (cap t) i (unat h mod cap t)"
proof -
  have "unat h mod cap t < cap t" using assms(1) by (intro mod_less_divisor) linarith
  moreover from this have "unat h mod cap t \<le> i + cap t" by linarith
  moreover have "i + cap t < size_mod" using assms by linarith
  ultimately show ?thesis by (simp add: ht_probe_count_def slot_dist_def)
qed

lemma Suc_mod_inj:
  assumes "i < n" "j < n" "Suc i mod n = Suc j mod n"
  shows "i = j"
  using assms by (auto simp: mod_Suc split: if_splits)

lemma rank_update_other [simp]: "i \<noteq> x \<Longrightarrow> rank (es[i := c]) x = rank es x"
  by (simp add: rank_def)

lemma rank_update_same:
  "i < length es \<Longrightarrow> occupied c \<Longrightarrow> rank (es[i := c]) i = Suc (slot_dist (length es) i (home (length es) c))"
  by (simp add: rank_def)

lemma rh_inv_update:
  assumes inv: "rh_inv es" and i: "i < length es"
    and up: "rank es i \<le> rank (es[i := c]) i"
    and left: "\<And>x. x < length es \<Longrightarrow> Suc x mod length es = i \<Longrightarrow> x \<noteq> i \<Longrightarrow>
                 rank (es[i := c]) i \<le> Suc (rank es x)"
  shows "rh_inv (es[i := c])"
  unfolding rh_inv_def
proof (intro allI impI)
  fix x assume "x < length (es[i := c])"
  then have x: "x < length es" by simp
  have old: "rank es (Suc x mod length es) \<le> Suc (rank es x)" using inv x by (simp add: rh_inv_def)
  consider "x = i" | "x \<noteq> i" "Suc x mod length es = i" | "x \<noteq> i" "Suc x mod length es \<noteq> i" by blast
  then show "rank (es[i := c]) (Suc x mod length (es[i := c])) \<le> Suc (rank (es[i := c]) x)"
  proof cases
    case 1
    then show ?thesis using old up by (cases "Suc i mod length es = i") (auto simp: neq_commute)
  next
    case 2
    then show ?thesis using left [OF x] by simp
  next
    case 3
    then show ?thesis using old by simp
  qed
qed

definition keys_distinct :: "('k, 'v) ht_entry multiset \<Rightarrow> bool" where
  "keys_distinct M \<longleftrightarrow> (\<forall>k. count (image_mset entry_key M) k \<le> 1)"

lemma keys_distinct_add:
  "keys_distinct (add_mset e M) \<longleftrightarrow> keys_distinct M \<and> entry_key e \<notin># image_mset entry_key M"
proof
  assume *: "keys_distinct (add_mset e M)"
  have "count (image_mset entry_key M) k \<le> 1" for k
  proof -
    have "count (image_mset entry_key M) k \<le> count (image_mset entry_key (add_mset e M)) k" by simp
    also have "\<dots> \<le> 1" using * unfolding keys_distinct_def by blast
    finally show ?thesis .
  qed
  moreover have "count (image_mset entry_key (add_mset e M)) (entry_key e) \<le> 1"
    using * unfolding keys_distinct_def by blast
  then have "count (image_mset entry_key M) (entry_key e) = 0" by simp
  ultimately show "keys_distinct M \<and> entry_key e \<notin># image_mset entry_key M"
    unfolding keys_distinct_def not_in_iff by blast
next
  assume "keys_distinct M \<and> entry_key e \<notin># image_mset entry_key M"
  then show "keys_distinct (add_mset e M)"
    unfolding keys_distinct_def not_in_iff by simp
qed

lemma keys_distinct_mono: "keys_distinct M \<Longrightarrow> N \<subseteq># M \<Longrightarrow> keys_distinct N"
  unfolding keys_distinct_def by (meson image_mset_subseteq_mono le_trans mset_subset_eq_count)

text \<open>
  The state of the insertion loop: \<open>c\<close> is the entry being carried, \<open>i\<close> and \<open>pc\<close> the loop
  variables. Placing \<open>c\<close> at \<open>i\<close> never breaks the ordering with the slot before \<open>i\<close>.
\<close>

definition carry_ok ::
  "('k \<Rightarrow> bool) \<Rightarrow> ('k, 'v) ht \<Rightarrow> nat \<Rightarrow> nat \<Rightarrow> ('k, 'v) ht_entry \<Rightarrow> bool" where
  "carry_ok valid t i pc c \<longleftrightarrow>
     length (entries t) = cap t \<and> 2 * cap t < size_mod \<and> rh_inv (entries t) \<and> i < cap t \<and>
     occupied c \<and> pc = slot_dist (cap t) i (home (cap t) c) \<and>
     (\<forall>x < cap t. Suc x mod cap t = i \<longrightarrow> x \<noteq> i \<longrightarrow> pc \<le> rank (entries t) x) \<and>
     keys_distinct (add_mset c (contents (entries t))) \<and>
     (\<forall>e \<in># add_mset c (contents (entries t)). valid (entry_key e))"

definition inserted :: "('k, 'v) ht_entry list \<Rightarrow> ('k, 'v) ht_entry \<Rightarrow> ('k, 'v) ht_entry list \<Rightarrow> bool" where
  "inserted es c es' \<longleftrightarrow> length es' = length es \<and> rh_inv es' \<and>
     contents es' = add_mset c (contents es) \<and> (\<exists>z < length es'. rank es' z \<le> 1)"

lemma entry_eta [simp]:
  "\<lparr>entry_key = entry_key e, entry_value = entry_value e, entry_hash = entry_hash e\<rparr> = e"
  by simp

abbreviation insert_loop_of ::
  "('k, 'v) ht_params \<Rightarrow> ('k, 'v) ht \<Rightarrow> nat \<Rightarrow> nat \<Rightarrow> ('k, 'v) ht_entry \<Rightarrow> (bool \<times> ('k, 'v) ht) run" where
  "insert_loop_of p t i pc c \<equiv> ht_insert_loop p t i pc (entry_hash c) (entry_key c) (entry_value c)"

lemma carry_left:
  "carry_ok valid t i pc c \<Longrightarrow> x < cap t \<Longrightarrow> Suc x mod cap t = i \<Longrightarrow> x \<noteq> i \<Longrightarrow>
     pc \<le> rank (entries t) x"
  unfolding carry_ok_def by blast

lemma carry_rh_update:
  assumes ok: "carry_ok valid t i pc c" and le: "rank (entries t) i \<le> Suc pc"
  shows "rank ((entries t)[i := c]) i = Suc pc" and "rh_inv ((entries t)[i := c])"
proof -
  have *: "length (entries t) = cap t" "i < cap t" "rh_inv (entries t)" "occupied c"
    "pc = slot_dist (cap t) i (home (cap t) c)"
    using ok unfolding carry_ok_def by blast+
  show r: "rank ((entries t)[i := c]) i = Suc pc" using * by (simp add: rank_update_same)
  show "rh_inv ((entries t)[i := c])"
  proof (rule rh_inv_update)
    fix x assume "x < length (entries t)" "Suc x mod length (entries t) = i" "x \<noteq> i"
    then show "rank ((entries t)[i := c]) i \<le> Suc (rank (entries t) x)"
      using carry_left [OF ok, of x] r *(1) by simp
  qed (use * le r in simp_all)
qed

lemma carry_free:
  assumes ok: "carry_ok valid t i pc c" and free: "\<not> occupied (entries t ! i)"
  shows "insert_loop_of p t i pc c = ret (True, t\<lparr>entries := (entries t)[i := c]\<rparr>)"
    and "inserted (entries t) c ((entries t)[i := c])"
proof -
  let ?n = "cap t" and ?es = "entries t"
  have len: "length ?es = ?n" and i: "i < ?n" and c: "occupied c" and inv: "rh_inv ?es"
    using ok by (simp_all add: carry_ok_def)
  have r0: "rank ?es i = 0" using free by (simp add: rank_0_iff)
  note r = carry_rh_update [OF ok, unfolded r0, OF le0]
  show "insert_loop_of p t i pc c = ret (True, t\<lparr>entries := ?es[i := c]\<rparr>)"
    using len i free by (subst ht_insert_loop.simps) (simp add: occupied_def)
  have "rank (?es[i := c]) (Suc i mod ?n) \<le> 1"
  proof (cases "Suc i mod ?n = i")
    case True
    then have "?n = 1" using i by (simp add: mod_Suc split: if_splits)
    then show ?thesis using True r(1) ok by (simp add: carry_ok_def slot_dist_def)
  next
    case False
    then show ?thesis using rh_invD [OF inv, of i] len i r0 by simp
  qed
  moreover have "Suc i mod ?n < ?n" using i by (intro mod_less_divisor) linarith
  ultimately show "inserted ?es c (?es[i := c])"
    using len i free c r(2) unfolding inserted_def by (metis contents_update_empty length_list_update)
qed

lemma carry_next:
  assumes "carry_ok valid t i pc c"
  shows "Suc i mod cap t < cap t"
    and "x < cap t \<Longrightarrow> Suc x mod cap t = Suc i mod cap t \<Longrightarrow> x = i"
    and "sz_add i 1 mod cap t = Suc i mod cap t"
  using assms Suc_mod_inj [of x "cap t" i]
  by (auto simp: carry_ok_def intro: mod_less_divisor)

text \<open>One step of the loop past an occupied slot, in a table that still has a free slot \<open>j\<close>.\<close>

lemma carry_occupied:
  assumes ok: "carry_ok valid t i pc c" and occ: "occupied (entries t ! i)"
    and j: "j < cap t" "rank (entries t) j = 0"
  shows "rank (entries t) i = Suc (slot_dist (cap t) i (home (cap t) (entries t ! i)))"
    and "Suc (slot_dist (cap t) i (home (cap t) (entries t ! i))) < cap t"
    and "ht_probe_count t i (entry_hash (entries t ! i))
         = slot_dist (cap t) i (home (cap t) (entries t ! i))"
    and "home (cap t) e < cap t"
proof -
  show r: "rank (entries t) i = Suc (slot_dist (cap t) i (home (cap t) (entries t ! i)))"
    using ok occ by (simp add: carry_ok_def rank_def)
  show "Suc (slot_dist (cap t) i (home (cap t) (entries t ! i))) < cap t"
    using rank_lt_length [of "entries t" j i] ok j r by (simp add: carry_ok_def)
  show "ht_probe_count t i (entry_hash (entries t ! i))
         = slot_dist (cap t) i (home (cap t) (entries t ! i))"
    using ok by (simp add: carry_ok_def ht_probe_count_eq home_def)
  show "home (cap t) e < cap t" using j unfolding home_def by (intro mod_less_divisor) linarith
qed

lemma carry_move:
  assumes ok: "carry_ok valid t i pc c" and occ: "occupied (entries t ! i)"
    and j: "j < cap t" "rank (entries t) j = 0"
    and le: "pc \<le> slot_dist (cap t) i (home (cap t) (entries t ! i))"
  shows "carry_ok valid t (Suc i mod cap t) (Suc pc) c"
proof -
  note o = carry_occupied [OF ok occ j]
  have "Suc pc < cap t" using o(2) le by simp
  then have "Suc pc = slot_dist (cap t) (Suc i mod cap t) (home (cap t) c)"
    using slot_dist_Suc [OF _ o(4), of i c] ok by (simp add: carry_ok_def)
  moreover have "\<forall>x < cap t. Suc x mod cap t = Suc i mod cap t \<longrightarrow> x \<noteq> Suc i mod cap t \<longrightarrow>
      Suc pc \<le> rank (entries t) x"
    using carry_next(2) [OF ok] o(1) le by fastforce
  ultimately show ?thesis using ok carry_next(1) [OF ok] by (simp add: carry_ok_def)
qed

lemma carry_swap:
  assumes ok: "carry_ok valid t i pc c" and occ: "occupied (entries t ! i)"
    and j: "j < cap t" "rank (entries t) j = 0"
    and lt: "slot_dist (cap t) i (home (cap t) (entries t ! i)) < pc"
  defines "e \<equiv> entries t ! i" and "es \<equiv> (entries t)[i := c]"
  shows "carry_ok valid (t\<lparr>entries := es\<rparr>) (Suc i mod cap t) (Suc (slot_dist (cap t) i (home (cap t) e))) e"
    and "add_mset e (contents es) = add_mset c (contents (entries t))"
proof -
  note o = carry_occupied [OF ok occ j]
  have i: "i < cap t" "length (entries t) = cap t" "occupied c" using ok by (simp_all add: carry_ok_def)
  have r: "rank es i = Suc pc" and "rh_inv es"
    using carry_rh_update [OF ok] o(1) lt unfolding es_def by simp_all
  show M: "add_mset e (contents es) = add_mset c (contents (entries t))"
    using occ i unfolding es_def e_def by (simp add: contents_update_swap)
  note \<open>rh_inv es\<close>
  moreover have "Suc (slot_dist (cap t) i (home (cap t) e)) = slot_dist (cap t) (Suc i mod cap t) (home (cap t) e)"
    using slot_dist_Suc [OF i(1) o(4) o(2)] unfolding e_def by simp
  moreover have "\<forall>x < cap t. Suc x mod cap t = Suc i mod cap t \<longrightarrow> x \<noteq> Suc i mod cap t \<longrightarrow>
      Suc (slot_dist (cap t) i (home (cap t) e)) \<le> rank es x"
    using carry_next(2) [OF ok] r lt unfolding e_def by fastforce
  ultimately show "carry_ok valid (t\<lparr>entries := es\<rparr>) (Suc i mod cap t)
      (Suc (slot_dist (cap t) i (home (cap t) e))) e"
    using ok carry_next(1) [OF ok] occ i(2) unfolding e_def [symmetric]
    by (simp add: carry_ok_def M es_def [symmetric]) (simp add: es_def)
qed

end
