(* ===== verification/Ht_Inv.thy ===== *)
theory Ht_Inv
  imports Ht_Slots
begin

text \<open>
  The invariant of a table, the partial map it stands for, the probe sequence of a stored
  entry, fresh and duplicate entries, and the contract of insertion.
\<close>

section \<open>The invariant of a table\<close>

definition ht_wf :: "('k \<Rightarrow> bool) \<Rightarrow> ('k, 'v) ht_params \<Rightarrow> ('k, 'v) ht \<Rightarrow> bool" where
  "ht_wf valid p t \<longleftrightarrow>
     0 < cap t \<and> cap t * 100 < size_mod \<and> length (entries t) = cap t \<and> rh_inv (entries t) \<and>
     (\<exists>z < cap t. rank (entries t) z \<le> 1) \<and> keys_distinct (contents (entries t)) \<and>
     (\<forall>e \<in># contents (entries t). valid (entry_key e) \<and> entry_hash e = ht_hash p t (entry_key e))"

lemma ht_wfD:
  assumes "ht_wf valid p t"
  shows "0 < cap t" "cap t * 100 < size_mod" "2 * cap t < size_mod" "cap t < 2 ^ 63"
    "length (entries t) = cap t" "rh_inv (entries t)" "keys_distinct (contents (entries t))"
    "\<exists>z < cap t. rank (entries t) z \<le> 1"
  using assms by (auto simp: ht_wf_def size_mod_def)

definition ht_inv :: "('k \<Rightarrow> bool) \<Rightarrow> ('k, 'v) ht_params \<Rightarrow> ('k, 'v) ht \<Rightarrow> bool" where
  "ht_inv valid p t \<longleftrightarrow> ht_wf valid p t \<and> size (contents (entries t)) \<le> ht_size t \<and> ht_size t \<le> cap t"

lemma ht_wf_size [simp]: "ht_wf valid p (t\<lparr>ht_size := n\<rparr>) \<longleftrightarrow> ht_wf valid p t"
  by (simp add: ht_wf_def ht_hash_def)

lemma ht_hash_fields [simp]:
  "ht_hash p (t\<lparr>ht_size := n\<rparr>) = ht_hash p t"
  "ht_hash p (t\<lparr>entries := es\<rparr>) = ht_hash p t"
  "ht_hash p (t\<lparr>cap := c\<rparr>) = ht_hash p t"
  by (simp_all add: fun_eq_iff ht_hash_def)

lemma ht_map_size [simp]: "ht_map (t\<lparr>ht_size := n\<rparr>) = ht_map t"
  by (simp add: ht_map_def ht_assoc_def)

lemma ht_hash_nonzero [simp]: "ht_hash p t k \<noteq> 0"
  by (simp add: ht_hash_def Let_def)

lemma ht_wf_entry:
  assumes "ht_wf valid p t" "i < cap t" "occupied (entries t ! i)"
  shows "valid (entry_key (entries t ! i))" "entry_hash (entries t ! i) = ht_hash p t (entry_key (entries t ! i))"
  using assms by (simp_all add: ht_wf_def mem_contents_nth)

lemma map_eqI_Some: "(\<And>k v. m k = Some v \<longleftrightarrow> m' k = Some v) \<Longrightarrow> m = m'"
  by (rule ext) (metis option.exhaust)

lemma keys_distinct_nth:
  assumes "keys_distinct (contents es)" "i < length es" "j < length es"
    and "occupied (es ! i)" "occupied (es ! j)" "entry_key (es ! i) = entry_key (es ! j)"
  shows "i = j"
proof (rule ccontr)
  assume ne: "i \<noteq> j"
  let ?f = "(es ! i)\<lparr>entry_hash := 0\<rparr>"
  have "\<not> occupied ?f" by (simp add: occupied_def)
  then have "contents es = add_mset (es ! i) (contents (es[i := ?f]))"
    using assms by (simp add: contents_update mem_contents_nth)
  moreover have "es ! j \<in># contents (es[i := ?f])"
    using assms ne mem_contents_nth [of j "es[i := ?f]"] by simp
  ultimately show False using assms(1,6) by (metis image_eqI in_image_mset keys_distinct_add)
qed

lemma keys_distinct_list: "keys_distinct (contents es) \<longleftrightarrow> distinct (map entry_key (filter occupied es))"
proof -
  have "image_mset entry_key (contents es) = mset (map entry_key (filter occupied es))"
    by (simp add: contents_def mset_filter)
  then show ?thesis unfolding keys_distinct_def distinct_count_atmost_1
    by (auto simp: le_Suc_eq count_eq_zero_iff)
qed

lemma ht_assoc_keys: "map fst (ht_assoc t) = map entry_key (filter occupied (entries t))"
  by (simp add: ht_assoc_def entry_pair_def)

lemma ht_map_Some_iff:
  assumes "keys_distinct (contents (entries t))"
  shows "ht_map t k = Some v \<longleftrightarrow>
    (\<exists>i < length (entries t). occupied (entries t ! i) \<and> entry_key (entries t ! i) = k \<and> entry_value (entries t ! i) = v)"
proof -
  have "distinct (map fst (ht_assoc t))" using assms by (simp add: ht_assoc_keys keys_distinct_list)
  then have "ht_map t k = Some v \<longleftrightarrow> (k, v) \<in> set (ht_assoc t)"
    by (simp add: ht_map_def map_of_eq_Some_iff)
  then show ?thesis by (auto simp: ht_assoc_def entry_pair_def in_set_conv_nth image_iff)
qed

lemma ht_map_None_iff:
  "ht_map t k = None \<longleftrightarrow> (\<forall>i < length (entries t). occupied (entries t ! i) \<longrightarrow> entry_key (entries t ! i) \<noteq> k)"
  by (auto simp: ht_map_def ht_assoc_def entry_pair_def map_of_eq_None_iff in_set_conv_nth image_iff)

lemma ht_map_contents_cong:
  "keys_distinct (contents (entries t)) \<Longrightarrow> contents (entries t) = contents (entries t') \<Longrightarrow> ht_map t = ht_map t'"
  unfolding ht_map_def
  by (rule map_of_mset_cong) (simp_all add: ht_assoc_keys mset_ht_assoc flip: keys_distinct_list)

lemma ht_map_inserted:
  assumes "keys_distinct (add_mset c (contents (entries t)))"
    and "contents (entries t') = add_mset c (contents (entries t))"
  shows "ht_map t' = (ht_map t)(entry_key c \<mapsto> entry_value c)"
proof -
  have "map_of (ht_assoc t') = map_of (entry_pair c # ht_assoc t)"
  proof (rule map_of_mset_cong)
    show "distinct (map fst (ht_assoc t'))"
      using assms by (simp add: ht_assoc_keys flip: keys_distinct_list)
    show "mset (ht_assoc t') = mset (entry_pair c # ht_assoc t)" using assms(2) by (simp add: mset_ht_assoc)
  qed
  then show ?thesis by (simp add: ht_map_def entry_pair_def)
qed

lemma ht_map_None_contents: "ht_map t k = None \<longleftrightarrow> k \<notin># image_mset entry_key (contents (entries t))"
  by (auto simp: ht_map_None_iff mem_contents dest: mem_contents_nth [THEN imageI, of _ _ entry_key])

text \<open>The probe sequence of an entry \<open>s\<close> before it is reached: occupied, no closer to home.\<close>

lemma probe_path:
  assumes inv: "ht_wf valid p t" and s: "s < cap t" "occupied (entries t ! s)"
  defines "h \<equiv> home (cap t) (entries t ! s)"
  assumes e: "e < slot_dist (cap t) s h"
  defines "x \<equiv> (h + e) mod cap t"
  shows "x < cap t" "x \<noteq> s" "occupied (entries t ! x)"
    "e \<le> ht_probe_count t x (entry_hash (entries t ! x))" "sz_add x 1 mod cap t = (h + Suc e) mod cap t"
    "sz_add e 1 = Suc e"
proof -
  note i = ht_wfD [OF inv]
  show x: "x < cap t" unfolding x_def using i(1) by simp
  have h: "h < cap t" unfolding h_def home_def using i(1) by simp
  have d: "slot_dist (cap t) s h < cap t" using i(1) by simp
  show "x \<noteq> s" using slot_dist_add [OF h, of e] d e unfolding x_def by auto
  have "rank (entries t) s = Suc (slot_dist (cap t) s h)"
    using s i(5) by (simp add: rank_def h_def)
  then have "Suc e \<le> rank (entries t) x"
    using rank_on_path [of "entries t" s "slot_dist (cap t) s h" e] i(5,6) s e by (simp add: x_def h_def)
  then show "occupied (entries t ! x)" "e \<le> ht_probe_count t x (entry_hash (entries t ! x))"
    using x i(3,5) by (auto simp: rank_def ht_probe_count_eq home_def split: if_splits)
  show "sz_add x 1 mod cap t = (h + Suc e) mod cap t"
    using x i(3) by (simp add: x_def mod_Suc_eq)
  have "Suc e < size_mod" using e d i(3) by linarith
  then show "sz_add e 1 = Suc e" by simp
qed

lemma contents_take_Suc:
  assumes "i < length es"
  shows "contents (take (Suc i) es) =
    (if occupied (es ! i) then add_mset (es ! i) (contents (take i es)) else contents (take i es))"
  using assms by (simp add: contents_def take_Suc_conv_app_nth)

lemma contents_take_subset: "contents (take i es) \<subseteq># contents es"
proof -
  have "mset es = mset (take i es) + mset (drop i es)" by (metis append_take_drop_id mset_append)
  then show ?thesis by (simp add: contents_def)
qed

lemma ht_wf_fresh:
  assumes "0 < c" "c * 100 < size_mod"
  shows "ht_wf valid p (t\<lparr>cap := c, entries := ht_calloc p True c\<rparr>)"
    and "contents (ht_calloc p True c) = {#}"
proof -
  let ?es = "ht_calloc p True c"
  have free: "\<not> occupied (?es ! x)" if "x < c" for x
    using that by (simp add: ht_calloc_def ht_zero_entry_def occupied_def)
  then have r: "rank ?es x = 0" if "x < c" for x using that by (simp add: rank_0_iff)
  have len: "length ?es = c" by (simp add: ht_calloc_def)
  have "rh_inv ?es" unfolding rh_inv_def len using r assms(1) by (metis le0 mod_less_divisor)
  moreover show e: "contents ?es = {#}"
    using free len by (auto simp: contents_def filter_mset_eq_mempty_iff in_set_conv_nth)
  moreover have "\<exists>z < c. rank ?es z \<le> 1" using r [OF assms(1)] assms(1) by (intro exI [of _ 0]) simp
  ultimately show "ht_wf valid p (t\<lparr>cap := c, entries := ?es\<rparr>)"
    using assms len by (simp add: ht_wf_def keys_distinct_def)
qed

text \<open>
  The contract of \<open>A3_HT_INSERT\<close>: a full table that may not grow is left alone; otherwise the
  size goes up, the capacity doubles at the load factor, and a new key is added, while an old one keeps its value or gets the one the
  duplicate callback leaves.
\<close>

definition insert_effect :: "('k, 'v) ht \<Rightarrow> 'k \<Rightarrow> 'v \<Rightarrow> bool \<Rightarrow> ('k, 'v) ht \<Rightarrow> bool" where
  "insert_effect t k v r t' \<longleftrightarrow> ht_size t' = Suc (ht_size t) \<and>
     can_grow t' = can_grow t \<and> duplicate_cb t' = duplicate_cb t \<and>
     (case ht_map t k of
        None \<Rightarrow> r \<and> ht_map t' = (ht_map t)(k \<mapsto> v)
      | Some w \<Rightarrow>
         (case duplicate_cb t of
            None \<Rightarrow> \<not> r \<and> ht_map t' = ht_map t
          | Some cb \<Rightarrow> r = fst (cb w v) \<and> ht_map t' = (ht_map t)(k \<mapsto> snd (cb w v))))"

definition insert_spec :: "('k, 'v) ht \<Rightarrow> 'k \<Rightarrow> 'v \<Rightarrow> bool \<Rightarrow> ('k, 'v) ht \<Rightarrow> bool" where
  "insert_spec t k v r t' \<longleftrightarrow>
     (if \<not> can_grow t \<and> cap t \<le> ht_size t then \<not> r \<and> t' = t
      else insert_effect t k v r t' \<and>
        cap t' = (if can_grow t \<and> cap t * 90 \<le> ht_size t * 100 then cap t * 2 else cap t))"

lemma insert_effect_cong:
  "ht_map t = ht_map t1 \<Longrightarrow> duplicate_cb t = duplicate_cb t1 \<Longrightarrow> ht_size t = ht_size t1 \<Longrightarrow>
     can_grow t = can_grow t1 \<Longrightarrow>
     insert_effect t k v r t' \<longleftrightarrow> insert_effect t1 k v r t'"
  unfolding insert_effect_def by (simp split: option.split)

text \<open>What the insertion loop does when it meets the entry it was given, at slot \<open>s\<close>.\<close>

definition ht_duplicate :: "('k, 'v) ht \<Rightarrow> nat \<Rightarrow> 'v \<Rightarrow> bool \<times> ('k, 'v) ht" where
  "ht_duplicate t s v = (case duplicate_cb t of
       None \<Rightarrow> (False, t)
     | Some cb \<Rightarrow> (fst (cb (entry_value (entries t ! s)) v),
         t\<lparr>entries := (entries t)[s := (entries t ! s)\<lparr>entry_value := snd (cb (entry_value (entries t ! s)) v)\<rparr>]\<rparr>))"

lemma ht_value_update:
  fixes t :: "('k, 'v) ht" and w :: 'v and s :: nat
  assumes wf: "ht_wf valid p t" and s: "s < cap t" "occupied (entries t ! s)"
  defines "es \<equiv> (entries t)[s := (entries t ! s)\<lparr>entry_value := w\<rparr>]"
  shows "ht_wf valid p (t\<lparr>entries := es\<rparr>)"
    and "ht_map (t\<lparr>entries := es\<rparr>) = (ht_map t)(entry_key (entries t ! s) \<mapsto> w)"
    and "size (contents es) = size (contents (entries t))"
proof -
  note i = ht_wfD [OF wf]
  let ?e = "entries t ! s" and ?e' = "(entries t ! s)\<lparr>entry_value := w\<rparr>"
  have occ: "occupied ?e'" using s(2) by (simp add: occupied_def)
  define M where "M = contents (entries t) - {#?e#}"
  have M: "contents (entries t) = add_mset ?e M" "contents es = add_mset ?e' M"
    using s i(5) occ by (simp_all add: M_def es_def contents_update mem_contents_nth)
  have r: "rank es x = rank (entries t) x" for x
    using s(2) i(5) s(1) by (cases "x = s") (simp_all add: es_def rank_def occupied_def home_def)
  have len: "length es = cap t" using i(5) by (simp add: es_def)
  have kd: "keys_distinct (contents es)" using i(7) by (simp add: M keys_distinct_add)
  have rh: "rh_inv es" using i(6) unfolding rh_inv_def r len i(5) .
  show "ht_wf valid p (t\<lparr>entries := es\<rparr>)"
    using wf len kd rh unfolding ht_wf_def by (simp add: r M)
  show "size (contents es) = size (contents (entries t))" by (simp add: M)
  show "ht_map (t\<lparr>entries := es\<rparr>) = (ht_map t)(entry_key ?e \<mapsto> w)"
  proof (rule map_eqI_Some)
    fix k v
    show "ht_map (t\<lparr>entries := es\<rparr>) k = Some v \<longleftrightarrow> ((ht_map t)(entry_key ?e \<mapsto> w)) k = Some v"
    proof (cases "k = entry_key ?e")
      case True
      have "\<exists>i < length es. occupied (es ! i) \<and> entry_key (es ! i) = k \<and> entry_value (es ! i) = w"
        using s i(5) occ True by (intro exI [of _ s]) (simp add: es_def)
      then have "ht_map (t\<lparr>entries := es\<rparr>) k = Some w" using kd ht_map_Some_iff [of "t\<lparr>entries := es\<rparr>"] by simp
      then show ?thesis using True by auto
    next
      case False
      then have *: "x < cap t \<Longrightarrow> (occupied (es ! x) \<and> entry_key (es ! x) = k \<and> entry_value (es ! x) = v) \<longleftrightarrow>
          (occupied (entries t ! x) \<and> entry_key (entries t ! x) = k \<and> entry_value (entries t ! x) = v)" for x
        using s i(5) by (cases "x = s") (simp_all add: es_def)
      have "ht_map (t\<lparr>entries := es\<rparr>) k = Some v \<longleftrightarrow> ht_map t k = Some v"
        using kd i(7) len i(5) * by (auto simp: ht_map_Some_iff)
      then show ?thesis using False by simp
    qed
  qed
qed

lemma ht_duplicate_correct:
  assumes wf: "ht_wf valid p t" and s: "s < cap t" "occupied (entries t ! s)"
  defines "w \<equiv> entry_value (entries t ! s)" and "k \<equiv> entry_key (entries t ! s)"
  shows "ht_wf valid p (snd (ht_duplicate t s v))"
    and "ht_duplicate t s v = (r, t') \<Longrightarrow> (case duplicate_cb t of
        None \<Rightarrow> \<not> r \<and> ht_map t' = ht_map t
      | Some cb \<Rightarrow> r = fst (cb w v) \<and> ht_map t' = (ht_map t)(k \<mapsto> snd (cb w v)))"
    and "size (contents (entries (snd (ht_duplicate t s v)))) = size (contents (entries t))"
    and "ht_size (snd (ht_duplicate t s v)) = ht_size t" "cap (snd (ht_duplicate t s v)) = cap t"
    "can_grow (snd (ht_duplicate t s v)) = can_grow t"
    "duplicate_cb (snd (ht_duplicate t s v)) = duplicate_cb t"
  using ht_value_update [OF wf s] wf
  by (auto simp: ht_duplicate_def w_def k_def split: option.splits)

end
