(* ===== verification/Ht_Shift.thy ===== *)
theory Ht_Shift
  imports Ht_Inv
begin

text \<open>
  Deletion: the shifting loop of \<open>A3_HT_DELETE_INDEX\<close> ends, restores the ordering and removes
  exactly the deleted entry, also when the table is full.
\<close>

section \<open>Deletion: shifting entries back\<close>

definition freed :: "('k, 'v) ht_entry \<Rightarrow> ('k, 'v) ht_entry" where
  "freed e = e\<lparr>entry_hash := 0\<rparr>"

lemma freed_free [simp]: "\<not> occupied (freed e)"
  by (simp add: freed_def occupied_def)

text \<open>
  The state of the shifting loop: slot \<open>ei\<close> is a hole (its content no longer counts), \<open>i\<close> the
  next slot. The ordering holds everywhere but across the hole.
\<close>

definition hole_view :: "('k, 'v) ht \<Rightarrow> nat \<Rightarrow> ('k, 'v) ht_entry list" where
  "hole_view t ei = (entries t)[ei := freed (entries t ! ei)]"

definition shift_ok :: "('k, 'v) ht \<Rightarrow> nat \<Rightarrow> nat \<Rightarrow> bool" where
  "shift_ok t ei i \<longleftrightarrow>
     length (entries t) = cap t \<and> 2 * cap t < size_mod \<and> ei < cap t \<and> i = Suc ei mod cap t \<and> i \<noteq> ei \<and>
     (\<forall>x < cap t. x \<noteq> ei \<longrightarrow> rank (hole_view t ei) (Suc x mod cap t) \<le> Suc (rank (hole_view t ei) x)) \<and>
     (\<forall>y < cap t. Suc y mod cap t = ei \<longrightarrow> rank (hole_view t ei) i \<le> rank (hole_view t ei) y + 2)"

lemma slot_dist_pred:
  assumes "ei < n" "h < n" "slot_dist n (Suc ei mod n) h \<noteq> 0"
  shows "slot_dist n (Suc ei mod n) h = Suc (slot_dist n ei h)"
proof (rule slot_dist_Suc [OF assms(1,2)], rule ccontr)
  assume "\<not> Suc (slot_dist n ei h) < n"
  then have "slot_dist n ei h = n - 1" using slot_dist_lt [of n ei h] assms(1) by linarith
  then have "ei = (h + (n - 1)) mod n" using add_slot_dist [OF assms(1,2)] by simp
  then have "Suc ei mod n = h" using assms(1,2) by (simp add: mod_Suc_eq)
  then show False using assms(3) by simp
qed

lemma shift_okD:
  assumes "shift_ok t ei i"
  shows "length (entries t) = cap t" "2 * cap t < size_mod" "ei < cap t" "i = Suc ei mod cap t" "i \<noteq> ei"
    "i < cap t" "0 < cap t" "length (hole_view t ei) = cap t"
    "hole_view t ei ! i = entries t ! i" "rank (hole_view t ei) ei = 0"
    "sz_add i 1 mod cap t = Suc i mod cap t"
    "x < cap t \<Longrightarrow> x \<noteq> ei \<Longrightarrow> rank (hole_view t ei) (Suc x mod cap t) \<le> Suc (rank (hole_view t ei) x)"
    "x < cap t \<Longrightarrow> Suc x mod cap t = ei \<Longrightarrow> rank (hole_view t ei) i \<le> rank (hole_view t ei) x + 2"
proof -
  show *: "length (entries t) = cap t" "2 * cap t < size_mod" "ei < cap t" "i = Suc ei mod cap t" "i \<noteq> ei"
    "x < cap t \<Longrightarrow> x \<noteq> ei \<Longrightarrow> rank (hole_view t ei) (Suc x mod cap t) \<le> Suc (rank (hole_view t ei) x)"
    "x < cap t \<Longrightarrow> Suc x mod cap t = ei \<Longrightarrow> rank (hole_view t ei) i \<le> rank (hole_view t ei) x + 2"
    using assms unfolding shift_ok_def by blast+
  show "0 < cap t" using *(3) by linarith
  then show i: "i < cap t" using *(4) by simp
  show "length (hole_view t ei) = cap t" "hole_view t ei ! i = entries t ! i" "rank (hole_view t ei) ei = 0"
    using * i by (simp_all add: hole_view_def rank_0_iff)
  show "sz_add i 1 mod cap t = Suc i mod cap t" using i *(2) by (intro sz_add_mod_Suc) linarith+
qed

lemma shift_stop:
  assumes ok: "shift_ok t ei i" and le: "rank (hole_view t ei) i \<le> 1"
  shows "ht_shift_loop t ei i = ret (t\<lparr>entries := hole_view t ei\<rparr>)" and "rh_inv (hole_view t ei)"
proof -
  note s = shift_okD [OF ok]
  have "\<not> (entry_hash (entries t ! i) \<noteq> 0 \<and> ht_probe_count t i (entry_hash (entries t ! i)) \<noteq> 0)"
    using le s(2,6,8,9) by (auto simp: rank_def occupied_def ht_probe_count_eq home_def split: if_splits)
  then show "ht_shift_loop t ei i = ret (t\<lparr>entries := hole_view t ei\<rparr>)"
    using s(1,3,6) by (subst ht_shift_loop.simps) (auto simp: hole_view_def freed_def)
  show "rh_inv (hole_view t ei)"
    unfolding rh_inv_def s(8)
  proof (intro allI impI)
    fix x assume "x < cap t"
    then show "rank (hole_view t ei) (Suc x mod cap t) \<le> Suc (rank (hole_view t ei) x)"
      using s(12) [of x] le s(4,10) by (cases "x = ei") simp_all
  qed
qed

lemma shift_move:
  assumes ok: "shift_ok t ei i" and gt: "1 < rank (hole_view t ei) i"
  defines "t' \<equiv> t\<lparr>entries := (entries t)[ei := entries t ! i]\<rparr>"
  shows "ht_shift_loop t ei i = ht_shift_loop t' i (Suc i mod cap t)"
    and "shift_ok t' i (Suc i mod cap t)"
    and "contents (hole_view t' i) = contents (hole_view t ei)"
    and "rank (hole_view t' i) ei = rank (hole_view t ei) i - 1"
    and "z \<noteq> ei \<Longrightarrow> z \<noteq> i \<Longrightarrow> rank (hole_view t' i) z = rank (hole_view t ei) z"
proof -
  note s = shift_okD [OF ok]
  let ?V = "hole_view t ei" and ?V' = "hole_view t' i" and ?e = "entries t ! i" and ?i = "Suc i mod cap t"
  have t': "entries t' = (entries t)[ei := ?e]" "cap t' = cap t" by (simp_all add: t'_def)
  have V': "?V' = ?V[ei := ?e, i := freed ?e]"
    using s(5) t' by (simp add: hole_view_def list_update_swap)
  have occ: "occupied ?e" using gt s(9) by (simp add: rank_def split: if_splits)
  have dist: "rank ?V i = Suc (slot_dist (cap t) i (home (cap t) ?e))"
    using gt s(8,9) by (simp add: rank_def split: if_splits)
  have h: "home (cap t) ?e < cap t" using s(7) by (simp add: home_def)
  have step: "slot_dist (cap t) i (home (cap t) ?e) = Suc (slot_dist (cap t) ei (home (cap t) ?e))"
    using slot_dist_pred [OF s(3) h] gt dist s(4) by simp
  have "entry_hash ?e \<noteq> 0 \<and> ht_probe_count t i (entry_hash ?e) \<noteq> 0"
    using occ step s(2,6) by (simp add: occupied_def ht_probe_count_eq home_def)
  then show "ht_shift_loop t ei i = ht_shift_loop t' i ?i"
    using s(1,3,6,11) by (subst ht_shift_loop.simps) (auto simp: t'_def)
  show r_ei: "rank ?V' ei = rank ?V i - 1"
    using s(3,5,8) occ dist step by (simp add: V' rank_def)
  show r_z: "rank ?V' z = rank ?V z" if "z \<noteq> ei" "z \<noteq> i" for z
    using that by (simp add: V')
  have r_i: "rank ?V' i = 0" using s(6,8) by (simp add: V' rank_0_iff)
  have pred: "x = ei" if "x < cap t" "Suc x mod cap t = i" for x
    using Suc_mod_inj [OF that(1) s(3)] that(2) s(4) by simp
  show "contents ?V' = contents ?V"
    using s(3,5,6,8,9) occ rank_0_iff [of ?V ei] s(10)
    by (simp add: V' contents_update contents_update_empty mem_contents_nth)
  have A: "rank ?V' (Suc x mod cap t) \<le> Suc (rank ?V' x)" if x: "x < cap t" "x \<noteq> i" for x
  proof (cases "x = ei")
    case True
    then show ?thesis using r_i s(4) by simp
  next
    case ne: False
    have "Suc x mod cap t \<noteq> i" using pred x ne by blast
    then show ?thesis
      using r_z [OF ne x(2)] r_z [of "Suc x mod cap t"] r_ei s(12) [OF x(1) ne] s(13) [OF x(1)]
      by (cases "Suc x mod cap t = ei") auto
  qed
  have B: "rank ?V' ?i \<le> rank ?V' y + 2" if y: "y < cap t" "Suc y mod cap t = i" for y
  proof (cases "?i = ei")
    case True
    then show ?thesis using pred [OF y] by simp
  next
    case False
    have "?i \<noteq> i" using pred [of i] s(5,6) by blast
    then show ?thesis
      using r_z [OF False] r_ei pred [OF y] s(12) [of i] s(5,6) gt by simp
  qed
  have "?i \<noteq> i" using pred [of i] s(5,6) by blast
  then show "shift_ok t' i ?i"
    unfolding shift_ok_def t'(2) using A B s(1,2,6) t'(1) by simp
qed

lemma shift_loop_correct:
  assumes "shift_ok t ei i" and "z < cap t" "z \<noteq> ei" "rank (hole_view t ei) z \<le> 1"
    and "slot_dist (cap t) z i = d"
  shows "\<exists>es. ht_shift_loop t ei i = ret (t\<lparr>entries := es\<rparr>) \<and> length es = cap t \<and> rh_inv es \<and>
    contents es = contents (hole_view t ei) \<and> (\<exists>z < cap t. rank es z \<le> 1)"
  using assms
proof (induction d arbitrary: t ei i)
  case (0 t ei i)
  note s = shift_okD [OF 0(1)]
  have "z = i" using 0(2,5) s(6) slot_dist_eq_0 [of z "cap t" i] by simp
  then show ?case using shift_stop [OF 0(1)] 0 s(8) by auto
next
  case (Suc d t ei i)
  note s = shift_okD [OF Suc.prems(1)]
  show ?case
  proof (cases "rank (hole_view t ei) i \<le> 1")
    case True
    then show ?thesis using shift_stop [OF Suc.prems(1)] Suc.prems(2,4) s(8) by auto
  next
    case False
    then have gt: "1 < rank (hole_view t ei) i" by simp
    note m = shift_move [OF Suc.prems(1) gt]
    have "z \<noteq> i" using gt Suc.prems(4) by auto
    moreover have "slot_dist (cap t) z (Suc i mod cap t) = d"
      using slot_dist_towards [OF s(6) Suc.prems(2,5)] .
    ultimately show ?thesis using Suc.IH [OF m(2)] m(1,3) m(5) [of z] Suc.prems(2,3,4) by auto
  qed
qed

lemma ht_map_removed:
  assumes kd: "keys_distinct (contents (entries t))"
    and C: "contents (entries t) = add_mset e (contents (entries t'))"
  shows "ht_map t' = (ht_map t)(entry_key e := None)"
proof -
  have "ht_map t' (entry_key e) = None"
    using kd C by (simp add: ht_map_None_contents keys_distinct_add)
  moreover have "ht_map t = (ht_map t')(entry_key e \<mapsto> entry_value e)"
    using kd C by (intro ht_map_inserted) simp_all
  ultimately show ?thesis by (simp add: fun_upd_idem)
qed

text \<open>The loop as \<open>A3_HT_DELETE_INDEX\<close> starts it: slot \<open>s\<close> of a well-formed table freed.\<close>

lemma shift_start:
  assumes wf: "ht_wf valid p t" and s: "s < cap t" "occupied (entries t ! s)" and n: "1 < cap t"
  defines "t1 \<equiv> t\<lparr>entries := (entries t)[s := freed (entries t ! s)]\<rparr>"
  shows "hole_view t1 s = entries t1" "shift_ok t1 s (Suc s mod cap t)"
    "z \<noteq> s \<Longrightarrow> rank (entries t1) z = rank (entries t) z"
proof -
  note i = ht_wfD [OF wf]
  let ?i = "Suc s mod cap t"
  have f: "freed (freed e) = freed e" for e :: "('a, 'b) ht_entry" by (simp add: freed_def)
  show hv: "hole_view t1 s = entries t1" using s i(5) by (simp add: hole_view_def t1_def f)
  show r: "rank (entries t1) z = rank (entries t) z" if "z \<noteq> s" for z using that by (simp add: t1_def)
  have rs: "rank (entries t1) s = 0" using s i(5) by (simp add: t1_def rank_0_iff)
  have le: "rank (entries t) (Suc x mod cap t) \<le> Suc (rank (entries t) x)" if "x < cap t" for x
    using rh_invD [OF i(6)] i(5) that by simp
  have si: "?i \<noteq> s" using n s(1) by (auto simp: mod_Suc split: if_splits)
  have A: "rank (entries t1) (Suc x mod cap t) \<le> Suc (rank (entries t1) x)" if "x < cap t" "x \<noteq> s" for x
    using le [OF that(1)] r [OF that(2)] r [of "Suc x mod cap t"] rs
    by (cases "Suc x mod cap t = s") simp_all
  have B: "rank (entries t1) ?i \<le> rank (entries t1) y + 2" if y: "y < cap t" "Suc y mod cap t = s" for y
  proof -
    have "y \<noteq> s" using y si by auto
    then show ?thesis using le [OF y(1)] le [OF s(1)] y(2) r [of y] r [OF si] by simp
  qed
  have "length (entries t1) = cap t1" "cap t1 = cap t" using i(5) by (simp_all add: t1_def)
  then show "shift_ok t1 s ?i"
    unfolding shift_ok_def hv using A B si s(1) i(3) by simp
qed

lemma shift_from_start:
  assumes wf: "ht_wf valid p t" and s: "s < cap t" "occupied (entries t ! s)"
  defines "t1 \<equiv> t\<lparr>entries := (entries t)[s := freed (entries t ! s)]\<rparr>"
  shows "\<exists>es. ht_shift_loop t1 s (Suc s mod cap t) = ret (t\<lparr>entries := es\<rparr>) \<and> length es = cap t \<and>
    rh_inv es \<and> contents es = contents (entries t1) \<and> (\<exists>z < cap t. rank es z \<le> 1)"
proof (cases "cap t = 1")
  case True
  then have "s = 0" "length (entries t) = 1" using s ht_wfD(5) [OF wf] by simp_all
  moreover from this have "ht_shift_loop t1 s (Suc s mod cap t) = ret t1"
    using True by (subst ht_shift_loop.simps) (simp add: t1_def freed_def)
  ultimately show ?thesis using True
    by (intro exI [of _ "entries t1"]) (simp add: t1_def rh_inv_def rank_def)
next
  case False
  then have n: "1 < cap t" using ht_wfD(1) [OF wf] by simp
  let ?i = "Suc s mod cap t"
  note st = shift_start [OF wf s n, folded t1_def]
  note o = shift_okD [OF st(2)]
  have cap: "cap t1 = cap t" and upd: "t1\<lparr>entries := es\<rparr> = t\<lparr>entries := es\<rparr>" for es by (simp_all add: t1_def)
  show ?thesis
  proof (cases "\<exists>z < cap t. z \<noteq> s \<and> rank (entries t) z \<le> 1")
    case True
    then obtain z where "z < cap t" "z \<noteq> s" "rank (entries t) z \<le> 1" by blast
    then show ?thesis using shift_loop_correct [OF st(2), of z] st(1,3) cap upd by auto
  next
    case False
    have i: "?i < cap t" "?i \<noteq> s" using o(5,6) cap by simp_all
    have "rank (entries t) s \<le> 1" using False ht_wfD(8) [OF wf] by blast
    moreover have "rank (entries t) ?i \<le> Suc (rank (entries t) s)"
      using rh_invD [OF ht_wfD(6) [OF wf], of s] s(1) ht_wfD(5) [OF wf] by simp
    moreover have "1 < rank (entries t) ?i" using False i by (metis linorder_not_le)
    ultimately have r: "rank (hole_view t1 s) ?i = 2" using st(1) st(3) [OF i(2)] by simp
    then have gt: "1 < rank (hole_view t1 s) ?i" by simp
    note m = shift_move [OF st(2) gt]
    show ?thesis
      using shift_loop_correct [OF m(2), of s] m(1,3,4) r s(1) i(2) st(1) cap upd by auto
  qed
qed

lemma delete_index_correct:
  assumes inv: "ht_inv valid p t" and s: "s < cap t" "occupied (entries t ! s)"
  shows "\<exists>t'. ht_delete_index t s = ret (True, t') \<and> ht_inv valid p t' \<and>
    ht_map t' = (ht_map t)(entry_key (entries t ! s) := None) \<and>
    ht_size t' = ht_size t - 1 \<and> cap t' = cap t \<and> can_grow t' = can_grow t \<and> duplicate_cb t' = duplicate_cb t \<and>
    hash_key t' = hash_key t \<and> contents (entries t) = add_mset (entries t ! s) (contents (entries t'))"
proof -
  have wf: "ht_wf valid p t" using inv by (simp add: ht_inv_def)
  note i = ht_wfD [OF wf]
  let ?e = "entries t ! s" and ?t = "t\<lparr>ht_size := ht_size t - 1\<rparr>"
  obtain es where es: "ht_shift_loop (?t\<lparr>entries := (entries t)[s := freed ?e]\<rparr>) s (Suc s mod cap t)
      = ret (?t\<lparr>entries := es\<rparr>)" "length es = cap t" "rh_inv es"
      "contents es = contents ((entries t)[s := freed ?e])" "\<exists>z < cap t. rank es z \<le> 1"
    using shift_from_start [of valid p ?t s] wf s by auto
  have C: "contents (entries t) = add_mset ?e (contents es)"
    using s i(5) by (simp add: es(4) contents_update mem_contents_nth)
  let ?t' = "?t\<lparr>entries := es\<rparr>"
  have sz: "0 < ht_size t" "ht_size t < size_mod" using inv C i(3) by (auto simp: ht_inv_def)
  have swap: "t\<lparr>entries := x, ht_size := n\<rparr> = t\<lparr>ht_size := n, entries := x\<rparr>" for x n by simp
  have "entries t \<noteq> []" using i(1,5) by auto
  then have "ht_delete_index t s = ret (True, ?t')"
    using s i(1,5) es(1) sz sz_add_mod_Suc [OF s(1)] i(3)
    by (simp add: ht_delete_index_def freed_def swap)
  moreover have "ht_map ?t' = (ht_map t)(entry_key ?e := None)"
    using ht_map_removed [OF i(7), of ?e ?t'] C by simp
  moreover have "keys_distinct (contents es)" using i(7) C by (simp add: keys_distinct_add)
  then have "ht_inv valid p ?t'"
    using inv es i C by (auto simp: ht_inv_def ht_wf_def)
  ultimately show ?thesis using C by (intro exI [of _ ?t']) simp
qed

section \<open>Free slots stay free\<close>

lemma shift_loop_free:
  assumes "ht_shift_loop t ei i = ret t'" "\<not> occupied (entries t ! x)" "x \<noteq> ei" "x < length (entries t)"
  shows "\<not> occupied (entries t' ! x)"
proof -
  have "\<forall>u. r = Inr u \<longrightarrow> \<not> occupied (entries t ! x) \<longrightarrow> x \<noteq> ei \<longrightarrow> x < length (entries t) \<longrightarrow> \<not> occupied (entries u ! x)"
    if "ht_shift_loop t ei i = Some r" for r
  proof (rule ht_shift_loop.raw_induct [of "\<lambda>t ei i r. \<forall>u. r = Inr u \<longrightarrow> \<not> occupied (entries t ! x) \<longrightarrow> x \<noteq> ei \<longrightarrow>
        x < length (entries t) \<longrightarrow> \<not> occupied (entries u ! x)", OF _ that])
    fix rec t ei i r
    assume ih: "\<And>t ei i y. rec t ei i = Some y \<Longrightarrow> \<forall>u. y = Inr u \<longrightarrow> \<not> occupied (entries t ! x) \<longrightarrow> x \<noteq> ei \<longrightarrow>
        x < length (entries t) \<longrightarrow> \<not> occupied (entries u ! x)"
      and run: "bind_run (array_get (entries t) ei) (\<lambda>e. bind_run (array_get (entries t) i) (\<lambda>e'.
        if entry_hash e' \<noteq> 0 \<and> ht_probe_count t i (entry_hash e') \<noteq> 0
        then rec (t\<lparr>entries := (entries t)[ei := e']\<rparr>) i (sz_add i 1 mod cap t)
        else ret (t\<lparr>entries := (entries t)[ei := e\<lparr>entry_hash := 0\<rparr>]\<rparr>))) = Some r"
    show "\<forall>u. r = Inr u \<longrightarrow> \<not> occupied (entries t ! x) \<longrightarrow> x \<noteq> ei \<longrightarrow> x < length (entries t) \<longrightarrow> \<not> occupied (entries u ! x)"
    proof (intro allI impI)
      fix u assume u: "r = Inr u" "\<not> occupied (entries t ! x)" "x \<noteq> ei" "x < length (entries t)"
      show "\<not> occupied (entries u ! x)"
      proof (cases "ei < length (entries t) \<and> i < length (entries t)")
        case True
        show ?thesis
        proof (cases "entry_hash (entries t ! i) \<noteq> 0 \<and> ht_probe_count t i (entry_hash (entries t ! i)) \<noteq> 0")
          case move: True
          then have "x \<noteq> i" using u(2) by (auto simp: occupied_def)
          then show ?thesis using ih [of "t\<lparr>entries := (entries t)[ei := entries t ! i]\<rparr>" i "sz_add i 1 mod cap t" r] run True move u by simp
        next
          case False
          then show ?thesis using run True u by auto
        qed
      qed (use run u(1) in \<open>auto simp: array_get_def split: if_splits\<close>)
    qed
  qed
  from this [of "Inr t'"] show ?thesis using assms by simp
qed

lemma delete_index_free:
  assumes del: "ht_delete_index t s = ret (True, t')" and s: "occupied (entries t ! s)" "s < length (entries t)"
    and x: "\<not> occupied (entries t ! x)" "x < length (entries t)"
  shows "\<not> occupied (entries t' ! x)"
proof -
  let ?t = "t\<lparr>entries := (entries t)[s := (entries t ! s)\<lparr>entry_hash := 0\<rparr>], ht_size := sz_sub (ht_size t) 1\<rparr>"
  have "x \<noteq> s" "entries t \<noteq> []" using s x by auto
  moreover have "ht_shift_loop ?t s (sz_add s 1 mod cap t) = ret t'"
    using del s(2) by (auto simp: ht_delete_index_def run_simps split: if_splits)
  ultimately show ?thesis using shift_loop_free [of ?t s _ t' x] x by simp
qed

end
