(* ===== verification/Ht_Map.thy ===== *)
theory Ht_Map
  imports Ht_Shift
begin

text \<open>
  The table as a partial map: the comparator contract as a locale, and inside it the
  correctness of lookup, insertion, resizing and deletion; then iteration and initialisation.
\<close>

section \<open>The comparator contract\<close>

text \<open>
  The contract of the comparator \<open>C\<close> that the table relies on: on the keys in use it is zero
  exactly on equal keys.
\<close>

locale ht_keys =
  fixes p :: "('k, 'v) ht_params" and valid :: "'k \<Rightarrow> bool"
  assumes comparator_zero: "valid a \<Longrightarrow> valid b \<Longrightarrow> comparator p a b = 0 \<longleftrightarrow> a = b"
begin

lemma carry_no_match:
  assumes ok: "carry_ok valid t i pc c" and occ: "occupied (entries t ! i)"
  shows "comparator p (entry_key c) (entry_key (entries t ! i)) \<noteq> 0"
proof -
  have e: "entries t ! i \<in># contents (entries t)"
    using ok occ by (simp add: carry_ok_def mem_contents_nth)
  then have "entry_key (entries t ! i) \<in># image_mset entry_key (contents (entries t))" by simp
  moreover have "entry_key c \<notin># image_mset entry_key (contents (entries t))"
    using ok unfolding carry_ok_def keys_distinct_add by blast
  ultimately have "entry_key (entries t ! i) \<noteq> entry_key c" by metis
  then show ?thesis using comparator_zero ok e by (simp add: carry_ok_def)
qed

lemma insert_loop_fresh:
  assumes "carry_ok valid t i pc c" and "j < cap t" "rank (entries t) j = 0"
    and "slot_dist (cap t) j i = d"
  shows "\<exists>es'. insert_loop_of p t i pc c = ret (True, t\<lparr>entries := es'\<rparr>) \<and> inserted (entries t) c es'"
  using assms
proof (induction d arbitrary: t i pc c)
  case (0 t i pc c)
  then have "i = j" using slot_dist_eq_0 [of j "cap t" i] by (simp add: carry_ok_def)
  then have "\<not> occupied (entries t ! i)" using 0 by (simp add: rank_0_iff)
  then show ?case using carry_free [OF 0(1)] by blast
next
  case (Suc d t i pc c)
  note ok = Suc.prems(1) and j = Suc.prems(2,3)
  let ?e = "entries t ! i" and ?i = "Suc i mod cap t"
  let ?P = "slot_dist (cap t) i (home (cap t) ?e)" and ?t = "t\<lparr>entries := (entries t)[i := c]\<rparr>"
  show ?case
  proof (cases "occupied ?e")
    case False
    then show ?thesis using carry_free [OF ok] by blast
  next
    case occ: True
    have ij: "i \<noteq> j" using occ j by (auto simp: rank_0_iff)
    have i: "i < length (entries t)" "i < cap t" "cap t < size_mod" using ok by (auto simp: carry_ok_def)
    have d: "slot_dist (cap t) j ?i = d" using Suc.prems(4) i j by (intro slot_dist_towards)
    note o = carry_occupied [OF ok occ j]
    have unfold: "insert_loop_of p t i pc c =
        (if ?P < pc then insert_loop_of p ?t ?i (Suc ?P) ?e else insert_loop_of p t ?i (Suc pc) c)"
      using occ carry_no_match [OF ok occ] o carry_next(3) [OF ok] i
      by (subst ht_insert_loop.simps) (simp add: occupied_def)
    show ?thesis
    proof (cases "?P < pc")
      case True
      have "rank (entries ?t) j = 0" using ij j by simp
      then show ?thesis
        using Suc.IH [OF carry_swap(1) [OF ok occ j True]] carry_swap(2) [OF ok occ j True] j d unfold True
        by (auto simp: inserted_def)
    next
      case False
      then show ?thesis using Suc.IH [OF carry_move [OF ok occ j]] j d unfold by auto
    qed
  qed
qed


lemma match_iff:
  assumes "ht_wf valid p t" "valid k" "i < cap t" "occupied (entries t ! i)"
  shows "ht_hash p t k = entry_hash (entries t ! i) \<and> comparator p k (entry_key (entries t ! i)) = 0
    \<longleftrightarrow> entry_key (entries t ! i) = k"
  using comparator_zero [of k "entry_key (entries t ! i)"] ht_wf_entry [OF assms(1,3,4)] assms(2) by auto

lemma find_loop_present:
  assumes inv: "ht_wf valid p t" and k: "valid k"
    and s: "s < cap t" "occupied (entries t ! s)" "entry_key (entries t ! s) = k"
    and e: "e \<le> slot_dist (cap t) s (home (cap t) (entries t ! s))"
  shows "ht_find_loop p t ((home (cap t) (entries t ! s) + e) mod cap t) e (ht_hash p t k) k = ret (ssize_of s)"
  using e
proof (induction rule: inc_induct)
  case base
  have "home (cap t) (entries t ! s) < cap t" using ht_wfD(1) [OF inv] by (simp add: home_def)
  then show ?case
    using s ht_wfD [OF inv] match_iff [OF inv k s(1,2)]
    by (subst ht_find_loop.simps) (simp add: add_slot_dist occupied_def ht_probe_count_eq home_def)
next
  case (step e)
  note P = probe_path [OF inv s(1,2) step.hyps(2)]
  let ?x = "(home (cap t) (entries t ! s) + e) mod cap t"
  have "entry_key (entries t ! ?x) \<noteq> k"
    using keys_distinct_nth [of "entries t" ?x s] P(1-3) s ht_wfD(5,7) [OF inv] by auto
  then have "\<not> (ht_hash p t k = entry_hash (entries t ! ?x) \<and> comparator p k (entry_key (entries t ! ?x)) = 0)"
    using match_iff [OF inv k P(1,3)] by blast
  then show ?case using P step.IH ht_wfD(5) [OF inv]
    by (subst ht_find_loop.simps) (auto simp: occupied_def)
qed


lemma find_loop_absent:
  assumes inv: "ht_wf valid p t" and k: "valid k" and absent: "ht_map t k = None"
    and h: "h0 < cap t" and pc: "pc \<le> cap t"
  shows "ht_find_loop p t ((h0 + pc) mod cap t) pc (ht_hash p t k) k = ret (- 1)"
  using pc
proof (induction rule: inc_induct)
  case base
  let ?x = "(h0 + cap t) mod cap t"
  note i = ht_wfD [OF inv]
  have x: "?x < cap t" using i(1) by simp
  then have "occupied (entries t ! ?x) \<Longrightarrow> ht_probe_count t ?x (entry_hash (entries t ! ?x)) < cap t"
    using i(1,3) by (simp add: ht_probe_count_eq)
  then show ?case using i(5) x by (subst ht_find_loop.simps) (auto simp: occupied_def)
next
  case (step pc)
  let ?x = "(h0 + pc) mod cap t"
  note i = ht_wfD [OF inv]
  have x: "?x < cap t" using i(1) by simp
  have "occupied (entries t ! ?x) \<Longrightarrow>
      \<not> (ht_hash p t k = entry_hash (entries t ! ?x) \<and> comparator p k (entry_key (entries t ! ?x)) = 0)"
    using match_iff [OF inv k x] absent x i(5) by (auto simp: ht_map_None_iff)
  moreover have "sz_add pc 1 = Suc pc" "sz_add ?x 1 mod cap t = (h0 + Suc pc) mod cap t"
    using step.hyps i(3) sz_add_mod_Suc [OF x] by (simp_all add: mod_Suc_eq)
  ultimately show ?case using step.IH x i(5)
    by (subst ht_find_loop.simps) (auto simp: occupied_def)
qed

lemma find_index_correct:
  assumes inv: "ht_wf valid p t" and k: "valid k"
  shows "(\<exists>s. ht_find_index p t k = ret (int s) \<and> s < cap t \<and> occupied (entries t ! s) \<and>
            entry_key (entries t ! s) = k \<and> ht_map t k = Some (entry_value (entries t ! s)))
       \<or> ht_find_index p t k = ret (- 1) \<and> ht_map t k = None"
proof (cases "ht_map t k")
  case None
  have h: "unat (ht_hash p t k) mod cap t < cap t" using ht_wfD(1) [OF inv] by simp
  show ?thesis using find_loop_absent [OF inv k None h, of 0] None ht_wfD(1) [OF inv] by (simp add: ht_find_index_def)
next
  case (Some v)
  then obtain s where s: "s < cap t" "occupied (entries t ! s)" "entry_key (entries t ! s) = k"
      "entry_value (entries t ! s) = v"
    using ht_map_Some_iff [OF ht_wfD(7) [OF inv]] ht_wfD(5) [OF inv] by auto
  have "ht_find_index p t k = ret (ssize_of s)"
    using find_loop_present [OF inv k s(1-3), of 0] ht_wf_entry(2) [OF inv s(1,2)] s(3) ht_wfD(1) [OF inv]
    by (simp add: ht_find_index_def home_def)
  moreover have "ssize_of s = int s" using s(1) ht_wfD(4) [OF inv] by (simp add: ssize_of_def)
  ultimately show ?thesis using s Some by auto
qed

lemma find_correct:
  assumes "ht_wf valid p t" "valid k"
  shows "ht_find p t k = ret (ht_map t k)"
  using find_index_correct [OF assms] ht_wfD(5) [OF assms(1)]
  by (auto simp: ht_find_def ht_find_entry_def)


lemma carry_start:
  assumes wf: "ht_wf valid p t" and k: "valid k" and absent: "ht_map t k = None"
  shows "carry_ok valid t (unat (ht_hash p t k) mod cap t) 0
    \<lparr>entry_key = k, entry_value = v, entry_hash = ht_hash p t k\<rparr>"
proof -
  note i = ht_wfD [OF wf]
  have "k \<notin># image_mset entry_key (contents (entries t))"
    using absent by (auto simp: ht_map_None_iff mem_contents)
  then show ?thesis using i wf k
    by (auto simp: carry_ok_def occupied_def home_def keys_distinct_add ht_wf_def)
qed

lemma insert_at_fresh:
  assumes wf: "ht_wf valid p t" and k: "valid k" and absent: "ht_map t k = None"
    and room: "size (contents (entries t)) < cap t"
  shows "\<exists>es. ht_insert_at p t (ht_hash p t k) k v = ret (True, t\<lparr>entries := es\<rparr>) \<and>
    ht_wf valid p (t\<lparr>entries := es\<rparr>) \<and> ht_map (t\<lparr>entries := es\<rparr>) = (ht_map t)(k \<mapsto> v) \<and>
    contents es = add_mset \<lparr>entry_key = k, entry_value = v, entry_hash = ht_hash p t k\<rparr> (contents (entries t))"
proof -
  let ?c = "\<lparr>entry_key = k, entry_value = v, entry_hash = ht_hash p t k\<rparr>"
  note i = ht_wfD [OF wf]
  note start = carry_start [OF wf k absent, of v]
  obtain j where "j < cap t" "rank (entries t) j = 0"
    using contents_lt_free [of "entries t"] room i(5) by auto
  then obtain es where es: "ht_insert_loop p t (unat (ht_hash p t k) mod cap t) 0 (ht_hash p t k) k v
      = ret (True, t\<lparr>entries := es\<rparr>)" "inserted (entries t) ?c es"
    using insert_loop_fresh [OF start, of j] by auto
  have kd: "keys_distinct (add_mset ?c (contents (entries t)))" using start by (simp add: carry_ok_def)
  have "ht_wf valid p (t\<lparr>entries := es\<rparr>)"
    using es(2) i wf k kd by (auto simp: inserted_def ht_wf_def)
  moreover have "ht_map (t\<lparr>entries := es\<rparr>) = (ht_map t)(k \<mapsto> v)"
    using ht_map_inserted [OF kd, of "t\<lparr>entries := es\<rparr>"] es(2) by (simp add: inserted_def)
  moreover have "ht_insert_at p t (ht_hash p t k) k v = ret (True, t\<lparr>entries := es\<rparr>)"
    using es(1) i(1) by (simp add: ht_insert_at_def)
  ultimately show ?thesis using es(2) by (auto simp: inserted_def)
qed


lemma insert_loop_present:
  assumes wf: "ht_wf valid p t" and k: "valid k"
    and s: "s < cap t" "occupied (entries t ! s)" "entry_key (entries t ! s) = k"
    and e: "e \<le> slot_dist (cap t) s (home (cap t) (entries t ! s))"
  shows "ht_insert_loop p t ((home (cap t) (entries t ! s) + e) mod cap t) e (ht_hash p t k) k v
    = ret (ht_duplicate t s v)"
  using e
proof (induction rule: inc_induct)
  case base
  have "home (cap t) (entries t ! s) < cap t" using ht_wfD(1) [OF wf] by (simp add: home_def)
  then show ?case
    using s ht_wfD [OF wf] match_iff [OF wf k s(1,2)]
    by (subst ht_insert_loop.simps)
      (simp add: add_slot_dist occupied_def ht_duplicate_def split: option.split prod.split)
next
  case (step e)
  note P = probe_path [OF wf s(1,2) step.hyps(2)]
  let ?x = "(home (cap t) (entries t ! s) + e) mod cap t"
  have "entry_key (entries t ! ?x) \<noteq> k"
    using keys_distinct_nth [of "entries t" ?x s] P(1-3) s ht_wfD(5,7) [OF wf] by auto
  then have "\<not> (ht_hash p t k = entry_hash (entries t ! ?x) \<and> comparator p k (entry_key (entries t ! ?x)) = 0)"
    using match_iff [OF wf k P(1,3)] by blast
  then show ?case using P step.IH ht_wfD(5) [OF wf]
    by (subst ht_insert_loop.simps) (auto simp: occupied_def)
qed

lemma insert_at_present:
  assumes wf: "ht_wf valid p t" and k: "valid k"
    and s: "s < cap t" "occupied (entries t ! s)" "entry_key (entries t ! s) = k"
  shows "ht_insert_at p t (ht_hash p t k) k v = ret (ht_duplicate t s v)"
  using insert_loop_present [OF assms, of 0 v] ht_wf_entry(2) [OF wf s(1,2)] s(3) ht_wfD(1) [OF wf]
  by (simp add: ht_insert_at_def home_def)


lemma rehash_step:
  assumes wf0: "ht_wf valid p t0" and i: "i < cap t0"
    and wf: "ht_wf valid p t" and big: "cap t0 < cap t" and key: "hash_key t = hash_key t0"
    and C: "contents (entries t) = contents (take i (entries t0))"
  shows "\<exists>es. ht_rehash_step p (entries t0) i t = ret (t\<lparr>entries := es\<rparr>) \<and>
    ht_wf valid p (t\<lparr>entries := es\<rparr>) \<and> contents es = contents (take (Suc i) (entries t0))"
proof -
  let ?e = "entries t0 ! i"
  have len: "length (entries t0) = cap t0" using ht_wfD(5) [OF wf0] .
  have T: "contents (take (Suc i) (entries t0)) =
      (if occupied ?e then add_mset ?e (contents (entries t)) else contents (entries t))"
    using contents_take_Suc [of i "entries t0"] i len C by simp
  show ?thesis
  proof (cases "occupied ?e")
    case False
    then show ?thesis using wf T i len
      by (intro exI [of _ "entries t"]) (simp add: ht_rehash_step_def occupied_def)
  next
    case True
    have hash: "ht_hash p t = ht_hash p t0" using key by (simp add: fun_eq_iff ht_hash_def)
    have e: "valid (entry_key ?e)" "entry_hash ?e = ht_hash p t (entry_key ?e)"
      using ht_wf_entry [OF wf0 i True] hash by simp_all
    have "keys_distinct (add_mset ?e (contents (entries t)))"
      using keys_distinct_mono [OF ht_wfD(7) [OF wf0] contents_take_subset [of "Suc i"]] T True by simp
    then have absent: "ht_map t (entry_key ?e) = None"
      unfolding ht_map_None_contents keys_distinct_add by blast
    have "size (contents (take i (entries t0))) \<le> i" using size_contents_le [of "take i (entries t0)"] by simp
    then have "size (contents (entries t)) < cap t" using C i big by simp
    then show ?thesis
      using insert_at_fresh [OF wf e(1) absent, of "entry_value ?e"] e(2) True T i len
      by (auto simp: ht_rehash_step_def occupied_def)
  qed
qed

lemma resize_correct:
  assumes wf: "ht_wf valid p t" and c: "cap t < c" "c * 100 < size_mod"
  shows "\<exists>es. ht_resize p True t c = ret (t\<lparr>cap := c, entries := es\<rparr>) \<and>
    ht_wf valid p (t\<lparr>cap := c, entries := es\<rparr>) \<and> ht_map (t\<lparr>cap := c, entries := es\<rparr>) = ht_map t \<and>
    contents es = contents (entries t)"
proof -
  let ?P = "\<lambda>i t'. \<exists>es. t' = t\<lparr>cap := c, entries := es\<rparr> \<and> ht_wf valid p t' \<and>
      contents es = contents (take i (entries t))"
  have "\<exists>t'. for_run [0..<cap t] (ht_rehash_step p (entries t))
      (t\<lparr>cap := c, entries := ht_calloc p True c\<rparr>) = ret t' \<and> ?P (cap t) t'"
  proof (rule for_run_upt_rule [where P = ?P])
    show "?P 0 (t\<lparr>cap := c, entries := ht_calloc p True c\<rparr>)"
      using c by (intro exI [of _ "ht_calloc p True c"]) (simp add: ht_wf_fresh contents_def [of "[]"])
  next
    fix i t1 assume i: "i < cap t" and "?P i t1"
    then obtain es where "t1 = t\<lparr>cap := c, entries := es\<rparr>" "ht_wf valid p t1"
      "contents es = contents (take i (entries t))" by blast
    then show "\<exists>t2. ht_rehash_step p (entries t) i t1 = ret t2 \<and> ?P (Suc i) t2"
      using rehash_step [OF wf i, of t1] c by fastforce
  qed simp
  then obtain es where *: "for_run [0..<cap t] (ht_rehash_step p (entries t))
      (t\<lparr>cap := c, entries := ht_calloc p True c\<rparr>) = ret (t\<lparr>cap := c, entries := es\<rparr>)"
    "ht_wf valid p (t\<lparr>cap := c, entries := es\<rparr>)" "contents es = contents (entries t)"
    using ht_wfD(5) [OF wf] by auto
  moreover have "ht_map (t\<lparr>cap := c, entries := es\<rparr>) = ht_map t"
    using ht_map_contents_cong [of "t\<lparr>cap := c, entries := es\<rparr>" t] ht_wfD(7) [OF *(2)] *(3) by simp
  ultimately show ?thesis using c(1) by (auto simp: ht_resize_def)
qed


lemma insert_at_correct:
  assumes inv: "ht_inv valid p t" and k: "valid k" and room: "ht_size t < cap t"
  defines "t2 \<equiv> t\<lparr>ht_size := Suc (ht_size t)\<rparr>"
  shows "\<exists>r t'. ht_insert_at p t2 (ht_hash p t2 k) k v = ret (r, t') \<and> ht_inv valid p t' \<and>
    insert_effect t k v r t' \<and> cap t' = cap t"
proof -
  have wf: "ht_wf valid p t2" and size: "size (contents (entries t2)) \<le> ht_size t"
    using inv by (simp_all add: t2_def ht_inv_def)
  have t2: "ht_map t2 = ht_map t" "cap t2 = cap t" "ht_size t2 = Suc (ht_size t)" "duplicate_cb t2 = duplicate_cb t"
    "can_grow t2 = can_grow t"
    by (simp_all add: t2_def)
  show ?thesis
  proof (cases "ht_map t k")
    case None
    then show ?thesis
      using insert_at_fresh [OF wf k, of v] size room t2
      by (auto simp: ht_inv_def insert_effect_def)
  next
    case (Some w)
    then obtain s where s: "s < cap t2" "occupied (entries t2 ! s)" "entry_key (entries t2 ! s) = k"
        "entry_value (entries t2 ! s) = w"
      using ht_map_Some_iff [OF ht_wfD(7) [OF wf]] ht_wfD(5) [OF wf] t2 by auto
    obtain r t' where d: "ht_duplicate t2 s v = (r, t')" by force
    note D = ht_duplicate_correct [OF wf s(1,2), of v]
    have "ht_inv valid p t'" using D(1,3,4,5) d size room t2 by (simp add: ht_inv_def)
    then show ?thesis
      using insert_at_present [OF wf k s(1-3), of v] D(2) [OF d] D(4-7) d s t2 Some
      by (auto simp: insert_effect_def split: option.splits)
  qed
qed

lemma insert_correct:
  assumes inv: "ht_inv valid p t" and k: "valid k"
    and grow: "can_grow t \<Longrightarrow> ok \<and> cap t * 200 < size_mod"
  shows "\<exists>r t'. ht_insert p ok t k v = ret (r, t') \<and> ht_inv valid p t' \<and> insert_spec t k v r t'"
proof -
  have wf: "ht_wf valid p t" and size: "ht_size t \<le> cap t" using inv by (simp_all add: ht_inv_def)
  note i = ht_wfD [OF wf]
  have mul: "sz_mul (cap t) ht_load_factor = cap t * 90" "sz_mul (ht_size t) 100 = ht_size t * 100"
    using i(2) size by (simp_all add: ht_load_factor_def)
  have lt: "ht_size t < size_mod - 1" using i(3,1) size by linarith
  show ?thesis
  proof (cases "cap t * 90 \<le> ht_size t * 100 \<and> can_grow t")
    case True
    then have g: "ok" "cap t * 200 < size_mod" "sz_mul (cap t) 2 = cap t * 2" using grow i(3) by simp_all
    have "cap t < cap t * 2" using i(1) by linarith
    then obtain es where es: "ht_resize p True t (cap t * 2) = ret (t\<lparr>cap := cap t * 2, entries := es\<rparr>)"
      "ht_wf valid p (t\<lparr>cap := cap t * 2, entries := es\<rparr>)"
      "ht_map (t\<lparr>cap := cap t * 2, entries := es\<rparr>) = ht_map t" "contents es = contents (entries t)"
      using resize_correct [OF wf, of "cap t * 2"] g by auto
    let ?t = "t\<lparr>cap := cap t * 2, entries := es\<rparr>"
    have "ht_inv valid p ?t" using es inv by (simp add: ht_inv_def)
    moreover have "ht_size ?t < cap ?t" using size i(1) by simp
    ultimately obtain r t' where r: "ht_insert_at p (?t\<lparr>ht_size := Suc (ht_size t)\<rparr>) (ht_hash p t k) k v = ret (r, t')"
      "ht_inv valid p t'" "insert_effect ?t k v r t'" "cap t' = cap ?t"
      using insert_at_correct [of ?t k v] k by auto
    moreover have "insert_effect t k v r t'"
      using r(3) es(3) by (simp add: insert_effect_cong [of ?t t])
    moreover have "ht_insert p ok t k v = ret (r, t')"
      using True g es(1) mul lt r(1) by (simp add: ht_insert_def ht_grow_def)
    ultimately show ?thesis using True by (auto simp: insert_spec_def)
  next
    case False
    show ?thesis
    proof (cases "\<not> can_grow t \<and> cap t \<le> ht_size t")
      case True
      then have "cap t * 90 \<le> ht_size t * 100" by linarith
      then have "ht_insert p ok t k v = ret (False, t)" using True mul by (simp add: ht_insert_def ht_grow_def)
      then show ?thesis using True inv
        by (intro exI [of _ False] exI [of _ t]) (simp add: insert_spec_def)
    next
      case room: False
      have "ht_size t < cap t"
      proof (cases "can_grow t")
        case True
        then have "ht_size t * 100 < cap t * 90" using False by simp
        then show ?thesis by linarith
      qed (use room in simp)
      moreover from this have "ht_insert p ok t k v =
          (let t2 = t\<lparr>ht_size := Suc (ht_size t)\<rparr> in ht_insert_at p t2 (ht_hash p t2 k) k v)"
        using False lt mul by (auto simp: ht_insert_def ht_grow_def)
      ultimately show ?thesis
        using insert_at_correct [OF inv k, of v] room False by (fastforce simp: insert_spec_def Let_def)
    qed
  qed
qed


lemma delete_correct:
  assumes inv: "ht_inv valid p t" and k: "valid k"
  shows "\<exists>t'. ht_delete p t k = ret (ht_map t k \<noteq> None, t') \<and> ht_inv valid p t' \<and>
    ht_map t' = (ht_map t)(k := None) \<and>
    ht_size t' = (if ht_map t k = None then ht_size t else ht_size t - 1) \<and>
    cap t' = cap t \<and> can_grow t' = can_grow t \<and> duplicate_cb t' = duplicate_cb t"
proof -
  have wf: "ht_wf valid p t" using inv by (simp add: ht_inv_def)
  from find_index_correct [OF wf k] show ?thesis
  proof (elim disjE exE conjE)
    fix s assume s: "ht_find_index p t k = ret (int s)" "s < cap t" "occupied (entries t ! s)"
      "entry_key (entries t ! s) = k" "ht_map t k = Some (entry_value (entries t ! s))"
    then show ?thesis using delete_index_correct [OF inv s(2,3)] by (auto simp: ht_delete_def)
  next
    assume "ht_find_index p t k = ret (- 1)" "ht_map t k = None"
    then show ?thesis using inv by (auto simp: ht_delete_def fun_upd_idem)
  qed
qed

end

section \<open>Iteration and initialisation\<close>

definition occupied_from :: "('k, 'v) ht \<Rightarrow> nat \<Rightarrow> nat list" where
  "occupied_from t i = filter (\<lambda>x. occupied (entries t ! x)) [i..<cap t]"

lemma occupied_from_step:
  "i < cap t \<Longrightarrow> occupied_from t i =
    (if occupied (entries t ! i) then i # occupied_from t (Suc i) else occupied_from t (Suc i))"
  by (simp add: occupied_from_def upt_conv_Cons)

lemma next_entry_correct:
  assumes "length (entries t) = cap t" "cap t < 2 ^ 63"
  shows "ht_next_entry t i = ret (case occupied_from t i of [] \<Rightarrow> - 1 | x # xs \<Rightarrow> int x)"
  using assms
proof (induction t i rule: ht_next_entry.induct)
  case (1 t i)
  show ?case
  proof (cases "i < cap t")
    case True
    then show ?thesis using 1
      by (subst ht_next_entry.simps) (auto simp: occupied_from_step occupied_def ssize_of_def)
  next
    case False
    then show ?thesis by (subst ht_next_entry.simps) (simp add: occupied_from_def)
  qed
qed

lemma occupied_from_Cons:
  assumes "occupied_from t i = x # xs"
  shows "x < cap t \<and> xs = occupied_from t (Suc x)"
  using assms
proof (induction "cap t - i" arbitrary: i)
  case 0
  then show ?case by (simp add: occupied_from_def)
next
  case (Suc n)
  then have "i < cap t" "n = cap t - Suc i" by simp_all
  then show ?case using Suc by (auto simp: occupied_from_step split: if_splits)
qed

lemma for_each_from_correct:
  assumes "length (entries t) = cap t" "cap t < 2 ^ 63" "occupied_from t i = x # xs"
  shows "ht_for_each_from t (int x) = ret (x # xs)"
  using assms(3)
proof (induction xs arbitrary: i x)
  case (Nil i x)
  have "ht_for_each_from t (- 1) = ret []" by (subst ht_for_each_from.simps) simp
  then show ?case using occupied_from_Cons [OF Nil] next_entry_correct [OF assms(1,2), of "Suc x"]
    by (subst ht_for_each_from.simps) (simp add: eq_commute [of "[]"])
next
  case (Cons y ys i x)
  have *: "x < cap t" "occupied_from t (Suc x) = y # ys" using occupied_from_Cons [OF Cons.prems] by simp_all
  then show ?case using Cons.IH [OF *(2)] next_entry_correct [OF assms(1,2), of "Suc x"]
    by (subst ht_for_each_from.simps) simp
qed

lemma for_each_correct:
  assumes "length (entries t) = cap t" "cap t < 2 ^ 63"
  shows "ht_for_each t = ret (occupied_from t 0)"
proof (cases "occupied_from t 0")
  case Nil
  have "ht_for_each_from t (- 1) = ret []" by (subst ht_for_each_from.simps) simp
  then show ?thesis using Nil next_entry_correct [OF assms, of 0] by (simp add: ht_for_each_def)
next
  case (Cons x xs)
  then show ?thesis using for_each_from_correct [OF assms Cons] next_entry_correct [OF assms, of 0]
    by (simp add: ht_for_each_def)
qed

lemma for_each_entries:
  assumes "length (entries t) = cap t"
  shows "map (\<lambda>i. entry_pair (entries t ! i)) (occupied_from t 0) = ht_assoc t"
proof -
  have "map (\<lambda>i. entries t ! i) (filter (\<lambda>x. occupied (entries t ! x)) [0..<length (entries t)])
      = filter occupied (map (\<lambda>i. entries t ! i) [0..<length (entries t)])"
    by (simp add: filter_map comp_def)
  also have "map (\<lambda>i. entries t ! i) [0..<length (entries t)] = entries t" by (rule map_nth)
  finally have "map (\<lambda>i. entries t ! i) (occupied_from t 0) = filter occupied (entries t)"
    using assms by (simp add: occupied_from_def)
  then have "map entry_pair (map (\<lambda>i. entries t ! i) (occupied_from t 0)) = ht_assoc t"
    unfolding ht_assoc_def by (rule arg_cong)
  then show ?thesis by (simp add: comp_def)
qed

lemma init_correct:
  assumes "case key of None \<Rightarrow> True | Some bs \<Rightarrow> 4 \<le> length bs"
  shows "\<exists>t. ht_init p True rnd key grow = ret t \<and> ht_inv valid p t \<and> ht_map t = Map.empty \<and>
    ht_size t = 0 \<and> cap t = 31 \<and> can_grow t = grow \<and> duplicate_cb t = None \<and>
    hash_key t = (case key of None \<Rightarrow> map rnd [0..<32] | Some bs \<Rightarrow> take 4 bs @ replicate 28 0)"
proof -
  define hk where "hk = (case key of None \<Rightarrow> map rnd [0..<32] | Some bs \<Rightarrow> take 4 bs @ replicate 28 0)"
  let ?t = "\<lparr>can_grow = grow, ht_size = 0, cap = 31, hash_key = hk, duplicate_cb = None,
      entries = ht_calloc p True 31\<rparr>"
  have c: "(31::nat) * 100 < size_mod" by (simp add: size_mod_def)
  have "ht_inv valid p ?t"
    using ht_wf_fresh(1) [OF _ c, of valid p ?t] ht_wf_fresh(2) [OF _ c, of p] by (simp add: ht_inv_def)
  moreover have "ht_map ?t = Map.empty"
    by (rule ext) (simp add: ht_map_None_iff ht_calloc_def ht_zero_entry_def occupied_def)
  moreover have "ht_init p True rnd key grow = ret ?t"
    using assms
    by (cases key) (simp_all add: ht_init_def hk_def ht_hash_key_size_def ht_initial_cap_def)
  ultimately show ?thesis unfolding hk_def by auto
qed

section \<open>Number of entries\<close>

lemma ht_map_dom: "dom (ht_map t) = set_mset (image_mset entry_key (contents (entries t)))"
proof (rule set_eqI)
  fix k
  show "k \<in> dom (ht_map t) \<longleftrightarrow> k \<in># image_mset entry_key (contents (entries t))"
    unfolding dom_def using ht_map_None_contents [of t k] by auto
qed

lemma ht_map_card:
  assumes "ht_wf valid p t"
  shows "card (dom (ht_map t)) = size (contents (entries t))" "finite (dom (ht_map t))"
proof -
  let ?ks = "map entry_key (filter occupied (entries t))"
  have ks: "image_mset entry_key (contents (entries t)) = mset ?ks" by (simp add: contents_def mset_filter)
  have "distinct ?ks" using ht_wfD(7) [OF assms] unfolding keys_distinct_list .
  then have "card (set ?ks) = length ?ks" by (rule distinct_card)
  then have "card (dom (ht_map t)) = size (mset ?ks)" unfolding ht_map_dom ks by (simp only: set_mset_mset size_mset)
  also have "\<dots> = size (contents (entries t))" by (simp only: ks [symmetric] size_image_mset)
  finally show "card (dom (ht_map t)) = size (contents (entries t))" .
  show "finite (dom (ht_map t))" by (simp add: ht_map_dom)
qed

end
