(* ===== verification/Ht_Props.thy ===== *)
theory Ht_Props
  imports Ht_Map
begin

text \<open>
  The properties of the hash table, over any hash function and any comparator that meets the
  contract \<open>ht_keys\<close>, each with a witness on a small table.
\<close>

section \<open>A small table\<close>

text \<open>
  Four slots, natural numbers as keys and values, the key itself as hash: 5 and 9 share the
  home slot 1, so 9 sits one slot further.
\<close>

definition ex_params :: "(nat, nat) ht_params" where
  "ex_params = \<lparr>hasher = (\<lambda>hk k. word_of_nat k), comparator = (\<lambda>a b. int a - int b),
     zero_key = 0, zero_value = 0\<rparr>"

definition ex_entry :: "nat \<Rightarrow> nat \<Rightarrow> u64 \<Rightarrow> (nat, nat) ht_entry" where
  "ex_entry k v h = \<lparr>entry_key = k, entry_value = v, entry_hash = h\<rparr>"

definition ex_table :: "(nat, nat) ht" where
  "ex_table = \<lparr>can_grow = False, ht_size = 2, cap = 4, hash_key = replicate 32 0, duplicate_cb = None,
     entries = [ex_entry 0 0 0, ex_entry 5 50 5, ex_entry 9 90 9, ex_entry 0 0 0]\<rparr>"

lemma ex_keys: "ht_keys ex_params (\<lambda>k. True)"
  by unfold_locales (simp add: ex_params_def)

lemma all_less_4: "(\<forall>i < (4::nat). P i) \<longleftrightarrow> P 0 \<and> P 1 \<and> P 2 \<and> P 3"
  by (auto simp: less_Suc_eq numeral_eq_Suc)

lemma ex_contents: "contents (entries ex_table) = {#ex_entry 5 50 5, ex_entry 9 90 9#}"
  by (simp add: contents_def ex_table_def ex_entry_def occupied_def)

lemma ex_rank:
  "rank (entries ex_table) 0 = 0" "rank (entries ex_table) (Suc 0) = 1"
  "rank (entries ex_table) 2 = 2" "rank (entries ex_table) 3 = 0"
  by (simp_all add: rank_def ex_table_def ex_entry_def occupied_def home_def slot_dist_def)

lemma ex_fields:
  "cap ex_table = 4" "ht_size ex_table = 2" "\<not> can_grow ex_table" "duplicate_cb ex_table = None"
  by (simp_all add: ex_table_def)

lemma ex_length: "length (entries ex_table) = 4"
  by (simp add: ex_table_def)

lemma ex_inv: "ht_inv (\<lambda>k. True) ex_params ex_table"
proof -
  have "rh_inv (entries ex_table)"
    unfolding rh_inv_def ex_length all_less_4 using ex_rank by (simp add: numeral_2_eq_2 [symmetric])
  moreover have "keys_distinct (contents (entries ex_table))"
    unfolding ex_contents keys_distinct_add by (simp add: keys_distinct_def ex_entry_def)
  moreover have "\<exists>z < cap ex_table. rank (entries ex_table) z \<le> 1"
    using ex_rank(1) by (intro exI [of _ 0]) (simp add: ex_table_def)
  ultimately show ?thesis
    using ex_contents
    by (simp add: ht_inv_def ht_wf_def ex_table_def ex_entry_def ex_params_def ht_hash_def size_mod_def)
qed

lemma ex_map: "ht_map ex_table = [5 \<mapsto> 50, 9 \<mapsto> 90]"
  by (simp add: ht_map_def ht_assoc_def ex_table_def ex_entry_def occupied_def entry_pair_def fun_upd_twist)

section \<open>Properties\<close>

text \<open>C10: in a well-formed table, lookup always returns, performs no invalid access, and returns
  exactly the value the table maps the key to, or nothing, also when every slot is taken.\<close>

theorem ht_find_returns_map:
  assumes "ht_keys p valid" and "ht_inv valid p t" and "valid k"
  shows "ht_find p t k = ret (ht_map t k)"
  using assms(2) by (intro ht_keys.find_correct [OF assms(1) _ assms(3)]) (simp add: ht_inv_def)

theorem ht_find_returns_map_witness:
  "ht_find ex_params ex_table 9 = ret (Some 90) \<and> ht_find ex_params ex_table 1 = ret None"
  using ht_find_returns_map [OF ex_keys ex_inv, of 9] ht_find_returns_map [OF ex_keys ex_inv, of 1]
  by (simp add: ex_map)

text \<open>C11: insertion always returns and keeps the invariant. A table that is full and may not grow
  is left alone; otherwise a new key is added, and the value of an existing key is left to the
  duplicate callback (kept, if there is none). Every other key keeps its value, also when the
  insertion makes the table grow.\<close>

theorem ht_insert_updates_map:
  assumes "ht_keys p valid" and "ht_inv valid p t" and "valid k"
    and "can_grow t \<Longrightarrow> ok \<and> cap t * 200 < size_mod"
  shows "\<exists>r t'. ht_insert p ok t k v = ret (r, t') \<and> ht_inv valid p t' \<and>
    (if \<not> can_grow t \<and> cap t \<le> ht_size t then \<not> r \<and> t' = t
     else case ht_map t k of
            None \<Rightarrow> r \<and> ht_map t' = (ht_map t)(k \<mapsto> v)
          | Some w \<Rightarrow> (case duplicate_cb t of
              None \<Rightarrow> \<not> r \<and> ht_map t' = ht_map t
            | Some cb \<Rightarrow> r = fst (cb w v) \<and> ht_map t' = (ht_map t)(k \<mapsto> snd (cb w v))))"
proof -
  obtain r t' where "ht_insert p ok t k v = ret (r, t')" "ht_inv valid p t'" "insert_spec t k v r t'"
    using ht_keys.insert_correct [OF assms(1-3), of ok v] assms(4) by blast
  then show ?thesis
    by (intro exI [of _ r] exI [of _ t'])
      (auto simp: insert_spec_def insert_effect_def split: option.split if_splits)
qed

theorem ht_insert_updates_map_witness:
  "\<exists>t'. ht_insert ex_params False ex_table 1 10 = ret (True, t') \<and> ht_map t' = [5 \<mapsto> 50, 9 \<mapsto> 90, 1 \<mapsto> 10]"
  using ht_insert_updates_map [OF ex_keys ex_inv, where k = 1 and ok = False and v = 10]
  by (auto simp: ex_map ex_fields)

text \<open>C12: deletion always returns and keeps the invariant; it reports whether the key was there,
  and afterwards the key is gone and every other key has the value it had.\<close>

theorem ht_delete_updates_map:
  assumes "ht_keys p valid" and "ht_inv valid p t" and "valid k"
  shows "\<exists>t'. ht_delete p t k = ret (ht_map t k \<noteq> None, t') \<and> ht_inv valid p t' \<and>
    ht_map t' = (ht_map t)(k := None)"
  using ht_keys.delete_correct [OF assms] by blast

theorem ht_delete_updates_map_witness:
  "\<exists>t'. ht_delete ex_params ex_table 5 = ret (True, t') \<and> ht_map t' = [9 \<mapsto> 90]"
  using ht_delete_updates_map [OF ex_keys ex_inv, of 5] by (auto simp: ex_map)

text \<open>C19: resizing to a larger capacity keeps every entry: the table is well-formed, has the new
  capacity and stands for the same map.\<close>

theorem ht_resize_keeps_map:
  assumes "ht_keys p valid" and "ht_inv valid p t" and "cap t < c" and "c * 100 < size_mod"
  shows "\<exists>t'. ht_resize p True t c = ret t' \<and> ht_inv valid p t' \<and> cap t' = c \<and>
    ht_map t' = ht_map t \<and> ht_size t' = ht_size t"
proof -
  have wf: "ht_wf valid p t" using assms(2) by (simp add: ht_inv_def)
  obtain es where "ht_resize p True t c = ret (t\<lparr>cap := c, entries := es\<rparr>)"
    "ht_wf valid p (t\<lparr>cap := c, entries := es\<rparr>)" "ht_map (t\<lparr>cap := c, entries := es\<rparr>) = ht_map t"
    "contents es = contents (entries t)"
    using ht_keys.resize_correct [OF assms(1) wf assms(3,4)] by blast
  then show ?thesis using assms(2,3)
    by (intro exI [of _ "t\<lparr>cap := c, entries := es\<rparr>"]) (simp add: ht_inv_def)
qed

theorem ht_resize_keeps_map_witness:
  "\<exists>t'. ht_resize ex_params True ex_table 8 = ret t' \<and> cap t' = 8 \<and> ht_map t' 9 = Some 90"
  using ht_resize_keeps_map [OF ex_keys ex_inv, of 8] by (auto simp: ex_map ex_fields size_mod_def)

text \<open>C35: \<open>A3_HT_FOR_EACH\<close> ends and visits each entry of the table once, in slot order: the
  key/value pairs it sees are exactly those of the map.\<close>

theorem ht_for_each_visits_entries:
  assumes "ht_inv valid p t"
  shows "\<exists>is. ht_for_each t = ret is \<and> sorted is \<and> distinct is \<and> (\<forall>i \<in> set is. i < cap t) \<and>
    ht_map t = map_of (map (\<lambda>i. (entry_key (entries t ! i), entry_value (entries t ! i))) is)"
proof -
  have i: "length (entries t) = cap t" "cap t < 2 ^ 63" using assms ht_wfD(4,5) by (auto simp: ht_inv_def)
  have "map (\<lambda>i. (entry_key (entries t ! i), entry_value (entries t ! i))) (occupied_from t 0) = ht_assoc t"
    using for_each_entries [OF i(1)] by (simp add: entry_pair_def)
  then show ?thesis using for_each_correct [OF i]
    by (intro exI [of _ "occupied_from t 0"])
      (simp add: ht_map_def occupied_from_def sorted_wrt_filter)
qed

theorem ht_for_each_visits_entries_witness:
  "\<exists>is. ht_for_each ex_table = ret is \<and> distinct is \<and>
    map_of (map (\<lambda>i. (entry_key (entries ex_table ! i), entry_value (entries ex_table ! i))) is) 9 = Some 90"
proof -
  obtain vs where "ht_for_each ex_table = ret vs" "distinct vs"
    "ht_map ex_table = map_of (map (\<lambda>i. (entry_key (entries ex_table ! i), entry_value (entries ex_table ! i))) vs)"
    using ht_for_each_visits_entries [OF ex_inv] by blast
  moreover from this(3) have "map_of (map (\<lambda>i. (entry_key (entries ex_table ! i), entry_value (entries ex_table ! i))) vs) 9
      = Some 90" by (simp add: ex_map flip: \<open>_ = map_of _\<close>)
  ultimately show ?thesis by blast
qed

text \<open>A new table is well-formed and empty, with the initial capacity; of a hash key given by
  the caller it uses the first four bytes only, the other 28 being zero.\<close>

theorem ht_init_is_empty:
  assumes "case key of None \<Rightarrow> True | Some bs \<Rightarrow> 4 \<le> length bs"
  shows "\<exists>t. ht_init p True rnd key grow = ret t \<and> ht_inv valid p t \<and> ht_map t = Map.empty \<and>
    ht_size t = 0 \<and> cap t = 31 \<and> can_grow t = grow \<and>
    hash_key t = (case key of None \<Rightarrow> map rnd [0..<32] | Some bs \<Rightarrow> take 4 bs @ replicate 28 0)"
  using init_correct [OF assms, of p rnd grow valid] by blast

theorem ht_init_is_empty_witness:
  "\<exists>t. ht_init ex_params True (\<lambda>i. 0) (Some [1, 2, 3, 4, 5]) True = ret t \<and> ht_map t = Map.empty \<and>
    hash_key t = [1, 2, 3, 4] @ replicate 28 0"
  using ht_init_is_empty [of "Some [1, 2, 3, 4, 5]" ex_params "\<lambda>i. 0" True "\<lambda>k. True"] by auto

text \<open>Inserting a key that is already there, with no duplicate callback, changes no entry and
  returns \<open>false\<close>, yet still counts one more element in \<open>size\<close>.\<close>

theorem ht_insert_duplicate_counts:
  assumes "ht_keys p valid" and "ht_inv valid p t" and "valid k"
    and "ht_map t k = Some w" and "duplicate_cb t = None" and "\<not> can_grow t" and "ht_size t < cap t"
  shows "\<exists>t'. ht_insert p ok t k v = ret (False, t') \<and> ht_map t' = ht_map t \<and> ht_size t' = Suc (ht_size t)"
proof -
  obtain r t' where "ht_insert p ok t k v = ret (r, t')" "insert_spec t k v r t'"
    using ht_keys.insert_correct [OF assms(1-3), of ok v] assms(6) by blast
  then show ?thesis using assms(4-7)
    by (intro exI [of _ t']) (simp add: insert_spec_def insert_effect_def)
qed

theorem ht_insert_duplicate_counts_witness:
  "\<exists>t'. ht_insert ex_params True ex_table 5 51 = ret (False, t') \<and> ht_map t' 5 = Some 50 \<and> ht_size t' = 3"
  using ht_insert_duplicate_counts [OF ex_keys ex_inv, where k = 5 and w = 50 and ok = True and v = 51]
  by (auto simp: ex_map ex_fields)

end
