(* ===== verification/Operations.thy ===== *)
theory Operations
  imports Prelude
begin

text \<open>
  Sequences of operations, and when a concrete structure returns in them what an abstract one returns. An operation is a
  function of the state; it returns a result and the new state, or it fails.
\<close>

section \<open>Running operations\<close>

fun run_ops :: "('op \<Rightarrow> 's \<Rightarrow> ('r \<times> 's) run) \<Rightarrow> 'op list \<Rightarrow> 's \<Rightarrow> ('r list \<times> 's) run" where
  "run_ops ex [] s = ret ([], s)"
| "run_ops ex (x # xs) s = bind_run (ex x s) (\<lambda>(r, s1). bind_run (run_ops ex xs s1) (\<lambda>(rs, s2). ret (r # rs, s2)))"

text \<open>Every operation meets its condition in the state it is run in.\<close>

fun ops_ok :: "('op \<Rightarrow> 's \<Rightarrow> ('r \<times> 's) run) \<Rightarrow> ('s \<Rightarrow> 'op \<Rightarrow> bool) \<Rightarrow> 'op list \<Rightarrow> 's \<Rightarrow> bool" where
  "ops_ok ex ok [] s = True"
| "ops_ok ex ok (x # xs) s = (ok s x \<and> (case ex x s of Some (Inr (r, s1)) \<Rightarrow> ops_ok ex ok xs s1 | _ \<Rightarrow> True))"

lemma ops_ok_always: "ops_ok ex (\<lambda>s x. True) xs s"
  by (induction xs arbitrary: s) (auto split: option.splits sum.splits)

text \<open>An operation without a result, and one that only looks.\<close>

definition quietly :: "'s run \<Rightarrow> ('r list \<times> 's) run" where
  "quietly c = bind_run c (\<lambda>s. ret ([], s))"

definition seen :: "'s \<Rightarrow> 'r run \<Rightarrow> ('r \<times> 's) run" where
  "seen s c = bind_run c (\<lambda>r. ret (r, s))"

lemma quietly_simps [simp]: "quietly (ret s) = ret ([], s)" "quietly (fail e) = fail e"
  by (simp_all add: quietly_def)

lemma seen_simps [simp]: "seen s (ret r) = ret (r, s)" "seen s (fail e) = fail e"
  by (simp_all add: seen_def)

section \<open>Agreement\<close>

text \<open>Both return the same and leave related states, or both fail in the same way.\<close>

definition agree :: "('s \<Rightarrow> 't \<Rightarrow> bool) \<Rightarrow> ('r \<times> 's) run \<Rightarrow> ('r \<times> 't) run \<Rightarrow> bool" where
  "agree R c a \<longleftrightarrow> (\<exists>r s t. c = ret (r, s) \<and> a = ret (r, t) \<and> R s t) \<or> (\<exists>e. c = fail e \<and> a = fail e)"

lemma agree_ret [intro]: "R s t \<Longrightarrow> agree R (ret (r, s)) (ret (r, t))"
  by (simp add: agree_def)

lemma agree_fail [simp, intro]: "agree R (fail e) (fail e)"
  by (simp add: agree_def)

lemma agree_mono: "agree R c a \<Longrightarrow> (\<And>s t. R s t \<Longrightarrow> Q s t) \<Longrightarrow> agree Q c a"
  by (auto simp: agree_def)

text \<open>Two levels make one.\<close>

lemma agree_trans: "agree R c a \<Longrightarrow> agree Q a d \<Longrightarrow> agree (\<lambda>s u. \<exists>t. R s t \<and> Q t u) c d"
  by (auto simp: agree_def)

lemma agree_seen: "R s t \<Longrightarrow> c = ret r \<Longrightarrow> agree R (seen s c) (ret (r, t))"
  by (simp add: agree_def)

lemma agree_quietly: "c = ret s \<Longrightarrow> R s t \<Longrightarrow> agree R (quietly c) (ret ([], t))"
  by (simp add: agree_def)

lemma agree_cases [consumes 1, case_names returns fails]:
  assumes "agree R c a"
  obtains r s t where "c = ret (r, s)" "a = ret (r, t)" "R s t" | e where "c = fail e" "a = fail e"
  using assms by (auto simp: agree_def)

locale simulation =
  fixes ex :: "'op \<Rightarrow> 's \<Rightarrow> ('r \<times> 's) run" and spec :: "'op \<Rightarrow> 't \<Rightarrow> ('r \<times> 't) run"
    and ok :: "'t \<Rightarrow> 'op \<Rightarrow> bool" and R :: "'s \<Rightarrow> 't \<Rightarrow> bool"
  assumes simulates: "R s t \<Longrightarrow> ok t x \<Longrightarrow> agree R (ex x s) (spec x t)"
begin

lemma runs_agree: "R s t \<Longrightarrow> ops_ok spec ok xs t \<Longrightarrow> agree R (run_ops ex xs s) (run_ops spec xs t)"
proof (induction xs arbitrary: s t)
  case (Cons x xs)
  from Cons.prems have "agree R (ex x s) (spec x t)" by (intro simulates) simp_all
  then show ?case
  proof (cases rule: agree_cases)
    case (returns r s1 t1)
    then have "agree R (run_ops ex xs s1) (run_ops spec xs t1)" using Cons.prems(2) by (intro Cons.IH) simp_all
    then show ?thesis using returns by (cases rule: agree_cases) auto
  qed simp
qed auto

lemma same_results:
  assumes "R s t" and "ops_ok spec ok xs t"
  shows "bind_run (run_ops ex xs s) (\<lambda>(rs, s1). ret rs) = bind_run (run_ops spec xs t) (\<lambda>(rs, t1). ret rs)"
  using runs_agree [OF assms] by (cases rule: agree_cases) simp_all

end

end
