(* ===== verification/Ht_Equiv.thy ===== *)
theory Ht_Equiv
  imports Ht_Props Operations
begin

text \<open>
  Sequences of hash table operations: a table, growing or fixed, from \<open>A3_HT_INIT\<close> on, returns for every sequence of
  them what a finite map with a counter returns.
\<close>

section \<open>Operations\<close>

datatype ('k, 'v) ht_op = Op_insert 'k 'v | Op_find 'k | Op_delete 'k | Op_set_cb "('v \<Rightarrow> 'v \<Rightarrow> bool \<times> 'v) option" | Op_count | Op_walk

text \<open>A walk gives the keys and values it visits, each as often as it does, in no particular order.\<close>

datatype ('k, 'v) ht_result = Done bool | Found "'v option" | Stored | Count size_t | Visited "('k \<times> 'v) multiset"

fun ht_exec :: "('k, 'v) ht_params \<Rightarrow> ('k, 'v) ht_op \<Rightarrow> ('k, 'v) ht \<Rightarrow> (('k, 'v) ht_result \<times> ('k, 'v) ht) run" where
  "ht_exec p (Op_insert k v) t = bind_run (ht_insert p True t k v) (\<lambda>(r, t'). ret (Done r, t'))"
| "ht_exec p (Op_find k) t = bind_run (ht_find p t k) (\<lambda>r. ret (Found r, t))"
| "ht_exec p (Op_delete k) t = bind_run (ht_delete p t k) (\<lambda>(r, t'). ret (Done r, t'))"
| "ht_exec p (Op_set_cb cb) t = ret (Stored, ht_set_duplicate_cb t cb)"
| "ht_exec p Op_count t = bind_run (ht_count (Some t)) (\<lambda>n. ret (Count n, t))"
| "ht_exec p Op_walk t = bind_run (ht_for_each t) (\<lambda>is. ret (Visited (mset (map (\<lambda>i. entry_pair (entries t ! i)) is)), t))"

section \<open>The reference\<close>

text \<open>A map, the duplicate callback, and the counter, which counts insertions of keys that are already there, too. A table
  that may not grow refuses an insertion when the counter has reached its capacity.\<close>

type_synonym ('k, 'v) counted_map = "('k \<rightharpoonup> 'v) \<times> ('v \<Rightarrow> 'v \<Rightarrow> bool \<times> 'v) option \<times> nat"

fun map_exec :: "bool \<Rightarrow> ('k, 'v) ht_op \<Rightarrow> ('k, 'v) counted_map \<Rightarrow> (('k, 'v) ht_result \<times> ('k, 'v) counted_map) run" where
  "map_exec grow (Op_insert k v) (m, cb, n) = ret
     (if \<not> grow \<and> 31 \<le> n then (Done False, m, cb, n)
      else case m k of
          None \<Rightarrow> (Done True, m(k \<mapsto> v), cb, n + 1)
        | Some w \<Rightarrow> (case cb of
            None \<Rightarrow> (Done False, m, cb, n + 1)
          | Some f \<Rightarrow> (Done (fst (f w v)), m(k \<mapsto> snd (f w v)), cb, n + 1)))"
| "map_exec grow (Op_find k) (m, cb, n) = ret (Found (m k), m, cb, n)"
| "map_exec grow (Op_delete k) (m, cb, n) = ret (Done (m k \<noteq> None), m(k := None), cb, if m k = None then n else n - 1)"
| "map_exec grow (Op_set_cb f) (m, cb, n) = ret (Stored, m, f, n)"
| "map_exec grow Op_count (m, cb, n) = ret (Count n, m, cb, n)"
| "map_exec grow Op_walk (m, cb, n) = ret (Visited (mset_set (Map.graph m)), m, cb, n)"

text \<open>The counter is kept so small that the capacity does not wrap.\<close>

fun map_op_ok :: "('k \<Rightarrow> bool) \<Rightarrow> ('k, 'v) counted_map \<Rightarrow> ('k, 'v) ht_op \<Rightarrow> bool" where
  "map_op_ok valid (m, cb, n) (Op_insert k v) = (valid k \<and> n < 2 ^ 54)"
| "map_op_ok valid s (Op_find k) = valid k"
| "map_op_ok valid s (Op_delete k) = valid k"
| "map_op_ok valid s x = True"

section \<open>Each operation\<close>

text \<open>A growing table doubles its capacity at nine tenths of it, so it stays near 2.2 times the largest counter.\<close>

definition ht_like :: "('k \<Rightarrow> bool) \<Rightarrow> ('k, 'v) ht_params \<Rightarrow> bool \<Rightarrow> ('k, 'v) ht \<Rightarrow> ('k, 'v) counted_map \<Rightarrow> bool" where
  "ht_like valid p grow t s \<longleftrightarrow> ht_inv valid p t \<and> can_grow t = grow \<and> s = (ht_map t, duplicate_cb t, ht_size t) \<and>
     (grow \<longrightarrow> cap t * 90 \<le> 200 * 2 ^ 54) \<and> (\<not> grow \<longrightarrow> cap t = 31)"

text \<open>The pairs a walk visits are those of the map.\<close>

lemma walk_graph:
  assumes "ht_inv valid p t"
  shows "ht_for_each t = ret (occupied_from t 0)"
    "mset (map (\<lambda>i. entry_pair (entries t ! i)) (occupied_from t 0)) = mset_set (Map.graph (ht_map t))"
proof -
  have wf: "ht_wf valid p t" using assms by (simp add: ht_inv_def)
  note i = ht_wfD [OF wf]
  show "ht_for_each t = ret (occupied_from t 0)" using for_each_correct [OF i(5,4)] .
  have "map fst (ht_assoc t) = map entry_key (filter occupied (entries t))" by (simp add: ht_assoc_def entry_pair_def)
  then have d: "distinct (map fst (ht_assoc t))" using i(7) unfolding keys_distinct_list by simp
  have "Map.graph (ht_map t) = set (ht_assoc t)" unfolding ht_map_def using graph_map_of_if_distinct_dom [OF d] .
  moreover have "mset_set (set (ht_assoc t)) = mset (ht_assoc t)" using d unfolding distinct_map by (intro mset_set_set) blast
  ultimately show "mset (map (\<lambda>i. entry_pair (entries t ! i)) (occupied_from t 0)) = mset_set (Map.graph (ht_map t))"
    using for_each_entries [OF i(5)] by simp
qed

lemma cb_fields [simp]:
  "ht_inv valid p (t\<lparr>duplicate_cb := cb\<rparr>) \<longleftrightarrow> ht_inv valid p t" "ht_map (t\<lparr>duplicate_cb := cb\<rparr>) = ht_map t"
  by (simp_all add: ht_inv_def ht_wf_def ht_hash_def ht_map_def ht_assoc_def)

context ht_keys
begin

lemma table_insert_like:
  assumes t: "ht_like valid p grow t s" and k: "valid k" and n: "ht_size t < 2 ^ 54"
  shows "agree (ht_like valid p grow) (ht_exec p (Op_insert k v) t) (map_exec grow (Op_insert k v) s)"
proof -
  have inv: "ht_inv valid p t" and g: "can_grow t = grow" "s = (ht_map t, duplicate_cb t, ht_size t)"
    "grow \<Longrightarrow> cap t * 90 \<le> 200 * 2 ^ 54" "\<not> grow \<Longrightarrow> cap t = 31" using t unfolding ht_like_def by blast+
  have "can_grow t \<Longrightarrow> cap t * 200 < size_mod" using g by (simp add: size_mod_def)
  then obtain r t' where t': "ht_insert p True t k v = ret (r, t')" "ht_inv valid p t'" "insert_spec t k v r t'"
    using insert_correct [OF inv k, of True v] by blast
  have s': "grow \<Longrightarrow> cap t' * 90 \<le> 200 * 2 ^ 54" "\<not> grow \<Longrightarrow> cap t' = 31" "can_grow t' = grow"
    using t'(3) g n by (auto simp: insert_spec_def insert_effect_def split: if_splits)
  have "map_exec grow (Op_insert k v) s = ret (Done r, ht_map t', duplicate_cb t', ht_size t')"
    using t'(3) g by (auto simp: insert_spec_def insert_effect_def split: option.splits if_splits)
  moreover have "ht_like valid p grow t' (ht_map t', duplicate_cb t', ht_size t')" using t'(2) s' by (simp add: ht_like_def)
  ultimately show ?thesis using t'(1) by auto
qed

lemma table_exec_like:
  assumes t: "ht_like valid p grow t s" and x: "map_op_ok valid s x"
  shows "agree (ht_like valid p grow) (ht_exec p x t) (map_exec grow x s)"
proof -
  have inv: "ht_inv valid p t" and s: "s = (ht_map t, duplicate_cb t, ht_size t)" using t by (simp_all add: ht_like_def)
  show ?thesis
  proof (cases x)
    case (Op_insert k v)
    then show ?thesis using table_insert_like [OF t] x s by simp
  next
    case (Op_find k)
    then show ?thesis using find_correct [of t k] inv x t s by (auto simp: ht_inv_def)
  next
    case (Op_delete k)
    then show ?thesis using delete_correct [OF inv, of k] x t s by (auto simp: ht_like_def agree_def)
  next
    case (Op_set_cb cb)
    then show ?thesis using t s by (auto simp: ht_like_def ht_set_duplicate_cb_def agree_def)
  next
    case Op_count
    then show ?thesis using t s by (auto simp: ht_count_def)
  next
    case Op_walk
    then show ?thesis using walk_graph [OF inv] t s by auto
  qed
qed

end

sublocale ht_keys \<subseteq> map_ops: simulation "ht_exec p" "map_exec grow" "map_op_ok valid" "ht_like valid p grow" for grow
  by unfold_locales (rule table_exec_like)

context ht_keys
begin

lemma table_ops_like:
  assumes "ht_init p True rnd key grow = ret t" "ht_like valid p grow t (Map.empty, None, 0)"
    and "ops_ok (map_exec grow) (map_op_ok valid) xs (Map.empty, None, 0)"
  shows "agree (\<lambda>t (m, cb, n). ht_map t = m) (run_ops (ht_exec p) xs t) (run_ops (map_exec grow) xs (Map.empty, None, 0))"
  using map_ops.runs_agree [OF assms(2,3)] by (rule agree_mono) (auto simp: ht_like_def)

end

section \<open>Property\<close>

text \<open>C1: a hash table is equivalent to a finite map with a counter: from a new table on, every sequence of insertions,
  lookups, deletions, changes of the duplicate callback, queries of the size and iterations runs to its end, through any
  number of resizings, and every single operation returns what it returns on the map that starts empty. An insertion is
  refused if and only if the table may not grow and the counter is at 31; a key that is there is left to the callback,
  and counts once more; an iteration visits every entry once. The counter is less than \<open>2 ^ 54\<close> at an insertion.\<close>

theorem ht_runs_like_map:
  assumes "ht_keys p valid" and "case key of None \<Rightarrow> True | Some bs \<Rightarrow> 4 \<le> length bs"
    and "ops_ok (map_exec grow) (map_op_ok valid) xs (Map.empty, None, 0)"
  shows "\<exists>t0. ht_init p True rnd key grow = ret t0 \<and>
    agree (\<lambda>t (m, cb, n). ht_map t = m) (run_ops (ht_exec p) xs t0) (run_ops (map_exec grow) xs (Map.empty, None, 0))"
proof -
  obtain t0 where "ht_init p True rnd key grow = ret t0" "ht_like valid p grow t0 (Map.empty, None, 0)"
    using init_correct [OF assms(2), of p rnd grow valid] by (auto simp: ht_like_def)
  then show ?thesis using ht_keys.table_ops_like [OF assms(1) _ _ assms(3)] by blast
qed

definition ex_ht_ops :: "(nat, nat) ht_op list" where
  "ex_ht_ops = [Op_insert 5 50, Op_insert 36 7, Op_insert 5 51, Op_count, Op_walk, Op_set_cb (Some (\<lambda>a b. (True, a + b))),
     Op_insert 5 1, Op_delete 36, Op_find 36, Op_find 5]"

definition ex_ht_results :: "(nat, nat) ht_result list" where
  "ex_ht_results = [Done True, Done True, Done False, Count 3, Visited {#(5, 50), (36, 7)#}, Stored,
     Done True, Done True, Found None, Found (Some 51)]"

theorem ht_runs_like_map_witness:
  "\<exists>t0 t. ht_init ex_params True (\<lambda>i. 0) None True = ret t0 \<and>
    run_ops (ht_exec ex_params) ex_ht_ops t0 = ret (ex_ht_results, t) \<and> ht_map t = [5 \<mapsto> 51]"
proof -
  have "ops_ok (map_exec True) (map_op_ok (\<lambda>k. True)) ex_ht_ops (Map.empty, None, 0)" by (simp add: ex_ht_ops_def)
  moreover have "run_ops (map_exec True) ex_ht_ops (Map.empty, None, 0) =
      ret (ex_ht_results, [5 \<mapsto> 51], Some (\<lambda>a b. (True, a + b)), 3)"
    by (simp add: ex_ht_ops_def ex_ht_results_def Map.graph_map_upd fun_upd_twist)
  ultimately show ?thesis using ht_runs_like_map [OF ex_keys, of None True ex_ht_ops "\<lambda>i. 0"] by (auto simp: agree_def)
qed

end
