(* ===== verification/Mem.thy ===== *)
theory Mem
  imports Prelude
begin

text \<open>
  Byte memory: what \<open>malloc\<close>, \<open>realloc\<close>, \<open>free\<close>, \<open>memcpy\<close>, \<open>memmove\<close>, \<open>memcmp\<close> and \<open>memchr\<close> of
  the C library do, and loads and stores through a \<open>uint8_t*\<close>. A pointer is \<open>NULL\<close> or an
  offset into a block; each block is an object C keeps apart from the others. The bytes of
  fresh memory are unspecified: they are the parameter \<open>fresh_byte\<close> of the memory.
\<close>

section \<open>Pointers and blocks\<close>

datatype ptr = Null | Ptr nat size_t

record mem =
  blocks :: "nat \<Rightarrow> u8 list option"   \<comment> \<open>\<open>None\<close>: never allocated, or released\<close>
  next_block :: nat
  fresh_byte :: "nat \<Rightarrow> nat \<Rightarrow> u8"

definition with_block :: "mem \<Rightarrow> nat \<Rightarrow> u8 list \<Rightarrow> mem" where
  "with_block m b bs = m\<lparr>blocks := (blocks m)(b \<mapsto> bs)\<rparr>"

definition ptr_plus :: "ptr \<Rightarrow> nat \<Rightarrow> ptr" where
  "ptr_plus p n = (case p of Null \<Rightarrow> Null | Ptr b off \<Rightarrow> Ptr b (off + n))"

text \<open>The bytes of the block \<open>p\<close> points into, if \<open>n\<close> bytes from \<open>p\<close> on are there.\<close>

definition mem_range :: "mem \<Rightarrow> ptr \<Rightarrow> nat \<Rightarrow> (nat \<times> nat \<times> u8 list) run" where
  "mem_range m p n = (case p of
       Null \<Rightarrow> fail Null_deref
     | Ptr b off \<Rightarrow> (case blocks m b of
           None \<Rightarrow> fail Use_after_free
         | Some bs \<Rightarrow> require (off + n \<le> length bs) Out_of_bounds (ret (b, off, bs))))"

definition mem_get :: "mem \<Rightarrow> ptr \<Rightarrow> nat \<Rightarrow> u8 run" where
  "mem_get m p i = bind_run (mem_range m p (i + 1)) (\<lambda>(b, off, bs). ret (bs ! (off + i)))"

definition mem_set :: "mem \<Rightarrow> ptr \<Rightarrow> nat \<Rightarrow> u8 \<Rightarrow> mem run" where
  "mem_set m p i x =
     bind_run (mem_range m p (i + 1)) (\<lambda>(b, off, bs). ret (with_block m b (bs[off + i := x])))"

definition mem_load :: "mem \<Rightarrow> ptr \<Rightarrow> nat \<Rightarrow> u8 list run" where
  "mem_load m p n = bind_run (mem_range m p n) (\<lambda>(b, off, bs). ret (take n (drop off bs)))"

definition mem_store :: "mem \<Rightarrow> ptr \<Rightarrow> u8 list \<Rightarrow> mem run" where
  "mem_store m p xs = bind_run (mem_range m p (length xs)) (\<lambda>(b, off, bs).
     ret (with_block m b (take off bs @ xs @ drop (off + length xs) bs)))"

section \<open>The C library's memory functions\<close>

text \<open>\<open>ok\<close> says whether the allocation succeeds.\<close>

definition mem_new_block :: "mem \<Rightarrow> u8 list \<Rightarrow> mem \<times> ptr" where
  "mem_new_block m bs =
     (m\<lparr>blocks := (blocks m)(next_block m \<mapsto> bs), next_block := next_block m + 1\<rparr>, Ptr (next_block m) 0)"

definition c_calloc :: "mem \<Rightarrow> bool \<Rightarrow> size_t \<Rightarrow> mem \<times> ptr" where
  "c_calloc m ok n = (if ok then mem_new_block m (replicate n 0) else (m, Null))"

definition c_malloc :: "mem \<Rightarrow> bool \<Rightarrow> size_t \<Rightarrow> mem \<times> ptr" where
  "c_malloc m ok n =
     (if ok then mem_new_block m (map (fresh_byte m (next_block m)) [0..<n]) else (m, Null))"

definition c_free :: "mem \<Rightarrow> ptr \<Rightarrow> mem run" where
  "c_free m p = (case p of
       Null \<Rightarrow> ret m
     | Ptr b off \<Rightarrow> (case blocks m b of
           None \<Rightarrow> fail Use_after_free
         | Some bs \<Rightarrow> require (off = 0) Bad_free (ret (m\<lparr>blocks := (blocks m)(b := None)\<rparr>))))"

definition c_realloc :: "mem \<Rightarrow> bool \<Rightarrow> ptr \<Rightarrow> size_t \<Rightarrow> (mem \<times> ptr) run" where
  "c_realloc m ok p n = (case p of
       Null \<Rightarrow> ret (c_malloc m ok n)
     | Ptr b off \<Rightarrow> (case blocks m b of
           None \<Rightarrow> fail Use_after_free
         | Some bs \<Rightarrow> require (off = 0) Bad_free
             (if ok then
                ret (mem_new_block (m\<lparr>blocks := (blocks m)(b := None)\<rparr>)
                       (take n bs @ map (fresh_byte m (next_block m)) [length bs..<n]))
              else ret (m, Null))))"

text \<open>\<open>memcpy\<close> is undefined on ranges that overlap; \<open>memmove\<close> is not.\<close>

definition ranges_overlap :: "ptr \<Rightarrow> ptr \<Rightarrow> nat \<Rightarrow> bool" where
  "ranges_overlap p q n = (case (p, q) of
       (Ptr b x, Ptr c y) \<Rightarrow> b = c \<and> x < y + n \<and> y < x + n
     | _ \<Rightarrow> False)"

definition c_memmove :: "mem \<Rightarrow> ptr \<Rightarrow> ptr \<Rightarrow> size_t \<Rightarrow> mem run" where
  "c_memmove m dst src n = bind_run (mem_load m src n) (\<lambda>xs. mem_store m dst xs)"

definition c_memcpy :: "mem \<Rightarrow> ptr \<Rightarrow> ptr \<Rightarrow> size_t \<Rightarrow> mem run" where
  "c_memcpy m dst src n =
     require (\<not> ranges_overlap dst src n) Overlap (c_memmove m dst src n)"

text \<open>\<open>memcmp\<close> tests as the code uses them: equal or not.\<close>

definition c_memcmp_eq :: "mem \<Rightarrow> ptr \<Rightarrow> ptr \<Rightarrow> size_t \<Rightarrow> bool run" where
  "c_memcmp_eq m p q n =
     bind_run (mem_load m p n) (\<lambda>xs. bind_run (mem_load m q n) (\<lambda>ys. ret (xs = ys)))"

definition c_memchr :: "mem \<Rightarrow> ptr \<Rightarrow> u8 \<Rightarrow> size_t \<Rightarrow> bool run" where
  "c_memchr m p c n = bind_run (mem_load m p n) (\<lambda>xs. ret (c \<in> set xs))"

section \<open>Lemmas\<close>

lemma with_block_simps [simp]:
  "blocks (with_block m b bs) b = Some bs"
  "c \<noteq> b \<Longrightarrow> blocks (with_block m b bs) c = blocks m c"
  "with_block (with_block m b bs) b cs = with_block m b cs"
  "next_block (with_block m b bs) = next_block m"
  "fresh_byte (with_block m b bs) = fresh_byte m"
  by (simp_all add: with_block_def)

lemma with_block_same [simp]: "blocks m b = Some bs \<Longrightarrow> with_block m b bs = m"
  by (simp add: with_block_def fun_upd_idem)

lemma ptr_plus_simps [simp]:
  "ptr_plus Null n = Null" "ptr_plus (Ptr b off) n = Ptr b (off + n)" "ptr_plus p 0 = p"
  by (simp_all add: ptr_plus_def split: ptr.split)

lemma ptr_plus_Null_iff [simp]: "ptr_plus p n = Null \<longleftrightarrow> p = Null" "Null = ptr_plus p n \<longleftrightarrow> p = Null"
  by (cases p; simp)+

lemma mem_get_block:
  "blocks m b = Some bs \<Longrightarrow> off + i < length bs \<Longrightarrow> mem_get m (Ptr b off) i = ret (bs ! (off + i))"
  by (simp add: mem_get_def mem_range_def)

lemma mem_set_block:
  "blocks m b = Some bs \<Longrightarrow> off + i < length bs \<Longrightarrow>
    mem_set m (Ptr b off) i x = ret (with_block m b (bs[off + i := x]))"
  by (simp add: mem_set_def mem_range_def)

lemma mem_load_block:
  "blocks m b = Some bs \<Longrightarrow> off + n \<le> length bs \<Longrightarrow> mem_load m (Ptr b off) n = ret (take n (drop off bs))"
  by (simp add: mem_load_def mem_range_def)

lemma mem_store_block:
  "blocks m b = Some bs \<Longrightarrow> off + length xs \<le> length bs \<Longrightarrow>
    mem_store m (Ptr b off) xs = ret (with_block m b (take off bs @ xs @ drop (off + length xs) bs))"
  by (simp add: mem_store_def mem_range_def)

text \<open>What a successful load says of the memory, and the bytes one by one.\<close>

lemma mem_load_retE:
  assumes "mem_load m p n = ret xs"
  obtains b off bs where "p = Ptr b off" "blocks m b = Some bs" "off + n \<le> length bs"
    "xs = take n (drop off bs)" "length xs = n"
  using assms
  by (auto simp: mem_load_def mem_range_def require_def split: ptr.splits option.splits if_splits)

lemma mem_get_load:
  assumes "mem_load m p n = ret xs" and "i < n"
  shows "mem_get m p i = ret (xs ! i)"
  using assms by (elim mem_load_retE) (simp add: mem_get_block)

lemma mem_load_prefix:
  assumes "mem_load m p n = ret xs" and "off + k \<le> n"
  shows "mem_load m (ptr_plus p off) k = ret (take k (drop off xs))"
  using assms by (elim mem_load_retE) (simp add: mem_load_block take_drop drop_drop min_def add.commute)

text \<open>The block of a pointer; a load from another block does not see a store.\<close>

definition ptr_block :: "ptr \<Rightarrow> nat option" where
  "ptr_block p = (case p of Null \<Rightarrow> None | Ptr b off \<Rightarrow> Some b)"

lemma ptr_block_simps [simp]: "ptr_block Null = None" "ptr_block (Ptr b off) = Some b"
  by (simp_all add: ptr_block_def)

lemma mem_load_other [simp]:
  "ptr_block p \<noteq> Some b \<Longrightarrow> mem_load (with_block m b bs) p n = mem_load m p n"
  by (cases p) (simp_all add: mem_load_def mem_range_def)

lemma new_block_simps [simp]:
  "blocks (fst (mem_new_block m bs)) (next_block m) = Some bs"
  "snd (mem_new_block m bs) = Ptr (next_block m) 0"
  "c \<noteq> next_block m \<Longrightarrow> blocks (fst (mem_new_block m bs)) c = blocks m c"
  by (simp_all add: mem_new_block_def)

text \<open>A memory is sane if the blocks it will hand out next are not in use.\<close>

definition mem_ok :: "mem \<Rightarrow> bool" where
  "mem_ok m \<longleftrightarrow> (\<forall>b \<ge> next_block m. blocks m b = None)"

lemma mem_ok_fresh: "mem_ok m \<Longrightarrow> blocks m b = Some bs \<Longrightarrow> b \<noteq> next_block m"
  by (auto simp: mem_ok_def)

lemma mem_ok_new_block [simp]: "mem_ok m \<Longrightarrow> mem_ok (fst (mem_new_block m bs))"
  by (simp add: mem_ok_def mem_new_block_def)

lemma mem_ok_with_block [simp]: "mem_ok m \<Longrightarrow> blocks m b \<noteq> None \<Longrightarrow> mem_ok (with_block m b bs)"
  by (auto simp: mem_ok_def with_block_def)

lemma mem_load_new_block:
  "mem_ok m \<Longrightarrow> mem_load m p n = ret xs \<Longrightarrow> mem_load (fst (mem_new_block m bs)) p n = ret xs"
  by (elim mem_load_retE) (auto simp: mem_load_block dest: mem_ok_fresh)

section \<open>Ownership of one block\<close>

text \<open>From \<open>m\<close> to \<open>m'\<close> the object at \<open>p\<close> may have changed or moved to \<open>p'\<close>, into a fresh block and releasing the old one;
  all other blocks are as they were.\<close>

definition only_moves :: "mem \<Rightarrow> ptr \<Rightarrow> mem \<Rightarrow> ptr \<Rightarrow> bool" where
  "only_moves m p m' p' \<longleftrightarrow> (\<forall>c. ptr_block p \<noteq> Some c \<longrightarrow> ptr_block p' \<noteq> Some c \<longrightarrow> blocks m' c = blocks m c) \<and>
     (ptr_block p' = ptr_block p \<or>
      (\<forall>c. ptr_block p' = Some c \<longrightarrow> blocks m c = None) \<and> (\<forall>c. ptr_block p = Some c \<longrightarrow> blocks m' c = None))"

text \<open>The memory \<open>m\<close> has the blocks of \<open>m0\<close>, and one more at \<open>p\<close>.\<close>

definition holds_only :: "mem \<Rightarrow> mem \<Rightarrow> ptr \<Rightarrow> bool" where
  "holds_only m0 m p \<longleftrightarrow> (\<forall>c. if ptr_block p = Some c then blocks m0 c = None else blocks m c = blocks m0 c)"

lemma only_movesD:
  assumes "only_moves m p m' p'" "ptr_block p \<noteq> Some c" "blocks m c = Some bs"
  shows "blocks m' c = Some bs" "ptr_block p' \<noteq> Some c"
  using assms unfolding only_moves_def by (metis option.distinct(1))+

lemma only_moves_same [simp]: "(\<And>c. ptr_block p \<noteq> Some c \<Longrightarrow> blocks m' c = blocks m c) \<Longrightarrow> only_moves m p m' p"
  by (simp add: only_moves_def)

lemma only_moves_trans:
  assumes "only_moves m p m1 p1" "only_moves m1 p1 m2 p2" shows "only_moves m p m2 p2"
proof -
  have "blocks m2 c = blocks m c" if "ptr_block p \<noteq> Some c" "ptr_block p2 \<noteq> Some c" for c
    using that assms unfolding only_moves_def by (cases "ptr_block p1 = Some c") metis+
  moreover have "ptr_block p2 = ptr_block p \<or> (\<forall>c. ptr_block p2 = Some c \<longrightarrow> blocks m c = None) \<and>
      (\<forall>c. ptr_block p = Some c \<longrightarrow> blocks m2 c = None)"
    using assms unfolding only_moves_def by metis
  ultimately show ?thesis unfolding only_moves_def by blast
qed

text \<open>A block that is there for a while.\<close>

lemma only_moves_temporary:
  assumes "only_moves m1 p m2 p'" "blocks m c = None" "blocks m1 c \<noteq> None" "ptr_block p \<noteq> Some c"
    and "\<And>d. d \<noteq> c \<Longrightarrow> blocks m1 d = blocks m d"
  shows "only_moves m p (m2\<lparr>blocks := (blocks m2)(c := None)\<rparr>) p'"
proof -
  have "ptr_block p' \<noteq> Some c" using only_movesD(2) [OF assms(1,4)] assms(3) by blast
  then show ?thesis using assms unfolding only_moves_def by auto
qed

lemma holds_only_moves:
  assumes "holds_only m0 m p" "only_moves m p m' p'" shows "holds_only m0 m' p'"
  using assms unfolding holds_only_def only_moves_def by metis

lemma holds_onlyD:
  assumes "holds_only m0 m p" "blocks m0 c = Some bs"
  shows "blocks m c = Some bs" "ptr_block p \<noteq> Some c"
  using assms unfolding holds_only_def by (metis option.distinct(1))+

text \<open>Once that block is released the memory is as it was.\<close>

lemma holds_only_free:
  assumes "holds_only m0 m (Ptr c 0)" "blocks m c = Some bs"
  shows "\<exists>m'. c_free m (Ptr c 0) = ret m' \<and> blocks m' = blocks m0"
  using assms by (auto simp: c_free_def holds_only_def fun_eq_iff)

end
