(* ===== verification/Str.thy ===== *)
theory Str
  imports Mem
begin

text \<open>
  Strings with a length: \<open>src/include/a3/str.h\<close>, \<open>src/str.c\<close> and the \<open>memmem\<close> shim of
  \<open>src/shim/memmem/missing.c\<close>. Every function that touches bytes takes and returns the memory
  of \<open>Mem\<close>. \<open>A3CString\<close> differs from \<open>A3String\<close> only by \<open>const\<close>.

  Parameters: \<open>ok\<close> is the success of the allocation a call makes; \<open>digits\<close> in
  \<open>a3_string_itoa\<close> is \<open>(size_t)(floor(log10((double)v)) + 1.0)\<close> of the math library; \<open>search\<close> in
  \<open>a3_string_memmem_impl\<close> is the \<open>memmem\<close> the build has chosen.
\<close>

section \<open>The string type and its inline functions\<close>

record a3_string =
  s_ptr :: ptr
  s_len :: size_t

type_synonym a3_cstring = a3_string

definition a3_string_new :: "ptr \<Rightarrow> size_t \<Rightarrow> a3_string" where
  "a3_string_new p n = \<lparr>s_ptr = p, s_len = n\<rparr>"

definition a3_cstring_new :: "ptr \<Rightarrow> size_t \<Rightarrow> a3_cstring" where
  "a3_cstring_new p n = \<lparr>s_ptr = p, s_len = n\<rparr>"

definition a3_cs_mut :: "a3_cstring \<Rightarrow> a3_string" where
  "a3_cs_mut s = a3_string_new (s_ptr s) (s_len s)"

definition a3_s_const :: "a3_string \<Rightarrow> a3_cstring" where
  "a3_s_const s = \<lparr>s_ptr = s_ptr s, s_len = s_len s\<rparr>"

text \<open>\<open>A3_CS_OBJ\<close> of an object of \<open>n\<close> bytes at \<open>p\<close>.\<close>

definition a3_cs_obj :: "ptr \<Rightarrow> size_t \<Rightarrow> a3_cstring" where
  "a3_cs_obj p n = \<lparr>s_ptr = p, s_len = n\<rparr>"

definition a3_s_null :: a3_string where
  "a3_s_null = \<lparr>s_ptr = Null, s_len = 0\<rparr>"

definition a3_cs_null :: a3_cstring where
  "a3_cs_null = \<lparr>s_ptr = Null, s_len = 0\<rparr>"

text \<open>\<open>strlen\<close>: the bytes up to the first zero one, which has to be in the block.\<close>

definition c_strlen :: "mem \<Rightarrow> ptr \<Rightarrow> size_t run" where
  "c_strlen m p = (case p of
       Null \<Rightarrow> fail Null_deref
     | Ptr b off \<Rightarrow> (case blocks m b of
           None \<Rightarrow> fail Use_after_free
         | Some bs \<Rightarrow> (let xs = drop off bs in
             require (0 \<in> set xs) Out_of_bounds (ret (length (takeWhile (\<lambda>x. x \<noteq> 0) xs))))))"

definition a3_string_from :: "mem \<Rightarrow> ptr \<Rightarrow> a3_string run" where
  "a3_string_from m p =
     (if p = Null then ret a3_s_null
      else bind_run (c_strlen m p) (\<lambda>n. ret (a3_string_new p n)))"

definition a3_cstring_from :: "mem \<Rightarrow> ptr \<Rightarrow> a3_cstring run" where
  "a3_cstring_from m p = bind_run (a3_string_from m p) (\<lambda>s. ret (a3_s_const s))"

definition a3_string_offset :: "a3_string \<Rightarrow> size_t \<Rightarrow> a3_string run" where
  "a3_string_offset s off =
     assert_c (off \<le> s_len s) (ret (a3_string_new (ptr_plus (s_ptr s) off) (sz_sub (s_len s) off)))"

definition a3_string_offset_back :: "a3_string \<Rightarrow> size_t \<Rightarrow> a3_string run" where
  "a3_string_offset_back s off = (case s_ptr s of
       Null \<Rightarrow> require (off = 0) Null_deref (ret (a3_string_new Null (s_len s)))
     | Ptr b x \<Rightarrow> require (off \<le> x) Out_of_bounds
         (ret (a3_string_new (Ptr b (x - off)) (sz_add (s_len s) off))))"

definition a3_string_end :: "a3_cstring \<Rightarrow> ptr" where
  "a3_string_end s = ptr_plus (s_ptr s) (s_len s)"

section \<open>Allocation\<close>

definition a3_string_alloc :: "mem \<Rightarrow> bool \<Rightarrow> size_t \<Rightarrow> mem \<times> a3_string" where
  "a3_string_alloc m ok n =
     (let (m', p) = c_calloc m ok (sz_add n 1) in (m', \<lparr>s_ptr = p, s_len = n\<rparr>))"

text \<open>Returns the memory, \<open>*this\<close> as it is left, and the new string.\<close>

definition a3_string_realloc :: "mem \<Rightarrow> bool \<Rightarrow> a3_string \<Rightarrow> size_t \<Rightarrow> (mem \<times> a3_string \<times> a3_string) run" where
  "a3_string_realloc m ok s n =
     bind_run (c_realloc m ok (s_ptr s) (sz_add n 1)) (\<lambda>(m1, p).
     bind_run (mem_set m1 p n 0) (\<lambda>m2.
       ret (m2, s\<lparr>s_ptr := Null, s_len := 0\<rparr>, \<lparr>s_ptr = p, s_len = n\<rparr>)))"

text \<open>\<open>A3_CS\<close> of an array of \<open>n\<close> bytes at \<open>p\<close>, the last of which is the zero byte of a literal.\<close>

definition a3_cs :: "ptr \<Rightarrow> size_t \<Rightarrow> a3_cstring" where
  "a3_cs p n = \<lparr>s_ptr = p, s_len = sz_sub n 1\<rparr>"

text \<open>\<open>A3_S_FORMAT\<close>: the precision, the length as an \<open>int\<close> of 32 bits, and the pointer.\<close>

definition c_int :: "size_t \<Rightarrow> int" where
  "c_int n = (int n + 2 ^ 31) mod 2 ^ 32 - 2 ^ 31"

definition a3_s_format :: "a3_cstring \<Rightarrow> int \<times> ptr" where
  "a3_s_format s = (c_int (s_len s), s_ptr s)"

definition a3_string_free :: "mem \<Rightarrow> a3_string \<Rightarrow> (mem \<times> a3_string) run" where
  "a3_string_free m s =
     assert_c (s_ptr s \<noteq> Null)
       (bind_run (c_free m (s_ptr s)) (\<lambda>m'. ret (m', s\<lparr>s_ptr := Null, s_len := 0\<rparr>)))"

section \<open>Copying\<close>

definition a3_string_copy :: "mem \<Rightarrow> a3_string \<Rightarrow> a3_cstring \<Rightarrow> mem run" where
  "a3_string_copy m dst src =
     (if s_ptr dst = Null \<or> s_ptr src = Null \<or> s_ptr dst = s_ptr src then ret m
      else c_memcpy m (s_ptr dst) (s_ptr src) (min (s_len dst) (s_len src)))"

definition a3_string_clone :: "mem \<Rightarrow> bool \<Rightarrow> a3_cstring \<Rightarrow> (mem \<times> a3_string) run" where
  "a3_string_clone m ok other =
     (if s_ptr other = Null then ret (m, a3_s_null)
      else (let (m1, r) = a3_string_alloc m ok (s_len other) in
            bind_run (a3_string_copy m1 r other) (\<lambda>m2. ret (m2, r))))"

text \<open>The loop of \<open>a3_string_concat\<close> over the arguments still to be read.\<close>

fun concat_loop :: "mem \<Rightarrow> a3_string \<Rightarrow> size_t \<Rightarrow> a3_cstring list \<Rightarrow> mem run" where
  "concat_loop m dst offset [] = ret m"
| "concat_loop m dst offset (arg # args) =
     (if offset < s_len dst then
        bind_run (a3_string_offset dst offset) (\<lambda>d.
        bind_run (a3_string_copy m d arg) (\<lambda>m'.
          concat_loop m' dst (sz_add offset (s_len arg)) args))
      else ret m)"

definition a3_string_concat :: "mem \<Rightarrow> a3_string \<Rightarrow> a3_cstring list \<Rightarrow> mem run" where
  "a3_string_concat m dst args = assert_c (s_ptr dst \<noteq> Null) (concat_loop m dst 0 args)"

section \<open>In-place transformation\<close>

definition reverse_step :: "a3_string \<Rightarrow> nat \<Rightarrow> mem \<Rightarrow> mem run" where
  "reverse_step s i m =
     (let j = sz_sub (sz_sub (s_len s) 1) i in
      bind_run (mem_get m (s_ptr s) i) (\<lambda>tmp.
      bind_run (mem_get m (s_ptr s) j) (\<lambda>x.
      bind_run (mem_set m (s_ptr s) i x) (\<lambda>m1. mem_set m1 (s_ptr s) j tmp))))"

definition a3_string_reverse :: "mem \<Rightarrow> a3_string \<Rightarrow> mem run" where
  "a3_string_reverse m s = for_run [0..<s_len s div 2] (reverse_step s) m"

text \<open>\<open>tolower\<close> and \<open>isascii\<close> of the C locale.\<close>

definition c_tolower :: "u8 \<Rightarrow> u8" where
  "c_tolower c = (if 65 \<le> c \<and> c \<le> 90 then c + 32 else c)"

definition c_isascii :: "u8 \<Rightarrow> bool" where
  "c_isascii c = (c < 128)"

function lowercase_loop :: "mem \<Rightarrow> a3_string \<Rightarrow> nat \<Rightarrow> mem run" where
  "lowercase_loop m s i =
     (if i < s_len s then
        bind_run (mem_get m (s_ptr s) i) (\<lambda>c.
          if c \<noteq> 0 then bind_run (mem_set m (s_ptr s) i (c_tolower c)) (\<lambda>m'. lowercase_loop m' s (i + 1))
          else ret m)
      else ret m)"
  by pat_completeness auto
termination
  by (relation "measure (\<lambda>(m, s, i). s_len s - i)") auto

declare lowercase_loop.simps [simp del]

definition a3_string_lowercase :: "mem \<Rightarrow> a3_string \<Rightarrow> mem run" where
  "a3_string_lowercase m s = lowercase_loop m s 0"

definition a3_string_to_lowercase :: "mem \<Rightarrow> bool \<Rightarrow> a3_cstring \<Rightarrow> (mem \<times> a3_string) run" where
  "a3_string_to_lowercase m ok s =
     bind_run (a3_string_clone m ok s) (\<lambda>(m1, r).
     bind_run (a3_string_lowercase m1 r) (\<lambda>m2. ret (m2, r)))"

section \<open>Printing numbers\<close>

definition digit_char :: "nat \<Rightarrow> u8" where
  "digit_char d = of_nat (48 + d)"

function itoa_loop :: "mem \<Rightarrow> a3_string \<Rightarrow> nat \<Rightarrow> size_t \<Rightarrow> (mem \<times> nat) run" where
  "itoa_loop m dst i v =
     bind_run (mem_set m (s_ptr dst) i (digit_char (v mod 10))) (\<lambda>m'.
       if i + 1 \<le> s_len dst \<and> v div 10 \<noteq> 0 then itoa_loop m' dst (i + 1) (v div 10)
       else ret (m', i + 1))"
  by pat_completeness auto
termination
  by (relation "measure (\<lambda>(m, dst, i, v). v)") auto

declare itoa_loop.simps [simp del]

definition a3_string_itoa_into :: "mem \<Rightarrow> a3_string \<Rightarrow> size_t \<Rightarrow> (mem \<times> a3_string) run" where
  "a3_string_itoa_into m dst v =
     bind_run (itoa_loop m dst 0 v) (\<lambda>(m1, i).
       let r = \<lparr>s_ptr = s_ptr dst, s_len = i\<rparr> in
       bind_run (a3_string_reverse m1 r) (\<lambda>m2. ret (m2, r)))"

definition a3_string_itoa ::
  "(size_t \<Rightarrow> size_t) \<Rightarrow> mem \<Rightarrow> bool \<Rightarrow> size_t \<Rightarrow> (mem \<times> a3_string) run" where
  "a3_string_itoa digits m ok v =
     (let (m1, dst) = a3_string_alloc m ok (if 0 < v then digits v else 1)
      in a3_string_itoa_into m1 dst v)"

section \<open>Inspection\<close>

function isascii_loop :: "mem \<Rightarrow> a3_cstring \<Rightarrow> nat \<Rightarrow> bool run" where
  "isascii_loop m s i =
     (if i < s_len s then
        bind_run (mem_get m (s_ptr s) i) (\<lambda>c. if \<not> c_isascii c then ret False else isascii_loop m s (i + 1))
      else ret True)"
  by pat_completeness auto
termination
  by (relation "measure (\<lambda>(m, s, i). s_len s - i)") auto

declare isascii_loop.simps [simp del]

definition a3_string_isascii :: "mem \<Rightarrow> a3_cstring \<Rightarrow> bool run" where
  "a3_string_isascii m s = assert_c (s_ptr s \<noteq> Null) (isascii_loop m s 0)"

text \<open>
  \<open>strncmp\<close> (with \<open>f\<close> the identity) and \<open>strncasecmp\<close> (with \<open>f\<close> \<open>tolower\<close>): bytes are compared
  as unsigned numbers up to a difference, a zero byte or \<open>n\<close>; only the sign of the result is
  specified, so the model returns the sign.
\<close>

function c_strncmp :: "(u8 \<Rightarrow> u8) \<Rightarrow> mem \<Rightarrow> ptr \<Rightarrow> ptr \<Rightarrow> size_t \<Rightarrow> nat \<Rightarrow> int run" where
  "c_strncmp f m p q n i =
     (if i < n then
        bind_run (mem_get m p i) (\<lambda>a.
        bind_run (mem_get m q i) (\<lambda>b.
          if f a \<noteq> f b then ret (sgn (uint (f a) - uint (f b)))
          else if a = 0 then ret 0
          else c_strncmp f m p q n (i + 1)))
      else ret 0)"
  by pat_completeness auto
termination
  by (relation "measure (\<lambda>(f, m, p, q, n, i). n - i)") auto

declare c_strncmp.simps [simp del]

definition a3_shim_strncasecmp :: "mem \<Rightarrow> ptr \<Rightarrow> ptr \<Rightarrow> size_t \<Rightarrow> int run" where
  "a3_shim_strncasecmp m p q n = c_strncmp c_tolower m p q n 0"

text \<open>The shim for Windows calls \<open>_strnicmp\<close>.\<close>

definition a3_shim_strncasecmp_ms :: "(mem \<Rightarrow> ptr \<Rightarrow> ptr \<Rightarrow> size_t \<Rightarrow> int run) \<Rightarrow> mem \<Rightarrow> ptr \<Rightarrow> ptr \<Rightarrow> size_t \<Rightarrow> int run" where
  "a3_shim_strncasecmp_ms strnicmp m p q n = strnicmp m p q n"

definition a3_string_cmp :: "mem \<Rightarrow> a3_cstring \<Rightarrow> a3_cstring \<Rightarrow> int run" where
  "a3_string_cmp m l r =
     assert_c (s_ptr l \<noteq> Null \<and> s_ptr r \<noteq> Null)
       (if s_len l \<noteq> s_len r then ret (- 1) else c_strncmp (\<lambda>x. x) m (s_ptr l) (s_ptr r) (s_len l) 0)"

definition a3_string_cmpi :: "mem \<Rightarrow> a3_cstring \<Rightarrow> a3_cstring \<Rightarrow> int run" where
  "a3_string_cmpi m l r =
     assert_c (s_ptr l \<noteq> Null \<and> s_ptr r \<noteq> Null)
       (if s_len l \<noteq> s_len r then ret (- 1)
        else a3_shim_strncasecmp m (s_ptr l) (s_ptr r) (s_len l))"

function rchr_loop :: "mem \<Rightarrow> a3_cstring \<Rightarrow> u8 \<Rightarrow> nat \<Rightarrow> a3_cstring run" where
  "rchr_loop m s c i =
     bind_run (mem_get m (s_ptr s) i) (\<lambda>x.
       if x = c then ret \<lparr>s_ptr = ptr_plus (s_ptr s) i, s_len = sz_sub (s_len s) i\<rparr>
       else if i = 0 then ret a3_cs_null
       else rchr_loop m s c (i - 1))"
  by pat_completeness auto
termination
  by (relation "measure (\<lambda>(m, s, c, i). i)") auto

declare rchr_loop.simps [simp del]

definition a3_string_rchr :: "mem \<Rightarrow> a3_cstring \<Rightarrow> u8 \<Rightarrow> a3_cstring run" where
  "a3_string_rchr m s c = assert_c (s_ptr s \<noteq> Null) (rchr_loop m s c (sz_sub (s_len s) 1))"

text \<open>The fallback \<open>memmem\<close>: \<open>i\<close> is the distance of \<open>sp\<close> from \<open>haystack\<close>.\<close>

function memmem_loop :: "mem \<Rightarrow> ptr \<Rightarrow> size_t \<Rightarrow> ptr \<Rightarrow> size_t \<Rightarrow> nat \<Rightarrow> ptr run" where
  "memmem_loop m h hn q qn i =
     (if i + qn < hn then
        bind_run (c_memcmp_eq m (ptr_plus h i) q qn) (\<lambda>eq.
          if eq then ret (ptr_plus h i) else memmem_loop m h hn q qn (i + 1))
      else ret Null)"
  by pat_completeness auto
termination
  by (relation "measure (\<lambda>(m, h, hn, q, qn, i). hn - i)") auto

declare memmem_loop.simps [simp del]

definition a3_shim_memmem :: "mem \<Rightarrow> ptr \<Rightarrow> size_t \<Rightarrow> ptr \<Rightarrow> size_t \<Rightarrow> ptr run" where
  "a3_shim_memmem m h hn q qn =
     (if h = Null \<or> hn = 0 \<or> q = Null \<or> qn = 0 then ret Null else memmem_loop m h hn q qn 0)"

type_synonym memmem_fn = "mem \<Rightarrow> ptr \<Rightarrow> size_t \<Rightarrow> ptr \<Rightarrow> size_t \<Rightarrow> ptr run"

definition a3_string_memmem :: "memmem_fn \<Rightarrow> mem \<Rightarrow> a3_cstring \<Rightarrow> a3_cstring \<Rightarrow> a3_cstring run" where
  "a3_string_memmem search m h q =
     assert_c (s_ptr h \<noteq> Null) (assert_c (s_ptr q \<noteq> Null) (assert_c (0 < s_len q)
       (if s_len h < s_len q then ret a3_cs_null
        else bind_run (search m (s_ptr h) (s_len h) (s_ptr q) (s_len q)) (\<lambda>p.
               ret \<lparr>s_ptr = p, s_len = s_len q\<rparr>))))"

end
