(* ===== verification/Str_Lemmas.thy ===== *)
theory Str_Lemmas
  imports Str
begin

text \<open>
  What the string functions do to the bytes: each lemma describes one function by the block
  (\<open>pre @ xs @ post\<close>, the string being the \<open>xs\<close> in the middle) or by the byte list a string
  loads to.
\<close>

section \<open>Reversal\<close>

text \<open>The list after \<open>i\<close> rounds of the swap loop.\<close>

definition swapped :: "'a list \<Rightarrow> nat \<Rightarrow> 'a list" where
  "swapped xs i = map (\<lambda>j. if j < i \<or> length xs - 1 - j < i then xs ! (length xs - 1 - j) else xs ! j)
     [0..<length xs]"

lemma swapped_length [simp]: "length (swapped xs i) = length xs"
  by (simp add: swapped_def)

lemma swapped_nth: "j < length xs \<Longrightarrow> swapped xs i ! j =
    (if j < i \<or> length xs - 1 - j < i then xs ! (length xs - 1 - j) else xs ! j)"
  by (simp add: swapped_def)

lemma swapped_0: "swapped xs 0 = xs"
  by (rule nth_equalityI) (simp_all add: swapped_nth)

lemma swapped_half: "swapped xs (length xs div 2) = rev xs"
proof (rule nth_equalityI)
  fix j assume "j < length (swapped xs (length xs div 2))"
  then have j: "j < length xs" by simp
  show "swapped xs (length xs div 2) ! j = rev xs ! j"
  proof (cases "j < length xs div 2 \<or> length xs - 1 - j < length xs div 2")
    case True
    then show ?thesis using j by (simp add: swapped_nth rev_nth)
  next
    case False
    then have "length xs - Suc j = j" using j by linarith
    moreover have "swapped xs (length xs div 2) ! j = xs ! j" using j False by (subst swapped_nth) auto
    ultimately show ?thesis using j by (simp add: rev_nth)
  qed
qed simp

lemma swapped_Suc:
  assumes "i < length xs div 2"
  shows "(swapped xs i)[i := swapped xs i ! (length xs - 1 - i), length xs - 1 - i := swapped xs i ! i]
    = swapped xs (Suc i)"
proof (rule nth_equalityI)
  fix j assume "j < length ((swapped xs i)[i := swapped xs i ! (length xs - 1 - i),
    length xs - 1 - i := swapped xs i ! i])"
  then have j: "j < length xs" by simp
  consider "j = i" | "j = length xs - 1 - i" "j \<noteq> i" | "j \<noteq> i" "j \<noteq> length xs - 1 - i" by blast
  then show "(swapped xs i)[i := swapped xs i ! (length xs - 1 - i),
      length xs - 1 - i := swapped xs i ! i] ! j = swapped xs (Suc i) ! j"
  proof cases
    case 2
    have *: "length xs - 1 - (length xs - 1 - i) = i" "\<not> i < i" "\<not> length xs - 1 - i < i" using assms by linarith+
    have "swapped xs i ! i = xs ! i" using assms * by (subst swapped_nth) auto
    moreover have "swapped xs (Suc i) ! (length xs - 1 - i) = xs ! i"
      using assms * by (subst swapped_nth) auto
    ultimately show ?thesis using 2 assms by simp
  next
    case 3
    then have "(j < i \<or> length xs - 1 - j < i) = (j < Suc i \<or> length xs - 1 - j < Suc i)" using j by linarith
    then show ?thesis using 3 j by (simp add: swapped_nth)
  qed (use assms j in \<open>auto simp: swapped_nth\<close>)
qed simp

lemma reverse_correct:
  assumes "blocks m b = Some (pre @ xs @ post)" and "length xs < size_mod"
  shows "a3_string_reverse m \<lparr>s_ptr = Ptr b (length pre), s_len = length xs\<rparr>
    = ret (with_block m b (pre @ rev xs @ post))"
proof -
  let ?s = "\<lparr>s_ptr = Ptr b (length pre), s_len = length xs\<rparr>"
  let ?P = "\<lambda>i m'. m' = with_block m b (pre @ swapped xs i @ post)"
  have "\<exists>m'. for_run [0..<length xs div 2] (reverse_step ?s) m = ret m' \<and> ?P (length xs div 2) m'"
  proof (rule for_run_upt_rule [where P = ?P])
    show "?P 0 m" using assms(1) by (simp add: swapped_0)
  next
    fix i m1 assume i: "i < length xs div 2" and m1: "?P i m1"
    have j: "sz_sub (sz_sub (length xs) 1) i = length xs - 1 - i"
      using i assms(2) by simp
    let ?ys = "swapped xs i" and ?j = "length xs - 1 - i"
    have "reverse_step ?s i m1 = ret (with_block m b (pre @ ?ys[i := ?ys ! ?j, ?j := ?ys ! i] @ post))"
      using i m1 j
      by (simp add: reverse_step_def Let_def mem_get_block mem_set_block nth_append list_update_append)
    then show "\<exists>m2. reverse_step ?s i m1 = ret m2 \<and> ?P (Suc i) m2"
      using swapped_Suc [OF i] by simp
  qed simp
  then show ?thesis by (simp add: a3_string_reverse_def swapped_half)
qed

section \<open>Lowercase\<close>

definition lower_cstr :: "u8 list \<Rightarrow> u8 list" where
  "lower_cstr xs = map c_tolower (takeWhile (\<lambda>x. x \<noteq> 0) xs) @ dropWhile (\<lambda>x. x \<noteq> 0) xs"

lemma lower_cstr_simps [simp]:
  "lower_cstr [] = []"
  "lower_cstr (x # xs) = (if x = 0 then x # xs else c_tolower x # lower_cstr xs)"
  by (simp_all add: lower_cstr_def)

lemma lowercase_loop_correct:
  assumes "blocks m b = Some (pre @ ys @ xs @ post)"
  shows "lowercase_loop m \<lparr>s_ptr = Ptr b (length pre), s_len = length ys + length xs\<rparr> (length ys)
    = ret (with_block m b (pre @ ys @ lower_cstr xs @ post))"
  using assms
proof (induction xs arbitrary: m ys)
  case Nil
  then show ?case by (subst lowercase_loop.simps) simp
next
  case (Cons x xs)
  let ?s = "\<lparr>s_ptr = Ptr b (length pre), s_len = length ys + length (x # xs)\<rparr>"
  let ?m = "with_block m b (pre @ ys @ c_tolower x # xs @ post)"
  have get: "mem_get m (Ptr b (length pre)) (length ys) = ret x"
    using Cons.prems by (simp add: mem_get_block nth_append)
  have set: "mem_set m (Ptr b (length pre)) (length ys) (c_tolower x) = ret ?m"
    using Cons.prems by (simp add: mem_set_block list_update_append)
  have "lowercase_loop ?m ?s (length (ys @ [c_tolower x]))
      = ret (with_block ?m b (pre @ (ys @ [c_tolower x]) @ lower_cstr xs @ post))"
    using Cons.IH [of ?m "ys @ [c_tolower x]"] by simp
  then show ?case
    using get set Cons.prems by (subst lowercase_loop.simps) simp
qed

lemma lowercase_correct:
  assumes "blocks m b = Some (pre @ xs @ post)"
  shows "a3_string_lowercase m \<lparr>s_ptr = Ptr b (length pre), s_len = length xs\<rparr>
    = ret (with_block m b (pre @ lower_cstr xs @ post))"
  using lowercase_loop_correct [of m b pre "[]" xs post] assms by (simp add: a3_string_lowercase_def)

section \<open>Decimal digits\<close>

fun dec_digits :: "nat \<Rightarrow> nat list" where
  "dec_digits v = (v mod 10) # (if v div 10 = 0 then [] else dec_digits (v div 10))"

declare dec_digits.simps [simp del]

text \<open>The decimal text of a number, and the number a text of digits stands for.\<close>

definition dec_text :: "nat \<Rightarrow> u8 list" where
  "dec_text v = rev (map digit_char (dec_digits v))"

definition dec_value :: "u8 list \<Rightarrow> nat" where
  "dec_value xs = foldl (\<lambda>a c. 10 * a + (unat c - 48)) 0 xs"

lemma dec_digits_length_pos [simp]: "0 < length (dec_digits v)"
  by (subst dec_digits.simps) simp

lemma dec_digits_length_le: "0 < n \<Longrightarrow> v < 10 ^ n \<Longrightarrow> length (dec_digits v) \<le> n"
proof (induction n arbitrary: v)
  case (Suc n)
  show ?case
  proof (cases "v div 10 = 0")
    case True
    then show ?thesis by (subst dec_digits.simps) simp
  next
    case False
    moreover from this have "0 < n" using Suc.prems(2) by (cases n) simp_all
    moreover have "v div 10 < 10 ^ n" using Suc.prems(2) by (simp add: less_mult_imp_div_less mult.commute)
    ultimately show ?thesis using Suc.IH [of "v div 10"] by (subst dec_digits.simps) simp
  qed
qed simp

lemma digit_char_value: "d < 10 \<Longrightarrow> unat (digit_char d) = 48 + d"
proof -
  assume d: "d < 10"
  have "unat (of_nat (48 + d) :: u8) = (48 + d) mod 2 ^ 8" by (subst unat_of_nat) simp
  also have "\<dots> = 48 + d" using d by simp
  finally show ?thesis by (simp only: digit_char_def)
qed

lemma dec_text_step:
  "dec_text v = (if v div 10 = 0 then [] else dec_text (v div 10)) @ [digit_char (v mod 10)]"
  unfolding dec_text_def by (subst dec_digits.simps) simp

lemma dec_value_text: "dec_value (dec_text v) = v"
proof (induction v rule: dec_digits.induct)
  case (1 v)
  have snoc: "dec_value (xs @ [digit_char (v mod 10)]) = 10 * dec_value xs + v mod 10" for xs
    by (simp add: dec_value_def digit_char_value)
  show ?case
  proof (cases "v div 10 = 0")
    case True
    then have "dec_text v = [] @ [digit_char (v mod 10)]" by (subst dec_text_step) simp
    moreover have "v mod 10 = v" using True by simp
    ultimately show ?thesis using snoc [of "[]"] by (simp only: dec_value_def foldl.simps)
  next
    case False
    then have "dec_text v = dec_text (v div 10) @ [digit_char (v mod 10)]" by (subst dec_text_step) simp
    then show ?thesis using snoc 1 [OF False] by simp
  qed
qed

lemma dec_text_head: "0 < v \<Longrightarrow> hd (dec_text v) \<noteq> digit_char 0"
proof (induction v rule: dec_digits.induct)
  case (1 v)
  show ?case
  proof (cases "v div 10 = 0")
    case True
    then have "dec_text v = [digit_char v]" by (subst dec_text_step) simp
    moreover have "unat (digit_char v) \<noteq> unat (digit_char 0)" using True 1(2) by (simp add: digit_char_value)
    ultimately show ?thesis by auto
  next
    case False
    then have "dec_text (v div 10) \<noteq> []" by (subst dec_text_step) simp
    then show ?thesis using 1 False by (subst dec_text_step) simp
  qed
qed

lemma itoa_loop_correct:
  assumes "blocks m b = Some (pre @ ys @ post)" and "length (dec_digits v) \<le> length post"
    and "length ys + length (dec_digits v) \<le> n + 1"
  shows "itoa_loop m \<lparr>s_ptr = Ptr b (length pre), s_len = n\<rparr> (length ys) v =
    ret (with_block m b (pre @ ys @ map digit_char (dec_digits v) @ drop (length (dec_digits v)) post),
      length ys + length (dec_digits v))"
  using assms
proof (induction v arbitrary: m ys post rule: dec_digits.induct)
  case (1 v)
  obtain c post' where post: "post = c # post'" using 1(3) dec_digits_length_pos [of v] by (cases post) auto
  let ?d = "digit_char (v mod 10)" and ?s = "\<lparr>s_ptr = Ptr b (length pre), s_len = n\<rparr>"
  let ?m = "with_block m b (pre @ (ys @ [?d]) @ post')"
  have set: "mem_set m (Ptr b (length pre)) (length ys) ?d = ret ?m"
    using 1(2) post by (simp add: mem_set_block list_update_append)
  show ?case
  proof (cases "v div 10 = 0")
    case True
    then have "dec_digits v = [v mod 10]" by (subst dec_digits.simps) simp
    then show ?thesis using set True post by (subst itoa_loop.simps) simp
  next
    case False
    then have d: "dec_digits v = (v mod 10) # dec_digits (v div 10)" by (subst dec_digits.simps) simp
    have "itoa_loop ?m ?s (length (ys @ [?d])) (v div 10) =
      ret (with_block ?m b (pre @ (ys @ [?d]) @ map digit_char (dec_digits (v div 10)) @ drop (length (dec_digits (v div 10))) post'),
        length (ys @ [?d]) + length (dec_digits (v div 10)))"
      using 1(3,4) d post by (intro 1(1) [OF False]) simp_all
    moreover have "length (dec_digits v) = Suc (length (dec_digits (v div 10)))" using d by simp
    then have "length ys + 1 \<le> n" using 1(4) dec_digits_length_pos [of "v div 10"] by linarith
    ultimately show ?thesis using set False post d by (subst itoa_loop.simps) simp
  qed
qed

lemma dec_digits_length_gt: "10 ^ n \<le> v \<Longrightarrow> n < length (dec_digits v)"
proof (induction n arbitrary: v)
  case (Suc n)
  have "10 * 10 ^ n \<le> v" using Suc.prems by simp
  then have le: "10 ^ n \<le> v div 10" by (simp add: less_eq_div_iff_mult_less_eq mult.commute)
  then have "v div 10 \<noteq> 0" by (metis le_0_eq power_not_zero zero_neq_numeral)
  then show ?case using Suc.IH [OF le] by (subst dec_digits.simps) simp
qed (subst dec_digits.simps, simp)

lemma itoa_loop_overflow:
  assumes "blocks m b = Some (pre @ ys @ post)" and "length post < length (dec_digits v)"
  shows "itoa_loop m \<lparr>s_ptr = Ptr b (length pre), s_len = length ys + length post\<rparr> (length ys) v = fail Out_of_bounds"
  using assms
proof (induction post arbitrary: m ys v)
  case Nil
  then show ?case by (subst itoa_loop.simps) (simp add: mem_set_def mem_range_def)
next
  case (Cons c post)
  let ?d = "digit_char (v mod 10)"
  let ?m = "with_block m b (pre @ (ys @ [?d]) @ post)"
  have set: "mem_set m (Ptr b (length pre)) (length ys) ?d = ret ?m"
    using Cons.prems by (simp add: mem_set_block list_update_append)
  have nz: "v div 10 \<noteq> 0"
  proof
    assume "v div 10 = 0"
    then have "dec_digits v = [v mod 10]" by (subst dec_digits.simps) simp
    then show False using Cons.prems(2) by simp
  qed
  then have "dec_digits v = (v mod 10) # dec_digits (v div 10)" by (subst dec_digits.simps) simp
  then have "length post < length (dec_digits (v div 10))" using Cons.prems(2) by simp
  then have "itoa_loop ?m \<lparr>s_ptr = Ptr b (length pre), s_len = length (ys @ [?d]) + length post\<rparr>
      (length (ys @ [?d])) (v div 10) = fail Out_of_bounds"
    using Cons.IH [of ?m "ys @ [?d]" "v div 10"] by simp
  then show ?case using set nz by (subst itoa_loop.simps) simp
qed

lemma itoa_into_correct:
  assumes "blocks m b = Some (pre @ post)" and "length (dec_digits v) \<le> length post"
    and "length (dec_digits v) \<le> n + 1" and "length post < size_mod"
  shows "a3_string_itoa_into m \<lparr>s_ptr = Ptr b (length pre), s_len = n\<rparr> v =
    ret (with_block m b (pre @ dec_text v @ drop (length (dec_digits v)) post),
      \<lparr>s_ptr = Ptr b (length pre), s_len = length (dec_text v)\<rparr>)"
  using itoa_loop_correct [of m b pre "[]" post v n] assms
    reverse_correct [of "with_block m b (pre @ map digit_char (dec_digits v) @ drop (length (dec_digits v)) post)"
      b pre "map digit_char (dec_digits v)" "drop (length (dec_digits v)) post"]
  by (simp add: a3_string_itoa_into_def dec_text_def)

section \<open>Comparison\<close>

text \<open>The comparison on byte lists of equal length.\<close>

fun cmp_bytes :: "(u8 \<Rightarrow> u8) \<Rightarrow> u8 list \<Rightarrow> u8 list \<Rightarrow> int" where
  "cmp_bytes f (a # as) (b # bs) =
     (if f a \<noteq> f b then sgn (uint (f a) - uint (f b)) else if a = 0 then 0 else cmp_bytes f as bs)"
| "cmp_bytes f as bs = 0"

lemma strncmp_correct:
  assumes "mem_load m p n = ret xs" and "mem_load m q n = ret ys" and "i \<le> n"
  shows "c_strncmp f m p q n i = ret (cmp_bytes f (drop i xs) (drop i ys))"
  using assms(3)
proof (induction rule: inc_induct)
  case base
  then show ?case using assms(1,2) by (subst c_strncmp.simps) (auto elim!: mem_load_retE)
next
  case (step i)
  have len: "length xs = n" "length ys = n" using assms by (auto elim: mem_load_retE)
  then have "drop i xs = xs ! i # drop (Suc i) xs" "drop i ys = ys ! i # drop (Suc i) ys"
    using step.hyps by (simp_all add: Cons_nth_drop_Suc)
  then show ?case
    using step mem_get_load [OF assms(1)] mem_get_load [OF assms(2)]
    by (subst c_strncmp.simps) simp
qed

text \<open>The bytes a C string comparison sees: those before the first zero byte.\<close>

definition c_prefix :: "u8 list \<Rightarrow> u8 list" where
  "c_prefix xs = takeWhile (\<lambda>x. x \<noteq> 0) xs"

lemma cmp_bytes_zero_iff:
  assumes "length xs = length ys" and "\<And>a. f a = 0 \<longleftrightarrow> a = 0"
  shows "cmp_bytes f xs ys = 0 \<longleftrightarrow> map f (c_prefix xs) = map f (c_prefix ys)"
  using assms(1)
proof (induction xs ys rule: list_induct2)
  case (Cons a as b bs)
  have "sgn (uint (f a) - uint (f b)) = 0 \<longleftrightarrow> f a = f b" by (simp add: sgn_if word_uint_eq_iff)
  moreover have "f a = f b \<Longrightarrow> a = 0 \<longleftrightarrow> b = 0" using assms(2) by metis
  ultimately show ?case using Cons by (auto simp: c_prefix_def assms(2))
qed (simp add: c_prefix_def)

lemma tolower_zero_iff [simp]: "c_tolower a = 0 \<longleftrightarrow> a = 0"
proof
  assume *: "c_tolower a = 0"
  show "a = 0"
  proof (cases "65 \<le> a \<and> a \<le> 90")
    case True
    then have "65 \<le> unat a" "unat a \<le> 90" by (simp_all add: word_le_nat_alt)
    then have "unat (a + 32) = unat a + 32" by (subst unat_add_lem [THEN iffD1]) simp_all
    then show ?thesis using * True by (simp add: c_tolower_def)
  qed (use * in \<open>simp add: c_tolower_def split: if_splits\<close>)
qed (simp add: c_tolower_def)

end
