(* ===== verification/Str_Copy.thy ===== *)
theory Str_Copy
  imports Str_Lemmas
begin

text \<open>
  Allocation, copying, cloning and concatenation of strings.
\<close>

section \<open>Copying\<close>

text \<open>\<open>ds\<close> overwritten from the start by as much of \<open>ys\<close> as fits.\<close>

definition blit :: "'a list \<Rightarrow> 'a list \<Rightarrow> 'a list" where
  "blit ds ys = take (length ds) ys @ drop (length ys) ds"

lemma blit_length [simp]: "length (blit ds ys) = length ds"
  by (simp add: blit_def)

lemma blit_Nil [simp]: "blit ds [] = ds" "blit [] ys = []"
  by (simp_all add: blit_def)

lemma blit_same_length [simp]: "length ys = length ds \<Longrightarrow> blit ds ys = ys"
  by (simp add: blit_def)

lemma blit_append:
  "blit ds (xs @ ys) = (let n = min (length xs) (length ds) in
     take n (blit ds xs) @ blit (drop n (blit ds xs)) ys)"
  by (cases "length xs \<le> length ds") (simp_all add: blit_def Let_def min_def ac_simps)

lemma copy_correct:
  assumes "blocks m b = Some (pre @ ds @ post)" and "mem_load m (s_ptr src) (s_len src) = ret ys"
    and "ptr_block (s_ptr src) \<noteq> Some b" and "s_ptr dst = Ptr b (length pre)" and "s_len dst = length ds"
  shows "a3_string_copy m dst src = ret (with_block m b (pre @ blit ds ys @ post))"
proof -
  let ?n = "min (length ds) (s_len src)"
  obtain c off where src: "s_ptr src = Ptr c off" "c \<noteq> b" using assms(2,3) by (auto elim: mem_load_retE)
  have len: "length ys = s_len src" using assms(2) by (auto elim: mem_load_retE)
  have "mem_load m (s_ptr src) ?n = ret (take ?n ys)" using mem_load_prefix [OF assms(2), of 0 ?n] by simp
  moreover have "mem_store m (Ptr b (length pre)) (take ?n ys) = ret (with_block m b (pre @ blit ds ys @ post))"
    using assms(1) len by (simp add: mem_store_block blit_def min_def)
  ultimately show ?thesis using src assms(4,5)
    by (simp add: a3_string_copy_def c_memcpy_def c_memmove_def ranges_overlap_def)
qed

section \<open>Allocation and cloning\<close>

lemma alloc_correct:
  assumes "n + 1 < size_mod"
  shows "a3_string_alloc m True n =
    (fst (mem_new_block m (replicate (n + 1) 0)), \<lparr>s_ptr = Ptr (next_block m) 0, s_len = n\<rparr>)"
  using assms by (simp add: a3_string_alloc_def c_calloc_def mem_new_block_def)

lemma clone_correct:
  assumes "mem_ok m" and "mem_load m (s_ptr s) (s_len s) = ret ys" and "s_len s + 1 < size_mod"
  shows "a3_string_clone m True s =
    ret (fst (mem_new_block m (ys @ [0])), \<lparr>s_ptr = Ptr (next_block m) 0, s_len = length ys\<rparr>)"
proof -
  let ?m = "fst (mem_new_block m (replicate (s_len s + 1) 0))"
  obtain c off bs where s: "s_ptr s = Ptr c off" "blocks m c = Some bs" "length ys = s_len s"
    using assms(2) by (elim mem_load_retE) auto
  have "a3_string_copy ?m \<lparr>s_ptr = Ptr (next_block m) 0, s_len = s_len s\<rparr> s
      = ret (with_block ?m (next_block m) ([] @ blit (replicate (s_len s) 0) ys @ [0]))"
    using s mem_ok_fresh [OF assms(1) s(2)] mem_load_new_block [OF assms(1,2)]
    by (intro copy_correct) (simp_all add: replicate_append_same)
  moreover have "with_block ?m (next_block m) (ys @ [0]) = fst (mem_new_block m (ys @ [0]))"
    by (simp add: with_block_def mem_new_block_def)
  ultimately show ?thesis using s alloc_correct [OF assms(3), of m] by (simp add: a3_string_clone_def)
qed

lemma realloc_correct:
  assumes "blocks m b = Some bs" and "n + 1 < size_mod"
  shows "\<exists>m' gap. a3_string_realloc m True \<lparr>s_ptr = Ptr b 0, s_len = k\<rparr> n =
      ret (m', \<lparr>s_ptr = Null, s_len = 0\<rparr>, \<lparr>s_ptr = Ptr (next_block m) 0, s_len = n\<rparr>) \<and>
    blocks m' (next_block m) = Some (take n bs @ gap @ [0]) \<and> length (take n bs @ gap) = n \<and>
    (b \<noteq> next_block m \<longrightarrow> blocks m' b = None) \<and>
    (\<forall>c. c \<noteq> b \<and> c \<noteq> next_block m \<longrightarrow> blocks m' c = blocks m c) \<and> (mem_ok m \<longrightarrow> mem_ok m')"
proof -
  let ?new = "take (n + 1) bs @ map (fresh_byte m (next_block m)) [length bs..<n + 1]"
  let ?m1 = "fst (mem_new_block (m\<lparr>blocks := (blocks m)(b := None)\<rparr>) ?new)"
  let ?gap = "map (fresh_byte m (next_block m)) [length bs..<n]"
  let ?m2 = "with_block ?m1 (next_block m) (take n bs @ ?gap @ [0])"
  have nb: "blocks ?m1 (next_block m) = Some ?new" by (simp add: mem_new_block_def)
  have len: "length ?new = n + 1" by simp
  have "?new[n := 0] = take n ?new @ [0]"
    using len by (subst upd_conv_take_nth_drop) (simp, simp del: upt_Suc)
  also have "take n ?new = take n bs @ ?gap" by (cases "length bs \<le> n") (simp_all add: min_def)
  finally have upd: "?new[n := 0] = take n bs @ ?gap @ [0]" by simp
  have "mem_set ?m1 (Ptr (next_block m) 0) n 0 = ret ?m2"
    using mem_set_block [OF nb, of 0 n 0] len upd by simp
  moreover have "c_realloc m True (Ptr b 0) (n + 1) = ret (?m1, Ptr (next_block m) 0)"
    using assms(1) by (simp add: c_realloc_def mem_new_block_def)
  ultimately have "a3_string_realloc m True \<lparr>s_ptr = Ptr b 0, s_len = k\<rparr> n =
      ret (?m2, \<lparr>s_ptr = Null, s_len = 0\<rparr>, \<lparr>s_ptr = Ptr (next_block m) 0, s_len = n\<rparr>)"
    using assms(2) by (simp add: a3_string_realloc_def)
  moreover have "length (take n bs @ ?gap) = n" by simp
  moreover have "mem_ok m \<longrightarrow> mem_ok ?m2" by (auto simp: mem_ok_def mem_new_block_def with_block_def)
  ultimately show ?thesis
    by (intro exI [of _ ?m2] exI [of _ ?gap]) (simp add: mem_new_block_def with_block_def)
qed

section \<open>Concatenation\<close>

definition args_load :: "mem \<Rightarrow> nat \<Rightarrow> a3_cstring list \<Rightarrow> u8 list list \<Rightarrow> bool" where
  "args_load m b args yss \<longleftrightarrow> list_all2 (\<lambda>a ys. mem_load m (s_ptr a) (s_len a) = ret ys \<and>
     ptr_block (s_ptr a) \<noteq> Some b) args yss"

lemma args_load_with_block:
  assumes "args_load m b args yss"
  shows "args_load (with_block m b bs) b args yss"
  using assms unfolding args_load_def by (rule list_all2_mono) simp

lemma concat_loop_correct:
  assumes "blocks m b = Some (pre @ ds @ post)" and "args_load m b args yss"
    and "off + length (concat yss) < size_mod" and "length ds < size_mod"
  shows "concat_loop m \<lparr>s_ptr = Ptr b (length pre), s_len = length ds\<rparr> off args =
    ret (with_block m b (pre @ (take off ds @ blit (drop off ds) (concat yss)) @ post))"
  using assms
proof (induction args arbitrary: m ds off yss)
  case Nil
  then show ?case by (simp add: args_load_def)
next
  case (Cons arg args)
  obtain ys yss' where yss: "yss = ys # yss'" and l: "mem_load m (s_ptr arg) (s_len arg) = ret ys"
    "ptr_block (s_ptr arg) \<noteq> Some b" and args: "args_load m b args yss'"
    using Cons.prems(2) by (auto simp: args_load_def list_all2_Cons1)
  have len: "length ys = s_len arg" using l(1) by (auto elim: mem_load_retE)
  show ?case
  proof (cases "off < length ds")
    case False
    then show ?thesis using Cons.prems(1) by simp
  next
    case True
    let ?ds = "take off ds @ blit (drop off ds) ys" and ?s = "\<lparr>s_ptr = Ptr b (length pre), s_len = length ds\<rparr>"
    let ?m = "with_block m b (pre @ ?ds @ post)"
    have copy: "a3_string_copy m (a3_string_new (Ptr b (length pre + off)) (length ds - off)) arg =
        ret (with_block m b ((pre @ take off ds) @ blit (drop off ds) ys @ post))"
      using Cons.prems(1) l True
      by (intro copy_correct) (simp_all add: a3_string_new_def)
    have IH: "concat_loop ?m \<lparr>s_ptr = Ptr b (length pre), s_len = length ?ds\<rparr> (off + length ys) args =
        ret (with_block ?m b (pre @ (take (off + length ys) ?ds @ blit (drop (off + length ys) ?ds) (concat yss')) @ post))"
      using Cons.prems(3,4) yss True args by (intro Cons.IH) (simp_all add: args_load_with_block)
    have E: "take (off + length ys) ?ds @ blit (drop (off + length ys) ?ds) (concat yss') =
        take off ds @ blit (drop off ds) (ys @ concat yss')"
      using True by (cases "length ys \<le> length ds - off") (simp_all add: blit_def min_def ac_simps)
    have "length ?ds = length ds" using True by simp
    then show ?thesis using copy IH [unfolded E]
      True Cons.prems(3,4) yss len by (simp add: a3_string_offset_def)
  qed
qed

lemma concat_correct:
  assumes "blocks m b = Some (pre @ ds @ post)" and "args_load m b args yss"
    and "length (concat yss) < size_mod" and "length ds < size_mod"
  shows "a3_string_concat m \<lparr>s_ptr = Ptr b (length pre), s_len = length ds\<rparr> args =
    ret (with_block m b (pre @ blit ds (concat yss) @ post))"
  using concat_loop_correct [OF assms(1,2), of 0] assms(3,4) by (simp add: a3_string_concat_def)

end
