(* ===== verification/Str_Search.thy ===== *)
theory Str_Search
  imports Str_Copy Ht_Map
begin

text \<open>
  Searching and comparing strings: \<open>a3_string_rchr\<close>, \<open>a3_string_isascii\<close>, the two \<open>memmem\<close>
  shims behind one contract, and \<open>a3_string_cmp\<close> as the comparator of a hash table with
  string keys.
\<close>

section \<open>Last occurrence of a byte\<close>

lemma rchr_loop_correct:
  assumes "mem_load m (s_ptr s) (s_len s) = ret xs" and "i < s_len s" and "s_len s < size_mod"
  shows "rchr_loop m s c i = ret (if c \<in> set (take (Suc i) xs)
    then (let j = GREATEST j. j \<le> i \<and> xs ! j = c in \<lparr>s_ptr = ptr_plus (s_ptr s) j, s_len = s_len s - j\<rparr>)
    else a3_cs_null)"
  using assms(2)
proof (induction i)
  case 0
  moreover have "length xs = s_len s" using assms(1) by (auto elim: mem_load_retE)
  moreover have "xs ! 0 = c \<Longrightarrow> (GREATEST j. j = 0 \<and> xs ! j = c) = 0" by (rule Greatest_equality) auto
  ultimately show ?case using mem_get_load [OF assms(1), of 0] assms(3)
    by (subst rchr_loop.simps) (auto simp: take_Suc_conv_app_nth)
next
  case (Suc i)
  have len: "length xs = s_len s" using assms(1) by (auto elim: mem_load_retE)
  have t: "take (Suc (Suc i)) xs = take (Suc i) xs @ [xs ! Suc i]"
    using Suc.prems len by (intro take_Suc_conv_app_nth) simp
  show ?case
  proof (cases "xs ! Suc i = c")
    case True
    then have "(GREATEST j. j \<le> Suc i \<and> xs ! j = c) = Suc i" by (intro Greatest_equality) auto
    then show ?thesis using True Suc.prems mem_get_load [OF assms(1), of "Suc i"] assms(3) t
      by (subst rchr_loop.simps) simp
  next
    case False
    then have "(j \<le> Suc i \<and> xs ! j = c) = (j \<le> i \<and> xs ! j = c)" for j by (auto simp: le_Suc_eq)
    then show ?thesis using False Suc mem_get_load [OF assms(1), of "Suc i"] t
      by (subst rchr_loop.simps) simp
  qed
qed

lemma rchr_correct:
  assumes "mem_load m (s_ptr s) (s_len s) = ret xs" and "xs \<noteq> []" and "s_len s < size_mod"
  shows "\<exists>r. a3_string_rchr m s c = ret r \<and> (if c \<in> set xs
    then \<exists>j < length xs. s_ptr r = ptr_plus (s_ptr s) j \<and> s_len r = length xs - j \<and> xs ! j = c \<and>
           c \<notin> set (drop (Suc j) xs)
    else r = a3_cs_null)"
proof -
  have p: "s_ptr s \<noteq> Null" "length xs = s_len s" using assms(1) by (auto elim: mem_load_retE)
  then have n: "0 < s_len s" using assms(2) by (metis length_greater_0_conv)
  let ?P = "\<lambda>j. j \<le> s_len s - 1 \<and> xs ! j = c"
  have run: "a3_string_rchr m s c = ret (if c \<in> set xs
      then (let j = Greatest ?P in \<lparr>s_ptr = ptr_plus (s_ptr s) j, s_len = s_len s - j\<rparr>) else a3_cs_null)"
    using rchr_loop_correct [OF assms(1), of "s_len s - 1" c] n p assms(3) by (simp add: a3_string_rchr_def)
  show ?thesis
  proof (cases "c \<in> set xs")
    case True
    then obtain k where "k < length xs" "xs ! k = c" by (auto simp: in_set_conv_nth)
    then have "?P k" using p n by simp
    then have g: "?P (Greatest ?P)" by (rule GreatestI_nat [where b = "s_len s - 1"]) simp
    have last: "j \<le> Greatest ?P" if "?P j" for j using that by (rule Greatest_le_nat [where b = "s_len s - 1"]) simp
    have "c \<notin> set (drop (Suc (Greatest ?P)) xs)"
    proof
      assume "c \<in> set (drop (Suc (Greatest ?P)) xs)"
      then obtain i where "i < length xs - Suc (Greatest ?P)" "xs ! (Suc (Greatest ?P) + i) = c"
        by (auto simp: in_set_conv_nth)
      moreover from this have "Suc (Greatest ?P) + i \<le> s_len s - 1" using p by linarith
      ultimately show False using last [of "Suc (Greatest ?P) + i"] by simp
    qed
    moreover obtain G where G: "Greatest ?P = G" by simp
    ultimately have "G < length xs" "xs ! G = c" "c \<notin> set (drop (Suc G) xs)" using g p n by (auto simp: G)
    moreover have "a3_string_rchr m s c = ret \<lparr>s_ptr = ptr_plus (s_ptr s) G, s_len = length xs - G\<rparr>"
      using run True p by (simp only: G Let_def if_True)
    ultimately show ?thesis using True by auto
  qed (use run in simp)
qed

section \<open>ASCII\<close>

lemma isascii_loop_correct:
  assumes "mem_load m (s_ptr s) (s_len s) = ret xs" and "i \<le> s_len s"
  shows "isascii_loop m s i = ret (\<forall>c \<in> set (drop i xs). c < 128)"
  using assms(2)
proof (induction rule: inc_induct)
  case base
  moreover have "length xs = s_len s" using assms(1) by (auto elim: mem_load_retE)
  ultimately show ?case by (subst isascii_loop.simps) simp
next
  case (step i)
  have "length xs = s_len s" using assms(1) by (auto elim: mem_load_retE)
  then have "drop i xs = xs ! i # drop (Suc i) xs" using step.hyps by (simp add: Cons_nth_drop_Suc)
  then show ?case using step mem_get_load [OF assms(1)]
    by (subst isascii_loop.simps) (simp add: c_isascii_def)
qed

section \<open>Substring search\<close>

definition occurs_at :: "'a list \<Rightarrow> 'a list \<Rightarrow> nat \<Rightarrow> bool" where
  "occurs_at xs ys i \<longleftrightarrow> i + length ys \<le> length xs \<and> take (length ys) (drop i xs) = ys"

definition first_at :: "'a list \<Rightarrow> 'a list \<Rightarrow> nat \<Rightarrow> bool" where
  "first_at xs ys i \<longleftrightarrow> occurs_at xs ys i \<and> (\<forall>j < i. \<not> occurs_at xs ys j)"

text \<open>The libc \<open>memmem\<close> that \<open>src/shim/memmem/present.c\<close> forwards to: the first occurrence.\<close>

definition c_memmem :: "mem \<Rightarrow> ptr \<Rightarrow> size_t \<Rightarrow> ptr \<Rightarrow> size_t \<Rightarrow> ptr run" where
  "c_memmem m h hn q qn =
     bind_run (mem_load m h hn) (\<lambda>xs. bind_run (mem_load m q qn) (\<lambda>ys.
       ret (case List.find (\<lambda>i. occurs_at xs ys i) [0..<hn] of None \<Rightarrow> Null | Some i \<Rightarrow> ptr_plus h i)))"

definition a3_shim_memmem_present :: memmem_fn where
  "a3_shim_memmem_present m h hn q qn = c_memmem m h hn q qn"

text \<open>
  What every \<open>memmem\<close> shim guarantees: it returns, what it finds is the first occurrence, and
  it misses at most one at the very end of the haystack. An exact one misses none.
\<close>

locale memmem_shim =
  fixes search :: memmem_fn
  assumes search_returns: "mem_load m h hn = ret xs \<Longrightarrow> mem_load m q qn = ret ys \<Longrightarrow> 0 < qn \<Longrightarrow>
      qn \<le> hn \<Longrightarrow> \<exists>p. search m h hn q qn = ret p"
    and search_found: "mem_load m h hn = ret xs \<Longrightarrow> mem_load m q qn = ret ys \<Longrightarrow> 0 < qn \<Longrightarrow>
      search m h hn q qn = ret p \<Longrightarrow> p \<noteq> Null \<Longrightarrow> \<exists>i. p = ptr_plus h i \<and> first_at xs ys i"
    and search_missed: "mem_load m h hn = ret xs \<Longrightarrow> mem_load m q qn = ret ys \<Longrightarrow> 0 < qn \<Longrightarrow>
      search m h hn q qn = ret Null \<Longrightarrow> occurs_at xs ys i \<Longrightarrow> i + length ys = length xs"
begin

lemma string_memmem:
  assumes h: "mem_load m (s_ptr h) (s_len h) = ret xs" and q: "mem_load m (s_ptr q) (s_len q) = ret ys"
    and "0 < s_len q"
  shows "\<exists>r. a3_string_memmem search m h q = ret r \<and>
    (if s_ptr r = Null then \<forall>i. occurs_at xs ys i \<longrightarrow> i + length ys = length xs
     else \<exists>i. s_ptr r = ptr_plus (s_ptr h) i \<and> s_len r = s_len q \<and> first_at xs ys i)"
proof -
  have p: "s_ptr h \<noteq> Null" "s_ptr q \<noteq> Null" "length xs = s_len h" "length ys = s_len q"
    using h q by (auto elim: mem_load_retE)
  show ?thesis
  proof (cases "s_len h < s_len q")
    case True
    then show ?thesis using assms(3) p by (simp add: a3_string_memmem_def a3_cs_null_def occurs_at_def)
  next
    case False
    then obtain r where r: "search m (s_ptr h) (s_len h) (s_ptr q) (s_len q) = ret r"
      using search_returns [OF h q assms(3)] by auto
    have "a3_string_memmem search m h q = ret \<lparr>s_ptr = r, s_len = s_len q\<rparr>"
      using False r assms(3) p by (simp add: a3_string_memmem_def)
    moreover have "r = Null \<Longrightarrow> occurs_at xs ys i \<Longrightarrow> i + length ys = length xs" for i
      using search_missed [OF h q assms(3)] r by simp
    moreover have "r \<noteq> Null \<Longrightarrow> \<exists>i. r = ptr_plus (s_ptr h) i \<and> first_at xs ys i"
      using search_found [OF h q assms(3) r] by simp
    ultimately show ?thesis
      by (intro exI [of _ "\<lparr>s_ptr = r, s_len = s_len q\<rparr>"]) (cases "r = Null"; simp)
  qed
qed

end

locale memmem_exact = memmem_shim +
  assumes search_none: "mem_load m h hn = ret xs \<Longrightarrow> mem_load m q qn = ret ys \<Longrightarrow> 0 < qn \<Longrightarrow>
      search m h hn q qn = ret Null \<Longrightarrow> \<not> occurs_at xs ys i"
begin

lemma string_memmem_iff:
  assumes "mem_load m (s_ptr h) (s_len h) = ret xs" and "mem_load m (s_ptr q) (s_len q) = ret ys"
    and "0 < s_len q"
  shows "\<exists>r. a3_string_memmem search m h q = ret r \<and>
    (s_ptr r = Null \<longleftrightarrow> (\<forall>i. \<not> occurs_at xs ys i))"
proof -
  have p: "s_ptr h \<noteq> Null" "s_ptr q \<noteq> Null" "length xs = s_len h" "length ys = s_len q"
    using assms by (auto elim: mem_load_retE)
  obtain r where r: "a3_string_memmem search m h q = ret r"
    "if s_ptr r = Null then \<forall>i. occurs_at xs ys i \<longrightarrow> i + length ys = length xs
     else \<exists>i. s_ptr r = ptr_plus (s_ptr h) i \<and> s_len r = s_len q \<and> first_at xs ys i"
    using string_memmem [OF assms] by blast
  have "\<not> occurs_at xs ys i" if "s_ptr r = Null" for i
  proof (cases "s_len h < s_len q")
    case True
    then show ?thesis using p by (simp add: occurs_at_def)
  next
    case False
    then have "search m (s_ptr h) (s_len h) (s_ptr q) (s_len q) = ret Null"
      using r(1) that p assms(3) by (auto simp: a3_string_memmem_def run_simps)
    then show ?thesis by (rule search_none [OF assms])
  qed
  then show ?thesis using r by (auto simp: first_at_def split: if_splits)
qed

end

lemma find_upt_first: "List.find P [0..<b] = Some i \<longleftrightarrow> i < b \<and> P i \<and> (\<forall>j < i. \<not> P j)"
  by (auto simp: find_Some_iff)

lemma find_upt_none: "List.find P [0..<b] = None \<longleftrightarrow> (\<forall>j < b. \<not> P j)"
  by (auto simp: find_None_iff)

lemma present_cases:
  assumes "mem_load m h hn = ret xs" and "mem_load m q qn = ret ys" and "0 < qn"
  shows "(\<exists>i. a3_shim_memmem_present m h hn q qn = ret (ptr_plus h i) \<and> first_at xs ys i) \<or>
    a3_shim_memmem_present m h hn q qn = ret Null \<and> (\<forall>i. \<not> occurs_at xs ys i)"
proof -
  have len: "length xs = hn" "length ys = qn" using assms by (auto elim: mem_load_retE)
  then have lt: "occurs_at xs ys i \<Longrightarrow> i < hn" for i using assms(3) by (simp add: occurs_at_def)
  show ?thesis
  proof (cases "List.find (occurs_at xs ys) [0..<hn]")
    case None
    then have "a3_shim_memmem_present m h hn q qn = ret Null"
      using assms by (simp add: a3_shim_memmem_present_def c_memmem_def)
    moreover have "\<not> occurs_at xs ys i" for i using None lt [of i] by (auto simp: find_upt_none)
    ultimately show ?thesis by blast
  next
    case (Some i)
    then have "a3_shim_memmem_present m h hn q qn = ret (ptr_plus h i)"
      using assms by (simp add: a3_shim_memmem_present_def c_memmem_def)
    moreover have "first_at xs ys i" using Some by (simp add: find_upt_first first_at_def)
    ultimately show ?thesis by blast
  qed
qed

lemma missing_loop_cases:
  assumes h: "mem_load m h hn = ret xs" and q: "mem_load m q qn = ret ys" and "i + qn \<le> hn"
    and "\<forall>j < i. \<not> occurs_at xs ys j"
  shows "(\<exists>k. memmem_loop m h hn q qn i = ret (ptr_plus h k) \<and> first_at xs ys k) \<or>
    memmem_loop m h hn q qn i = ret Null \<and> (\<forall>k. occurs_at xs ys k \<longrightarrow> k + length ys = length xs)"
  using assms(3,4)
proof (induction "hn - i" arbitrary: i)
  case 0
  have "length xs = hn" "length ys = qn" using h q by (auto elim: mem_load_retE)
  then show ?case using 0 by (subst (1 2) memmem_loop.simps) (auto simp: occurs_at_def not_less)
next
  case (Suc n)
  have len: "length xs = hn" "length ys = qn" using h q by (auto elim: mem_load_retE)
  show ?case
  proof (cases "i + qn < hn")
    case False
    then have "k + qn = hn" if "occurs_at xs ys k" for k
      using that Suc.prems len by (cases "k < i") (auto simp: occurs_at_def)
    then show ?thesis using False len by (subst (1 2) memmem_loop.simps) auto
  next
    case True
    have "mem_load m (ptr_plus h i) qn = ret (take qn (drop i xs))" using mem_load_prefix [OF h] True by simp
    then have *: "memmem_loop m h hn q qn i =
        (if occurs_at xs ys i then ret (ptr_plus h i) else memmem_loop m h hn q qn (Suc i))"
      using True q len by (subst memmem_loop.simps) (simp add: c_memcmp_eq_def occurs_at_def)
    show ?thesis
    proof (cases "occurs_at xs ys i")
      case True
      then show ?thesis using * Suc.prems by (auto simp: first_at_def)
    next
      case False
      then show ?thesis using * Suc.hyps(1) [of "Suc i"] Suc.hyps(2) Suc.prems True
        by (auto simp: less_Suc_eq)
    qed
  qed
qed

interpretation libc_memmem: memmem_exact a3_shim_memmem_present
proof unfold_locales
  fix m h hn xs q qn ys p i
  assume l: "mem_load m h hn = ret xs" "mem_load m q qn = ret ys" "0 < qn"
  note c = present_cases [OF l]
  have h: "h \<noteq> Null" using l by (auto elim: mem_load_retE)
  show "\<exists>p. a3_shim_memmem_present m h hn q qn = ret p" if "qn \<le> hn" using c by blast
  show "\<exists>i. p = ptr_plus h i \<and> first_at xs ys i"
    if "a3_shim_memmem_present m h hn q qn = ret p" "p \<noteq> Null" using c that by auto
  show "i + length ys = length xs"
    if "a3_shim_memmem_present m h hn q qn = ret Null" "occurs_at xs ys i" using c that h by auto
  show "\<not> occurs_at xs ys i" if "a3_shim_memmem_present m h hn q qn = ret Null" using c that h by auto
qed


interpretation fallback_memmem: memmem_shim a3_shim_memmem
proof unfold_locales
  fix m h hn xs q qn ys p i
  assume l: "mem_load m h hn = ret xs" "mem_load m q qn = ret ys" "0 < qn"
  have h: "h \<noteq> Null" "q \<noteq> Null" "length xs = hn" "length ys = qn" using l by (auto elim: mem_load_retE)
  have long: "memmem_loop m h hn q qn 0 = ret Null" if "hn < qn" using that by (subst memmem_loop.simps) simp
  have none: "\<not> occurs_at xs ys k" if "hn < qn" for k using that h by (simp add: occurs_at_def)
  have c: "(\<exists>k. a3_shim_memmem m h hn q qn = ret (ptr_plus h k) \<and> first_at xs ys k) \<or>
    a3_shim_memmem m h hn q qn = ret Null \<and> (\<forall>k. occurs_at xs ys k \<longrightarrow> k + length ys = length xs)"
    using missing_loop_cases [OF l(1,2), of 0] long none h l(3)
    by (cases "hn < qn") (auto simp: a3_shim_memmem_def)
  show "\<exists>p. a3_shim_memmem m h hn q qn = ret p" if "qn \<le> hn" using c by blast
  show "\<exists>i. p = ptr_plus h i \<and> first_at xs ys i"
    if "a3_shim_memmem m h hn q qn = ret p" "p \<noteq> Null" using c that by auto
  show "i + length ys = length xs"
    if "a3_shim_memmem m h hn q qn = ret Null" "occurs_at xs ys i" using c that h by auto
qed

text \<open>The fallback finds no occurrence that ends where the haystack ends.\<close>

lemma missing_loop_strict:
  "memmem_loop m h hn q qn i = ret p \<Longrightarrow> p \<noteq> Null \<Longrightarrow> \<exists>k. p = ptr_plus h k \<and> k + qn < hn"
proof (induction m h hn q qn i rule: memmem_loop.induct)
  case (1 m h hn q qn i)
  then show ?case
    by (subst (asm) (2) memmem_loop.simps) (auto simp: run_simps split: if_splits)
qed

lemma fallback_search_strict:
  assumes "mem_load m (s_ptr h) (s_len h) = ret xs" and "mem_load m (s_ptr q) (s_len q) = ret ys"
    and "0 < s_len q"
  shows "\<exists>r. a3_string_memmem a3_shim_memmem m h q = ret r \<and>
    (s_ptr r \<noteq> Null \<longrightarrow> (\<exists>i. r = \<lparr>s_ptr = ptr_plus (s_ptr h) i, s_len = s_len q\<rparr> \<and> first_at xs ys i \<and> i + length ys < length xs)) \<and>
    (s_ptr r = Null \<longrightarrow> (\<forall>i. occurs_at xs ys i \<longrightarrow> i + length ys = length xs))"
proof -
  obtain r where r: "a3_string_memmem a3_shim_memmem m h q = ret r"
    "if s_ptr r = Null then \<forall>i. occurs_at xs ys i \<longrightarrow> i + length ys = length xs
     else \<exists>i. s_ptr r = ptr_plus (s_ptr h) i \<and> s_len r = s_len q \<and> first_at xs ys i"
    using fallback_memmem.string_memmem [OF assms] by blast
  have len: "length xs = s_len h" "length ys = s_len q" "s_ptr h \<noteq> Null" using assms by (auto elim: mem_load_retE)
  have "i + length ys < length xs" if "s_ptr r = ptr_plus (s_ptr h) i" for i
  proof -
    have n: "s_ptr r \<noteq> Null" using that len by simp
    then have "memmem_loop m (s_ptr h) (s_len h) (s_ptr q) (s_len q) 0 = ret (s_ptr r)"
      using r(1) by (auto simp: a3_string_memmem_def a3_shim_memmem_def run_simps a3_cs_null_def split: if_splits)
    then obtain k where k: "s_ptr r = ptr_plus (s_ptr h) k" "k + s_len q < s_len h"
      using missing_loop_strict n by blast
    then have "k = i" using that len by (cases "s_ptr h") simp_all
    then show ?thesis using k len by simp
  qed
  then show ?thesis using r by (intro exI [of _ r]) (cases r; auto split: if_splits)
qed

section \<open>Strings as keys of a hash table\<close>

text \<open>
  A table keyed by strings, as \<open>A3_HT_DEFINE_METHODS (A3CString, V, a3_string_cptr, a3_string_len,
  a3_string_cmp)\<close> makes it: a key stands for its bytes, which \<open>a3_string_cmp\<close> compares.
\<close>

definition string_cmp_bytes :: "u8 list \<Rightarrow> u8 list \<Rightarrow> int" where
  "string_cmp_bytes xs ys = (if length xs \<noteq> length ys then - 1 else cmp_bytes (\<lambda>x. x) xs ys)"

lemma string_cmp_correct:
  assumes "mem_load m (s_ptr l) (s_len l) = ret xs" and "mem_load m (s_ptr r) (s_len r) = ret ys"
  shows "a3_string_cmp m l r = ret (string_cmp_bytes xs ys)"
proof -
  have "s_ptr l \<noteq> Null" "s_ptr r \<noteq> Null" "length xs = s_len l" "length ys = s_len r"
    using assms by (auto elim: mem_load_retE)
  then show ?thesis using strncmp_correct [OF assms(1), of "s_ptr r" ys 0 "\<lambda>x. x"] assms(2)
    by (auto simp: a3_string_cmp_def string_cmp_bytes_def)
qed

lemma string_cmp_zero_iff:
  "string_cmp_bytes xs ys = 0 \<longleftrightarrow> length xs = length ys \<and> c_prefix xs = c_prefix ys"
  using cmp_bytes_zero_iff [of xs ys "\<lambda>x. x"] by (simp add: string_cmp_bytes_def)

definition string_params :: "(u8 list \<Rightarrow> u8 list \<Rightarrow> u64) \<Rightarrow> 'v \<Rightarrow> (u8 list, 'v) ht_params" where
  "string_params H z = \<lparr>hasher = H, comparator = string_cmp_bytes, zero_key = [], zero_value = z\<rparr>"

definition nul_free :: "u8 list \<Rightarrow> bool" where
  "nul_free xs \<longleftrightarrow> 0 \<notin> set xs"

lemma nul_free_prefix: "nul_free xs \<Longrightarrow> c_prefix xs = xs"
  by (auto simp: nul_free_def c_prefix_def takeWhile_eq_all_conv)

interpretation string_ht: ht_keys "string_params H z" nul_free for H z
  by unfold_locales (auto simp: string_params_def string_cmp_zero_iff nul_free_prefix)

end
