(* ===== verification/Str_Props.thy ===== *)
theory Str_Props
  imports Str_Search
begin

text \<open>
  The properties of the string functions, with witnesses on a memory of three small blocks.
\<close>

section \<open>A small memory\<close>

text \<open>Block 0 holds \<open>xHello!\<close>, block 1 \<open>lo\<close>, block 2 eight zero bytes.\<close>

definition ex_mem :: mem where
  "ex_mem = \<lparr>blocks = [0 \<mapsto> [120, 72, 101, 108, 108, 111, 33], 1 \<mapsto> [108, 111], 2 \<mapsto> replicate 8 0],
     next_block = 3, fresh_byte = (\<lambda>b i. 170)\<rparr>"

lemma ex_blocks:
  "blocks ex_mem 0 = Some [120, 72, 101, 108, 108, 111, 33]" "blocks ex_mem (Suc 0) = Some [108, 111]"
  "blocks ex_mem 2 = Some [0, 0, 0, 0, 0, 0, 0, 0]" "next_block ex_mem = 3"
  by (simp_all add: ex_mem_def eval_nat_numeral)

lemma ex_mem_ok: "mem_ok ex_mem"
  by (simp add: mem_ok_def ex_mem_def)

definition ex_hello :: a3_string where
  "ex_hello = \<lparr>s_ptr = Ptr 0 1, s_len = 5\<rparr>"

definition ex_lo :: a3_string where
  "ex_lo = \<lparr>s_ptr = Ptr 1 0, s_len = 2\<rparr>"

lemma ex_loads:
  "mem_load ex_mem (s_ptr ex_hello) (s_len ex_hello) = ret [72, 101, 108, 108, 111]"
  "mem_load ex_mem (s_ptr ex_lo) (s_len ex_lo) = ret [108, 111]"
  "s_len ex_hello = 5" "s_len ex_lo = 2" "s_ptr ex_hello = Ptr 0 1" "s_ptr ex_lo = Ptr (Suc 0) 0"
  by (simp_all add: ex_hello_def ex_lo_def mem_load_block ex_blocks)

lemma ex_hello_len:
  "ex_hello = \<lparr>s_ptr = Ptr 0 (length [120::u8]), s_len = length [72::u8, 101, 108, 108, 111]\<rparr>"
  by (simp add: ex_hello_def)

section \<open>Numbers\<close>

text \<open>C23: with room for its digits, \<open>a3_string_itoa_into\<close> prints the decimal text of a number at
  the start of the destination, touches nothing else, and the text reads back as the number and
  has no leading zero.\<close>

theorem itoa_into_prints_number:
  assumes "blocks m b = Some (pre @ post)" and "v < 10 ^ n" and "0 < n" and "n \<le> length post"
    and "length post < size_mod"
  shows "\<exists>text rest. a3_string_itoa_into m \<lparr>s_ptr = Ptr b (length pre), s_len = n\<rparr> v =
      ret (with_block m b (pre @ text @ rest), \<lparr>s_ptr = Ptr b (length pre), s_len = length text\<rparr>) \<and>
    dec_value text = v \<and> (0 < v \<longrightarrow> hd text \<noteq> 48) \<and> length text \<le> n \<and> rest = drop (length text) post"
proof -
  have "length (dec_digits v) \<le> n" using dec_digits_length_le assms(2,3) by blast
  moreover have "length (dec_text v) = length (dec_digits v)" by (simp add: dec_text_def)
  moreover have "digit_char 0 = 48" by (simp add: digit_char_def)
  ultimately show ?thesis
    using itoa_into_correct [OF assms(1), of v n] assms(4,5) dec_value_text [of v] dec_text_head [of v]
    by (intro exI [of _ "dec_text v"] exI [of _ "drop (length (dec_digits v)) post"]) simp
qed

theorem itoa_into_prints_number_witness:
  "\<exists>text m'. a3_string_itoa_into ex_mem \<lparr>s_ptr = Ptr 2 1, s_len = 5\<rparr> 3541 =
    ret (m', \<lparr>s_ptr = Ptr 2 1, s_len = length text\<rparr>) \<and> dec_value text = 3541 \<and> hd text \<noteq> 48"
  using itoa_into_prints_number [of ex_mem 2 "[0]" "[0, 0, 0, 0, 0, 0, 0]" 3541 5]
  by (auto simp: ex_blocks size_mod_def)

text \<open>If the number has more digits than the destination has bytes, \<open>a3_string_itoa_into\<close> writes
  one byte past the destination: on a destination that ends where its block ends, it goes out
  of bounds.\<close>

theorem itoa_into_overflows:
  assumes "blocks m b = Some (pre @ post)" and "10 ^ length post \<le> v"
  shows "a3_string_itoa_into m \<lparr>s_ptr = Ptr b (length pre), s_len = length post\<rparr> v = fail Out_of_bounds"
  using itoa_loop_overflow [of m b pre "[]" post v] assms dec_digits_length_gt [OF assms(2)]
  by (simp add: a3_string_itoa_into_def)

theorem itoa_into_overflows_witness:
  "a3_string_itoa_into ex_mem \<lparr>s_ptr = Ptr 1 0, s_len = 2\<rparr> 100 = fail Out_of_bounds"
  using itoa_into_overflows [of ex_mem 1 "[]" "[108, 111]" 100] by (simp add: ex_blocks eval_nat_numeral)

section \<open>Copying\<close>

text \<open>C40: \<open>a3_string_concat\<close> overwrites the destination with as much of the concatenated arguments
  as fits, and leaves the rest of it and the bytes around it alone.\<close>

theorem concat_writes_prefix:
  assumes "blocks m b = Some (pre @ ds @ post)" and "length ds < size_mod"
    and "list_all2 (\<lambda>a ys. mem_load m (s_ptr a) (s_len a) = ret ys \<and> ptr_block (s_ptr a) \<noteq> Some b) args yss"
    and "length (concat yss) < size_mod"
  shows "a3_string_concat m \<lparr>s_ptr = Ptr b (length pre), s_len = length ds\<rparr> args =
    ret (with_block m b (pre @ take (length ds) (concat yss) @ drop (length (concat yss)) ds @ post))"
  using concat_correct [OF assms(1), of args yss] assms(2-4) by (simp add: args_load_def blit_def)

theorem concat_writes_prefix_witness:
  "a3_string_concat ex_mem \<lparr>s_ptr = Ptr 2 0, s_len = 6\<rparr> [ex_hello, ex_lo] =
    ret (with_block ex_mem 2 [72, 101, 108, 108, 111, 108, 0, 0])"
proof -
  have six: "(6::nat) = length [0::u8, 0, 0, 0, 0, 0]" by simp
  have "list_all2 (\<lambda>a ys. mem_load ex_mem (s_ptr a) (s_len a) = ret ys \<and> ptr_block (s_ptr a) \<noteq> Some 2)
      [ex_hello, ex_lo] [[72, 101, 108, 108, 111], [108, 111]]"
    using ex_loads by simp
  then show ?thesis
    using concat_writes_prefix [of ex_mem 2 "[]" "[0, 0, 0, 0, 0, 0]" "[0, 0]" "[ex_hello, ex_lo]"
        "[[72, 101, 108, 108, 111], [108, 111]]"]
    unfolding six by (simp add: ex_blocks size_mod_def)
qed

text \<open>Cloning allocates a block of its own that holds the bytes of the string and a final zero
  byte, and changes no other block.\<close>

theorem clone_is_fresh_copy:
  assumes "mem_ok m" and "mem_load m (s_ptr s) (s_len s) = ret ys" and "s_len s + 1 < size_mod"
  shows "\<exists>m' b. a3_string_clone m True s = ret (m', \<lparr>s_ptr = Ptr b 0, s_len = length ys\<rparr>) \<and>
    blocks m b = None \<and> blocks m' b = Some (ys @ [0]) \<and> (\<forall>c. c \<noteq> b \<longrightarrow> blocks m' c = blocks m c)"
  using clone_correct [OF assms] assms(1) by (auto simp: mem_ok_def mem_new_block_def)

theorem clone_is_fresh_copy_witness:
  "\<exists>m' b. a3_string_clone ex_mem True ex_lo = ret (m', \<lparr>s_ptr = Ptr b 0, s_len = 2\<rparr>) \<and>
    blocks m' b = Some [108, 111, 0]"
proof -
  obtain m' b where "a3_string_clone ex_mem True ex_lo = ret (m', \<lparr>s_ptr = Ptr b 0, s_len = length [108::u8, 111]\<rparr>)"
    "blocks m' b = Some ([108, 111] @ [0])"
    using clone_is_fresh_copy [OF ex_mem_ok ex_loads(2)] by (auto simp: ex_loads size_mod_def)
  then show ?thesis by auto
qed

section \<open>Transformation\<close>

text \<open>\<open>a3_string_reverse\<close> reverses the bytes of the string in place and touches nothing else.\<close>

theorem reverse_in_place:
  assumes "blocks m b = Some (pre @ xs @ post)" and "length xs < size_mod"
  shows "a3_string_reverse m \<lparr>s_ptr = Ptr b (length pre), s_len = length xs\<rparr>
    = ret (with_block m b (pre @ rev xs @ post))"
  using reverse_correct [OF assms] .

theorem reverse_in_place_witness:
  "a3_string_reverse ex_mem ex_hello = ret (with_block ex_mem 0 [120, 111, 108, 108, 101, 72, 33])"
  using reverse_in_place [of ex_mem 0 "[120]" "[72, 101, 108, 108, 111]" "[33]"]
  unfolding ex_hello_len by (simp add: ex_blocks size_mod_def)

text \<open>\<open>a3_string_lowercase\<close> maps every byte before the first zero byte of the string to lower
  case and keeps the others.\<close>

theorem lowercase_in_place:
  assumes "blocks m b = Some (pre @ xs @ post)"
  shows "a3_string_lowercase m \<lparr>s_ptr = Ptr b (length pre), s_len = length xs\<rparr>
    = ret (with_block m b (pre @ map c_tolower (takeWhile (\<lambda>x. x \<noteq> 0) xs) @ dropWhile (\<lambda>x. x \<noteq> 0) xs @ post))"
  using lowercase_correct [OF assms] by (simp add: lower_cstr_def)

theorem lowercase_in_place_witness:
  "a3_string_lowercase ex_mem ex_hello = ret (with_block ex_mem 0 [120, 104, 101, 108, 108, 111, 33])"
  using lowercase_in_place [of ex_mem 0 "[120]" "[72, 101, 108, 108, 111]" "[33]"]
  unfolding ex_hello_len by (simp add: ex_blocks c_tolower_def)

section \<open>Search and comparison\<close>

text \<open>With the \<open>memmem\<close> of the C library, \<open>a3_string_memmem\<close> returns the first occurrence of
  the needle, or \<open>NULL\<close> exactly if there is none.\<close>

theorem memmem_finds_first:
  assumes "mem_load m (s_ptr h) (s_len h) = ret xs" and "mem_load m (s_ptr q) (s_len q) = ret ys"
    and "0 < s_len q"
  shows "\<exists>r. a3_string_memmem a3_shim_memmem_present m h q = ret r \<and>
    (s_ptr r = Null \<longleftrightarrow> (\<forall>i. \<not> occurs_at xs ys i)) \<and>
    (s_ptr r \<noteq> Null \<longrightarrow> (\<exists>i. s_ptr r = ptr_plus (s_ptr h) i \<and> s_len r = s_len q \<and> first_at xs ys i))"
proof -
  obtain r where "a3_string_memmem a3_shim_memmem_present m h q = ret r"
    "s_ptr r = Null \<longleftrightarrow> (\<forall>i. \<not> occurs_at xs ys i)"
    using libc_memmem.string_memmem_iff [OF assms] by blast
  then show ?thesis using libc_memmem.string_memmem [OF assms] by (auto split: if_splits)
qed

theorem memmem_finds_first_witness:
  "\<exists>r. a3_string_memmem a3_shim_memmem_present ex_mem ex_hello ex_lo = ret r \<and> s_ptr r \<noteq> Null"
proof -
  have "occurs_at [72, 101, 108, 108, 111::u8] [108, 111] 3" by (simp add: occurs_at_def)
  then show ?thesis using memmem_finds_first [OF ex_loads(1,2)] ex_loads(4) by auto
qed

text \<open>C20: with the fallback \<open>memmem\<close> of \<open>src/shim/memmem/missing.c\<close>, \<open>a3_string_memmem\<close> reads nothing outside the two
  strings and returns. If the needle occurs anywhere before the end of the haystack, the result is its first occurrence, with the
  length of the needle; otherwise it is \<open>NULL\<close>. So an occurrence that ends where the haystack ends is missed: the bound of
  the search loop is strict.\<close>

theorem memmem_fallback_finds_first:
  assumes "mem_load m (s_ptr h) (s_len h) = ret xs" and "mem_load m (s_ptr q) (s_len q) = ret ys"
    and "0 < s_len q"
  shows "\<exists>r. a3_string_memmem a3_shim_memmem m h q = ret r \<and>
    (if \<exists>i. occurs_at xs ys i \<and> i + length ys < length xs
     then r = \<lparr>s_ptr = ptr_plus (s_ptr h) (LEAST i. occurs_at xs ys i), s_len = s_len q\<rparr>
     else s_ptr r = Null)"
proof -
  obtain r where r: "a3_string_memmem a3_shim_memmem m h q = ret r"
    "s_ptr r \<noteq> Null \<longrightarrow> (\<exists>i. r = \<lparr>s_ptr = ptr_plus (s_ptr h) i, s_len = s_len q\<rparr> \<and> first_at xs ys i \<and> i + length ys < length xs)"
    "s_ptr r = Null \<longrightarrow> (\<forall>i. occurs_at xs ys i \<longrightarrow> i + length ys = length xs)"
    using fallback_search_strict [OF assms] by blast
  have "(LEAST i. occurs_at xs ys i) = i" if "first_at xs ys i" for i
    using that unfolding first_at_def by (intro Least_equality) (auto simp: not_less [symmetric])
  then show ?thesis using r by (intro exI [of _ r]) (cases "s_ptr r = Null"; fastforce simp: first_at_def)
qed

text \<open>The first \<open>l\<close> of \<open>hello\<close> is found, its \<open>lo\<close> is not.\<close>

theorem memmem_fallback_finds_first_witness:
  "a3_string_memmem a3_shim_memmem ex_mem ex_hello (ex_lo\<lparr>s_len := 1\<rparr>) = ret \<lparr>s_ptr = Ptr 0 3, s_len = 1\<rparr> \<and>
   (\<exists>r. a3_string_memmem a3_shim_memmem ex_mem ex_hello ex_lo = ret r \<and> s_ptr r = Null)"
proof -
  let ?hello = "[72, 101, 108, 108, 111 :: u8]"
  have l: "mem_load ex_mem (s_ptr (ex_lo\<lparr>s_len := 1\<rparr>)) (s_len (ex_lo\<lparr>s_len := 1\<rparr>)) = ret [108]"
    by (simp add: ex_lo_def mem_load_block ex_blocks)
  have o: "occurs_at ?hello [108] 2" "\<not> occurs_at ?hello [108] 0" "\<not> occurs_at ?hello [108] 1"
    by (simp_all add: occurs_at_def)
  have "(LEAST i. occurs_at ?hello [108] i) = 2"
  proof (rule Least_equality)
    fix i assume "occurs_at ?hello [108] i"
    then have "i \<noteq> 0 \<and> i \<noteq> 1" using o(2,3) by metis
    then show "2 \<le> i" by linarith
  qed (rule o(1))
  moreover have "\<exists>i. occurs_at ?hello [108] i \<and> i + 1 < 5" using o(1) by (intro exI [of _ 2]) simp
  moreover have "\<not> (occurs_at ?hello [108, 111] i \<and> i + 2 < 5)" for i
  proof
    assume i: "occurs_at ?hello [108, 111] i \<and> i + 2 < 5"
    then consider "i = 0" | "i = 1" | "i = 2" by linarith
    then show False using i by cases (simp_all add: occurs_at_def)
  qed
  ultimately have f: "(\<exists>i. occurs_at ?hello [108] i \<and> i + length [108 :: u8] < length ?hello) = True"
      "(\<exists>i. occurs_at ?hello [108, 111] i \<and> i + length [108, 111 :: u8] < length ?hello) = False"
      "(LEAST i. occurs_at ?hello [108] i) = 2" by (auto simp: numeral_3_eq_3)
  show ?thesis
    using memmem_fallback_finds_first [OF ex_loads(1) l] memmem_fallback_finds_first [OF ex_loads(1,2)]
    unfolding f if_True if_False by (simp add: ex_loads)
qed

text \<open>\<open>a3_string_cmp\<close> of two strings never reads outside them; it is zero exactly if they have
  the same length and the same bytes before the first zero byte, and -1 for any two lengths
  that differ.\<close>

theorem string_cmp_zero:
  assumes "mem_load m (s_ptr l) (s_len l) = ret xs" and "mem_load m (s_ptr r) (s_len r) = ret ys"
  shows "\<exists>c. a3_string_cmp m l r = ret c \<and>
    (c = 0 \<longleftrightarrow> length xs = length ys \<and> takeWhile (\<lambda>x. x \<noteq> 0) xs = takeWhile (\<lambda>x. x \<noteq> 0) ys) \<and>
    (length xs \<noteq> length ys \<longrightarrow> c = - 1)"
  using string_cmp_correct [OF assms] string_cmp_zero_iff [of xs ys]
  by (simp add: c_prefix_def string_cmp_bytes_def)

theorem string_cmp_zero_witness: "a3_string_cmp ex_mem ex_hello ex_lo = ret (- 1)"
  using string_cmp_zero [OF ex_loads(1,2)] by auto

text \<open>\<open>a3_string_rchr\<close> of a string that is not empty returns the rest of the string from the last
  occurrence of the byte on, or the null string if there is none.\<close>

theorem rchr_finds_last:
  assumes "mem_load m (s_ptr s) (s_len s) = ret xs" and "xs \<noteq> []" and "s_len s < size_mod"
  shows "\<exists>r. a3_string_rchr m s c = ret r \<and> (if c \<in> set xs
    then \<exists>j < length xs. s_ptr r = ptr_plus (s_ptr s) j \<and> s_len r = length xs - j \<and> xs ! j = c \<and>
           c \<notin> set (drop (Suc j) xs)
    else r = a3_cs_null)"
  using rchr_correct [OF assms] .

theorem rchr_finds_last_witness: "a3_string_rchr ex_mem ex_hello 33 = ret a3_cs_null"
  using rchr_finds_last [OF ex_loads(1), of 33] ex_loads(3) by (simp add: size_mod_def)

section \<open>String-keyed hash tables\<close>

text \<open>In a hash table keyed by strings without zero bytes and compared with \<open>a3_string_cmp\<close>,
  whatever the hash function, a key just inserted is found with its value and the other keys
  with theirs.\<close>

theorem string_table_insert_find:
  assumes "ht_inv nul_free (string_params H z) t" and "nul_free k" and "nul_free k'"
    and "ht_map t k = None" and "\<not> can_grow t" and "ht_size t < cap t"
  shows "\<exists>t'. ht_insert (string_params H z) ok t k v = ret (True, t') \<and>
    ht_find (string_params H z) t' k' = ret (if k' = k then Some v else ht_map t k')"
proof -
  obtain r t' where t': "ht_insert (string_params H z) ok t k v = ret (r, t')"
    "ht_inv nul_free (string_params H z) t'" "insert_spec t k v r t'"
    using string_ht.insert_correct [OF assms(1,2), of ok v] assms(5) by blast
  then have "ht_wf nul_free (string_params H z) t'" by (simp add: ht_inv_def)
  then have "ht_find (string_params H z) t' k' = ret (ht_map t' k')"
    using assms(3) by (rule string_ht.find_correct)
  then show ?thesis using t' assms(4-6) by (auto simp: insert_spec_def insert_effect_def)
qed

lemma ex_string_table:
  "\<exists>t. ht_inv nul_free (string_params (\<lambda>hk k. of_nat (length k)) (0::nat)) t \<and> ht_map t = Map.empty \<and>
     \<not> can_grow t \<and> ht_size t < cap t"
  using init_correct [where key = None and grow = False and valid = nul_free and
      p = "string_params (\<lambda>hk k. of_nat (length k)) (0::nat)" and rnd = "\<lambda>i. 0"] by auto

theorem string_table_insert_find_witness:
  "\<exists>t t'. ht_insert (string_params (\<lambda>hk k. of_nat (length k)) (0::nat)) True t [97, 98] 7 = ret (True, t') \<and>
    ht_find (string_params (\<lambda>hk k. of_nat (length k)) 0) t' [97, 98] = ret (Some 7)"
proof -
  obtain t where t: "ht_inv nul_free (string_params (\<lambda>hk k. of_nat (length k)) (0::nat)) t"
    "ht_map t = Map.empty" "\<not> can_grow t" "ht_size t < cap t" using ex_string_table by blast
  have "nul_free [97, 98]" by (simp add: nul_free_def)
  then show ?thesis
    using string_table_insert_find [OF t(1), of "[97, 98]" "[97, 98]" True 7] t(2-4) by auto
qed

section \<open>Printing a string\<close>

text \<open>
  With \<open>"%.*s"\<close> a precision below zero counts as none, so a string of \<open>2 ^ 31\<close> bytes or more is printed up to the next zero byte,
  wherever that is, and of one of \<open>2 ^ 32\<close> bytes nothing.
\<close>

lemma s_format_precision:
  shows "s_len s < 2 ^ 31 \<Longrightarrow> a3_s_format s = (int (s_len s), s_ptr s)"
    and "2 ^ 31 \<le> s_len s \<Longrightarrow> s_len s < 2 ^ 32 \<Longrightarrow> fst (a3_s_format s) < 0"
    and "s_len s = 2 ^ 32 \<Longrightarrow> fst (a3_s_format s) = 0"
proof -
  show "a3_s_format s = (int (s_len s), s_ptr s)" if "s_len s < 2 ^ 31" using that by (simp add: a3_s_format_def c_int_def)
  show "fst (a3_s_format s) < 0" if "2 ^ 31 \<le> s_len s" "s_len s < 2 ^ 32"
  proof -
    have "(int (s_len s) + 2 ^ 31) mod 2 ^ 32 = int (s_len s) - 2 ^ 31"
      using that by (intro int_mod_pos_eq [where q = 1]) simp_all
    then show ?thesis using that by (simp add: a3_s_format_def c_int_def)
  qed
  show "fst (a3_s_format s) = 0" if "s_len s = 2 ^ 32" using that by (simp add: a3_s_format_def c_int_def)
qed

end
