(* ===== verification/Buffer.thy ===== *)
theory Buffer
  imports Str
begin

text \<open>
  The growable byte buffer of \<open>src/include/a3/buffer.h\<close> and \<open>src/buffer.c\<close>. The \<open>A3Buffer\<close>
  structure is a record passed in and out (no byte pointer can point into it); its data
  lies in the memory of \<open>Mem\<close>.

  Parameters: \<open>ok\<close> is the success of the allocation a call may make; \<open>search\<close> is the chosen
  \<open>memmem\<close>; the text \<open>vsnprintf\<close> would print for a format and its arguments is the parameter
  \<open>out\<close> (\<open>None\<close> when it reports an error).
\<close>

record a3_buffer =
  b_data :: a3_string
  b_tail :: size_t
  b_head :: size_t
  b_max_cap :: size_t

section \<open>Indices\<close>

definition a3_buf_initialized :: "a3_buffer \<Rightarrow> bool run" where
  "a3_buf_initialized b = assert_c (b_head b \<le> b_tail b) (ret (s_ptr (b_data b) \<noteq> Null))"

text \<open>\<open>assert(a3_buf_initialized(buf))\<close>.\<close>

definition buf_assert :: "a3_buffer \<Rightarrow> 'a run \<Rightarrow> 'a run" where
  "buf_assert b k = bind_run (a3_buf_initialized b) (\<lambda>i. assert_c i k)"

definition a3_buf_reset :: "a3_buffer \<Rightarrow> a3_buffer run" where
  "a3_buf_reset b = buf_assert b (ret (b\<lparr>b_head := 0, b_tail := 0\<rparr>))"

definition a3_buf_reset_if_empty :: "a3_buffer \<Rightarrow> (a3_buffer \<times> bool) run" where
  "a3_buf_reset_if_empty b = buf_assert b
     (if b_head b \<noteq> b_tail b then ret (b, False)
      else bind_run (a3_buf_reset b) (\<lambda>b'. ret (b', True)))"

definition a3_buf_len :: "a3_buffer \<Rightarrow> size_t run" where
  "a3_buf_len b = buf_assert b (ret (sz_sub (b_tail b) (b_head b)))"

definition a3_buf_cap :: "a3_buffer \<Rightarrow> size_t run" where
  "a3_buf_cap b = buf_assert b (bind_run (a3_buf_len b) (\<lambda>n. ret (sz_sub (s_len (b_data b)) n)))"

definition a3_buf_space :: "a3_buffer \<Rightarrow> (a3_buffer \<times> size_t) run" where
  "a3_buf_space b = buf_assert b (bind_run (a3_buf_reset_if_empty b) (\<lambda>(b', r).
     ret (b', sz_sub (s_len (b_data b')) (b_tail b'))))"

section \<open>Creation and release\<close>

definition a3_buf_init ::
  "mem \<Rightarrow> bool \<Rightarrow> a3_buffer \<Rightarrow> size_t \<Rightarrow> size_t \<Rightarrow> (mem \<times> a3_buffer \<times> bool)" where
  "a3_buf_init m ok b c max_c =
     (let (m', b') = (if s_ptr (b_data b) = Null
          then (let (m1, s) = a3_string_alloc m ok c in (m1, b\<lparr>b_data := s\<rparr>)) else (m, b))
      in if s_ptr (b_data b') = Null then (m', b', False) else (m', b'\<lparr>b_max_cap := max_c\<rparr>, True))"

text \<open>A structure whose bytes are all zero, as \<open>calloc\<close> and \<open>memset\<close> leave it.\<close>

definition buf_zero :: a3_buffer where
  "buf_zero = \<lparr>b_data = a3_s_null, b_tail = 0, b_head = 0, b_max_cap = 0\<rparr>"

definition a3_buf_new :: "mem \<Rightarrow> bool \<Rightarrow> bool \<Rightarrow> size_t \<Rightarrow> size_t \<Rightarrow> (mem \<times> a3_buffer) run" where
  "a3_buf_new m ok_struct ok c max_c =
     require ok_struct Null_deref (let (m', b, r) = a3_buf_init m ok buf_zero c max_c in ret (m', b))"

definition a3_buf_destroy :: "mem \<Rightarrow> a3_buffer \<Rightarrow> (mem \<times> a3_buffer) run" where
  "a3_buf_destroy m b = buf_assert b
     (bind_run (a3_string_free m (b_data b)) (\<lambda>(m', s). ret (m', buf_zero)))"

definition a3_buf_free :: "mem \<Rightarrow> a3_buffer \<Rightarrow> mem run" where
  "a3_buf_free m b = buf_assert b (bind_run (a3_buf_destroy m b) (\<lambda>(m', b'). ret m'))"

section \<open>Room\<close>

definition a3_buf_compact :: "mem \<Rightarrow> a3_buffer \<Rightarrow> (mem \<times> a3_buffer \<times> bool) run" where
  "a3_buf_compact m b = buf_assert b (assert_c (b_head b \<noteq> 0)
     (bind_run (a3_buf_len b) (\<lambda>n.
      bind_run (c_memmove m (s_ptr (b_data b)) (ptr_plus (s_ptr (b_data b)) (b_head b)) n) (\<lambda>m'.
        ret (m', b\<lparr>b_tail := sz_sub (b_tail b) (b_head b), b_head := 0\<rparr>, True)))))"

text \<open>The loop that doubles \<open>new_cap\<close>; it need not end once the doubling wraps to 0.\<close>

partial_function (option) double_until :: "size_t \<Rightarrow> size_t \<Rightarrow> size_t run" where
  "double_until new_cap goal =
     (if new_cap < goal then double_until (sz_mul new_cap 2) goal else ret new_cap)"

definition a3_buf_ensure_cap :: "mem \<Rightarrow> bool \<Rightarrow> a3_buffer \<Rightarrow> size_t \<Rightarrow> (mem \<times> a3_buffer \<times> bool) run" where
  "a3_buf_ensure_cap m ok b extra = buf_assert b
     (bind_run (a3_buf_space b) (\<lambda>(b1, sp).
        if extra \<le> sp then ret (m, b1, True)
        else bind_run (a3_buf_len b1) (\<lambda>n.
          if b_max_cap b1 < sz_add n extra then ret (m, b1, False)
          else bind_run (a3_buf_cap b1) (\<lambda>c.
            if extra \<le> c then a3_buf_compact m b1
            else bind_run (double_until (max (max (s_len (b_data b1)) 8) (b_max_cap b1))
                             (sz_add (s_len (b_data b1)) extra)) (\<lambda>new_cap.
              bind_run (a3_string_realloc m ok (b_data b1) (min new_cap (b_max_cap b1))) (\<lambda>(m', old, new_data).
                if s_ptr new_data = Null then ret (m', b1\<lparr>b_data := old\<rparr>, False)
                else ret (m', b1\<lparr>b_data := new_data\<rparr>, True)))))))"

definition a3_buf_ensure_max_cap :: "mem \<Rightarrow> bool \<Rightarrow> a3_buffer \<Rightarrow> (mem \<times> a3_buffer \<times> bool) run" where
  "a3_buf_ensure_max_cap m ok b = buf_assert b
     (if b_max_cap b \<le> s_len (b_data b) then ret (m, b, True)
      else a3_buf_ensure_cap m ok b (sz_sub (b_max_cap b) (s_len (b_data b))))"

section \<open>Writing\<close>

definition a3_buf_write_ptr :: "a3_buffer \<Rightarrow> (a3_buffer \<times> a3_string) run" where
  "a3_buf_write_ptr b =
     bind_run (a3_buf_reset_if_empty b) (\<lambda>(b1, r).
     bind_run (a3_buf_space b1) (\<lambda>(b2, sp).
       ret (b2, \<lparr>s_ptr = ptr_plus (s_ptr (b_data b2)) (b_tail b2), s_len = sp\<rparr>)))"

definition a3_buf_wrote :: "a3_buffer \<Rightarrow> size_t \<Rightarrow> a3_buffer run" where
  "a3_buf_wrote b n = buf_assert b
     (assert_c (sz_add (b_tail b) n \<le> s_len (b_data b)) (ret (b\<lparr>b_tail := sz_add (b_tail b) n\<rparr>)))"

definition a3_buf_write_str :: "mem \<Rightarrow> bool \<Rightarrow> a3_buffer \<Rightarrow> a3_cstring \<Rightarrow> (mem \<times> a3_buffer \<times> bool) run" where
  "a3_buf_write_str m ok b s = buf_assert b
     (bind_run (a3_buf_len b) (\<lambda>n.
        if b_max_cap b < sz_add (s_len s) n then ret (m, b, False)
        else bind_run (a3_buf_ensure_cap m ok b (s_len s)) (\<lambda>(m1, b1, r).
          if \<not> r then ret (m1, b1, False)
          else bind_run (a3_buf_write_ptr b1) (\<lambda>(b2, w).
               bind_run (a3_string_copy m1 w s) (\<lambda>m2.
               bind_run (a3_buf_wrote b2 (s_len s)) (\<lambda>b3. ret (m2, b3, True)))))))"

text \<open>\<open>A3_BUF_WRITE_STRUCT\<close> of an object of \<open>n\<close> bytes at \<open>p\<close>.\<close>

definition a3_buf_write_struct :: "mem \<Rightarrow> bool \<Rightarrow> a3_buffer \<Rightarrow> ptr \<Rightarrow> size_t \<Rightarrow> (mem \<times> a3_buffer \<times> bool) run" where
  "a3_buf_write_struct m ok b p n = a3_buf_write_str m ok b (a3_cs_obj p n)"

definition a3_buf_write_byte :: "mem \<Rightarrow> bool \<Rightarrow> a3_buffer \<Rightarrow> u8 \<Rightarrow> (mem \<times> a3_buffer \<times> bool) run" where
  "a3_buf_write_byte m ok b x = buf_assert b
     (bind_run (a3_buf_ensure_cap m ok b 1) (\<lambda>(m1, b1, r).
        if \<not> r then ret (m1, b1, False)
        else bind_run (mem_set m1 (s_ptr (b_data b1)) (b_tail b1) x) (\<lambda>m2.
          ret (m2, b1\<lparr>b_tail := sz_add (b_tail b1) 1\<rparr>, True))))"

text \<open>\<open>ok1\<close> and \<open>ok2\<close> are the allocations of the string and of the newline.\<close>

definition a3_buf_write_line ::
  "mem \<Rightarrow> bool \<Rightarrow> bool \<Rightarrow> a3_buffer \<Rightarrow> a3_cstring \<Rightarrow> (mem \<times> a3_buffer \<times> bool) run" where
  "a3_buf_write_line m ok1 ok2 b s =
     bind_run (a3_buf_write_str m ok1 b s) (\<lambda>(m1, b1, r).
       if \<not> r then ret (m1, b1, False) else a3_buf_write_byte m1 ok2 b1 10)"

text \<open>\<open>vsnprintf\<close> into \<open>n\<close> bytes: at most \<open>n - 1\<close> bytes of the text, then a zero byte.\<close>

definition c_vsnprintf :: "mem \<Rightarrow> ptr \<Rightarrow> size_t \<Rightarrow> u8 list \<Rightarrow> mem run" where
  "c_vsnprintf m p n out = (if n = 0 then ret m else mem_store m p (take (n - 1) out @ [0]))"

text \<open>The loop of \<open>a3_buf_write_vfmt\<close>, up to the \<open>break\<close>; \<open>w\<close> is \<open>write_ptr\<close>.\<close>

partial_function (option) vfmt_loop ::
  "mem \<Rightarrow> bool \<Rightarrow> a3_buffer \<Rightarrow> a3_string \<Rightarrow> u8 list \<Rightarrow> (mem \<times> a3_buffer \<times> a3_string) run" where
  "vfmt_loop m ok b w out =
     bind_run (c_vsnprintf m (s_ptr w) (s_len w) out) (\<lambda>m1.
       if length out < s_len w then ret (m1, b, w)
       else bind_run (a3_buf_ensure_cap m1 ok b (sz_add (length out) 1)) (\<lambda>(m2, b2, r).
         if \<not> r then ret (m2, b2, w)
         else bind_run (a3_buf_write_ptr b2) (\<lambda>(b3, w3). vfmt_loop m2 ok b3 w3 out)))"

definition a3_buf_write_vfmt ::
  "mem \<Rightarrow> bool \<Rightarrow> a3_buffer \<Rightarrow> u8 list option \<Rightarrow> (mem \<times> a3_buffer \<times> bool) run" where
  "a3_buf_write_vfmt m ok b res = buf_assert b
     (bind_run (a3_buf_write_ptr b) (\<lambda>(b1, w). case res of
         None \<Rightarrow> ret (m, b1, False)
       | Some out \<Rightarrow> bind_run (vfmt_loop m ok b1 w out) (\<lambda>(m2, b2, w2).
           bind_run (a3_buf_wrote b2 (min (s_len w2) (length out))) (\<lambda>b3. ret (m2, b3, True)))))"

text \<open>\<open>a3_buf_write_fmt\<close> only collects its variable arguments.\<close>

definition a3_buf_write_fmt ::
  "mem \<Rightarrow> bool \<Rightarrow> a3_buffer \<Rightarrow> u8 list option \<Rightarrow> (mem \<times> a3_buffer \<times> bool) run" where
  "a3_buf_write_fmt m ok b res = a3_buf_write_vfmt m ok b res"

text \<open>\<open>uint8_t tmp[20]\<close> is a block of its own, gone when the function returns.\<close>

definition a3_buf_write_num :: "mem \<Rightarrow> bool \<Rightarrow> a3_buffer \<Rightarrow> size_t \<Rightarrow> (mem \<times> a3_buffer \<times> bool) run" where
  "a3_buf_write_num m ok b num =
     (let (m1, tmp) = mem_new_block m (replicate 20 0) in
      bind_run (a3_string_itoa_into m1 \<lparr>s_ptr = tmp, s_len = 20\<rparr> num) (\<lambda>(m2, s).
      bind_run (a3_buf_write_str m2 ok b (a3_s_const s)) (\<lambda>(m3, b', r).
        ret (m3\<lparr>blocks := (blocks m3)(next_block m := None)\<rparr>, b', r))))"

section \<open>Reading\<close>

definition a3_buf_read_ptr :: "a3_buffer \<Rightarrow> a3_cstring run" where
  "a3_buf_read_ptr b = buf_assert b (bind_run (a3_buf_len b) (\<lambda>n.
     ret \<lparr>s_ptr = ptr_plus (s_ptr (b_data b)) (b_head b), s_len = n\<rparr>))"

definition a3_buf_read :: "a3_buffer \<Rightarrow> size_t \<Rightarrow> a3_buffer run" where
  "a3_buf_read b n = buf_assert b (assert_c (sz_add (b_head b) n \<le> s_len (b_data b))
     (bind_run (a3_buf_reset_if_empty (b\<lparr>b_head := sz_add (b_head b) n\<rparr>)) (\<lambda>(b', r). ret b')))"

definition a3_buf_memmem :: "memmem_fn \<Rightarrow> mem \<Rightarrow> a3_buffer \<Rightarrow> a3_cstring \<Rightarrow> a3_string run" where
  "a3_buf_memmem search m b q = buf_assert b (assert_c (s_ptr q \<noteq> Null) (assert_c (0 < s_len q)
     (bind_run (a3_buf_read_ptr b) (\<lambda>h.
      bind_run (a3_string_memmem search m h q) (\<lambda>r. ret (a3_cs_mut r))))))"

text \<open>\<open>p - q\<close>, for pointers into the same block.\<close>

definition ptr_diff :: "ptr \<Rightarrow> ptr \<Rightarrow> nat run" where
  "ptr_diff p q = (case (p, q) of
       (Ptr b x, Ptr c y) \<Rightarrow> require (b = c) Out_of_bounds (ret (sz_sub x y))
     | _ \<Rightarrow> fail Null_deref)"

definition a3_buf_consume :: "memmem_fn \<Rightarrow> mem \<Rightarrow> a3_buffer \<Rightarrow> a3_cstring \<Rightarrow> (a3_buffer \<times> bool) run" where
  "a3_buf_consume search m b q = assert_c (s_ptr q \<noteq> Null)
     (bind_run (a3_buf_memmem search m b q) (\<lambda>pos.
        if s_ptr pos = Null then ret (b, False)
        else bind_run (ptr_diff (s_ptr pos) (s_ptr (b_data b))) (\<lambda>d.
          if d \<noteq> b_head b then ret (b, False)
          else bind_run (a3_buf_read b (s_len q)) (\<lambda>b'. ret (b', True)))))"

section \<open>Tokens\<close>

definition is_delim :: "mem \<Rightarrow> a3_cstring \<Rightarrow> a3_buffer \<Rightarrow> nat \<Rightarrow> bool run" where
  "is_delim m delim b i = bind_run (mem_get m (s_ptr (b_data b)) i) (\<lambda>c. c_memchr m (s_ptr delim) c (s_len delim))"

partial_function (option) skip_delims :: "mem \<Rightarrow> a3_cstring \<Rightarrow> a3_buffer \<Rightarrow> a3_buffer run" where
  "skip_delims m delim b =
     (if b_head b < b_tail b then
        bind_run (is_delim m delim b (b_head b)) (\<lambda>d.
          if d then bind_run (a3_buf_read b 1) (skip_delims m delim) else ret b)
      else ret b)"

function token_end :: "mem \<Rightarrow> a3_cstring \<Rightarrow> a3_buffer \<Rightarrow> nat \<Rightarrow> nat run" where
  "token_end m delim b e =
     (if e < b_tail b then
        bind_run (is_delim m delim b e) (\<lambda>d. if d then ret e else token_end m delim b (e + 1))
      else ret e)"
  by pat_completeness auto
termination
  by (relation "measure (\<lambda>(m, delim, b, e). b_tail b - e)") auto

declare token_end.simps [simp del]

function zero_delims :: "mem \<Rightarrow> a3_cstring \<Rightarrow> a3_buffer \<Rightarrow> nat \<Rightarrow> (mem \<times> nat) run" where
  "zero_delims m delim b i =
     (if i < b_tail b then
        bind_run (is_delim m delim b i) (\<lambda>d.
          if d then bind_run (mem_set m (s_ptr (b_data b)) i 0) (\<lambda>m'. zero_delims m' delim b (i + 1))
          else ret (m, i))
      else ret (m, i))"
  by pat_completeness auto
termination
  by (relation "measure (\<lambda>(m, delim, b, i). b_tail b - i)") auto

declare zero_delims.simps [simp del]

definition a3_buf_token_next ::
  "mem \<Rightarrow> a3_buffer \<Rightarrow> a3_cstring \<Rightarrow> bool \<Rightarrow> (mem \<times> a3_buffer \<times> a3_string) run" where
  "a3_buf_token_next m b delim preserve_end =
     bind_run (a3_buf_initialized b) (\<lambda>i.
       if \<not> i then ret (m, b, a3_s_null)
       else bind_run (skip_delims m delim b) (\<lambda>b1.
         bind_run (token_end m delim b1 (b_head b1)) (\<lambda>e.
         bind_run (if preserve_end then ret (m, e) else zero_delims m delim b1 e) (\<lambda>(m', last).
           ret (m', b1\<lparr>b_head := last\<rparr>,
             \<lparr>s_ptr = ptr_plus (s_ptr (b_data b1)) (b_head b1), s_len = sz_sub e (b_head b1)\<rparr>)))))"

definition a3_buf_token_next_copy ::
  "mem \<Rightarrow> bool \<Rightarrow> a3_buffer \<Rightarrow> a3_cstring \<Rightarrow> bool \<Rightarrow> (mem \<times> a3_buffer \<times> a3_string) run" where
  "a3_buf_token_next_copy m ok b delim preserve_end =
     bind_run (a3_buf_token_next m b delim preserve_end) (\<lambda>(m1, b1, s).
     bind_run (a3_string_clone m1 ok (a3_s_const s)) (\<lambda>(m2, c). ret (m2, b1, c)))"

end
