(* ===== verification/Buffer_Inv.thy ===== *)
theory Buffer_Inv
  imports Buffer Str_Copy
begin

text \<open>
  The invariant of a buffer, the byte queue it stands for, and what the index operations, the
  growth of the buffer and reading from it do to that queue.
\<close>

section \<open>Invariant and contents\<close>

text \<open>
  The data lies in one block; it starts at the block unless the buffer may not be reallocated
  (a buffer overlaid on existing memory). Sizes are below a quarter of the address space.
\<close>

definition buf_inv :: "mem \<Rightarrow> a3_buffer \<Rightarrow> bool" where
  "buf_inv m b \<longleftrightarrow> mem_ok m \<and>
     (\<exists>k off bs. s_ptr (b_data b) = Ptr k off \<and> blocks m k = Some bs \<and>
        off + s_len (b_data b) \<le> length bs \<and> (off = 0 \<or> b_max_cap b \<le> s_len (b_data b))) \<and>
     b_head b \<le> b_tail b \<and> b_tail b \<le> s_len (b_data b) \<and>
     4 * s_len (b_data b) < size_mod \<and> 4 * b_max_cap b < size_mod"

definition buf_contents :: "mem \<Rightarrow> a3_buffer \<Rightarrow> u8 list" where
  "buf_contents m b =
     (case mem_load m (ptr_plus (s_ptr (b_data b)) (b_head b)) (b_tail b - b_head b) of
        Some (Inr xs) \<Rightarrow> xs | _ \<Rightarrow> [])"

text \<open>The invariant with its block: the queue is the part \<open>xs\<close> of \<open>pre @ xs @ post\<close>.\<close>

definition buf_view :: "mem \<Rightarrow> a3_buffer \<Rightarrow> nat \<Rightarrow> nat \<Rightarrow> u8 list \<Rightarrow> u8 list \<Rightarrow> u8 list \<Rightarrow> bool" where
  "buf_view m b k off pre xs post \<longleftrightarrow> mem_ok m \<and> s_ptr (b_data b) = Ptr k off \<and>
     blocks m k = Some (pre @ xs @ post) \<and> length pre = off + b_head b \<and>
     b_tail b = b_head b + length xs \<and> b_tail b \<le> s_len (b_data b) \<and>
     s_len (b_data b) - b_tail b \<le> length post \<and> (off = 0 \<or> b_max_cap b \<le> s_len (b_data b)) \<and>
     4 * s_len (b_data b) < size_mod \<and> 4 * b_max_cap b < size_mod"

lemma buf_viewD:
  assumes "buf_view m b k off pre xs post"
  shows "buf_inv m b" "buf_contents m b = xs"
  using assms
  by (auto simp: buf_view_def buf_inv_def buf_contents_def mem_load_block intro!: exI [of _ k] exI [of _ off])

lemma buf_invE:
  assumes "buf_inv m b"
  obtains k off pre post where "buf_view m b k off pre (buf_contents m b) post"
proof -
  obtain k off bs where k: "s_ptr (b_data b) = Ptr k off" "blocks m k = Some bs"
    "off + s_len (b_data b) \<le> length bs" "off = 0 \<or> b_max_cap b \<le> s_len (b_data b)"
    using assms by (auto simp: buf_inv_def)
  let ?pre = "take (off + b_head b) bs" and ?xs = "take (b_tail b - b_head b) (drop (off + b_head b) bs)"
    and ?post = "drop (off + b_tail b) bs"
  have "drop (off + b_head b) bs = ?xs @ ?post"
    using append_take_drop_id [of "b_tail b - b_head b" "drop (off + b_head b) bs"] assms
    by (simp add: buf_inv_def ac_simps)
  then have "bs = ?pre @ ?xs @ ?post" by (metis append_take_drop_id)
  moreover have "length ?xs = b_tail b - b_head b" "length ?pre = off + b_head b" "b_head b \<le> b_tail b"
    "s_len (b_data b) - b_tail b \<le> length ?post"
    using assms k by (auto simp: buf_inv_def)
  ultimately have "buf_view m b k off ?pre ?xs ?post" using assms k unfolding buf_view_def buf_inv_def by simp
  then show ?thesis using that buf_viewD(2) by metis
qed

section \<open>Indices\<close>

text \<open>The buffer after \<open>a3_buf_reset_if_empty\<close>.\<close>

definition buf_norm :: "a3_buffer \<Rightarrow> a3_buffer" where
  "buf_norm b = (if b_head b = b_tail b then b\<lparr>b_head := 0, b_tail := 0\<rparr> else b)"

lemma buf_norm_fields [simp]:
  "b_data (buf_norm b) = b_data b" "b_max_cap (buf_norm b) = b_max_cap b"
  "buf_norm (buf_norm b) = buf_norm b"
  "b_tail (buf_norm b) - b_head (buf_norm b) = b_tail b - b_head b"
  by (simp_all add: buf_norm_def)

lemma buf_inv_assert [simp]:
  assumes "buf_inv m b"
  shows "buf_assert b r = r" "a3_buf_initialized b = ret True"
  using assms by (auto simp: buf_assert_def a3_buf_initialized_def buf_inv_def)

lemma buf_inv_norm [simp]: "buf_inv m b \<Longrightarrow> buf_inv m (buf_norm b)"
  by (auto simp: buf_inv_def buf_norm_def)

lemma buf_contents_norm [simp]:
  assumes "buf_inv m b"
  shows "buf_contents m (buf_norm b) = buf_contents m b"
proof (cases "b_head b = b_tail b")
  case True
  obtain k off bs where "s_ptr (b_data b) = Ptr k off" "blocks m k = Some bs" "off + s_len (b_data b) \<le> length bs"
    using assms by (auto simp: buf_inv_def)
  then show ?thesis using assms True
    by (simp add: buf_contents_def buf_norm_def mem_load_block buf_inv_def)
qed (simp add: buf_norm_def)

lemma buf_inv_bounds:
  assumes "buf_inv m b"
  shows "b_head b \<le> b_tail b" "b_tail b \<le> s_len (b_data b)" "s_len (b_data b) < size_mod"
    "b_max_cap b < size_mod" "length (buf_contents m b) = b_tail b - b_head b"
proof -
  show "b_head b \<le> b_tail b" "b_tail b \<le> s_len (b_data b)" "s_len (b_data b) < size_mod"
    "b_max_cap b < size_mod" using assms by (auto simp: buf_inv_def)
  show "length (buf_contents m b) = b_tail b - b_head b"
    using assms by (elim buf_invE) (simp add: buf_view_def)
qed

lemma buf_index_ops:
  assumes "buf_inv m b"
  shows "a3_buf_reset_if_empty b = ret (buf_norm b, b_head b = b_tail b)"
    and "a3_buf_len b = ret (b_tail b - b_head b)"
    and "a3_buf_cap b = ret (s_len (b_data b) - (b_tail b - b_head b))"
    and "a3_buf_space b = ret (buf_norm b, s_len (b_data b) - b_tail (buf_norm b))"
proof -
  note i = buf_inv_bounds [OF assms]
  show r: "a3_buf_reset_if_empty b = ret (buf_norm b, b_head b = b_tail b)"
    using assms by (simp add: a3_buf_reset_if_empty_def a3_buf_reset_def buf_norm_def)
  show l: "a3_buf_len b = ret (b_tail b - b_head b)" using assms i by (simp add: a3_buf_len_def)
  show "a3_buf_cap b = ret (s_len (b_data b) - (b_tail b - b_head b))"
    using assms i l by (simp add: a3_buf_cap_def)
  show "a3_buf_space b = ret (buf_norm b, s_len (b_data b) - b_tail (buf_norm b))"
    using assms r buf_inv_bounds(2,3) [OF buf_inv_norm [OF assms]] by (simp add: a3_buf_space_def)
qed

lemma write_ptr_correct:
  assumes "buf_inv m b"
  shows "a3_buf_write_ptr b = ret (buf_norm b,
    \<lparr>s_ptr = ptr_plus (s_ptr (b_data b)) (b_tail (buf_norm b)), s_len = s_len (b_data b) - b_tail (buf_norm b)\<rparr>)"
  using assms buf_index_ops(4) [OF buf_inv_norm [OF assms]]
  by (simp add: a3_buf_write_ptr_def buf_index_ops(1) [OF assms])

lemma read_ptr_correct:
  assumes "buf_inv m b"
  shows "a3_buf_read_ptr b = ret \<lparr>s_ptr = ptr_plus (s_ptr (b_data b)) (b_head b), s_len = b_tail b - b_head b\<rparr>"
  using assms by (simp add: a3_buf_read_ptr_def buf_index_ops(2) [OF assms])

lemma buf_contents_load:
  assumes "buf_inv m b"
  shows "mem_load m (ptr_plus (s_ptr (b_data b)) (b_head b)) (b_tail b - b_head b) = ret (buf_contents m b)"
  using assms by (elim buf_invE) (auto simp: buf_view_def mem_load_block)

section \<open>Consuming\<close>

lemma read_correct:
  assumes inv: "buf_inv m b" and n: "n \<le> length (buf_contents m b)"
  shows "\<exists>b'. a3_buf_read b n = ret b' \<and> buf_inv m b' \<and> buf_contents m b' = drop n (buf_contents m b) \<and>
    b_data b' = b_data b \<and> b_max_cap b' = b_max_cap b \<and> b' = buf_norm (b\<lparr>b_head := b_head b + n\<rparr>)"
proof -
  note i = buf_inv_bounds [OF inv]
  let ?b = "b\<lparr>b_head := b_head b + n\<rparr>"
  obtain k off pre post where v: "buf_view m b k off pre (buf_contents m b) post" using inv by (rule buf_invE)
  have "pre @ buf_contents m b @ post = (pre @ take n (buf_contents m b)) @ drop n (buf_contents m b) @ post"
    by (metis append.assoc append_take_drop_id)
  then have v': "buf_view m ?b k off (pre @ take n (buf_contents m b)) (drop n (buf_contents m b)) post"
    using v n unfolding buf_view_def by auto
  note inv' = buf_viewD [OF v']
  have add: "sz_add (b_head b) n = b_head b + n" using i n by simp
  have "b_head b + n \<le> s_len (b_data b)" using i n by linarith
  then have "a3_buf_read b n = ret (buf_norm ?b)"
    using inv buf_index_ops(1) [OF inv'(1)] by (simp add: a3_buf_read_def add)
  then show ?thesis using inv' by simp
qed

end
