(* ===== verification/Buffer_Write.thy ===== *)
theory Buffer_Write
  imports Buffer_Inv
begin

text \<open>
  Making room in a buffer (compaction and growth) and writing strings, bytes and numbers to it.
\<close>

section \<open>What an operation leaves alone\<close>

text \<open>
  The maximal capacity stays, contents at the start of the buffer stay there, and the storage only changes by growing
  to the maximal capacity, into a block of its own.
\<close>

definition buf_moved :: "a3_buffer \<Rightarrow> a3_buffer \<Rightarrow> bool" where
  "buf_moved b b' \<longleftrightarrow> b_max_cap b' = b_max_cap b \<and> (b_head b = 0 \<longrightarrow> b_head b' = 0) \<and>
     (b_data b' = b_data b \<or> s_len (b_data b) < b_max_cap b \<and> s_len (b_data b') = b_max_cap b \<and>
        (\<exists>k. s_ptr (b_data b') = Ptr k 0))"

lemma buf_moved_same [simp]:
  "b_data b' = b_data b \<Longrightarrow> b_max_cap b' = b_max_cap b \<Longrightarrow> b_head b = 0 \<longrightarrow> b_head b' = 0 \<Longrightarrow> buf_moved b b'"
  by (simp add: buf_moved_def)

lemma buf_moved_trans: "buf_moved b b1 \<Longrightarrow> buf_moved b1 b2 \<Longrightarrow> buf_moved b b2"
  by (auto simp: buf_moved_def)

lemma buf_norm_head [simp]: "b_head b = 0 \<Longrightarrow> b_head (buf_norm b) = 0"
  by (simp add: buf_norm_def)

text \<open>Besides, no other block changes.\<close>

definition buf_frame :: "mem \<Rightarrow> a3_buffer \<Rightarrow> mem \<Rightarrow> a3_buffer \<Rightarrow> bool" where
  "buf_frame m b m' b' \<longleftrightarrow> buf_moved b b' \<and> only_moves m (s_ptr (b_data b)) m' (s_ptr (b_data b'))"

lemma buf_frame_load:
  assumes "buf_frame m b m' b'" and "mem_load m p n = ret xs"
    and "ptr_block p \<noteq> ptr_block (s_ptr (b_data b))"
  shows "mem_load m' p n = ret xs" "ptr_block p \<noteq> ptr_block (s_ptr (b_data b'))"
proof -
  obtain c off bs where c: "p = Ptr c off" "blocks m c = Some bs" "off + n \<le> length bs" "xs = take n (drop off bs)"
    using assms(2) by (rule mem_load_retE)
  then have "blocks m' c = Some bs \<and> ptr_block (s_ptr (b_data b')) \<noteq> Some c"
    using assms(1,3) only_movesD [of m "s_ptr (b_data b)" m' "s_ptr (b_data b')" c bs] by (auto simp: buf_frame_def)
  then show "mem_load m' p n = ret xs" "ptr_block p \<noteq> ptr_block (s_ptr (b_data b'))"
    using c by (auto simp: mem_load_block)
qed

lemma buf_frame_trans:
  "buf_frame m b m1 b1 \<Longrightarrow> buf_frame m1 b1 m2 b2 \<Longrightarrow> buf_frame m b m2 b2"
  by (auto simp: buf_frame_def intro: buf_moved_trans only_moves_trans)

lemma buf_frame_with_block [simp]:
  "s_ptr (b_data b) = Ptr k off \<Longrightarrow> b_data b' = b_data b \<Longrightarrow> b_max_cap b' = b_max_cap b \<Longrightarrow>
   b_head b = 0 \<longrightarrow> b_head b' = 0 \<Longrightarrow> buf_frame m b (with_block m k bs) b'"
  by (auto simp: buf_frame_def intro!: only_moves_same)

section \<open>Compaction and growth\<close>

lemma compact_correct:
  assumes inv: "buf_inv m b" and head: "b_head b \<noteq> 0"
  shows "\<exists>m' b'. a3_buf_compact m b = ret (m', b', True) \<and> buf_inv m' b' \<and>
    buf_contents m' b' = buf_contents m b \<and> buf_frame m b m' b' \<and> b_max_cap b' = b_max_cap b \<and>
    s_len (b_data b') = s_len (b_data b) \<and> b_tail b' = length (buf_contents m b) \<and> b_head b' = 0"
proof -
  let ?xs = "buf_contents m b"
  obtain k off pre post where v: "buf_view m b k off pre ?xs post" using inv by (rule buf_invE)
  define B where "B = pre @ ?xs @ post"
  let ?n = "length ?xs"
  let ?m = "with_block m k (take off B @ ?xs @ drop (off + ?n) B)"
  let ?b = "b\<lparr>b_tail := ?n, b_head := 0\<rparr>"
  have len: "length B = off + b_head b + ?n + length post" using v by (simp add: B_def buf_view_def)
  have bounds: "b_tail b - b_head b = ?n" "off + ?n \<le> length B" "blocks m k = Some B"
    "s_ptr (b_data b) = Ptr k off"
    using v len by (auto simp: buf_view_def B_def)
  have "c_memmove m (s_ptr (b_data b)) (ptr_plus (s_ptr (b_data b)) (b_head b)) ?n = ret ?m"
    using buf_contents_load [OF inv] bounds by (simp add: c_memmove_def mem_store_block)
  then have "a3_buf_compact m b = ret (?m, ?b, True)"
    using inv head bounds(1) buf_inv_bounds(1-4) [OF inv]
    by (simp add: a3_buf_compact_def buf_index_ops(2) [OF inv])
  moreover have view: "buf_view ?m ?b k off (take off B) ?xs (drop (off + ?n) B)"
    using v len bounds(2,4) unfolding buf_view_def by auto
  moreover have "buf_frame m b ?m ?b" using bounds by simp
  ultimately show ?thesis using buf_viewD [OF view]
    by (intro exI [of _ ?m] exI [of _ ?b]) simp
qed

lemma double_until_correct:
  assumes "0 < n" and "2 * goal \<le> size_mod"
  shows "\<exists>r. double_until n goal = ret r \<and> n \<le> r"
  using assms
proof (induction "goal - n" arbitrary: n rule: less_induct)
  case less
  show ?case
  proof (cases "n < goal")
    case True
    then have "\<exists>r. double_until (n * 2) goal = ret r \<and> n * 2 \<le> r" using less by simp
    moreover have "sz_mul n 2 = n * 2" using True less.prems by simp
    ultimately show ?thesis using True by (subst double_until.simps) auto
  next
    case False
    then show ?thesis by (subst double_until.simps) simp
  qed
qed

lemma grow_correct:
  assumes inv: "buf_inv m b" and big: "s_len (b_data b) < b_max_cap b"
  shows "\<exists>m' old new. a3_string_realloc m True (b_data b) (b_max_cap b) = ret (m', old, new) \<and>
    s_ptr new \<noteq> Null \<and> s_len new = b_max_cap b \<and> buf_inv m' (b\<lparr>b_data := new\<rparr>) \<and>
    buf_contents m' (b\<lparr>b_data := new\<rparr>) = buf_contents m b \<and> buf_frame m b m' (b\<lparr>b_data := new\<rparr>)"
proof -
  let ?xs = "buf_contents m b" and ?cap = "b_max_cap b"
  obtain k off pre post where v: "buf_view m b k off pre ?xs post" using inv by (rule buf_invE)
  then have off: "off = 0" and ok: "mem_ok m" and k: "blocks m k = Some (pre @ ?xs @ post)"
    and data: "b_data b = \<lparr>s_ptr = Ptr k 0, s_len = s_len (b_data b)\<rparr>"
    using big by (auto simp: buf_view_def)
  let ?new = "\<lparr>s_ptr = Ptr (next_block m) 0, s_len = ?cap\<rparr>"
  have "?cap + 1 < size_mod" using inv big by (simp add: buf_inv_def)
  then obtain m' gap where r: "a3_string_realloc m True (b_data b) ?cap = ret (m', \<lparr>s_ptr = Null, s_len = 0\<rparr>, ?new)"
    "blocks m' (next_block m) = Some (take ?cap (pre @ ?xs @ post) @ gap @ [0])"
    "length (take ?cap (pre @ ?xs @ post) @ gap) = ?cap"
    "\<forall>c. c \<noteq> k \<and> c \<noteq> next_block m \<longrightarrow> blocks m' c = blocks m c" "mem_ok m'" "blocks m' k = None"
    using mem_ok_fresh [OF ok k] realloc_correct [OF k, of ?cap "s_len (b_data b)"] data ok by auto
  have len: "length (pre @ ?xs) \<le> ?cap" using v big off by (simp add: buf_view_def)
  let ?post = "take (?cap - length (pre @ ?xs)) post @ gap @ [0]"
  have "take ?cap (pre @ ?xs @ post) = pre @ ?xs @ take (?cap - length (pre @ ?xs)) post"
    using len by simp
  then have "buf_view m' (b\<lparr>b_data := ?new\<rparr>) (next_block m) 0 pre ?xs ?post"
    using v r(2,3,5) off len big unfolding buf_view_def by auto
  moreover have "buf_frame m b m' (b\<lparr>b_data := ?new\<rparr>)"
    using r(4,6) data mem_ok_fresh [OF ok] v big by (auto simp: buf_frame_def buf_view_def buf_moved_def only_moves_def mem_ok_def)
  ultimately show ?thesis using r(1) by (auto simp: buf_viewD)
qed

text \<open>When the buffer can take \<open>n\<close> more bytes: without moving its contents, after compaction,
  or in the space after \<open>tail\<close> at its maximal capacity. Growth does not compact.\<close>

definition buf_fits :: "a3_buffer \<Rightarrow> nat \<Rightarrow> bool" where
  "buf_fits b n \<longleftrightarrow> b_tail b - b_head b + n \<le> s_len (b_data b) \<or> b_tail (buf_norm b) + n \<le> b_max_cap b"

definition buf_room :: "a3_buffer \<Rightarrow> nat" where
  "buf_room b = s_len (b_data b) - b_tail (buf_norm b)"

lemma ensure_cap_correct:
  assumes inv: "buf_inv m b" and extra: "4 * extra < size_mod"
  shows "\<exists>m' b' r. a3_buf_ensure_cap m True b extra = ret (m', b', r) \<and> buf_inv m' b' \<and>
    buf_contents m' b' = buf_contents m b \<and> buf_frame m b m' b' \<and> b_max_cap b' = b_max_cap b \<and>
    buf_norm b' = b' \<and> r = (extra \<le> buf_room b \<or> length (buf_contents m b) + extra \<le> b_max_cap b) \<and>
    (r \<longrightarrow> (extra \<le> buf_room b' \<longleftrightarrow> buf_fits b extra)) \<and>
    (r \<and> buf_room b' < extra \<longrightarrow> s_len (b_data b') = b_max_cap b) \<and> (\<not> r \<longrightarrow> m' = m \<and> b' = buf_norm b)"
proof -
  let ?b = "buf_norm b" and ?n = "length (buf_contents m b)" and ?L = "s_len (b_data b)"
  have inv': "buf_inv m ?b" using inv by simp
  note i = buf_inv_bounds [OF inv] and i' = buf_inv_bounds [OF inv']
  have n: "?n = b_tail b - b_head b" "?n = b_tail ?b - b_head ?b" using i(5) by simp_all
  have bound: "4 * ?L < size_mod" "4 * b_max_cap b < size_mod" using inv by (auto simp: buf_inv_def)
  have add: "sz_add ?n extra = ?n + extra" "sz_add ?L extra = ?L + extra"
    using bound extra i n by (simp_all)
  have frame: "buf_frame m b m ?b" by (auto simp: buf_frame_def)
  note ops = buf_index_ops(4) [OF inv] buf_index_ops(2,3) [OF inv']
  consider (room) "extra \<le> buf_room b"
    | (full) "buf_room b < extra" "b_max_cap b < ?n + extra"
    | (compact) "buf_room b < extra" "?n + extra \<le> b_max_cap b" "extra \<le> ?L - ?n"
    | (grow) "buf_room b < extra" "?n + extra \<le> b_max_cap b" "?L - ?n < extra" by linarith
  then show ?thesis
  proof cases
    case room
    then have "a3_buf_ensure_cap m True b extra = ret (m, ?b, True)"
      using inv ops by (simp add: a3_buf_ensure_cap_def buf_room_def)
    moreover have "b_tail b - b_head b \<le> b_tail ?b" by (simp add: buf_norm_def)
    then have "buf_fits b extra" using room i' by (auto simp: buf_fits_def buf_room_def)
    ultimately show ?thesis using room inv frame by (auto simp: buf_room_def)
  next
    case full
    then have "a3_buf_ensure_cap m True b extra = ret (m, ?b, False)"
      using inv ops n add by (simp add: a3_buf_ensure_cap_def buf_room_def)
    then show ?thesis using full inv frame by auto
  next
    case compact
    have "b_head ?b \<noteq> 0"
    proof
      assume "b_head ?b = 0"
      then have "b_tail ?b = ?n" using n(2) by linarith
      then show False using compact unfolding buf_room_def by linarith
    qed
    then obtain m' b' where c: "a3_buf_compact m ?b = ret (m', b', True)" "buf_inv m' b'"
      "buf_contents m' b' = buf_contents m b" "buf_frame m ?b m' b'" "b_max_cap b' = b_max_cap b"
      "s_len (b_data b') = ?L" "b_tail b' = ?n" "b_head b' = 0"
      using compact_correct [OF inv'] inv by auto
    have "a3_buf_ensure_cap m True b extra = ret (m', b', True)"
      using compact inv ops n add c(1) by (simp add: a3_buf_ensure_cap_def buf_room_def)
    moreover have "b_tail (buf_norm b') = ?n" using c(7,8) by (simp add: buf_norm_def)
    then have "extra \<le> buf_room b'" using compact(3) c(6) by (simp add: buf_room_def)
    moreover have "buf_fits b extra"
      unfolding buf_fits_def by (rule disjI1) (use compact(3) n(1) i(1,2) in linarith)
    moreover have "buf_norm b' = b'" using c(7,8) by (cases b') (simp add: buf_norm_def)
    ultimately show ?thesis using compact c buf_frame_trans [OF frame c(4)] by auto
  next
    case grow
    have big: "?L < b_max_cap b" using grow i n by linarith
    have "2 * (?L + extra) \<le> size_mod" using bound(1) extra by simp
    moreover have "0 < max (max ?L 8) (b_max_cap b)" by (simp add: less_max_iff_disj)
    ultimately obtain c where c: "double_until (max (max ?L 8) (b_max_cap b)) (?L + extra) = ret c" "b_max_cap b \<le> c"
      using double_until_correct [of "max (max ?L 8) (b_max_cap b)" "?L + extra"] by auto
    obtain m' old new where g: "a3_string_realloc m True (b_data b) (b_max_cap b) = ret (m', old, new)"
      "s_ptr new \<noteq> Null" "s_len new = b_max_cap b" "buf_inv m' (?b\<lparr>b_data := new\<rparr>)"
      "buf_contents m' (?b\<lparr>b_data := new\<rparr>) = buf_contents m b" "buf_frame m ?b m' (?b\<lparr>b_data := new\<rparr>)"
      using grow_correct [OF inv'] big inv by auto
    have "a3_buf_ensure_cap m True b extra = ret (m', ?b\<lparr>b_data := new\<rparr>, True)"
      using grow inv ops n add c g(1,2) by (simp add: a3_buf_ensure_cap_def buf_room_def min_absorb2)
    moreover have "buf_room (?b\<lparr>b_data := new\<rparr>) = b_max_cap b - b_tail ?b"
      using g(3) by (simp add: buf_room_def buf_norm_def)
    moreover have "extra \<le> b_max_cap b - b_tail ?b \<longleftrightarrow> buf_fits b extra"
      using grow n i i' big by (auto simp: buf_fits_def)
    moreover have "buf_norm (?b\<lparr>b_data := new\<rparr>) = ?b\<lparr>b_data := new\<rparr>" by (simp add: buf_norm_def)
    moreover have "s_len (b_data (?b\<lparr>b_data := new\<rparr>)) = b_max_cap b" using g(3) by simp
    ultimately show ?thesis using grow g buf_frame_trans [OF frame g(6)] by auto
  qed
qed

section \<open>Writing\<close>

lemma drop_take_append: "k \<le> n \<Longrightarrow> drop k (take n xs) @ drop n xs = drop k xs"
  by (metis append_take_drop_id drop_drop drop_take le_add_diff_inverse2)

lemma append_correct:
  assumes v: "buf_view m b k off pre xs post" and n: "length ys \<le> s_len (b_data b) - b_tail b"
  shows "buf_inv (with_block m k (pre @ (xs @ ys) @ drop (length ys) post)) (b\<lparr>b_tail := b_tail b + length ys\<rparr>)"
    and "buf_contents (with_block m k (pre @ (xs @ ys) @ drop (length ys) post)) (b\<lparr>b_tail := b_tail b + length ys\<rparr>)
      = xs @ ys"
proof -
  have "buf_view (with_block m k (pre @ (xs @ ys) @ drop (length ys) post))
      (b\<lparr>b_tail := b_tail b + length ys\<rparr>) k off pre (xs @ ys) (drop (length ys) post)"
    using v n unfolding buf_view_def by auto
  from buf_viewD [OF this] show
    "buf_inv (with_block m k (pre @ (xs @ ys) @ drop (length ys) post)) (b\<lparr>b_tail := b_tail b + length ys\<rparr>)"
    "buf_contents (with_block m k (pre @ (xs @ ys) @ drop (length ys) post)) (b\<lparr>b_tail := b_tail b + length ys\<rparr>)
      = xs @ ys" by simp_all
qed

text \<open>The part of \<open>a3_buf_write_str\<close> after \<open>a3_buf_ensure_cap\<close>, with room and without.\<close>

lemma write_room_correct:
  assumes inv: "buf_inv m b" and s: "mem_load m (s_ptr s) (s_len s) = ret ys"
    "ptr_block (s_ptr s) \<noteq> ptr_block (s_ptr (b_data b))" and room: "length ys \<le> buf_room b"
  shows "\<exists>b2 w m2 b3. a3_buf_write_ptr b = ret (b2, w) \<and> a3_string_copy m w s = ret m2 \<and>
    a3_buf_wrote b2 (s_len s) = ret b3 \<and> buf_inv m2 b3 \<and> buf_contents m2 b3 = buf_contents m b @ ys \<and>
    buf_frame m b m2 b3 \<and> b_max_cap b3 = b_max_cap b"
proof -
  let ?b = "buf_norm b" and ?xs = "buf_contents m b"
  have inv': "buf_inv m ?b" using inv by simp
  obtain k off pre post where v: "buf_view m ?b k off pre ?xs post"
    using inv' inv by (metis buf_invE buf_contents_norm)
  let ?w = "\<lparr>s_ptr = ptr_plus (s_ptr (b_data b)) (b_tail ?b), s_len = s_len (b_data b) - b_tail ?b\<rparr>"
  let ?n = "s_len (b_data b) - b_tail ?b" and ?b3 = "?b\<lparr>b_tail := b_tail ?b + length ys\<rparr>"
  have len: "length ys = s_len s" using s(1) by (auto elim: mem_load_retE)
  have room': "length ys \<le> ?n" using room by (simp add: buf_room_def)
  have blit: "blit (take ?n post) ys @ drop ?n post = ys @ drop (length ys) post"
  proof -
    have "length (take ?n post) = ?n" using v by (auto simp: buf_view_def min_def)
    then show ?thesis using room' by (simp add: blit_def drop_take_append)
  qed
  have "a3_string_copy m ?w s = ret (with_block m k ((pre @ ?xs) @ blit (take ?n post) ys @ drop ?n post))"
    using v s room' by (intro copy_correct) (auto simp: buf_view_def min_def)
  then have copy: "a3_string_copy m ?w s = ret (with_block m k (pre @ (?xs @ ys) @ drop (length ys) post))"
    by (simp add: blit)
  have "sz_add (b_tail ?b) (s_len s) = b_tail ?b + length ys" "b_tail ?b + length ys \<le> s_len (b_data b)"
    using room' len buf_inv_bounds(2,3) [OF inv'] by simp_all
  then have "a3_buf_wrote ?b (s_len s) = ret ?b3" using inv' by (simp add: a3_buf_wrote_def)
  moreover have "buf_frame m b (with_block m k (pre @ (?xs @ ys) @ drop (length ys) post)) ?b3"
    using v by (simp add: buf_view_def)
  ultimately show ?thesis
    using write_ptr_correct [OF inv] copy append_correct [OF v, of ys] room' by auto
qed

lemma write_no_room:
  assumes inv: "buf_inv m b" and s: "mem_load m (s_ptr s) (s_len s) = ret ys"
    "ptr_block (s_ptr s) \<noteq> ptr_block (s_ptr (b_data b))" and room: "buf_room b < length ys"
    and small: "4 * length ys < size_mod"
  shows "\<exists>b2 w m2. a3_buf_write_ptr b = ret (b2, w) \<and> a3_string_copy m w s = ret m2 \<and>
    a3_buf_wrote b2 (s_len s) = fail Assert_failed"
proof -
  let ?b = "buf_norm b" and ?xs = "buf_contents m b"
  have inv': "buf_inv m ?b" using inv by simp
  obtain k off pre post where v: "buf_view m ?b k off pre ?xs post"
    using inv' inv by (metis buf_invE buf_contents_norm)
  let ?w = "\<lparr>s_ptr = ptr_plus (s_ptr (b_data b)) (b_tail ?b), s_len = s_len (b_data b) - b_tail ?b\<rparr>"
  let ?n = "s_len (b_data b) - b_tail ?b"
  have len: "length ys = s_len s" using s(1) by (auto elim: mem_load_retE)
  have "a3_string_copy m ?w s = ret (with_block m k ((pre @ ?xs) @ blit (take ?n post) ys @ drop ?n post))"
    using v s by (intro copy_correct) (auto simp: buf_view_def min_def)
  then have copy: "\<exists>m2. a3_string_copy m ?w s = ret m2" by blast
  have "sz_add (b_tail ?b) (s_len s) = b_tail ?b + length ys"
    using small len inv' unfolding buf_inv_def by simp
  moreover have "\<not> b_tail ?b + length ys \<le> s_len (b_data b)"
    using room buf_inv_bounds(2) [OF inv'] unfolding buf_room_def by simp
  ultimately have "a3_buf_wrote ?b (s_len s) = fail Assert_failed" using inv' by (simp add: a3_buf_wrote_def)
  then show ?thesis using copy write_ptr_correct [OF inv] by auto
qed

lemma write_str_correct:
  assumes inv: "buf_inv m b" and s: "mem_load m (s_ptr s) (s_len s) = ret ys"
    "ptr_block (s_ptr s) \<noteq> ptr_block (s_ptr (b_data b))" and small: "4 * length ys < size_mod"
  shows "if b_max_cap b < length (buf_contents m b) + length ys
    then a3_buf_write_str m True b s = ret (m, b, False)
    else if buf_fits b (length ys)
    then \<exists>m' b'. a3_buf_write_str m True b s = ret (m', b', True) \<and> buf_inv m' b' \<and>
      buf_contents m' b' = buf_contents m b @ ys \<and> buf_frame m b m' b' \<and> b_max_cap b' = b_max_cap b
    else a3_buf_write_str m True b s = fail Assert_failed"
proof -
  let ?n = "length (buf_contents m b)"
  have n: "?n = b_tail b - b_head b" using buf_inv_bounds(5) [OF inv] .
  have len: "length ys = s_len s" using s(1) by (auto elim: mem_load_retE)
  have add: "sz_add (s_len s) (b_tail b - b_head b) = length ys + ?n"
  proof -
    have "4 * s_len (b_data b) < size_mod" "b_tail b \<le> s_len (b_data b)" using inv by (auto simp: buf_inv_def)
    then have "s_len s + (b_tail b - b_head b) < size_mod" using small len by linarith
    then show ?thesis using len n by simp
  qed
  obtain m1 b1 r where e: "a3_buf_ensure_cap m True b (s_len s) = ret (m1, b1, r)" "buf_inv m1 b1"
    "buf_contents m1 b1 = buf_contents m b" "buf_frame m b m1 b1" "b_max_cap b1 = b_max_cap b"
    "r = (s_len s \<le> buf_room b \<or> ?n + s_len s \<le> b_max_cap b)"
    "r \<longrightarrow> (s_len s \<le> buf_room b1 \<longleftrightarrow> buf_fits b (s_len s))"
    using ensure_cap_correct [OF inv, of "s_len s"] small len by auto
  have s1: "mem_load m1 (s_ptr s) (s_len s) = ret ys" "ptr_block (s_ptr s) \<noteq> ptr_block (s_ptr (b_data b1))"
    using buf_frame_load [OF e(4) s] by simp_all
  have run: "a3_buf_write_str m True b s = (if b_max_cap b < ?n + length ys then ret (m, b, False)
      else bind_run (a3_buf_write_ptr b1) (\<lambda>(b2, w). bind_run (a3_string_copy m1 w s) (\<lambda>m2.
        bind_run (a3_buf_wrote b2 (s_len s)) (\<lambda>b3. ret (m2, b3, True)))))"
    using inv buf_index_ops(2) [OF inv] add e(1,6) len by (simp add: a3_buf_write_str_def add.commute)
  consider "b_max_cap b < ?n + length ys"
    | "\<not> b_max_cap b < ?n + length ys" "buf_fits b (length ys)"
    | "\<not> b_max_cap b < ?n + length ys" "\<not> buf_fits b (length ys)" by blast
  then show ?thesis
  proof cases
    case 2
    then have "length ys \<le> buf_room b1" using e(6,7) len by simp
    then obtain b2 w m2 b3 where "a3_buf_write_ptr b1 = ret (b2, w)" "a3_string_copy m1 w s = ret m2"
      "a3_buf_wrote b2 (s_len s) = ret b3" "buf_inv m2 b3" "buf_contents m2 b3 = buf_contents m b @ ys"
      "buf_frame m1 b1 m2 b3" "b_max_cap b3 = b_max_cap b"
      using write_room_correct [OF e(2) s1] e(3,5) by auto
    then show ?thesis using 2 run buf_frame_trans [OF e(4)] by auto
  next
    case 3
    then have "buf_room b1 < length ys" using e(6,7) len by simp
    then obtain b2 w m2 where "a3_buf_write_ptr b1 = ret (b2, w)" "a3_string_copy m1 w s = ret m2"
      "a3_buf_wrote b2 (s_len s) = fail Assert_failed"
      using write_no_room [OF e(2) s1 _ small] by auto
    then show ?thesis using 3 run by simp
  qed (use run in simp)
qed

end
