(* ===== verification/Buffer_Ops.thy ===== *)
theory Buffer_Ops
  imports Buffer_Write Str_Search
begin

text \<open>
  Writing bytes and numbers, searching and consuming, tokens, and the life cycle of a buffer.
\<close>

section \<open>Bytes and numbers\<close>

lemma write_byte_correct:
  assumes inv: "buf_inv m b"
  shows "\<exists>m' b' r. a3_buf_write_byte m True b x = ret (m', b', r) \<and> buf_inv m' b' \<and>
    r = (1 \<le> buf_room b \<or> length (buf_contents m b) < b_max_cap b) \<and>
    buf_contents m' b' = (if r then buf_contents m b @ [x] else buf_contents m b) \<and>
    buf_frame m b m' b' \<and> b_max_cap b' = b_max_cap b"
proof -
  let ?n = "length (buf_contents m b)"
  note i = buf_inv_bounds [OF inv]
  have one: "4 * 1 < size_mod" by (simp add: size_mod_def)
  obtain m1 b1 r where e: "a3_buf_ensure_cap m True b 1 = ret (m1, b1, r)" "buf_inv m1 b1"
    "buf_contents m1 b1 = buf_contents m b" "buf_frame m b m1 b1" "b_max_cap b1 = b_max_cap b"
    "buf_norm b1 = b1" "r = (1 \<le> buf_room b \<or> ?n + 1 \<le> b_max_cap b)"
    "r \<longrightarrow> (1 \<le> buf_room b1 \<longleftrightarrow> buf_fits b 1)"
    using ensure_cap_correct [OF inv one] by auto
  show ?thesis
  proof (cases r)
    case False
    then show ?thesis using e inv by (auto simp: a3_buf_write_byte_def)
  next
    case True
    have "b_tail (buf_norm b) = ?n \<or> b_tail (buf_norm b) \<noteq> ?n \<and> ?n + 1 \<le> s_len (b_data b)"
      using i by (auto simp: buf_norm_def)
    moreover have "b_tail (buf_norm b) = ?n \<Longrightarrow> buf_room b = s_len (b_data b) - ?n" by (simp add: buf_room_def)
    ultimately have "buf_fits b 1" using True e(7) i by (auto simp: buf_fits_def)
    then have room: "b_tail b1 + 1 \<le> s_len (b_data b1)" using e True by (simp add: buf_room_def)
    obtain k off pre post where v: "buf_view m1 b1 k off pre (buf_contents m1 b1) post"
      using e(2) by (rule buf_invE)
    let ?m = "with_block m1 k (pre @ (buf_contents m1 b1 @ [x]) @ drop (length [x]) post)"
    let ?b = "b1\<lparr>b_tail := b_tail b1 + length [x]\<rparr>"
    note a = append_correct [OF v, of "[x]"]
    have "post \<noteq> []" using v room by (auto simp: buf_view_def)
    then have "mem_set m1 (s_ptr (b_data b1)) (b_tail b1) x = ret ?m"
      using v by (cases post) (auto simp: buf_view_def mem_set_block list_update_append)
    moreover have "sz_add (b_tail b1) 1 = b_tail b1 + 1" using room buf_inv_bounds(3) [OF e(2)] by simp
    ultimately have "a3_buf_write_byte m True b x = ret (?m, ?b, True)"
      using inv e(1) True by (simp add: a3_buf_write_byte_def)
    moreover have "buf_frame m1 b1 ?m ?b" using v by (simp add: buf_view_def)
    ultimately show ?thesis using a room e buf_frame_trans [OF e(4)] True by auto
  qed
qed

text \<open>Releasing a block the buffer does not use.\<close>

lemma buf_release:
  assumes "buf_inv m b" and "ptr_block (s_ptr (b_data b)) \<noteq> Some c"
  shows "buf_inv (m\<lparr>blocks := (blocks m)(c := None)\<rparr>) b"
    and "buf_contents (m\<lparr>blocks := (blocks m)(c := None)\<rparr>) b = buf_contents m b"
proof -
  obtain k off pre post where "buf_view m b k off pre (buf_contents m b) post" using assms(1) by (rule buf_invE)
  then have v: "buf_view (m\<lparr>blocks := (blocks m)(c := None)\<rparr>) b k off pre (buf_contents m b) post"
    using assms(2) by (auto simp: buf_view_def mem_ok_def)
  from buf_viewD [OF v] show "buf_inv (m\<lparr>blocks := (blocks m)(c := None)\<rparr>) b"
    "buf_contents (m\<lparr>blocks := (blocks m)(c := None)\<rparr>) b = buf_contents m b" by simp_all
qed

lemma buf_other_block:
  assumes "buf_inv m b" and "ptr_block (s_ptr (b_data b)) \<noteq> Some c" and "mem_ok (with_block m c bs)"
  shows "buf_inv (with_block m c bs) b" "buf_contents (with_block m c bs) b = buf_contents m b"
proof -
  obtain k off pre post where "buf_view m b k off pre (buf_contents m b) post" using assms(1) by (rule buf_invE)
  then have v: "buf_view (with_block m c bs) b k off pre (buf_contents m b) post"
    using assms(2,3) by (auto simp: buf_view_def)
  from buf_viewD [OF v] show "buf_inv (with_block m c bs) b"
    "buf_contents (with_block m c bs) b = buf_contents m b" by simp_all
qed

lemma buf_new_block:
  assumes "buf_inv m b"
  shows "buf_inv (fst (mem_new_block m bs)) b"
    "buf_contents (fst (mem_new_block m bs)) b = buf_contents m b"
    "ptr_block (s_ptr (b_data b)) \<noteq> Some (next_block m)"
proof -
  obtain k off pre post where "buf_view m b k off pre (buf_contents m b) post" using assms(1) by (rule buf_invE)
  then have v: "buf_view (fst (mem_new_block m bs)) b k off pre (buf_contents m b) post"
    and k: "s_ptr (b_data b) = Ptr k off" "k \<noteq> next_block m"
    using mem_ok_fresh [of m k] by (auto simp: buf_view_def)
  from buf_viewD [OF v] show "buf_inv (fst (mem_new_block m bs)) b"
    "buf_contents (fst (mem_new_block m bs)) b = buf_contents m b" by simp_all
  show "ptr_block (s_ptr (b_data b)) \<noteq> Some (next_block m)" using k by simp
qed

lemma dec_text_length: "v < 10 ^ 20 \<Longrightarrow> length (dec_text v) \<le> 20"
  using dec_digits_length_le [of 20 v] by (simp add: dec_text_def)

lemma dec_text_digits: "c \<in> set (dec_text v) \<Longrightarrow> 48 \<le> c \<and> c \<le> 57"
proof (induction v rule: dec_digits.induct)
  case (1 v)
  have "v mod 10 < 10" by simp
  then have "48 \<le> unat (digit_char (v mod 10))" "unat (digit_char (v mod 10)) \<le> 57" by (simp_all only: digit_char_value)
  then have "48 \<le> digit_char (v mod 10) \<and> digit_char (v mod 10) \<le> 57" by (simp add: word_le_nat_alt)
  moreover have "c = digit_char (v mod 10) \<or> v div 10 \<noteq> 0 \<and> c \<in> set (dec_text (v div 10))"
    using 1(2) by (subst (asm) dec_text_step) (auto split: if_splits)
  ultimately show ?case using 1(1) by blast
qed

lemma dec_text_canonical: "length (dec_text v) = 1 \<or> 1 < length (dec_text v) \<and> hd (dec_text v) \<noteq> 48"
proof (cases "v div 10 = 0")
  case True
  then show ?thesis by (subst dec_text_step) simp
next
  case False
  have "0 < length (dec_text (v div 10))" unfolding dec_text_def length_rev length_map by (rule dec_digits_length_pos)
  then have "1 < length (dec_text v)" using False by (subst dec_text_step) simp
  moreover have "0 < v" using False by (cases v) simp_all
  then have "hd (dec_text v) \<noteq> 48" using dec_text_head [of v] by (simp add: digit_char_def)
  ultimately show ?thesis by blast
qed

lemma write_num_correct:
  assumes inv: "buf_inv m b" and v: "v < size_mod"
  shows "if b_max_cap b < length (buf_contents m b) + length (dec_text v)
    then \<exists>m'. a3_buf_write_num m True b v = ret (m', b, False) \<and> buf_inv m' b \<and> buf_contents m' b = buf_contents m b \<and>
      buf_frame m b m' b
    else if buf_fits b (length (dec_text v))
    then \<exists>m' b'. a3_buf_write_num m True b v = ret (m', b', True) \<and> buf_inv m' b' \<and>
      buf_contents m' b' = buf_contents m b @ dec_text v \<and> buf_frame m b m' b'
    else a3_buf_write_num m True b v = fail Assert_failed"
proof -
  let ?c = "next_block m" and ?m1 = "fst (mem_new_block m (replicate 20 0))"
  let ?s = "\<lparr>s_ptr = Ptr ?c 0, s_len = length (dec_text v)\<rparr>"
  let ?m2 = "with_block ?m1 ?c (dec_text v @ drop (length (dec_digits v)) (replicate 20 0))"
  have len: "length (dec_text v) \<le> 20" "length (dec_digits v) = length (dec_text v)"
    using dec_text_length [of v] v by (simp_all add: size_mod_def dec_text_def)
  have c: "(20::nat) < size_mod" "4 * length (dec_text v) < size_mod" using len(1) by (simp_all add: size_mod_def)
  have itoa: "a3_string_itoa_into ?m1 \<lparr>s_ptr = Ptr ?c 0, s_len = 20\<rparr> v = ret (?m2, ?s)"
    using itoa_into_correct [of ?m1 ?c "[]" "replicate 20 0" v 20] len c by simp
  note n = buf_new_block(1,2) [OF inv, of "replicate 20 0"] buf_new_block(3) [OF inv]
  have "mem_ok m" using inv by (simp add: buf_inv_def)
  then have "mem_ok ?m2" by simp
  note o = buf_other_block [OF n(1,3) this]
  have load: "mem_load ?m2 (s_ptr ?s) (s_len ?s) = ret (dec_text v)"
    using len by (simp add: mem_load_block)
  have run: "a3_buf_write_num m True b v = bind_run (a3_buf_write_str ?m2 True b ?s) (\<lambda>(m3, b', r).
        ret (m3\<lparr>blocks := (blocks m3)(?c := None)\<rparr>, b', r))"
    using itoa by (simp add: a3_buf_write_num_def a3_s_const_def case_prod_beta)
  have other: "ptr_block (s_ptr ?s) \<noteq> ptr_block (s_ptr (b_data b))" using n(3) by simp
  note w = write_str_correct [OF o(1) load other c(2)]
  have kept: "buf_frame m b (m'\<lparr>blocks := (blocks m')(?c := None)\<rparr>) b'" if "buf_frame ?m2 b m' b'" for m' b'
  proof -
    have "blocks m ?c = None" "\<And>d. d \<noteq> ?c \<Longrightarrow> blocks ?m2 d = blocks m d"
      using \<open>mem_ok m\<close> by (simp_all add: mem_ok_def)
    then show ?thesis using that n(3) only_moves_temporary [of ?m2 "s_ptr (b_data b)" m' "s_ptr (b_data b')" m ?c]
      by (simp add: buf_frame_def)
  qed
  show ?thesis
  proof (cases "b_max_cap b < length (buf_contents m b) + length (dec_text v)")
    case True
    then have "a3_buf_write_str ?m2 True b ?s = ret (?m2, b, False)" using w o n by simp
    moreover have "buf_frame ?m2 b ?m2 b" by (simp add: buf_frame_def)
    ultimately show ?thesis using True run buf_release [OF o(1) n(3)] o(2) n(2) kept [of ?m2 b] by simp
  next
    case False
    show ?thesis
    proof (cases "buf_fits b (length (dec_text v))")
      case True
      then obtain m' b' where m': "a3_buf_write_str ?m2 True b ?s = ret (m', b', True)" "buf_inv m' b'"
        "buf_contents m' b' = buf_contents m b @ dec_text v" "buf_frame ?m2 b m' b'"
        using w o n False by auto
      have "ptr_block (s_ptr (b_data b')) \<noteq> Some ?c" using buf_frame_load(2) [OF m'(4) load other] by auto
      then show ?thesis using True False run m' buf_release [OF m'(2)] kept [OF m'(4)] by auto
    next
      case nofit: False
      then have "a3_buf_write_str ?m2 True b ?s = fail Assert_failed" using w o n False by simp
      then show ?thesis using nofit False run by simp
    qed
  qed
qed

end
