(* ===== verification/Buffer_Token.thy ===== *)
theory Buffer_Token
  imports Buffer_Ops
begin

text \<open>
  Searching and consuming a prefix, the tokeniser, and the life cycle of a buffer.
\<close>

section \<open>Search and consume\<close>

context memmem_shim
begin

lemma buf_memmem:
  assumes inv: "buf_inv m b" and q: "mem_load m (s_ptr q) (s_len q) = ret ys" and "0 < s_len q"
  shows "\<exists>r. a3_buf_memmem search m b q = ret r \<and>
    (if s_ptr r = Null then \<forall>i. occurs_at (buf_contents m b) ys i \<longrightarrow>
       i + length ys = length (buf_contents m b)
     else \<exists>i. s_ptr r = ptr_plus (ptr_plus (s_ptr (b_data b)) (b_head b)) i \<and> s_len r = s_len q \<and>
       first_at (buf_contents m b) ys i)"
proof -
  let ?h = "\<lparr>s_ptr = ptr_plus (s_ptr (b_data b)) (b_head b), s_len = b_tail b - b_head b\<rparr>"
  have "mem_load m (s_ptr ?h) (s_len ?h) = ret (buf_contents m b)" using buf_contents_load [OF inv] by simp
  from string_memmem [OF this q assms(3)] obtain r where "a3_string_memmem search m ?h q = ret r"
    "if s_ptr r = Null then \<forall>i. occurs_at (buf_contents m b) ys i \<longrightarrow> i + length ys = length (buf_contents m b)
     else \<exists>i. s_ptr r = ptr_plus (ptr_plus (s_ptr (b_data b)) (b_head b)) i \<and> s_len r = s_len q \<and>
       first_at (buf_contents m b) ys i"
    unfolding a3_string.select_convs by blast
  moreover have "s_ptr q \<noteq> Null" using q by (auto elim: mem_load_retE)
  ultimately show ?thesis using inv assms(3) read_ptr_correct [OF inv]
    by (simp add: a3_buf_memmem_def a3_cs_mut_def a3_string_new_def)
qed

text \<open>
  \<open>a3_buf_consume\<close> takes the needle off the front exactly if it is a prefix; a shim that misses
  a match at the very end may also leave a buffer that holds just the needle.
\<close>

lemma buf_consume:
  assumes inv: "buf_inv m b" and q: "mem_load m (s_ptr q) (s_len q) = ret ys" and "0 < s_len q"
    and size: "off + s_len (b_data b) < size_mod" "s_ptr (b_data b) = Ptr k off"
  shows "\<exists>b' r. a3_buf_consume search m b q = ret (b', r) \<and> buf_inv m b' \<and>
    buf_contents m b = (if r then ys @ buf_contents m b' else buf_contents m b') \<and>
    (\<not> r \<longrightarrow> b' = b \<and> (take (length ys) (buf_contents m b) = ys \<longrightarrow> buf_contents m b = ys)) \<and>
    b_data b' = b_data b \<and> b_max_cap b' = b_max_cap b"
proof -
  let ?xs = "buf_contents m b"
  obtain r where r: "a3_buf_memmem search m b q = ret r" and
    "if s_ptr r = Null then \<forall>i. occurs_at ?xs ys i \<longrightarrow> i + length ys = length ?xs
     else \<exists>i. s_ptr r = ptr_plus (ptr_plus (s_ptr (b_data b)) (b_head b)) i \<and> s_len r = s_len q \<and>
       first_at ?xs ys i"
    using buf_memmem [OF inv q assms(3)] by metis
  note cases = this(2)
  have q': "s_ptr q \<noteq> Null" "length ys = s_len q" using q by (auto elim: mem_load_retE)
  have occ: "occurs_at ?xs ys 0 \<longleftrightarrow> take (length ys) ?xs = ys"
    by (auto simp: occurs_at_def) (metis length_take min.bounded_iff order_refl)
  show ?thesis
  proof (cases "s_ptr r = Null")
    case True
    have "?xs = ys" if t: "take (length ys) ?xs = ys"
    proof -
      have "length ys = length ?xs" using cases True occ t by (metis add_0)
      then show ?thesis using t by simp
    qed
    moreover have "a3_buf_consume search m b q = ret (b, False)" using True r q' by (simp add: a3_buf_consume_def)
    ultimately show ?thesis using inv by (intro exI [of _ b] exI [of _ False]) simp
  next
    case False
    then obtain i where i: "s_ptr r = Ptr k (off + b_head b + i)" "first_at ?xs ys i" using cases size by auto
    have "i \<le> length ?xs" using i(2) by (simp add: first_at_def occurs_at_def)
    moreover have "off + b_head b + length ?xs \<le> off + s_len (b_data b)" using buf_inv_bounds [OF inv] by simp
    ultimately have "sz_sub (off + b_head b + i) off = b_head b + i" using size(1) by simp
    then have d: "ptr_diff (s_ptr r) (s_ptr (b_data b)) = ret (b_head b + i)"
      using i size by (simp add: ptr_diff_def)
    show ?thesis
    proof (cases "i = 0")
      case True
      then have occ0: "take (length ys) ?xs = ys" "length ys \<le> length ?xs"
        using i(2) by (auto simp: first_at_def occurs_at_def)
      obtain b' where b': "a3_buf_read b (length ys) = ret b'" "buf_inv m b'"
        "buf_contents m b' = drop (length ys) ?xs" "b_data b' = b_data b" "b_max_cap b' = b_max_cap b"
        using read_correct [OF inv occ0(2)] by blast
      have "ys @ drop (length ys) ?xs = ?xs" using occ0(1) by (metis append_take_drop_id)
      then show ?thesis using True False d r q' b'
        by (intro exI [of _ b'] exI [of _ True]) (simp add: a3_buf_consume_def)
    next
      case nz: False
      then have "\<not> occurs_at ?xs ys 0" using i(2) by (auto simp: first_at_def)
      moreover have "a3_buf_consume search m b q = ret (b, False)"
        using nz False d r q' by (simp add: a3_buf_consume_def)
      ultimately show ?thesis using occ inv by (intro exI [of _ b] exI [of _ False]) simp
    qed
  qed
qed

end

text \<open>With an exact search there is no such exception.\<close>

lemma libc_buf_consume:
  assumes inv: "buf_inv m b" and q: "mem_load m (s_ptr q) (s_len q) = ret ys" and n: "0 < s_len q"
    and size: "off + s_len (b_data b) < size_mod" "s_ptr (b_data b) = Ptr k off"
  shows "\<exists>b' r. a3_buf_consume a3_shim_memmem_present m b q = ret (b', r) \<and> buf_inv m b' \<and>
    r = (take (length ys) (buf_contents m b) = ys) \<and>
    (if r then buf_contents m b = ys @ buf_contents m b' else b' = b) \<and>
    b_data b' = b_data b \<and> b_max_cap b' = b_max_cap b"
proof -
  let ?xs = "buf_contents m b"
  obtain b' r where r: "a3_buf_consume a3_shim_memmem_present m b q = ret (b', r)" "buf_inv m b'"
    "?xs = (if r then ys @ buf_contents m b' else buf_contents m b')"
    "\<not> r \<longrightarrow> b' = b \<and> (take (length ys) ?xs = ys \<longrightarrow> ?xs = ys)" "b_data b' = b_data b" "b_max_cap b' = b_max_cap b"
    using libc_memmem.buf_consume [OF assms] by blast
  have no: "take (length ys) ?xs \<noteq> ys" if "\<not> r"
  proof
    assume "take (length ys) ?xs = ys"
    then have xs: "?xs = ys" using r(4) that by simp
    let ?h = "\<lparr>s_ptr = ptr_plus (s_ptr (b_data b)) (b_head b), s_len = b_tail b - b_head b\<rparr>"
    have load: "mem_load m (s_ptr ?h) (s_len ?h) = ret ?xs" using buf_contents_load [OF inv] by simp
    have occ: "first_at ?xs ys 0" "\<And>i. occurs_at ?xs ys i \<Longrightarrow> i = 0" by (simp_all add: xs first_at_def occurs_at_def)
    obtain p where p: "a3_string_memmem a3_shim_memmem_present m ?h q = ret p" "s_ptr p \<noteq> Null"
      using libc_memmem.string_memmem_iff [OF load q n] occ by (auto simp: first_at_def)
    then obtain i where "s_ptr p = ptr_plus (ptr_plus (s_ptr (b_data b)) (b_head b)) i" "occurs_at ?xs ys i"
      using libc_memmem.string_memmem [OF load q n] by (auto simp: first_at_def)
    then have "s_ptr p = ptr_plus (s_ptr (b_data b)) (b_head b)" using occ(2) [of i] by simp
    moreover have "off + b_head b < size_mod"
      using size buf_inv_bounds [OF inv] by simp
    ultimately have "ptr_diff (s_ptr p) (s_ptr (b_data b)) = ret (b_head b)" using size by (simp add: ptr_diff_def)
    moreover have "s_ptr q \<noteq> Null" "length ys = s_len q" using q by (auto elim: mem_load_retE)
    moreover obtain b1 where "a3_buf_read b (length ys) = ret b1" using read_correct [OF inv, of "length ys"] xs by auto
    ultimately have "a3_buf_consume a3_shim_memmem_present m b q = ret (b1, True)"
      using inv p n read_ptr_correct [OF inv]
      by (simp add: a3_buf_consume_def a3_buf_memmem_def a3_cs_mut_def a3_string_new_def)
    then show False using r(1) that by simp
  qed
  show ?thesis
  proof (cases r)
    case True
    then have "?xs = ys @ buf_contents m b'" using r(3) by simp
    then show ?thesis using r(1,2,5,6) True by (intro exI [of _ b'] exI [of _ r]) simp
  next
    case False
    then show ?thesis using r(1,2,4,5,6) no by (intro exI [of _ b'] exI [of _ r]) simp
  qed
qed

section \<open>Tokens\<close>

lemma is_delim_correct:
  assumes v: "buf_view m b k off pre xs post" and d: "mem_load m (s_ptr delim) (s_len delim) = ret ds"
    and j: "j < length xs"
  shows "is_delim m delim b (b_head b + j) = ret (xs ! j \<in> set ds)"
proof -
  have "mem_get m (s_ptr (b_data b)) (b_head b + j) = ret (xs ! j)"
    using v j by (simp add: buf_view_def mem_get_block nth_append)
  then show ?thesis using d by (simp add: is_delim_def c_memchr_def)
qed

lemma skip_delims_correct:
  assumes "buf_inv m b" and d: "mem_load m (s_ptr delim) (s_len delim) = ret ds"
  shows "\<exists>b'. skip_delims m delim b = ret b' \<and> buf_inv m b' \<and> b_data b' = b_data b \<and>
    b_max_cap b' = b_max_cap b \<and>
    buf_contents m b' = dropWhile (\<lambda>c. c \<in> set ds) (buf_contents m b)"
  using assms(1)
proof (induction "buf_contents m b" arbitrary: b)
  case Nil
  then have "b_head b = b_tail b" using buf_inv_bounds [OF Nil.prems] by (simp flip: Nil.hyps)
  then show ?case using Nil by (subst skip_delims.simps) (auto simp flip: Nil.hyps)
next
  case (Cons x xs)
  obtain k off pre post where v: "buf_view m b k off pre (x # xs) post"
    using Cons.prems Cons.hyps(2) by (metis buf_invE)
  then have lt: "b_head b < b_tail b" by (simp add: buf_view_def)
  have d0: "is_delim m delim b (b_head b) = ret (x \<in> set ds)" using is_delim_correct [OF v d, of 0] by simp
  show ?case
  proof (cases "x \<in> set ds")
    case False
    then show ?thesis using lt d0 Cons.prems by (subst skip_delims.simps) (simp flip: Cons.hyps(2))
  next
    case True
    obtain b1 where b1: "a3_buf_read b 1 = ret b1" "buf_inv m b1" "buf_contents m b1 = xs"
      "b_data b1 = b_data b" "b_max_cap b1 = b_max_cap b"
      using read_correct [OF Cons.prems, of 1] by (auto simp flip: Cons.hyps(2))
    obtain b' where "skip_delims m delim b1 = ret b'" "buf_inv m b'" "b_data b' = b_data b1"
      "b_max_cap b' = b_max_cap b1" "buf_contents m b' = dropWhile (\<lambda>c. c \<in> set ds) xs"
      using Cons.hyps(1) [of b1] b1 by auto
    then show ?thesis using True lt d0 b1 by (subst skip_delims.simps) (simp flip: Cons.hyps(2))
  qed
qed

lemma token_end_correct:
  assumes v: "buf_view m b k off pre xs post" and d: "mem_load m (s_ptr delim) (s_len delim) = ret ds"
    and "j \<le> length xs"
  shows "token_end m delim b (b_head b + j) =
    ret (b_head b + j + length (takeWhile (\<lambda>c. c \<notin> set ds) (drop j xs)))"
  using assms(3)
proof (induction rule: inc_induct)
  case base
  then show ?case using v by (subst token_end.simps) (simp add: buf_view_def)
next
  case (step j)
  have "drop j xs = xs ! j # drop (Suc j) xs" using step.hyps by (simp add: Cons_nth_drop_Suc)
  moreover have "b_head b + j < b_tail b" using v step.hyps by (simp add: buf_view_def)
  ultimately show ?case using step.IH is_delim_correct [OF v d step.hyps(2)]
    by (subst token_end.simps) simp
qed

lemma zero_delims_correct:
  assumes v: "buf_view m b k off pre (as @ xs) post" and d: "mem_load m (s_ptr delim) (s_len delim) = ret ds"
    "ptr_block (s_ptr delim) \<noteq> Some k"
  shows "zero_delims m delim b (b_head b + length as) =
    ret (with_block m k (pre @ (as @ replicate (length (takeWhile (\<lambda>c. c \<in> set ds) xs)) 0 @ dropWhile (\<lambda>c. c \<in> set ds) xs) @ post),
      b_head b + length as + length (takeWhile (\<lambda>c. c \<in> set ds) xs))"
  using v d
proof (induction xs arbitrary: m as)
  case Nil
  then show ?case by (subst zero_delims.simps) (simp add: buf_view_def)
next
  case (Cons x xs)
  note v = Cons.prems(1)
  have "is_delim m delim b (b_head b + length as) = ret ((as @ x # xs) ! length as \<in> set ds)"
    by (rule is_delim_correct [OF v Cons.prems(2)]) simp
  then have dx: "is_delim m delim b (b_head b + length as) = ret (x \<in> set ds)" by simp
  have lt: "b_head b + length as < b_tail b" using v by (simp add: buf_view_def)
  show ?case
  proof (cases "x \<in> set ds")
    case False
    then show ?thesis using dx lt v by (subst zero_delims.simps) (simp add: buf_view_def)
  next
    case True
    let ?m = "with_block m k (pre @ ((as @ [0]) @ xs) @ post)"
    have set: "mem_set m (s_ptr (b_data b)) (b_head b + length as) 0 = ret ?m"
      using v by (simp add: buf_view_def mem_set_block list_update_append)
    have v': "buf_view ?m b k off pre ((as @ [0]) @ xs) post" using v by (auto simp: buf_view_def)
    show ?thesis using Cons.IH [OF v'] Cons.prems(2,3) True dx lt set by (subst zero_delims.simps) simp
  qed
qed

lemma token_next_correct:
  assumes inv: "buf_inv m b" and d: "mem_load m (s_ptr delim) (s_len delim) = ret ds"
    "ptr_block (s_ptr delim) \<noteq> ptr_block (s_ptr (b_data b))"
  shows "\<exists>m' b' s. a3_buf_token_next m b delim keep = ret (m', b', s) \<and> buf_inv m' b' \<and>
    (let xs = dropWhile (\<lambda>c. c \<in> set ds) (buf_contents m b);
         rest = dropWhile (\<lambda>c. c \<notin> set ds) xs in
     mem_load m' (s_ptr s) (s_len s) = ret (takeWhile (\<lambda>c. c \<notin> set ds) xs) \<and>
     buf_contents m' b' = (if keep then rest else dropWhile (\<lambda>c. c \<in> set ds) rest)) \<and>
    b_data b' = b_data b \<and> b_max_cap b' = b_max_cap b \<and>
    (\<forall>c. ptr_block (s_ptr (b_data b)) \<noteq> Some c \<longrightarrow> blocks m' c = blocks m c) \<and>
    (let n = length (takeWhile (\<lambda>c. c \<in> set ds) (dropWhile (\<lambda>c. c \<notin> set ds) (dropWhile (\<lambda>c. c \<in> set ds) (buf_contents m b)))) in
     if keep then m' = m else mem_load m' (ptr_plus (s_ptr s) (s_len s)) n = ret (replicate n 0))"
proof -
  let ?D = "\<lambda>c. c \<in> set ds" and ?N = "\<lambda>c. c \<notin> set ds"
  define xs where "xs = dropWhile ?D (buf_contents m b)"
  define tok where "tok = takeWhile ?N xs"
  define rest where "rest = dropWhile ?N xs"
  have xs: "xs = tok @ rest" by (simp add: tok_def rest_def)
  obtain b1 where b1: "skip_delims m delim b = ret b1" "buf_inv m b1" "b_data b1 = b_data b"
    "buf_contents m b1 = xs" "b_max_cap b1 = b_max_cap b" using skip_delims_correct [OF inv d(1)] by (auto simp: xs_def)
  obtain k off pre post where v: "buf_view m b1 k off pre xs post" using b1(2,4) by (metis buf_invE)
  have e: "token_end m delim b1 (b_head b1) = ret (b_head b1 + length tok)"
    using token_end_correct [OF v d(1), of 0] by (simp add: tok_def)
  have bound: "sz_sub (b_head b1 + length tok) (b_head b1) = length tok"
    using v xs by (simp add: buf_view_def)
  let ?s = "\<lparr>s_ptr = ptr_plus (s_ptr (b_data b1)) (b_head b1), s_len = length tok\<rparr>"
  show ?thesis
  proof (cases keep)
    case True
    have v': "buf_view m (b1\<lparr>b_head := b_head b1 + length tok\<rparr>) k off (pre @ tok) rest post"
      using v xs by (auto simp: buf_view_def)
    have "a3_buf_token_next m b delim keep = ret (m, b1\<lparr>b_head := b_head b1 + length tok\<rparr>, ?s)"
      using True inv b1 e bound by (simp add: a3_buf_token_next_def)
    moreover have "mem_load m (s_ptr ?s) (s_len ?s) = ret tok"
      using v xs by (simp add: buf_view_def mem_load_block)
    ultimately show ?thesis using buf_viewD [OF v'] True b1(3,5) by (auto simp: Let_def xs_def tok_def rest_def)
  next
    case False
    let ?z = "length (takeWhile ?D rest)"
    have "ptr_block (s_ptr delim) \<noteq> Some k" using d(2) b1(3) v by (simp add: buf_view_def)
    let ?zs = "replicate ?z 0 @ dropWhile ?D rest"
    have z: "zero_delims m delim b1 (b_head b1 + length tok) =
        ret (with_block m k (pre @ (tok @ ?zs) @ post), b_head b1 + length tok + ?z)"
      using zero_delims_correct [OF v [unfolded xs] d(1)] \<open>ptr_block (s_ptr delim) \<noteq> Some k\<close> by simp
    let ?m = "with_block m k (pre @ (tok @ ?zs) @ post)" and ?b = "b1\<lparr>b_head := b_head b1 + length tok + ?z\<rparr>"
    have "length rest = ?z + length (dropWhile ?D rest)" by (metis length_append takeWhile_dropWhile_id)
    then have v': "buf_view ?m ?b k off (pre @ tok @ replicate ?z 0) (dropWhile ?D rest) post"
      using v xs unfolding buf_view_def by auto
    have "a3_buf_token_next m b delim keep = ret (?m, ?b, ?s)"
      using False inv b1 e z bound by (simp add: a3_buf_token_next_def)
    moreover have "mem_load ?m (s_ptr ?s) (s_len ?s) = ret tok"
      using v by (simp add: buf_view_def mem_load_block)
    moreover have "blocks ?m c = blocks m c" if "ptr_block (s_ptr (b_data b)) \<noteq> Some c" for c
      using that b1(3) v by (auto simp: buf_view_def with_block_def)
    moreover have "mem_load ?m (ptr_plus (s_ptr ?s) (s_len ?s)) ?z = ret (replicate ?z 0)"
      using v by (simp add: buf_view_def mem_load_block)
    ultimately show ?thesis using buf_viewD [OF v'] False b1(3,5) by (auto simp: Let_def xs_def tok_def rest_def)
  qed
qed

section \<open>Life cycle\<close>

lemma new_correct:
  assumes "mem_ok m" and "4 * c < size_mod" and "4 * max_c < size_mod"
  shows "\<exists>m' b. a3_buf_new m True True c max_c = ret (m', b) \<and> buf_inv m' b \<and> buf_contents m' b = [] \<and>
    b_data b = \<lparr>s_ptr = Ptr (next_block m) 0, s_len = c\<rparr> \<and> b_max_cap b = max_c \<and> b_head b = 0 \<and>
    (\<forall>d. d \<noteq> next_block m \<longrightarrow> blocks m' d = blocks m d)"
proof -
  have c: "c + 1 < size_mod" using assms(2) by (cases c) simp_all
  let ?m = "fst (mem_new_block m (replicate (c + 1) 0))"
  let ?b = "\<lparr>b_data = \<lparr>s_ptr = Ptr (next_block m) 0, s_len = c\<rparr>, b_tail = 0, b_head = 0, b_max_cap = max_c\<rparr>"
  have "a3_buf_new m True True c max_c = ret (?m, ?b)"
    using alloc_correct [OF c, of m] by (simp add: a3_buf_new_def a3_buf_init_def buf_zero_def a3_s_null_def)
  moreover have v: "buf_view ?m ?b (next_block m) 0 [] [] (replicate (c + 1) 0)"
    using assms by (simp add: buf_view_def)
  moreover have "blocks ?m d = blocks m d" if "d \<noteq> next_block m" for d using that by (simp add: mem_new_block_def)
  ultimately show ?thesis using buf_viewD [OF v] by simp
qed

lemma init_alloc_correct:
  assumes "mem_ok m" and "4 * c < size_mod" and "4 * max_c < size_mod"
  shows "\<exists>m' b. a3_buf_new m True True c max_c = ret (m', b) \<and> buf_inv m' b \<and> buf_contents m' b = [] \<and>
    s_len (b_data b) = c \<and> b_max_cap b = max_c"
  using new_correct [OF assms] by auto

end
