(* ===== verification/Buffer_Fmt.thy ===== *)
theory Buffer_Fmt
  imports Buffer_Write
begin

text \<open>
  Formatted writing to a buffer: the loop of \<open>a3_buf_write_vfmt\<close> ends after at most three
  rounds.
\<close>

section \<open>One call of vsnprintf\<close>

text \<open>The bytes \<open>vsnprintf\<close> stores.\<close>

definition fmt_text :: "nat \<Rightarrow> u8 list \<Rightarrow> u8 list" where
  "fmt_text n out = (if n = 0 then [] else take (n - 1) out @ [0])"

lemma fmt_text_length: "length (fmt_text n out) \<le> n"
  by (cases n) (simp_all add: fmt_text_def)

text \<open>They go behind the contents, where \<open>tail\<close> can then be moved over them.\<close>

lemma vsnprintf_correct:
  assumes inv: "buf_inv m b" and norm: "buf_norm b = b"
  shows "\<exists>m1. c_vsnprintf m (ptr_plus (s_ptr (b_data b)) (b_tail b)) (buf_room b) out = ret m1 \<and>
    (\<forall>j \<le> length (fmt_text (buf_room b) out). buf_inv m1 (b\<lparr>b_tail := b_tail b + j\<rparr>) \<and>
      buf_contents m1 (b\<lparr>b_tail := b_tail b + j\<rparr>) = buf_contents m b @ take j (fmt_text (buf_room b) out) \<and>
      buf_frame m b m1 (b\<lparr>b_tail := b_tail b + j\<rparr>))"
proof -
  let ?n = "buf_room b" and ?xs = "buf_contents m b"
  let ?ys = "fmt_text ?n out"
  obtain k off pre post where v: "buf_view m b k off pre ?xs post" using inv by (rule buf_invE)
  have n: "?n = s_len (b_data b) - b_tail b" using norm by (simp add: buf_room_def)
  have ys: "length ?ys \<le> s_len (b_data b) - b_tail b" using fmt_text_length [of ?n out] n by simp
  then have post: "length ?ys \<le> length post" using v by (auto simp: buf_view_def)
  let ?m = "with_block m k (pre @ ?xs @ ?ys @ drop (length ?ys) post)"
  have p: "ptr_plus (s_ptr (b_data b)) (b_tail b) = Ptr k (length (pre @ ?xs))" using v by (simp add: buf_view_def)
  have st: "mem_store m (Ptr k (length (pre @ ?xs))) ?ys = ret ?m"
    using mem_store_block [of m k "(pre @ ?xs) @ post" "length (pre @ ?xs)" ?ys] v post by (simp add: buf_view_def)
  have "c_vsnprintf m (Ptr k (length (pre @ ?xs))) ?n out = ret ?m"
  proof (cases "?n = 0")
    case True
    then show ?thesis using v by (simp add: c_vsnprintf_def fmt_text_def buf_view_def)
  next
    case False
    then show ?thesis using st by (simp add: c_vsnprintf_def fmt_text_def)
  qed
  moreover have "buf_inv ?m (b\<lparr>b_tail := b_tail b + j\<rparr>) \<and>
      buf_contents ?m (b\<lparr>b_tail := b_tail b + j\<rparr>) = ?xs @ take j ?ys \<and>
      buf_frame m b ?m (b\<lparr>b_tail := b_tail b + j\<rparr>)" if j: "j \<le> length ?ys" for j
  proof -
    have "b_tail b \<le> s_len (b_data b)" using v by (simp add: buf_view_def)
    then have "buf_view ?m (b\<lparr>b_tail := b_tail b + j\<rparr>) k off pre (?xs @ take j ?ys) (drop j ?ys @ drop (length ?ys) post)"
      using v j ys post by (auto simp: buf_view_def)
    from buf_viewD [OF this] show ?thesis using v by (simp add: buf_view_def)
  qed
  ultimately show ?thesis unfolding p by blast
qed

section \<open>The loop\<close>

text \<open>The string \<open>a3_buf_write_ptr\<close> returns for a normalised buffer.\<close>

definition fmt_dst :: "a3_buffer \<Rightarrow> a3_string" where
  "fmt_dst b = \<lparr>s_ptr = ptr_plus (s_ptr (b_data b)) (b_tail b), s_len = buf_room b\<rparr>"

lemma write_ptr_norm: "buf_inv m b \<Longrightarrow> buf_norm b = b \<Longrightarrow> a3_buf_write_ptr b = ret (b, fmt_dst b)"
  using write_ptr_correct [of m b] by (simp add: fmt_dst_def buf_room_def)

text \<open>What the loop leaves: the buffer \<open>b'\<close>, with the text \<open>ys\<close> behind its contents \<open>xs\<close>.\<close>

definition fmt_left :: "mem \<Rightarrow> a3_buffer \<Rightarrow> u8 list \<Rightarrow> u8 list \<Rightarrow> bool" where
  "fmt_left m b xs ys \<longleftrightarrow> (\<forall>j \<le> length ys. buf_inv m (b\<lparr>b_tail := b_tail b + j\<rparr>) \<and>
     buf_contents m (b\<lparr>b_tail := b_tail b + j\<rparr>) = xs @ take j ys)"

lemma fmt_leftD:
  assumes "fmt_left m b xs ys"
  shows "buf_inv m b" "buf_contents m b = xs"
  using assms spec [of _ 0] by (auto simp: fmt_left_def dest!: spec [of _ 0])

lemma vfmt_round:
  assumes inv: "buf_inv m b" and norm: "buf_norm b = b"
  obtains m1 where "c_vsnprintf m (s_ptr (fmt_dst b)) (s_len (fmt_dst b)) out = ret m1"
    "fmt_left m1 b (buf_contents m b) (fmt_text (buf_room b) out)"
  using vsnprintf_correct [OF assms, of out] by (auto simp: fmt_dst_def fmt_left_def)

lemma vfmt_loop_fits:
  assumes "buf_inv m b" "buf_norm b = b" "length out < buf_room b"
  shows "\<exists>m1. vfmt_loop m True b (fmt_dst b) out = ret (m1, b, fmt_dst b) \<and>
    fmt_left m1 b (buf_contents m b) (fmt_text (buf_room b) out)"
proof -
  obtain m1 where "c_vsnprintf m (s_ptr (fmt_dst b)) (s_len (fmt_dst b)) out = ret m1"
      "fmt_left m1 b (buf_contents m b) (fmt_text (buf_room b) out)"
    using assms(1,2) by (rule vfmt_round)
  then show ?thesis using assms(3) by (subst vfmt_loop.simps) (simp add: fmt_dst_def)
qed

text \<open>A round that does not fit grows the buffer, or gives up.\<close>

lemma vfmt_loop_next:
  assumes inv: "buf_inv m b" and norm: "buf_norm b = b" and big: "buf_room b \<le> length out"
    and small: "4 * (length out + 1) < size_mod"
  obtains (grown) m2 b2 where "vfmt_loop m True b (fmt_dst b) out = vfmt_loop m2 True b2 (fmt_dst b2) out"
      "length (buf_contents m b) + (length out + 1) \<le> b_max_cap b"
      "buf_inv m2 b2" "buf_norm b2 = b2" "buf_contents m2 b2 = buf_contents m b" "b_max_cap b2 = b_max_cap b"
      "length out + 1 \<le> buf_room b2 \<longleftrightarrow> buf_fits b (length out + 1)"
      "buf_room b2 < length out + 1 \<Longrightarrow> s_len (b_data b2) = b_max_cap b"
  | (stuck) m1 where "vfmt_loop m True b (fmt_dst b) out = ret (m1, b, fmt_dst b)"
      "b_max_cap b < length (buf_contents m b) + (length out + 1)"
      "fmt_left m1 b (buf_contents m b) (fmt_text (buf_room b) out)"
proof -
  obtain m1 where v: "c_vsnprintf m (s_ptr (fmt_dst b)) (s_len (fmt_dst b)) out = ret m1"
      "fmt_left m1 b (buf_contents m b) (fmt_text (buf_room b) out)"
    using inv norm by (rule vfmt_round)
  note inv1 = fmt_leftD [OF v(2)]
  have add: "sz_add (length out) 1 = length out + 1" using small by simp
  obtain m2 b2 r where e: "a3_buf_ensure_cap m1 True b (length out + 1) = ret (m2, b2, r)" "buf_inv m2 b2"
      "buf_contents m2 b2 = buf_contents m1 b" "b_max_cap b2 = b_max_cap b" "buf_norm b2 = b2"
      "r = (length out + 1 \<le> buf_room b \<or> length (buf_contents m1 b) + (length out + 1) \<le> b_max_cap b)"
      "r \<longrightarrow> (length out + 1 \<le> buf_room b2 \<longleftrightarrow> buf_fits b (length out + 1))"
      "r \<and> buf_room b2 < length out + 1 \<longrightarrow> s_len (b_data b2) = b_max_cap b" "\<not> r \<longrightarrow> m2 = m1 \<and> b2 = buf_norm b"
    using ensure_cap_correct [OF inv1(1) small] by blast
  have loop: "vfmt_loop m True b (fmt_dst b) out =
      (if r then vfmt_loop m2 True b2 (fmt_dst b2) out else ret (m2, b2, fmt_dst b))"
    using v(1) big add e(1) write_ptr_norm [OF e(2,5)] by (subst vfmt_loop.simps) (simp add: fmt_dst_def)
  show thesis
  proof (cases r)
    case True
    then show thesis using loop e inv1 big by (intro grown [of m2 b2]) auto
  next
    case False
    then show thesis using loop e inv1 norm v(2) by (intro stuck [of m1]) auto
  qed
qed

text \<open>With room for the text and its zero byte below the maximal capacity the loop stores it all. Growth
  may leave too little space behind \<open>tail\<close>; the next round then compacts.\<close>

lemma vfmt_loop_grows:
  assumes inv: "buf_inv m b" and norm: "buf_norm b = b"
    and fits: "length out < buf_room b \<or> length (buf_contents m b) + (length out + 1) \<le> b_max_cap b"
    and small: "4 * (length out + 1) < size_mod"
  shows "\<exists>m1 b1. vfmt_loop m True b (fmt_dst b) out = ret (m1, b1, fmt_dst b1) \<and> length out < buf_room b1 \<and>
    fmt_left m1 b1 (buf_contents m b) (fmt_text (buf_room b1) out)"
proof (cases "length out < buf_room b")
  case True
  then show ?thesis using vfmt_loop_fits [OF inv norm True] by blast
next
  case False
  then have max: "length (buf_contents m b) + (length out + 1) \<le> b_max_cap b" "buf_room b \<le> length out"
    using fits by simp_all
  from inv norm max(2) small show ?thesis
  proof (cases rule: vfmt_loop_next)
    case 1: (grown m2 b2)
    show ?thesis
    proof (cases "length out < buf_room b2")
      case True
      then show ?thesis using vfmt_loop_fits [OF 1(3,4) True] 1(1,5) by auto
    next
      case False
      then have s: "s_len (b_data b2) = b_max_cap b" "buf_room b2 \<le> length out" using 1(8) by simp_all
      have "b_tail b2 - b_head b2 = length (buf_contents m b)" using buf_inv_bounds(5) [OF 1(3)] 1(5) by simp
      then have fit2: "buf_fits b2 (length out + 1)" using s(1) max(1) by (simp add: buf_fits_def)
      from 1(3,4) s(2) small show ?thesis
      proof (cases rule: vfmt_loop_next)
        case 2: (grown m3 b3)
        have "length out < buf_room b3" using 2(7) fit2 by simp
        then obtain m4 where "vfmt_loop m3 True b3 (fmt_dst b3) out = ret (m4, b3, fmt_dst b3)"
            "fmt_left m4 b3 (buf_contents m3 b3) (fmt_text (buf_room b3) out)"
          using vfmt_loop_fits [OF 2(3,4), of out] by blast
        then show ?thesis using \<open>length out < buf_room b3\<close> 1(1,5) 2(1,5)
          by (intro exI [of _ m4] exI [of _ b3]) simp
      next
        case (stuck m3)
        then show ?thesis using 1(2,5,6) by simp
      qed
    qed
  next
    case (stuck m1)
    then show ?thesis using max(1) by simp
  qed
qed

section \<open>Formatted writing\<close>

lemma write_vfmt_correct:
  assumes inv: "buf_inv m b" and small: "4 * (length out + 1) < size_mod"
  shows "\<exists>m' b'. a3_buf_write_vfmt m True b (Some out) = ret (m', b', True) \<and> buf_inv m' b' \<and>
    buf_contents m' b' = buf_contents m b @
      (if length out < buf_room b \<or> length (buf_contents m b) + (length out + 1) \<le> b_max_cap b then out
       else fmt_text (buf_room b) out)"
proof -
  let ?b = "buf_norm b"
  have inv': "buf_inv m ?b" "buf_norm ?b = ?b" "buf_contents m ?b = buf_contents m b" "buf_room ?b = buf_room b"
    using inv by (simp_all add: buf_room_def)
  have "a3_buf_write_ptr b = ret (?b, fmt_dst ?b)"
    using write_ptr_correct [OF inv] by (simp add: fmt_dst_def buf_room_def)
  then have run: "a3_buf_write_vfmt m True b (Some out) = bind_run (vfmt_loop m True ?b (fmt_dst ?b) out) (\<lambda>(m2, b2, w2).
      bind_run (a3_buf_wrote b2 (min (s_len w2) (length out))) (\<lambda>b3. ret (m2, b3, True)))"
    using inv by (simp add: a3_buf_write_vfmt_def)
  have wrote: "a3_buf_wrote b2 n = ret (b2\<lparr>b_tail := b_tail b2 + n\<rparr>)"
    if "fmt_left m2 b2 xs ys" "n \<le> length ys" for m2 b2 xs ys n
  proof -
    have i: "buf_inv m2 b2" "buf_inv m2 (b2\<lparr>b_tail := b_tail b2 + n\<rparr>)"
      using fmt_leftD(1) [OF that(1)] that by (simp_all add: fmt_left_def)
    then have "b_tail b2 + n \<le> s_len (b_data b2)" "s_len (b_data b2) < size_mod"
      using buf_inv_bounds(2,3) [OF i(2)] by simp_all
    then show ?thesis using i(1) by (simp add: a3_buf_wrote_def)
  qed
  show ?thesis
  proof (cases "length out < buf_room b \<or> length (buf_contents m b) + (length out + 1) \<le> b_max_cap b")
    case True
    then obtain m1 b1 where l: "vfmt_loop m True ?b (fmt_dst ?b) out = ret (m1, b1, fmt_dst b1)" "length out < buf_room b1"
        "fmt_left m1 b1 (buf_contents m b) (fmt_text (buf_room b1) out)"
      using vfmt_loop_grows [OF inv'(1,2) _ small] inv'(3,4) by auto
    have t: "length out \<le> length (fmt_text (buf_room b1) out)" "take (length out) (fmt_text (buf_room b1) out) = out"
      using l(2) by (simp_all add: fmt_text_def)
    have "a3_buf_write_vfmt m True b (Some out) = ret (m1, b1\<lparr>b_tail := b_tail b1 + length out\<rparr>, True)"
      using run l(1,2) wrote [OF l(3) t(1)] by (simp add: fmt_dst_def min_absorb2)
    then show ?thesis using l(3) t True by (auto simp: fmt_left_def)
  next
    case False
    then have f: "buf_room ?b \<le> length out" "b_max_cap ?b < length (buf_contents m ?b) + (length out + 1)"
      using inv'(3,4) by simp_all
    from inv'(1,2) f(1) small obtain m1 where l: "vfmt_loop m True ?b (fmt_dst ?b) out = ret (m1, ?b, fmt_dst ?b)"
        "fmt_left m1 ?b (buf_contents m ?b) (fmt_text (buf_room ?b) out)"
      by (cases rule: vfmt_loop_next) (use f(2) in auto)
    have t: "buf_room b \<le> length (fmt_text (buf_room b) out)" using f(1) inv'(4) by (simp add: fmt_text_def)
    have l': "fmt_left m1 ?b (buf_contents m b) (fmt_text (buf_room b) out)" using l(2) inv'(3,4) by simp
    have "a3_buf_write_vfmt m True b (Some out) = ret (m1, ?b\<lparr>b_tail := b_tail ?b + buf_room b\<rparr>, True)"
      using run l(1) wrote [OF l' t] f(1) inv'(4) by (simp add: fmt_dst_def min_absorb1)
    then show ?thesis using l' t False fmt_text_length [of "buf_room b" out] by (auto simp: fmt_left_def)
  qed
qed

end
