(* ===== verification/Buffer_Props.thy ===== *)
theory Buffer_Props
  imports Buffer_Token Buffer_Fmt Str_Props
begin

text \<open>
  The properties of the byte buffer: it is a queue of bytes, written at the end and read from
  the front. The witnesses use the memory of \<open>Str_Props\<close>, with a buffer over its block 2 and
  one over block 0.
\<close>

section \<open>Small buffers\<close>

text \<open>An empty buffer of capacity 7 on block 2, and one on block 0 that holds \<open>llo!\<close>.\<close>

definition ex_buf :: a3_buffer where
  "ex_buf = \<lparr>b_data = \<lparr>s_ptr = Ptr 2 0, s_len = 7\<rparr>, b_tail = 0, b_head = 0, b_max_cap = 7\<rparr>"

definition ex_buf2 :: a3_buffer where
  "ex_buf2 = \<lparr>b_data = \<lparr>s_ptr = Ptr 0 0, s_len = 7\<rparr>, b_tail = 7, b_head = 3, b_max_cap = 16\<rparr>"

lemma ex_buf_ok: "buf_inv ex_mem ex_buf" "buf_contents ex_mem ex_buf = []"
  by (simp_all add: buf_inv_def ex_mem_ok ex_buf_def ex_blocks size_mod_def buf_contents_def mem_load_block)

lemma ex_buf2_ok: "buf_inv ex_mem ex_buf2" "buf_contents ex_mem ex_buf2 = [108, 108, 111, 33]"
  by (simp_all add: buf_inv_def ex_mem_ok ex_buf2_def ex_blocks size_mod_def buf_contents_def mem_load_block)

lemma ex_buf_fields:
  "b_max_cap ex_buf = 7" "s_ptr (b_data ex_buf) = Ptr 2 0" "b_max_cap ex_buf2 = 16" "s_ptr (b_data ex_buf2) = Ptr 0 0"
  "buf_fits ex_buf n \<longleftrightarrow> n \<le> 7" "buf_room ex_buf = 7" "buf_room ex_buf2 = 0"
  "buf_fits ex_buf2 n \<longleftrightarrow> n \<le> 9"
  by (auto simp: ex_buf_def ex_buf2_def buf_fits_def buf_norm_def buf_room_def)

section \<open>Properties\<close>

text \<open>C16: \<open>a3_buf_write_str\<close> refuses a string that would exceed the maximal capacity; otherwise it
  appends the bytes to the queue, keeps the invariant and leaves every other block alone. But
  growing does not compact: when there is room only after moving the contents of a buffer that
  has to grow, the write runs into the assertion of \<open>a3_buf_wrote\<close>.\<close>

theorem buf_write_str_appends:
  assumes "buf_inv m b" and "mem_load m (s_ptr s) (s_len s) = ret ys"
    and "ptr_block (s_ptr s) \<noteq> ptr_block (s_ptr (b_data b))" and "4 * length ys < size_mod"
  shows "if b_max_cap b < length (buf_contents m b) + length ys
    then a3_buf_write_str m True b s = ret (m, b, False)
    else if buf_fits b (length ys)
    then \<exists>m' b'. a3_buf_write_str m True b s = ret (m', b', True) \<and> buf_inv m' b' \<and>
      buf_contents m' b' = buf_contents m b @ ys \<and> buf_frame m b m' b' \<and> b_max_cap b' = b_max_cap b
    else a3_buf_write_str m True b s = fail Assert_failed"
  using write_str_correct [OF assms] .

theorem buf_write_str_appends_witness:
  "\<exists>m' b'. a3_buf_write_str ex_mem True ex_buf ex_hello = ret (m', b', True) \<and>
    buf_contents m' b' = [72, 101, 108, 108, 111]"
  using buf_write_str_appends [OF ex_buf_ok(1) ex_loads(1)]
  by (auto simp: ex_loads ex_buf_fields ex_buf_ok size_mod_def)

text \<open>\<open>a3_buf_read\<close> of at most as many bytes as the buffer holds takes them off the front, and
  keeps the invariant.\<close>

theorem buf_read_drops:
  assumes "buf_inv m b" and "n \<le> length (buf_contents m b)"
  shows "\<exists>b'. a3_buf_read b n = ret b' \<and> buf_inv m b' \<and> buf_contents m b' = drop n (buf_contents m b)"
  using read_correct [OF assms] by blast

theorem buf_read_drops_witness:
  "\<exists>b'. a3_buf_read ex_buf2 2 = ret b' \<and> buf_contents ex_mem b' = [111, 33]"
  using buf_read_drops [OF ex_buf2_ok(1), of 2] by (auto simp: ex_buf2_ok)

text \<open>\<open>a3_buf_write_byte\<close> appends a byte whenever the buffer is below its maximal capacity or
  has free space at its end, compacting or growing as needed, and reports failure otherwise
  without losing a byte.\<close>

theorem buf_write_byte_appends:
  assumes "buf_inv m b"
  shows "\<exists>m' b' r. a3_buf_write_byte m True b x = ret (m', b', r) \<and> buf_inv m' b' \<and>
    r = (1 \<le> buf_room b \<or> length (buf_contents m b) < b_max_cap b) \<and>
    buf_contents m' b' = (if r then buf_contents m b @ [x] else buf_contents m b)"
  using write_byte_correct [OF assms] by blast

theorem buf_write_byte_appends_witness:
  "\<exists>m' b'. a3_buf_write_byte ex_mem True ex_buf2 10 = ret (m', b', True) \<and>
    buf_contents m' b' = [108, 108, 111, 33, 10]"
  using buf_write_byte_appends [OF ex_buf2_ok(1), of 10] by (auto simp: ex_buf_fields ex_buf2_ok)

text \<open>C21: \<open>a3_buf_token_next\<close> returns. It skips leading delimiters, hands out the bytes up to the next delimiter, and leaves
  the rest of the queue. The delimiters that end the token are preserved or not: if they are, they stay in the queue and the memory
  is left as it was; if not, they leave the queue and their bytes, which are those right behind the token, are zero.\<close>

theorem buf_token_next_splits:
  assumes "buf_inv m b" and "mem_load m (s_ptr delim) (s_len delim) = ret ds"
    and "ptr_block (s_ptr delim) \<noteq> ptr_block (s_ptr (b_data b))"
  shows "\<exists>m' b' s. a3_buf_token_next m b delim keep = ret (m', b', s) \<and> buf_inv m' b' \<and>
    (let xs = dropWhile (\<lambda>c. c \<in> set ds) (buf_contents m b);
         rest = dropWhile (\<lambda>c. c \<notin> set ds) xs; n = length (takeWhile (\<lambda>c. c \<in> set ds) rest) in
     mem_load m' (s_ptr s) (s_len s) = ret (takeWhile (\<lambda>c. c \<notin> set ds) xs) \<and>
     buf_contents m' b' = (if keep then rest else dropWhile (\<lambda>c. c \<in> set ds) rest) \<and>
     (if keep then m' = m else mem_load m' (ptr_plus (s_ptr s) (s_len s)) n = ret (replicate n 0))) \<and>
    (\<forall>c. ptr_block (s_ptr (b_data b)) \<noteq> Some c \<longrightarrow> blocks m' c = blocks m c)"
  using token_next_correct [OF assms, of keep] unfolding Let_def by blast

text \<open>The buffer holds the bytes of \<open>llo!\<close>, and the delimiter is \<open>o\<close>.\<close>

theorem buf_token_next_splits_witness:
  "\<exists>m' b' s. a3_buf_token_next ex_mem ex_buf2 (ex_lo\<lparr>s_ptr := Ptr 1 1, s_len := 1\<rparr>) False = ret (m', b', s) \<and>
    mem_load m' (s_ptr s) (s_len s) = ret [108, 108] \<and> mem_load m' (ptr_plus (s_ptr s) (s_len s)) 1 = ret [0] \<and>
    buf_contents m' b' = [33]"
proof -
  have "mem_load ex_mem (s_ptr (ex_lo\<lparr>s_ptr := Ptr 1 1, s_len := 1\<rparr>)) (s_len (ex_lo\<lparr>s_ptr := Ptr 1 1, s_len := 1\<rparr>)) = ret [111]"
    by (simp add: mem_load_block ex_blocks)
  from buf_token_next_splits [OF ex_buf2_ok(1) this, of False] show ?thesis
    by (auto simp: ex_buf_fields ex_buf2_ok Let_def)
qed

text \<open>C34: \<open>a3_buf_write_num\<close> writes the decimal text of any 64-bit number: digits, without a leading zero, that read
  back as the number; its local buffer of 20 bytes is always large enough. If the text would exceed the maximal capacity the
  buffer is left alone and the call returns false; if it fits it is appended; what is left is the case in which a buffer has to grow and
  would have to be compacted, too, where the assertion of \<open>a3_buf_wrote\<close> fails.\<close>

theorem buf_write_num_appends:
  assumes "buf_inv m b" and "v < size_mod"
  shows "\<exists>text. dec_value text = v \<and> (\<forall>c \<in> set text. 48 \<le> c \<and> c \<le> 57) \<and> length text \<le> 20 \<and>
    (length text = 1 \<or> 1 < length text \<and> hd text \<noteq> 48) \<and>
    (if b_max_cap b < length (buf_contents m b) + length text
     then \<exists>m'. a3_buf_write_num m True b v = ret (m', b, False) \<and> buf_inv m' b \<and> buf_contents m' b = buf_contents m b
     else if buf_fits b (length text)
     then \<exists>m' b'. a3_buf_write_num m True b v = ret (m', b', True) \<and> buf_inv m' b' \<and>
       buf_contents m' b' = buf_contents m b @ text \<and> buf_frame m b m' b'
     else a3_buf_write_num m True b v = fail Assert_failed)"
proof -
  have "length (dec_text v) \<le> 20" using dec_text_length assms(2) by (simp add: size_mod_def)
  then show ?thesis using write_num_correct [OF assms] dec_value_text dec_text_digits dec_text_canonical
    by (intro exI [of _ "dec_text v"]) (auto split: if_splits)
qed

definition ex_buf3 :: a3_buffer where
  "ex_buf3 = \<lparr>b_data = \<lparr>s_ptr = Ptr 2 0, s_len = 7\<rparr>, b_tail = 0, b_head = 0, b_max_cap = 64\<rparr>"

lemma ex_buf3_ok:
  "buf_inv ex_mem ex_buf3" "buf_contents ex_mem ex_buf3 = []" "b_max_cap ex_buf3 = 64" "buf_fits ex_buf3 20"
  by (simp_all add: buf_inv_def ex_mem_ok ex_buf3_def ex_blocks size_mod_def buf_contents_def mem_load_block
      buf_fits_def buf_norm_def)

text \<open>A buffer with room takes the number, and a full one that may not grow refuses it.\<close>

theorem buf_write_num_appends_witness:
  "(\<exists>m' b'. a3_buf_write_num ex_mem True ex_buf3 3541 = ret (m', b', True) \<and> dec_value (buf_contents m' b') = 3541) \<and>
   (\<exists>m'. a3_buf_write_num ex_mem True (ex_buf\<lparr>b_tail := 7\<rparr>) 3541 = ret (m', ex_buf\<lparr>b_tail := 7\<rparr>, False))"
proof -
  have f: "buf_inv ex_mem (ex_buf\<lparr>b_tail := 7\<rparr>)" "length (buf_contents ex_mem (ex_buf\<lparr>b_tail := 7\<rparr>)) = 7" "b_max_cap (ex_buf\<lparr>b_tail := 7\<rparr>) = 7"
    by (simp_all add: buf_inv_def ex_mem_ok ex_buf_def ex_blocks size_mod_def buf_contents_def mem_load_block)
  have n: "(3541 :: nat) < size_mod" by (simp add: size_mod_def)
  have fits: "length xs \<le> 20 \<Longrightarrow> buf_fits ex_buf3 (length xs)" for xs :: "u8 list"
    using ex_buf3_ok(4) by (simp add: buf_fits_def ex_buf3_def buf_norm_def)
  from buf_write_num_appends [OF ex_buf3_ok(1) n] fits
  have "\<exists>m' b'. a3_buf_write_num ex_mem True ex_buf3 3541 = ret (m', b', True) \<and> dec_value (buf_contents m' b') = 3541"
    by (auto simp: ex_buf3_ok split: if_splits)
  moreover from buf_write_num_appends [OF f(1) n]
  have "\<exists>m'. a3_buf_write_num ex_mem True (ex_buf\<lparr>b_tail := 7\<rparr>) 3541 = ret (m', ex_buf\<lparr>b_tail := 7\<rparr>, False)"
    unfolding f(2,3) by (auto split: if_splits)
  ultimately show ?thesis by blast
qed

text \<open>With the \<open>memmem\<close> of the C library, \<open>a3_buf_consume\<close> takes the needle off the front and
  succeeds exactly if it is a prefix of the contents; on failure the buffer is unchanged.\<close>

theorem buf_consume_prefix:
  assumes "buf_inv m b" and "mem_load m (s_ptr q) (s_len q) = ret ys" and "0 < s_len q"
    and "s_ptr (b_data b) = Ptr k off" and "blocks m k = Some bs" and "off + length bs < size_mod"
  shows "\<exists>b' r. a3_buf_consume a3_shim_memmem_present m b q = ret (b', r) \<and> buf_inv m b' \<and>
    r = (take (length ys) (buf_contents m b) = ys) \<and>
    (if r then buf_contents m b = ys @ buf_contents m b' else b' = b)"
proof -
  have "off + s_len (b_data b) < size_mod" using assms(1,4-6) by (auto simp: buf_inv_def)
  from libc_buf_consume [OF assms(1-3) this assms(4)] show ?thesis by blast
qed

theorem buf_consume_prefix_witness:
  "\<exists>b' r. a3_buf_consume a3_shim_memmem_present ex_mem ex_buf2 ex_lo = ret (b', r) \<and> \<not> r \<and> b' = ex_buf2"
  using buf_consume_prefix [OF ex_buf2_ok(1) ex_loads(2), of 0 0]
  by (auto simp: ex_loads ex_buf_fields ex_buf2_ok ex_blocks size_mod_def)

text \<open>C33: \<open>a3_buf_write_fmt\<close> returns after at most three rounds of its loop. It appends the whole text
  when the text and its zero byte fit, after growing and compacting if needed. Otherwise it still
  returns true, and has appended the part of the text that fits and the zero byte \<open>vsnprintf\<close>
  puts behind it.\<close>

theorem buf_write_fmt_appends:
  assumes "buf_inv m b" and "4 * (length out + 1) < size_mod"
  shows "\<exists>m' b'. a3_buf_write_fmt m True b (Some out) = ret (m', b', True) \<and> buf_inv m' b' \<and>
    buf_contents m' b' = buf_contents m b @
      (if length out < buf_room b \<or> length (buf_contents m b) + (length out + 1) \<le> b_max_cap b then out
       else if buf_room b = 0 then [] else take (buf_room b - 1) out @ [0])"
  using write_vfmt_correct [OF assms] unfolding a3_buf_write_fmt_def fmt_text_def .

theorem buf_write_fmt_appends_witness:
  "(\<exists>m' b'. a3_buf_write_fmt ex_mem True ex_buf2 (Some [120, 121]) = ret (m', b', True) \<and>
     buf_contents m' b' = [108, 108, 111, 33, 120, 121]) \<and>
   (\<exists>m' b'. a3_buf_write_fmt ex_mem True ex_buf (Some (replicate 9 120)) = ret (m', b', True) \<and>
     buf_contents m' b' = replicate 6 120 @ [0])"
  using buf_write_fmt_appends [OF ex_buf2_ok(1), of "[120, 121]"]
    buf_write_fmt_appends [OF ex_buf_ok(1), of "replicate 9 120"]
  by (auto simp: ex_buf_fields ex_buf_ok ex_buf2_ok size_mod_def)

text \<open>A new buffer is well formed, empty, and has the capacity asked for.\<close>

theorem buf_new_is_empty:
  assumes "mem_ok m" and "4 * c < size_mod" and "4 * max_c < size_mod"
  shows "\<exists>m' b. a3_buf_new m True True c max_c = ret (m', b) \<and> buf_inv m' b \<and> buf_contents m' b = [] \<and>
    s_len (b_data b) = c \<and> b_max_cap b = max_c"
  using init_alloc_correct [OF assms] .

theorem buf_new_is_empty_witness:
  "\<exists>m' b. a3_buf_new ex_mem True True 8 64 = ret (m', b) \<and> buf_contents m' b = []"
  using buf_new_is_empty [OF ex_mem_ok, of 8 64] by (auto simp: size_mod_def)

end
