(* ===== verification/Buffer_Seq.thy ===== *)
theory Buffer_Seq
  imports Buffer_Props
begin

text \<open>
  Sequences of operations on a buffer, against a bounded queue of bytes. A client gets strings from memory the buffer
  does not use, checks how much it may skip, and looks at the contents through the pointers the buffer hands out.
\<close>

section \<open>Operations of a client\<close>

datatype buf_op = Put_str a3_cstring | Put_byte u8 | Put_line a3_cstring | Put_num size_t | Reserve size_t | Reserve_max |
  Peek | Skip nat | Eat a3_cstring | Next_token a3_cstring bool | Clear_all | Put_struct ptr size_t

datatype buf_result = Flag bool | Bytes "u8 list"

definition flagged :: "(mem \<times> a3_buffer \<times> bool) run \<Rightarrow> (buf_result \<times> mem \<times> a3_buffer) run" where
  "flagged c = bind_run c (\<lambda>(m, b, r). ret (Flag r, m, b))"

lemma flagged_iff:
  "flagged c = ret (r, m1, b1) \<longleftrightarrow> (\<exists>f. r = Flag f \<and> c = ret (m1, b1, f))"
  "flagged c = fail e \<longleftrightarrow> c = fail e"
  unfolding flagged_def by (cases c rule: option.exhaust [case_names None Some], auto simp: bind_run_def split: sum.splits)+

fun buf_exec :: "buf_op \<Rightarrow> mem \<Rightarrow> a3_buffer \<Rightarrow> (buf_result \<times> mem \<times> a3_buffer) run" where
  "buf_exec (Put_str s) m b = flagged (a3_buf_write_str m True b s)"
| "buf_exec (Put_byte x) m b = flagged (a3_buf_write_byte m True b x)"
| "buf_exec (Put_line s) m b = flagged (a3_buf_write_line m True True b s)"
| "buf_exec (Put_num v) m b = flagged (a3_buf_write_num m True b v)"
| "buf_exec (Reserve n) m b = flagged (a3_buf_ensure_cap m True b n)"
| "buf_exec Reserve_max m b = flagged (a3_buf_ensure_max_cap m True b)"
| "buf_exec Peek m b = bind_run (a3_buf_read_ptr b) (\<lambda>s.
     bind_run (mem_load m (s_ptr s) (s_len s)) (\<lambda>xs. ret (Bytes xs, m, b)))"
| "buf_exec (Skip n) m b = bind_run (a3_buf_len b) (\<lambda>l.
     bind_run (a3_buf_read b (min n l)) (\<lambda>b1. ret (Flag True, m, b1)))"
| "buf_exec (Eat q) m b = bind_run (a3_buf_consume a3_shim_memmem_present m b q) (\<lambda>(b1, r). ret (Flag r, m, b1))"
| "buf_exec (Next_token d keep) m b = bind_run (a3_buf_token_next m b d keep) (\<lambda>(m1, b1, s).
     bind_run (mem_load m1 (s_ptr s) (s_len s)) (\<lambda>xs. ret (Bytes xs, m1, b1)))"
| "buf_exec Clear_all m b = bind_run (a3_buf_reset b) (\<lambda>b1. ret (Flag True, m, b1))"
| "buf_exec (Put_struct p k) m b = flagged (a3_buf_write_struct m True b p k)"

fun buf_exec_all :: "buf_op list \<Rightarrow> mem \<Rightarrow> a3_buffer \<Rightarrow> (buf_result list \<times> mem \<times> a3_buffer) run" where
  "buf_exec_all [] m b = ret ([], m, b)"
| "buf_exec_all (x # xs) m b = bind_run (buf_exec x m b) (\<lambda>(r, m1, b1).
     bind_run (buf_exec_all xs m1 b1) (\<lambda>(rs, m2, b2). ret (r # rs, m2, b2)))"

text \<open>The operations that take bytes off the front.\<close>

fun takes :: "buf_op \<Rightarrow> bool" where
  "takes (Skip n) = True"
| "takes (Eat q) = True"
| "takes (Next_token d keep) = True"
| "takes x = False"

section \<open>The bounded queue\<close>

definition queue_put :: "nat \<Rightarrow> u8 list \<Rightarrow> u8 list \<Rightarrow> buf_result \<times> u8 list" where
  "queue_put n ys q = (if length q + length ys \<le> n then (Flag True, q @ ys) else (Flag False, q))"

text \<open>A line is put in two parts: the text may go in without its newline.\<close>

fun queue_exec :: "(a3_cstring \<Rightarrow> u8 list) \<Rightarrow> nat \<Rightarrow> buf_op \<Rightarrow> u8 list \<Rightarrow> buf_result \<times> u8 list" where
  "queue_exec txt n (Put_str s) q = queue_put n (txt s) q"
| "queue_exec txt n (Put_byte x) q = queue_put n [x] q"
| "queue_exec txt n (Put_line s) q = (let (r, q1) = queue_put n (txt s) q in
     if r = Flag True then queue_put n [10] q1 else (r, q1))"
| "queue_exec txt n (Put_num v) q = queue_put n (dec_text v) q"
| "queue_exec txt n (Reserve k) q = (Flag (length q + k \<le> n), q)"
| "queue_exec txt n Reserve_max q = (Flag True, q)"
| "queue_exec txt n Peek q = (Bytes q, q)"
| "queue_exec txt n (Skip k) q = (Flag True, drop k q)"
| "queue_exec txt n (Eat s) q = (let ys = txt s in
     if take (length ys) q = ys then (Flag True, drop (length ys) q) else (Flag False, q))"
| "queue_exec txt n (Next_token d keep) q = (let ds = set (txt d); xs = dropWhile (\<lambda>c. c \<in> ds) q; rest = dropWhile (\<lambda>c. c \<notin> ds) xs in
     (Bytes (takeWhile (\<lambda>c. c \<notin> ds) xs), if keep then rest else dropWhile (\<lambda>c. c \<in> ds) rest))"
| "queue_exec txt n Clear_all q = (Flag True, [])"
| "queue_exec txt n (Put_struct p k) q = queue_put n (txt (a3_cs_obj p k)) q"

fun queue_exec_all :: "(a3_cstring \<Rightarrow> u8 list) \<Rightarrow> nat \<Rightarrow> buf_op list \<Rightarrow> u8 list \<Rightarrow> buf_result list \<times> u8 list" where
  "queue_exec_all txt n [] q = ([], q)"
| "queue_exec_all txt n (x # xs) q = (let (r, q1) = queue_exec txt n x q; (rs, q2) = queue_exec_all txt n xs q1 in (r # rs, q2))"

section \<open>Strings of the client and the invariant\<close>

text \<open>In the memory \<open>m\<close> the string has the bytes \<open>txt s\<close>.\<close>

definition text_in :: "mem \<Rightarrow> (a3_cstring \<Rightarrow> u8 list) \<Rightarrow> a3_cstring \<Rightarrow> bool" where
  "text_in m txt s \<longleftrightarrow> mem_load m (s_ptr s) (s_len s) = ret (txt s) \<and> 4 * s_len s < size_mod"

fun op_ok :: "mem \<Rightarrow> (a3_cstring \<Rightarrow> u8 list) \<Rightarrow> buf_op \<Rightarrow> bool" where
  "op_ok m txt (Put_str s) = text_in m txt s"
| "op_ok m txt (Put_line s) = text_in m txt s"
| "op_ok m txt (Put_num v) = (v < size_mod)"
| "op_ok m txt (Reserve k) = (4 * k < size_mod)"
| "op_ok m txt (Eat s) = (text_in m txt s \<and> 0 < s_len s)"
| "op_ok m txt (Next_token d keep) = text_in m txt d"
| "op_ok m txt (Put_struct p k) = text_in m txt (a3_cs_obj p k)"
| "op_ok m txt x = True"

text \<open>The memory is that of the client, \<open>m0\<close>, and the buffer, at the start of its block.\<close>

definition buf_seq :: "mem \<Rightarrow> nat \<Rightarrow> mem \<Rightarrow> a3_buffer \<Rightarrow> bool" where
  "buf_seq m0 n m b \<longleftrightarrow> buf_inv m b \<and> holds_only m0 m (s_ptr (b_data b)) \<and> b_max_cap b = n \<and> s_len (b_data b) \<le> n \<and>
     (\<exists>k. s_ptr (b_data b) = Ptr k 0)"

lemma buf_seqD:
  assumes "buf_seq m0 n m b"
  shows "buf_inv m b" "b_max_cap b = n" "s_len (b_data b) \<le> n"
  using assms by (simp_all add: buf_seq_def)

lemma text_inD:
  assumes "buf_seq m0 n m b" and "text_in m0 txt s"
  shows "mem_load m (s_ptr s) (s_len s) = ret (txt s)" "ptr_block (s_ptr s) \<noteq> ptr_block (s_ptr (b_data b))"
    "length (txt s) = s_len s" "4 * length (txt s) < size_mod"
proof -
  obtain c off bs where c: "s_ptr s = Ptr c off" "blocks m0 c = Some bs" "off + s_len s \<le> length bs"
    "txt s = take (s_len s) (drop off bs)"
    using assms(2) by (auto simp: text_in_def elim: mem_load_retE)
  then have "blocks m c = Some bs \<and> ptr_block (s_ptr (b_data b)) \<noteq> Some c"
    using assms(1) holds_onlyD [of m0 m "s_ptr (b_data b)" c bs] by (simp add: buf_seq_def)
  then show "mem_load m (s_ptr s) (s_len s) = ret (txt s)" "ptr_block (s_ptr s) \<noteq> ptr_block (s_ptr (b_data b))"
    using c by (auto simp: mem_load_block)
  show "length (txt s) = s_len s" "4 * length (txt s) < size_mod" using c assms(2) by (auto simp: text_in_def)
qed

text \<open>What a step keeps: the invariant, grown storage, and contents at the start unless it takes bytes.\<close>

definition buf_step :: "mem \<Rightarrow> nat \<Rightarrow> bool \<Rightarrow> a3_buffer \<Rightarrow> mem \<Rightarrow> a3_buffer \<Rightarrow> bool" where
  "buf_step m0 n tk b m1 b1 \<longleftrightarrow> buf_seq m0 n m1 b1 \<and> s_len (b_data b) \<le> s_len (b_data b1) \<and>
     (\<not> tk \<longrightarrow> b_head b = 0 \<longrightarrow> b_head b1 = 0)"

lemma buf_step_trans: "buf_step m0 n tk b m1 b1 \<Longrightarrow> buf_step m0 n tk b1 m2 b2 \<Longrightarrow> buf_step m0 n tk b m2 b2"
  by (auto simp: buf_step_def)

lemma step_frame:
  assumes "buf_seq m0 n m b" and "buf_inv m1 b1" and "buf_frame m b m1 b1"
  shows "buf_step m0 n tk b m1 b1"
proof -
  have "holds_only m0 m1 (s_ptr (b_data b1))"
    using assms(1,3) unfolding buf_seq_def buf_frame_def by (blast intro: holds_only_moves)
  then show ?thesis using assms by (auto simp: buf_step_def buf_seq_def buf_frame_def buf_moved_def)
qed

lemma step_taken:
  assumes "buf_seq m0 n m b" and "buf_inv m1 b1" and "b_data b1 = b_data b" and "b_max_cap b1 = b_max_cap b"
    and "\<And>c. ptr_block (s_ptr (b_data b)) \<noteq> Some c \<Longrightarrow> blocks m1 c = blocks m c"
  shows "buf_step m0 n True b m1 b1"
proof -
  have "holds_only m0 m1 (s_ptr (b_data b1))" using assms(1,3,5) by (simp add: buf_seq_def holds_only_def)
  then show ?thesis using assms by (auto simp: buf_step_def buf_seq_def)
qed

text \<open>In a buffer that is not above its maximal capacity, only growth of one with a moved head runs out of room.\<close>

lemma fits_cases:
  assumes "buf_seq m0 n m b" and "length (buf_contents m b) + k \<le> n"
  shows "buf_fits b k \<or> s_len (b_data b) < n \<and> b_head b \<noteq> 0"
  using assms buf_inv_bounds [OF buf_seqD(1) [OF assms(1)]] by (auto simp: buf_fits_def buf_seq_def buf_norm_def)

lemma room_le:
  assumes "buf_seq m0 n m b" and "k \<le> buf_room b"
  shows "length (buf_contents m b) + k \<le> n"
proof -
  note i = buf_inv_bounds [OF buf_inv_norm [OF buf_seqD(1) [OF assms(1)]]]
  have "length (buf_contents m b) = b_tail b - b_head b" using i(5) buf_seqD(1) [OF assms(1)] by simp
  moreover have "b_tail b - b_head b \<le> b_tail (buf_norm b)" by (simp add: buf_norm_def)
  ultimately have "length (buf_contents m b) \<le> b_tail (buf_norm b)" by simp
  then show ?thesis using assms(2) buf_seqD(3) [OF assms(1)] i(2) unfolding buf_room_def buf_norm_fields by linarith
qed

section \<open>One operation\<close>

text \<open>The outcome \<open>c\<close> of an operation is that of the queue, or it has run into the assertion of \<open>a3_buf_wrote\<close>.\<close>

definition like_queue :: "mem \<Rightarrow> nat \<Rightarrow> bool \<Rightarrow> a3_buffer \<Rightarrow> (buf_result \<times> mem \<times> a3_buffer) run \<Rightarrow> buf_result \<times> u8 list \<Rightarrow> bool" where
  "like_queue m0 n tk b c rq \<longleftrightarrow>
     (\<exists>m1 b1. c = ret (fst rq, m1, b1) \<and> buf_step m0 n tk b m1 b1 \<and> buf_contents m1 b1 = snd rq) \<or>
     c = fail Assert_failed \<and> s_len (b_data b) < n \<and> b_head b \<noteq> 0"

lemma like_queueI:
  "c = ret (r, m1, b1) \<Longrightarrow> buf_step m0 n tk b m1 b1 \<Longrightarrow> (r, buf_contents m1 b1) = rq \<Longrightarrow> like_queue m0 n tk b c rq"
  by (auto simp: like_queue_def)

lemma put_str_like:
  assumes "buf_seq m0 n m b" and "text_in m0 txt s"
  shows "like_queue m0 n tk b (flagged (a3_buf_write_str m True b s)) (queue_put n (txt s) (buf_contents m b))"
proof -
  note inv = buf_seqD(1) [OF assms(1)] and max = buf_seqD(2) [OF assms(1)]
  note w = write_str_correct [OF inv text_inD(1,2,4) [OF assms]]
  show ?thesis
  proof (cases "length (buf_contents m b) + length (txt s) \<le> n")
    case False
    moreover have "buf_step m0 n tk b m b" using step_frame [OF assms(1) inv, of tk] by (simp add: buf_frame_def)
    ultimately show ?thesis using w max by (auto simp: like_queue_def queue_put_def flagged_def)
  next
    case True
    show ?thesis
    proof (cases "buf_fits b (length (txt s))")
      case fits: True
      then obtain m1 b1 where m1: "a3_buf_write_str m True b s = ret (m1, b1, True)" "buf_inv m1 b1"
        "buf_contents m1 b1 = buf_contents m b @ txt s" "buf_frame m b m1 b1"
        using w True max by auto
      then show ?thesis using True step_frame [OF assms(1) m1(2,4)] by (auto simp: like_queue_def queue_put_def flagged_def)
    next
      case nofit: False
      then show ?thesis using w True max fits_cases [OF assms(1) True] by (simp add: like_queue_def flagged_def)
    qed
  qed
qed

lemma put_byte_like:
  assumes "buf_seq m0 n m b"
  shows "\<exists>m1 b1 r. a3_buf_write_byte m True b x = ret (m1, b1, r) \<and> buf_step m0 n tk b m1 b1 \<and>
    (Flag r, buf_contents m1 b1) = queue_put n [x] (buf_contents m b)"
proof -
  note inv = buf_seqD(1) [OF assms]
  obtain m1 b1 r where m1: "a3_buf_write_byte m True b x = ret (m1, b1, r)" "buf_inv m1 b1"
    "r = (1 \<le> buf_room b \<or> length (buf_contents m b) < b_max_cap b)"
    "buf_contents m1 b1 = (if r then buf_contents m b @ [x] else buf_contents m b)" "buf_frame m b m1 b1"
    using write_byte_correct [OF inv] by blast
  have "r = (length (buf_contents m b) + 1 \<le> n)" using m1(3) room_le [OF assms, of 1] buf_seqD(2) [OF assms] by auto
  then show ?thesis using m1 step_frame [OF assms m1(2,5)] by (auto simp: queue_put_def)
qed

lemma put_line_like:
  assumes "buf_seq m0 n m b" and "text_in m0 txt s"
  shows "like_queue m0 n tk b (flagged (a3_buf_write_line m True True b s)) (queue_exec txt n (Put_line s) (buf_contents m b))"
  using put_str_like [OF assms, of tk]
proof -
  let ?q = "queue_put n (txt s) (buf_contents m b)"
  have flag: "fst ?q = Flag (length (buf_contents m b) + length (txt s) \<le> n)" by (simp add: queue_put_def)
  consider m1 b1 r where "a3_buf_write_str m True b s = ret (m1, b1, r)" "fst ?q = Flag r"
      "buf_step m0 n tk b m1 b1" "buf_contents m1 b1 = snd ?q"
    | "a3_buf_write_str m True b s = fail Assert_failed" "s_len (b_data b) < n" "b_head b \<noteq> 0"
    using put_str_like [OF assms, of tk]
    by (auto simp: like_queue_def flagged_iff)
  then show ?thesis
  proof cases
    case 1
    show ?thesis
    proof (cases r)
      case False
      then show ?thesis using 1 by (auto simp: like_queue_def flagged_def a3_buf_write_line_def case_prod_beta Let_def)
    next
      case True
      have "buf_seq m0 n m1 b1" using 1(3) by (simp add: buf_step_def)
      then obtain m2 b2 r2 where m2: "a3_buf_write_byte m1 True b1 10 = ret (m2, b2, r2)" "buf_step m0 n tk b1 m2 b2"
        "(Flag r2, buf_contents m2 b2) = queue_put n [10] (buf_contents m1 b1)"
        using put_byte_like by blast
      have "queue_exec txt n (Put_line s) (buf_contents m b) = (Flag r2, buf_contents m2 b2)"
        using True 1(2,4) m2(3) by (simp add: case_prod_beta)
      then show ?thesis using True 1(1) m2(1) buf_step_trans [OF 1(3) m2(2)]
        by (auto simp: like_queue_def flagged_def a3_buf_write_line_def)
    qed
  qed (simp add: like_queue_def flagged_def a3_buf_write_line_def)
qed

lemma put_num_like:
  assumes "buf_seq m0 n m b" and "v < size_mod"
  shows "like_queue m0 n tk b (flagged (a3_buf_write_num m True b v)) (queue_put n (dec_text v) (buf_contents m b))"
proof -
  note w = write_num_correct [OF buf_seqD(1) [OF assms(1)] assms(2)]
  note max = buf_seqD(2) [OF assms(1)] and frame = step_frame [OF assms(1), of _ _ tk]
  show ?thesis
  proof (cases "length (buf_contents m b) + length (dec_text v) \<le> n")
    case False
    then show ?thesis using w max frame by (auto simp: like_queue_def queue_put_def flagged_iff)
  next
    case True
    show ?thesis
    proof (cases "buf_fits b (length (dec_text v))")
      case fits: True
      then obtain m1 b1 where "a3_buf_write_num m True b v = ret (m1, b1, True)" "buf_inv m1 b1"
        "buf_contents m1 b1 = buf_contents m b @ dec_text v" "buf_frame m b m1 b1"
        using w True max by auto
      then show ?thesis using True frame by (auto simp: like_queue_def queue_put_def flagged_iff)
    next
      case False
      then show ?thesis using w True max fits_cases [OF assms(1) True] by (simp add: like_queue_def flagged_iff)
    qed
  qed
qed

lemma reserve_like:
  assumes "buf_seq m0 n m b" and "4 * k < size_mod"
  shows "like_queue m0 n tk b (flagged (a3_buf_ensure_cap m True b k))
    (Flag (length (buf_contents m b) + k \<le> n), buf_contents m b)"
proof -
  obtain m1 b1 r where e: "a3_buf_ensure_cap m True b k = ret (m1, b1, r)" "buf_inv m1 b1"
    "buf_contents m1 b1 = buf_contents m b" "buf_frame m b m1 b1"
    "r = (k \<le> buf_room b \<or> length (buf_contents m b) + k \<le> b_max_cap b)"
    using ensure_cap_correct [OF buf_seqD(1) [OF assms(1)] assms(2)] by blast
  have "r = (length (buf_contents m b) + k \<le> n)" using e(5) room_le [OF assms(1), of k] buf_seqD(2) [OF assms(1)] by auto
  then show ?thesis using e step_frame [OF assms(1) e(2,4)] by (auto simp: like_queue_def flagged_iff)
qed

lemma reserve_max_like:
  assumes "buf_seq m0 n m b"
  shows "like_queue m0 n tk b (flagged (a3_buf_ensure_max_cap m True b)) (Flag True, buf_contents m b)"
proof -
  note inv = buf_seqD(1) [OF assms] and max = buf_seqD(2,3) [OF assms]
  have "4 * b_max_cap b < size_mod" using inv by (simp add: buf_inv_def)
  then have small: "4 * (n - s_len (b_data b)) < size_mod" using max(1) by linarith
  have "length (buf_contents m b) + (n - s_len (b_data b)) \<le> n" using buf_inv_bounds [OF inv] max by simp
  from reserve_like [OF assms small, of tk, unfolded eqTrueI [OF this]]
  have grow: "like_queue m0 n tk b (flagged (a3_buf_ensure_cap m True b (n - s_len (b_data b)))) (Flag True, buf_contents m b)" .
  have sub: "sz_sub (b_max_cap b) (s_len (b_data b)) = n - s_len (b_data b)"
    using buf_inv_bounds(4) [OF inv] max by simp
  show ?thesis
  proof (cases "b_max_cap b \<le> s_len (b_data b)")
    case True
    have "buf_step m0 n tk b m b" using step_frame [OF assms inv, of tk] by (simp add: buf_frame_def)
    then show ?thesis using True inv by (simp add: a3_buf_ensure_max_cap_def flagged_def like_queue_def)
  next
    case False
    then show ?thesis using grow inv sub by (simp add: a3_buf_ensure_max_cap_def)
  qed
qed

text \<open>The operations that take bytes return whatever the storage.\<close>

lemma eat_like:
  assumes "buf_seq m0 n m b" and "text_in m0 txt s" and "0 < s_len s"
  shows "like_queue m0 n True b (buf_exec (Eat s) m b) (queue_exec txt n (Eat s) (buf_contents m b))"
proof -
  obtain k where k: "s_ptr (b_data b) = Ptr k 0" using assms(1) by (auto simp: buf_seq_def)
  have "0 + s_len (b_data b) < size_mod" using buf_inv_bounds(3) [OF buf_seqD(1) [OF assms(1)]] by simp
  then obtain b1 r where b1: "a3_buf_consume a3_shim_memmem_present m b s = ret (b1, r)" "buf_inv m b1"
    "r = (take (length (txt s)) (buf_contents m b) = txt s)"
    "if r then buf_contents m b = txt s @ buf_contents m b1 else b1 = b" "b_data b1 = b_data b" "b_max_cap b1 = b_max_cap b"
    using libc_buf_consume [OF buf_seqD(1) [OF assms(1)] text_inD(1) [OF assms(1,2)] assms(3) _ k] by blast
  have "buf_step m0 n True b m b1" by (rule step_taken [OF assms(1) b1(2,5,6)]) simp
  moreover have "(Flag r, buf_contents m b1) = queue_exec txt n (Eat s) (buf_contents m b)"
    using b1(3,4) by (auto simp: Let_def split: if_splits)
  moreover have "buf_exec (Eat s) m b = ret (Flag r, m, b1)" using b1(1) by simp
  ultimately show ?thesis by (intro like_queueI)
qed

lemma token_like:
  assumes "buf_seq m0 n m b" and "text_in m0 txt d"
  shows "like_queue m0 n True b (buf_exec (Next_token d keep) m b) (queue_exec txt n (Next_token d keep) (buf_contents m b))"
proof -
  obtain m1 b1 s where t: "a3_buf_token_next m b d keep = ret (m1, b1, s)" "buf_inv m1 b1"
    "let xs = dropWhile (\<lambda>c. c \<in> set (txt d)) (buf_contents m b); rest = dropWhile (\<lambda>c. c \<notin> set (txt d)) xs in
     mem_load m1 (s_ptr s) (s_len s) = ret (takeWhile (\<lambda>c. c \<notin> set (txt d)) xs) \<and>
     buf_contents m1 b1 = (if keep then rest else dropWhile (\<lambda>c. c \<in> set (txt d)) rest)"
    "b_data b1 = b_data b" "b_max_cap b1 = b_max_cap b"
    "\<And>c. ptr_block (s_ptr (b_data b)) \<noteq> Some c \<Longrightarrow> blocks m1 c = blocks m c"
    using token_next_correct [OF buf_seqD(1) [OF assms(1)] text_inD(1,2) [OF assms]] by blast
  have "buf_step m0 n True b m1 b1" by (rule step_taken [OF assms(1) t(2,4-6)])
  then show ?thesis using t(1,3) by (auto simp: like_queue_def Let_def)
qed

lemma exec_like:
  assumes "buf_seq m0 n m b" and "op_ok m0 txt x"
  shows "like_queue m0 n (takes x) b (buf_exec x m b) (queue_exec txt n x (buf_contents m b))"
proof (cases x)
  case (Put_byte y)
  obtain m1 b1 r where b1: "a3_buf_write_byte m True b y = ret (m1, b1, r)" "buf_step m0 n False b m1 b1"
    "(Flag r, buf_contents m1 b1) = queue_put n [y] (buf_contents m b)"
    using put_byte_like [OF assms(1)] by blast
  have "flagged (a3_buf_write_byte m True b y) = ret (Flag r, m1, b1)" using b1(1) by (simp add: flagged_def)
  then show ?thesis using b1(2,3) by (simp add: Put_byte like_queueI)
next
  case Peek
  have "buf_step m0 n False b m b" using step_frame [OF assms(1) buf_seqD(1) [OF assms(1)]] by (simp add: buf_frame_def)
  then show ?thesis
    using read_ptr_correct [OF buf_seqD(1) [OF assms(1)]] buf_contents_load [OF buf_seqD(1) [OF assms(1)]]
    by (simp add: Peek like_queue_def)
next
  case (Skip k)
  let ?q = "buf_contents m b"
  note inv = buf_seqD(1) [OF assms(1)]
  have l: "a3_buf_len b = ret (length ?q)" using buf_index_ops(2) [OF inv] buf_inv_bounds(5) [OF inv] by simp
  obtain b1 where b1: "a3_buf_read b (min k (length ?q)) = ret b1" "buf_inv m b1"
    "buf_contents m b1 = drop (min k (length ?q)) ?q" "b_data b1 = b_data b" "b_max_cap b1 = b_max_cap b"
    using read_correct [OF inv, of "min k (length ?q)"] by auto
  have "buf_step m0 n True b m b1" by (rule step_taken [OF assms(1) b1(2,4,5)]) simp
  then show ?thesis using l b1(1,3) by (simp add: Skip like_queue_def min_def)
next
  case Clear_all
  let ?b = "b\<lparr>b_head := 0, b_tail := 0\<rparr>"
  note inv = buf_seqD(1) [OF assms(1)]
  have inv': "buf_inv m ?b" using inv by (auto simp: buf_inv_def)
  moreover have "buf_contents m ?b = []" using buf_inv_bounds(5) [OF inv'] by simp
  moreover have "buf_frame m b m ?b" by (auto simp: buf_frame_def)
  ultimately show ?thesis using step_frame [OF assms(1), of m ?b] inv by (auto simp: Clear_all like_queue_def a3_buf_reset_def)
qed (use assms put_str_like put_line_like put_num_like reserve_like reserve_max_like eat_like token_like in
    \<open>simp_all add: a3_buf_write_struct_def del: queue_exec.simps(3,9,10) buf_exec.simps(9,10)\<close>)

section \<open>Sequences\<close>

lemma exec_all_like:
  assumes "buf_seq m0 n m b" and "\<forall>x \<in> set xs. op_ok m0 txt x"
  shows "(\<exists>m1 b1. buf_exec_all xs m b = ret (fst (queue_exec_all txt n xs (buf_contents m b)), m1, b1) \<and>
      buf_seq m0 n m1 b1 \<and> buf_contents m1 b1 = snd (queue_exec_all txt n xs (buf_contents m b))) \<or>
    s_len (b_data b) < n \<and> (b_head b \<noteq> 0 \<or> (\<exists>x \<in> set xs. takes x)) \<and> buf_exec_all xs m b = fail Assert_failed"
  using assms
proof (induction xs arbitrary: m b)
  case (Cons x xs)
  let ?rq = "queue_exec txt n x (buf_contents m b)"
  consider (goes) m1 b1 where "buf_exec x m b = ret (fst ?rq, m1, b1)" "buf_step m0 n (takes x) b m1 b1" "buf_contents m1 b1 = snd ?rq"
    | (stops) "buf_exec x m b = fail Assert_failed" "s_len (b_data b) < n" "b_head b \<noteq> 0"
    using exec_like [OF Cons.prems(1), of "txt" x] Cons.prems(2) by (auto simp: like_queue_def)
  then show ?case
  proof cases
    case goes
    then have seq: "buf_seq m0 n m1 b1" and len: "s_len (b_data b) \<le> s_len (b_data b1)"
      and head: "b_head b1 \<noteq> 0 \<Longrightarrow> takes x \<or> b_head b \<noteq> 0"
      by (auto simp: buf_step_def)
    have "\<forall>x \<in> set xs. op_ok m0 txt x" using Cons.prems(2) by simp
    from Cons.IH [OF seq this] show ?thesis
    proof (elim disjE exE conjE)
      fix m2 b2
      assume "buf_exec_all xs m1 b1 = ret (fst (queue_exec_all txt n xs (buf_contents m1 b1)), m2, b2)"
        and "buf_seq m0 n m2 b2" and "buf_contents m2 b2 = snd (queue_exec_all txt n xs (buf_contents m1 b1))"
      then show ?thesis using goes(1,3) by (simp add: case_prod_beta Let_def)
    qed (use goes(1) len head in auto)
  qed simp
qed simp

text \<open>Releasing the buffer leaves the memory of the client.\<close>

lemma buf_free_restores:
  assumes "buf_seq m0 n m b"
  shows "\<exists>m1. a3_buf_free m b = ret m1 \<and> blocks m1 = blocks m0"
proof -
  have inv: "buf_inv m b" and hold: "holds_only m0 m (s_ptr (b_data b))" using assms by (simp_all add: buf_seq_def)
  obtain k off pre post where "buf_view m b k off pre (buf_contents m b) post" using inv by (rule buf_invE)
  moreover obtain k' where "s_ptr (b_data b) = Ptr k' 0" using assms by (auto simp: buf_seq_def)
  ultimately have k: "s_ptr (b_data b) = Ptr k 0" "blocks m k = Some (pre @ buf_contents m b @ post)"
    by (auto simp: buf_view_def)
  then show ?thesis using holds_only_free [of m0 m k] hold inv
    by (auto simp: a3_buf_free_def a3_buf_destroy_def a3_string_free_def)
qed

section \<open>Property\<close>

text \<open>C3: a buffer is a bounded queue of bytes. On a new buffer every sequence of writes of strings, structures, bytes, lines and
  numbers, of requests for room, looks at the contents, skips, consumed prefixes, tokens and resets keeps the buffer
  well formed and returns what it returns on a queue that holds at most the maximal capacity. The one exception is a buffer
  that was made smaller than that and from which bytes were taken: growing it may run into the assertion of
  \<open>a3_buf_wrote\<close>. Nothing leaks: after \<open>a3_buf_free\<close> the memory is what it was before the buffer was made.\<close>

theorem buf_runs_like_queue:
  assumes "mem_ok m0" and "c \<le> n" and "4 * n < size_mod" and "\<forall>x \<in> set xs. op_ok m0 txt x"
  shows "\<exists>m b. a3_buf_new m0 True True c n = ret (m, b) \<and>
    ((\<exists>m1 b1. buf_exec_all xs m b = ret (fst (queue_exec_all txt n xs []), m1, b1) \<and> buf_inv m1 b1 \<and>
       b_max_cap b1 = n \<and> buf_contents m1 b1 = snd (queue_exec_all txt n xs []) \<and>
       (\<exists>m2. a3_buf_free m1 b1 = ret m2 \<and> blocks m2 = blocks m0)) \<or>
     c < n \<and> (\<exists>x \<in> set xs. takes x) \<and> buf_exec_all xs m b = fail Assert_failed)"
proof -
  have "4 * c < size_mod" using assms(2,3) by linarith
  then obtain m b where new: "a3_buf_new m0 True True c n = ret (m, b)" "buf_inv m b" "buf_contents m b = []"
    "b_data b = \<lparr>s_ptr = Ptr (next_block m0) 0, s_len = c\<rparr>" "b_max_cap b = n" "b_head b = 0"
    "\<forall>d. d \<noteq> next_block m0 \<longrightarrow> blocks m d = blocks m0 d"
    using new_correct [OF assms(1) _ assms(3)] by blast
  then have "buf_seq m0 n m b" using assms(1,2) by (auto simp: buf_seq_def holds_only_def mem_ok_def)
  from exec_all_like [OF this assms(4)] new show ?thesis using buf_free_restores by (fastforce simp: buf_seq_def)
qed

definition ex_txt :: "a3_cstring \<Rightarrow> u8 list" where
  "ex_txt s = (if s_ptr s = Ptr 0 1 then [72, 101, 108, 108, 111] else [108, 111])"

definition ex_buf_ops :: "buf_op list" where
  "ex_buf_ops = [Put_str ex_hello, Skip 3, Eat ex_lo, Put_line ex_hello, Put_str ex_hello, Next_token ex_lo False, Peek]"

lemma ex_buf_ops_ok: "\<forall>x \<in> set ex_buf_ops. op_ok ex_mem ex_txt x"
  using ex_loads(1,2) by (simp add: ex_buf_ops_def text_in_def ex_txt_def ex_loads(3-6) size_mod_def)

lemma ex_buf_ops_run: "fst (queue_exec_all ex_txt 8 ex_buf_ops []) =
  [Flag True, Flag True, Flag True, Flag True, Flag False, Bytes [72, 101], Bytes [10]]"
  by (simp add: ex_buf_ops_def ex_txt_def queue_put_def ex_loads(3-6))

theorem buf_runs_like_queue_witness:
  "\<exists>m b m1 b1. a3_buf_new ex_mem True True 8 8 = ret (m, b) \<and> buf_exec_all ex_buf_ops m b =
     ret ([Flag True, Flag True, Flag True, Flag True, Flag False, Bytes [72, 101], Bytes [10]], m1, b1)"
  using buf_runs_like_queue [OF ex_mem_ok _ _ ex_buf_ops_ok, of 8 8] unfolding ex_buf_ops_run
  by (auto simp: size_mod_def)

end
