(* ===== verification/Fifo.thy ===== *)
theory Fifo
  imports Prelude
begin

text \<open>
  The contract of an intrusive FIFO list, and what follows from it for sequences of
  operations. \<open>Ll\<close> and \<open>Sll\<close> provide it. The elements are the caller's objects, named by numbers.
\<close>

section \<open>Running several operations\<close>

text \<open>Adding the elements of a list in order, and removing the first one \<open>n\<close> times, noting each
  head before it goes.\<close>

definition add_all :: "('h \<Rightarrow> nat \<Rightarrow> 'h run) \<Rightarrow> nat list \<Rightarrow> 'h \<Rightarrow> 'h run" where
  "add_all enq ys h = for_run ys (\<lambda>y h. enq h y) h"

primrec drain :: "('h \<Rightarrow> 'h run) \<Rightarrow> ('h \<Rightarrow> nat option) \<Rightarrow> nat \<Rightarrow> 'h \<Rightarrow> ('h \<times> nat option list) run" where
  "drain deq head 0 h = ret (h, [])"
| "drain deq head (Suc n) h =
     bind_run (deq h) (\<lambda>h1. bind_run (drain deq head n h1) (\<lambda>(h2, ys). ret (h2, head h # ys)))"

section \<open>The contract\<close>

locale fifo =
  fixes rep :: "'h \<Rightarrow> nat list \<Rightarrow> bool"
    and enq :: "'h \<Rightarrow> nat \<Rightarrow> 'h run"
    and deq :: "'h \<Rightarrow> 'h run"
    and first :: "'h \<Rightarrow> nat option"
  assumes enq_rep: "rep h xs \<Longrightarrow> x \<notin> set xs \<Longrightarrow> \<exists>h'. enq h x = ret h' \<and> rep h' (xs @ [x])"
    and deq_rep: "rep h (x # xs) \<Longrightarrow> \<exists>h'. deq h = ret h' \<and> rep h' xs"
    and first_rep: "rep h xs \<Longrightarrow> first h = (case xs of [] \<Rightarrow> None | x # ys \<Rightarrow> Some x)"
begin

lemma add_all_rep:
  assumes "rep h xs" and "distinct (xs @ ys)"
  shows "\<exists>h'. add_all enq ys h = ret h' \<and> rep h' (xs @ ys)"
  using assms
proof (induction ys arbitrary: h xs)
  case (Cons y ys)
  obtain h1 where h1: "enq h y = ret h1" "rep h1 (xs @ [y])" using enq_rep [OF Cons.prems(1), of y] Cons.prems(2) by auto
  then obtain h' where "add_all enq ys h1 = ret h'" "rep h' ((xs @ [y]) @ ys)"
    using Cons.IH [OF h1(2)] Cons.prems(2) by auto
  then show ?case using h1(1) by (simp add: add_all_def)
qed (simp add: add_all_def)

lemma drain_rep:
  assumes "rep h (xs @ ys)"
  shows "\<exists>h'. drain deq first (length xs) h = ret (h', map Some xs) \<and> rep h' ys"
  using assms
proof (induction xs arbitrary: h)
  case (Cons x xs)
  obtain h1 where h1: "deq h = ret h1" "rep h1 (xs @ ys)" using deq_rep Cons.prems by (metis append_Cons)
  then show ?case using Cons.IH [OF h1(2)] first_rep [OF Cons.prems] by auto
qed simp

text \<open>What goes in comes out, in order, after what was there before.\<close>

lemma add_drain:
  assumes "rep h xs" and "distinct (xs @ ys)"
  shows "\<exists>h1 h2. add_all enq ys h = ret h1 \<and>
    drain deq first (length (xs @ ys)) h1 = ret (h2, map Some (xs @ ys)) \<and> rep h2 []"
proof -
  obtain h1 where "add_all enq ys h = ret h1" "rep h1 ((xs @ ys) @ [])" using add_all_rep [OF assms] by auto
  then show ?thesis using drain_rep [of h1 "xs @ ys" "[]"] by auto
qed

end

end
