(* ===== verification/Ll.thy ===== *)
theory Ll
  imports Fifo
begin

text \<open>
  The doubly linked intrusive list of \<open>src/include/a3/ll.h\<close>. An object of type \<open>TY*\<close> is \<open>NULL\<close>, an
  element of the caller, or the sentinel \<open>&(LIST)->end\<close>; an object of type \<open>TY**\<close> is the address
  of a list's \<open>head\<close> or of the \<open>next\<close> field of an element or sentinel. As \<open>next\<close> is the first
  field of a link, such an address is also the address of the link itself, which
  \<open>A3_LL_IS_FIRST\<close> and \<open>A3_LL_PREV\<close> rely on. The heap keeps the fields of all lists and links.
\<close>

section \<open>Pointers and fields\<close>

datatype ll_ref = LL_null | LL_elem nat | LL_end nat

datatype ll_slot = LL_head nat | LL_next ll_ref

record ll_heap =
  ll_head_of :: "nat \<Rightarrow> ll_ref"             \<comment> \<open>field \<open>head\<close> of a list\<close>
  ll_dummy_of :: "nat \<Rightarrow> ll_slot option"    \<comment> \<open>field \<open>dummy_\<close> of a list\<close>
  ll_next_of :: "ll_ref \<Rightarrow> ll_ref"
  ll_prev_of :: "ll_ref \<Rightarrow> ll_slot option"

definition ll_get_next :: "ll_heap \<Rightarrow> ll_ref \<Rightarrow> ll_ref run" where
  "ll_get_next h r = require (r \<noteq> LL_null) Null_deref (ret (ll_next_of h r))"

definition ll_get_prev :: "ll_heap \<Rightarrow> ll_ref \<Rightarrow> ll_slot option run" where
  "ll_get_prev h r = require (r \<noteq> LL_null) Null_deref (ret (ll_prev_of h r))"

definition ll_set_next :: "ll_heap \<Rightarrow> ll_ref \<Rightarrow> ll_ref \<Rightarrow> ll_heap run" where
  "ll_set_next h r v = require (r \<noteq> LL_null) Null_deref (ret (h\<lparr>ll_next_of := (ll_next_of h)(r := v)\<rparr>))"

definition ll_set_prev :: "ll_heap \<Rightarrow> ll_ref \<Rightarrow> ll_slot option \<Rightarrow> ll_heap run" where
  "ll_set_prev h r v = require (r \<noteq> LL_null) Null_deref (ret (h\<lparr>ll_prev_of := (ll_prev_of h)(r := v)\<rparr>))"

definition ll_set_head :: "ll_heap \<Rightarrow> nat \<Rightarrow> ll_ref \<Rightarrow> ll_heap" where
  "ll_set_head h l v = h\<lparr>ll_head_of := (ll_head_of h)(l := v)\<rparr>"

text \<open>\<open>*p = v\<close> for a \<open>TY** p\<close>.\<close>

definition ll_store :: "ll_heap \<Rightarrow> ll_slot option \<Rightarrow> ll_ref \<Rightarrow> ll_heap run" where
  "ll_store h p v = (case p of
       None \<Rightarrow> fail Null_deref
     | Some (LL_head l) \<Rightarrow> ret (ll_set_head h l v)
     | Some (LL_next r) \<Rightarrow> ll_set_next h r v)"

text \<open>The \<open>prev\<close> field of the link at \<open>p\<close>: of a list's first fields it is \<open>dummy_\<close>.\<close>

definition ll_link_prev :: "ll_heap \<Rightarrow> ll_slot option \<Rightarrow> ll_slot option run" where
  "ll_link_prev h p = (case p of
       None \<Rightarrow> fail Null_deref
     | Some (LL_head l) \<Rightarrow> ret (ll_dummy_of h l)
     | Some (LL_next r) \<Rightarrow> ll_get_prev h r)"

text \<open>\<open>A3_CONTAINER_OF\<close>: the object whose link is at \<open>p\<close>; that of a list is no object.\<close>

definition ll_container :: "ll_slot option \<Rightarrow> ll_ref run" where
  "ll_container p = (case p of
       None \<Rightarrow> fail Null_deref
     | Some (LL_head l) \<Rightarrow> fail Out_of_bounds
     | Some (LL_next r) \<Rightarrow> ret r)"

section \<open>Inspection\<close>

definition ll_init :: "ll_heap \<Rightarrow> nat \<Rightarrow> ll_heap" where
  "ll_init h l = h\<lparr>ll_head_of := (ll_head_of h)(l := LL_null),
     ll_dummy_of := (ll_dummy_of h)(l := None),
     ll_next_of := (ll_next_of h)(LL_end l := LL_null),
     ll_prev_of := (ll_prev_of h)(LL_end l := Some (LL_head l))\<rparr>"

definition ll_is_empty :: "ll_heap \<Rightarrow> nat \<Rightarrow> bool" where
  "ll_is_empty h l \<longleftrightarrow> ll_head_of h l = LL_null \<or> ll_head_of h l = LL_end l"

definition ll_head :: "ll_heap \<Rightarrow> nat \<Rightarrow> ll_ref" where
  "ll_head h l = (if \<not> ll_is_empty h l then ll_head_of h l else LL_null)"

definition ll_last :: "ll_heap \<Rightarrow> nat \<Rightarrow> ll_ref run" where
  "ll_last h l = (if \<not> ll_is_empty h l then ll_container (ll_prev_of h (LL_end l)) else ret LL_null)"

definition ll_is_last :: "ll_heap \<Rightarrow> ll_ref \<Rightarrow> bool run" where
  "ll_is_last h e = bind_run (ll_get_next h e) (\<lambda>n. assert_c (n \<noteq> LL_null)
     (bind_run (ll_get_next h n) (\<lambda>nn. ret (nn = LL_null))))"

definition ll_next :: "ll_heap \<Rightarrow> ll_ref \<Rightarrow> ll_ref run" where
  "ll_next h e = bind_run (ll_get_next h e) (\<lambda>n.
     if n = LL_null then ret LL_null
     else bind_run (ll_is_last h e) (\<lambda>lst. ret (if \<not> lst then n else LL_null)))"

definition ll_is_first :: "ll_heap \<Rightarrow> ll_ref \<Rightarrow> bool run" where
  "ll_is_first h e = bind_run (ll_get_prev h e) (\<lambda>p.
     bind_run (ll_link_prev h p) (\<lambda>q. ret (q = None)))"

definition ll_prev :: "ll_heap \<Rightarrow> ll_ref \<Rightarrow> ll_ref run" where
  "ll_prev h e = bind_run (ll_is_first h e) (\<lambda>f.
     if \<not> f then bind_run (ll_get_prev h e) ll_container else ret LL_null)"

section \<open>Modification\<close>

definition ll_insert_after :: "ll_heap \<Rightarrow> ll_ref \<Rightarrow> ll_ref \<Rightarrow> ll_heap run" where
  "ll_insert_after h e ne = assert_c (e \<noteq> LL_null) (assert_c (ne \<noteq> LL_null)
     (bind_run (ll_get_next h e) (\<lambda>n.
      bind_run (ll_set_next h ne n) (\<lambda>h1.
      bind_run (ll_set_prev h1 ne (Some (LL_next e))) (\<lambda>h2.
      bind_run (ll_get_next h2 e) (\<lambda>n2.
      bind_run (ll_set_prev h2 n2 (Some (LL_next ne))) (\<lambda>h3.
        ll_set_next h3 e ne)))))))"

definition ll_insert_before :: "ll_heap \<Rightarrow> ll_ref \<Rightarrow> ll_ref \<Rightarrow> ll_heap run" where
  "ll_insert_before h e pe = assert_c (e \<noteq> LL_null) (assert_c (pe \<noteq> LL_null)
     (bind_run (ll_set_next h pe e) (\<lambda>h1.
      bind_run (ll_get_prev h1 e) (\<lambda>p.
      bind_run (ll_set_prev h1 pe p) (\<lambda>h2.
      bind_run (ll_get_prev h2 e) (\<lambda>p2.
      bind_run (ll_store h2 p2 pe) (\<lambda>h3.
        ll_set_prev h3 e (Some (LL_next pe)))))))))"

definition ll_remove :: "ll_heap \<Rightarrow> ll_ref \<Rightarrow> ll_heap run" where
  "ll_remove h e = assert_c (e \<noteq> LL_null)
     (bind_run (ll_get_next h e) (\<lambda>n.
      bind_run (ll_get_prev h e) (\<lambda>p.
      bind_run (ll_set_prev h n p) (\<lambda>h1.
      bind_run (ll_get_prev h1 e) (\<lambda>p1.
      bind_run (ll_get_next h1 e) (\<lambda>n1. ll_store h1 p1 n1))))))"

definition ll_push :: "ll_heap \<Rightarrow> nat \<Rightarrow> ll_ref \<Rightarrow> ll_heap run" where
  "ll_push h l e = assert_c (e \<noteq> LL_null)
     (bind_run
       (if \<not> ll_is_empty h l then
          bind_run (ll_set_prev h (ll_head h l) (Some (LL_next e))) (\<lambda>h1.
            ll_set_next h1 e (ll_head h1 l))
        else
          bind_run (ll_set_prev h (LL_end l) (Some (LL_next e))) (\<lambda>h1.
            ll_set_next h1 e (LL_end l)))
       (\<lambda>h2. bind_run (ll_set_prev h2 e (Some (LL_head l))) (\<lambda>h3. ret (ll_set_head h3 l e))))"

definition ll_enqueue :: "ll_heap \<Rightarrow> nat \<Rightarrow> ll_ref \<Rightarrow> ll_heap run" where
  "ll_enqueue h l e = assert_c (e \<noteq> LL_null)
     (bind_run (ll_set_next h e (LL_end l)) (\<lambda>h1.
      bind_run (ll_set_prev h1 e (ll_prev_of h1 (LL_end l))) (\<lambda>h2.
      bind_run (ll_store h2 (ll_prev_of h2 (LL_end l)) e) (\<lambda>h3.
        ll_set_prev h3 (LL_end l) (Some (LL_next e))))))"

definition ll_pop :: "ll_heap \<Rightarrow> nat \<Rightarrow> ll_heap run" where
  "ll_pop h l =
     bind_run (ll_next h (ll_head h l)) (\<lambda>n.
       let h1 = ll_set_head h l n in
       if \<not> ll_is_empty h1 l then ll_set_prev h1 (ll_head h1 l) (Some (LL_head l))
       else ll_set_prev h1 (LL_end l) (Some (LL_head l)))"

text \<open>
  The elements \<open>A3_LL_FOR_EACH\<close> and \<open>A3_LL_FOR_EACH_REV\<close> visit; \<open>step\<close> is \<open>A3_LL_NEXT\<close> or
  \<open>A3_LL_PREV\<close>, and the element after the current one is fetched before its body runs.
\<close>

partial_function (option) ll_visit :: "(ll_ref \<Rightarrow> ll_ref run) \<Rightarrow> ll_ref \<Rightarrow> ll_ref \<Rightarrow> ll_ref list run" where
  "ll_visit step it nxt =
     (if it = LL_null then ret []
      else bind_run (if nxt \<noteq> LL_null then step nxt else ret LL_null) (\<lambda>n.
        bind_run (ll_visit step nxt n) (\<lambda>es. ret (it # es))))"

definition ll_for_each :: "ll_heap \<Rightarrow> nat \<Rightarrow> ll_ref list run" where
  "ll_for_each h l = (let it = ll_head h l in
     bind_run (if it \<noteq> LL_null then ll_next h it else ret LL_null) (ll_visit (ll_next h) it))"

definition ll_for_each_rev :: "ll_heap \<Rightarrow> nat \<Rightarrow> ll_ref list run" where
  "ll_for_each_rev h l = bind_run (ll_last h l) (\<lambda>it.
     bind_run (if it \<noteq> LL_null then ll_prev h it else ret LL_null) (ll_visit (ll_prev h) it))"

end
