(* ===== verification/Ll_Lists.thy ===== *)
theory Ll_Lists
  imports Ll
begin

text \<open>
  When the heap holds a given list of elements, and what each operation of the doubly linked
  list does to that list. Every operation comes down to making one or two links \<open>ll_put\<close>.
\<close>

section \<open>Links\<close>

definition ll_content :: "ll_heap \<Rightarrow> ll_slot \<Rightarrow> ll_ref" where
  "ll_content h s = (case s of LL_head l \<Rightarrow> ll_head_of h l | LL_next r \<Rightarrow> ll_next_of h r)"

definition ll_ok :: "ll_heap \<Rightarrow> (ll_slot \<times> ll_ref) list \<Rightarrow> bool" where
  "ll_ok h ps \<longleftrightarrow> (\<forall>(s, r) \<in> set ps. ll_content h s = r \<and> ll_prev_of h r = Some s)"

text \<open>Make \<open>s\<close> point to \<open>r\<close>, and \<open>r\<close> back to \<open>s\<close>.\<close>

definition ll_put :: "ll_heap \<Rightarrow> ll_slot \<Rightarrow> ll_ref \<Rightarrow> ll_heap" where
  "ll_put h s r = (case s of
       LL_head l \<Rightarrow> h\<lparr>ll_head_of := (ll_head_of h)(l := r), ll_prev_of := (ll_prev_of h)(r := Some s)\<rparr>
     | LL_next q \<Rightarrow> h\<lparr>ll_next_of := (ll_next_of h)(q := r), ll_prev_of := (ll_prev_of h)(r := Some s)\<rparr>)"

lemma ll_put_simps [simp]:
  "ll_prev_of (ll_put h s r) = (ll_prev_of h)(r := Some s)"
  "ll_dummy_of (ll_put h s r) = ll_dummy_of h"
  "ll_next_of (ll_put h (LL_next q) r) = (ll_next_of h)(q := r)"
  "ll_next_of (ll_put h (LL_head l) r) = ll_next_of h"
  "ll_head_of (ll_put h (LL_head l) r) = (ll_head_of h)(l := r)"
  "ll_head_of (ll_put h (LL_next q) r) = ll_head_of h"
  "ll_content (ll_put h s r) t = (if t = s then r else ll_content h t)"
  by (auto simp: ll_put_def ll_content_def split: ll_slot.splits)

lemma ll_ok_simps [simp]:
  "ll_ok h []" "ll_ok h (p # ps) \<longleftrightarrow> ll_content h (fst p) = snd p \<and> ll_prev_of h (snd p) = Some (fst p) \<and> ll_ok h ps"
  "ll_ok h (ps @ qs) \<longleftrightarrow> ll_ok h ps \<and> ll_ok h qs"
  by (auto simp: ll_ok_def split: prod.splits)

lemma ll_ok_put [simp]:
  "s \<notin> fst ` set ps \<Longrightarrow> r \<notin> snd ` set ps \<Longrightarrow> ll_ok (ll_put h s r) ps \<longleftrightarrow> ll_ok h ps"
  by (force simp: ll_ok_def)

text \<open>Nothing has changed but the list \<open>l\<close> itself, its sentinel and the links of the elements \<open>X\<close>.\<close>

definition ll_frame :: "nat \<Rightarrow> nat set \<Rightarrow> ll_heap \<Rightarrow> ll_heap \<Rightarrow> bool" where
  "ll_frame l X h h' \<longleftrightarrow> (\<forall>k. k \<noteq> l \<longrightarrow> ll_head_of h' k = ll_head_of h k \<and> ll_dummy_of h' k = ll_dummy_of h k) \<and>
     (\<forall>r. r \<noteq> LL_end l \<and> r \<notin> LL_elem ` X \<longrightarrow> ll_next_of h' r = ll_next_of h r \<and> ll_prev_of h' r = ll_prev_of h r)"

definition ll_own_ref :: "nat \<Rightarrow> nat set \<Rightarrow> ll_ref \<Rightarrow> bool" where
  "ll_own_ref l X r \<longleftrightarrow> r = LL_end l \<or> r \<in> LL_elem ` X"

definition ll_own_slot :: "nat \<Rightarrow> nat set \<Rightarrow> ll_slot \<Rightarrow> bool" where
  "ll_own_slot l X s \<longleftrightarrow> s = LL_head l \<or> (\<exists>r. s = LL_next r \<and> ll_own_ref l X r)"

lemma ll_frame_refl [simp]: "ll_frame l X h h"
  by (simp add: ll_frame_def)

lemma ll_frame_trans: "ll_frame l X h h1 \<Longrightarrow> ll_frame l X h1 h2 \<Longrightarrow> ll_frame l X h h2"
  by (simp add: ll_frame_def)

lemma ll_frame_put: "ll_own_slot l X s \<Longrightarrow> ll_own_ref l X r \<Longrightarrow> ll_frame l X h (ll_put h s r)"
  by (auto simp: ll_frame_def ll_own_slot_def ll_own_ref_def)

section \<open>The links of a list\<close>

primrec ll_seg :: "ll_slot \<Rightarrow> nat list \<Rightarrow> (ll_slot \<times> ll_ref) list" where
  "ll_seg s [] = []"
| "ll_seg s (x # xs) = (s, LL_elem x) # ll_seg (LL_next (LL_elem x)) xs"

definition ll_slot_after :: "ll_slot \<Rightarrow> nat list \<Rightarrow> ll_slot" where
  "ll_slot_after s xs = (if xs = [] then s else LL_next (LL_elem (last xs)))"

definition ll_first_ref :: "nat \<Rightarrow> nat list \<Rightarrow> ll_ref" where
  "ll_first_ref l xs = (case xs of [] \<Rightarrow> LL_end l | x # ys \<Rightarrow> LL_elem x)"

primrec ll_rest :: "nat \<Rightarrow> nat list \<Rightarrow> (ll_slot \<times> ll_ref) list" where
  "ll_rest l [] = []"
| "ll_rest l (x # xs) = (LL_next (LL_elem x), ll_first_ref l xs) # ll_rest l xs"

text \<open>All links of the list \<open>l\<close> with the elements \<open>xs\<close>, from \<open>head\<close> to the sentinel.\<close>

definition ll_pairs :: "nat \<Rightarrow> nat list \<Rightarrow> (ll_slot \<times> ll_ref) list" where
  "ll_pairs l xs = (LL_head l, ll_first_ref l xs) # ll_rest l xs"

lemma ll_first_ref_simps [simp]: "ll_first_ref l [] = LL_end l" "ll_first_ref l (x # xs) = LL_elem x"
  by (simp_all add: ll_first_ref_def)

lemma ll_slot_after_simps [simp]:
  "ll_slot_after s [] = s" "ll_slot_after s (x # xs) = ll_slot_after (LL_next (LL_elem x)) xs"
  by (simp_all add: ll_slot_after_def)

lemma ll_own_refs [simp]:
  "set xs \<subseteq> X \<Longrightarrow> ll_own_ref l X (ll_first_ref l xs)" "x \<in> X \<Longrightarrow> ll_own_ref l X (LL_elem x)"
  "set xs \<subseteq> X \<Longrightarrow> ll_own_slot l X (ll_slot_after (LL_head l) xs)" "x \<in> X \<Longrightarrow> ll_own_slot l X (LL_next (LL_elem x))"
  by (cases xs rule: rev_cases; cases xs; force simp: ll_own_ref_def ll_own_slot_def ll_first_ref_def ll_slot_after_def)+

lemma ll_rest_split:
  "(s, ll_first_ref l (xs @ ys)) # ll_rest l (xs @ ys) =
    ll_seg s xs @ (ll_slot_after s xs, ll_first_ref l ys) # ll_rest l ys"
  by (induction xs arbitrary: s) simp_all

lemma ll_pairs_split:
  "ll_pairs l (xs @ ys) =
    ll_seg (LL_head l) xs @ (ll_slot_after (LL_head l) xs, ll_first_ref l ys) # ll_rest l ys"
  unfolding ll_pairs_def by (rule ll_rest_split)

lemma ll_pairs_fst: "map fst (ll_pairs l xs) = LL_head l # map (\<lambda>x. LL_next (LL_elem x)) xs"
proof -
  have "map fst (ll_rest l xs) = map (\<lambda>x. LL_next (LL_elem x)) xs" by (induction xs) simp_all
  then show ?thesis by (simp add: ll_pairs_def)
qed

lemma ll_pairs_snd: "map snd (ll_pairs l xs) = map LL_elem xs @ [LL_end l]"
proof -
  have "ll_first_ref l xs # map snd (ll_rest l xs) = map LL_elem xs @ [LL_end l]" by (induction xs) simp_all
  then show ?thesis by (simp add: ll_pairs_def)
qed

lemma ll_pairs_distinct:
  "distinct xs \<Longrightarrow> distinct (map fst (ll_pairs l xs)) \<and> distinct (map snd (ll_pairs l xs))"
  unfolding ll_pairs_fst ll_pairs_snd by (auto simp: distinct_map inj_on_def)

section \<open>The list in the heap\<close>

definition ll_list :: "ll_heap \<Rightarrow> nat \<Rightarrow> nat list \<Rightarrow> bool" where
  "ll_list h l xs \<longleftrightarrow> distinct xs \<and> ll_next_of h (LL_end l) = LL_null \<and> ll_dummy_of h l = None \<and>
     (ll_ok h (ll_pairs l xs) \<or>
      xs = [] \<and> ll_head_of h l = LL_null \<and> ll_prev_of h (LL_end l) = Some (LL_head l))"

lemma ll_listD:
  assumes "ll_list h l xs"
  shows "distinct xs" "ll_next_of h (LL_end l) = LL_null" "ll_dummy_of h l = None"
    "ll_prev_of h (LL_end l) = Some (ll_slot_after (LL_head l) xs)"
    "xs \<noteq> [] \<Longrightarrow> ll_ok h (ll_pairs l xs)"
    "ll_is_empty h l \<longleftrightarrow> xs = []" "xs \<noteq> [] \<Longrightarrow> ll_head_of h l = ll_first_ref l xs"
proof -
  show "distinct xs" "ll_next_of h (LL_end l) = LL_null" "ll_dummy_of h l = None"
    and ok: "xs \<noteq> [] \<Longrightarrow> ll_ok h (ll_pairs l xs)" using assms by (auto simp: ll_list_def)
  show "ll_prev_of h (LL_end l) = Some (ll_slot_after (LL_head l) xs)"
    using assms ll_pairs_split [of l xs "[]"] by (auto simp: ll_list_def)
  show "xs \<noteq> [] \<Longrightarrow> ll_head_of h l = ll_first_ref l xs"
    using ok by (auto simp: ll_pairs_def ll_content_def)
  then show "ll_is_empty h l \<longleftrightarrow> xs = []"
    using assms by (cases xs) (auto simp: ll_is_empty_def ll_list_def ll_pairs_def ll_content_def)
qed

text \<open>The link after the elements \<open>as\<close>, when it is there: its slot, its target, and what is around.\<close>

lemma ll_list_at:
  assumes "ll_list h l (as @ bs)"
  shows "ll_ok h (ll_seg (LL_head l) as)" "ll_ok h (ll_rest l bs)"
    "ll_prev_of h (ll_first_ref l bs) = Some (ll_slot_after (LL_head l) as)"
    "as @ bs \<noteq> [] \<Longrightarrow> ll_content h (ll_slot_after (LL_head l) as) = ll_first_ref l bs"
proof -
  have "ll_ok h (ll_pairs l (as @ bs)) \<or> as = [] \<and> bs = []" using assms by (auto simp: ll_list_def)
  then show "ll_ok h (ll_seg (LL_head l) as)" "ll_ok h (ll_rest l bs)"
    "as @ bs \<noteq> [] \<Longrightarrow> ll_content h (ll_slot_after (LL_head l) as) = ll_first_ref l bs"
    unfolding ll_pairs_split by auto
  show "ll_prev_of h (ll_first_ref l bs) = Some (ll_slot_after (LL_head l) as)"
  proof (cases "as = [] \<and> bs = []")
    case True
    then show ?thesis using ll_listD(4) [OF assms] by simp
  next
    case False
    then show ?thesis using ll_listD(5) [OF assms] unfolding ll_pairs_split by auto
  qed
qed

text \<open>Making the two links of a new element, and the one that skips an element.\<close>

lemma ll_list_insert:
  fixes as bs :: "nat list" and l x :: nat
  assumes h: "ll_list h l (as @ bs)" and x: "x \<notin> set (as @ bs)"
  defines "s \<equiv> ll_slot_after (LL_head l) as"
  shows "ll_list (ll_put (ll_put h (LL_next (LL_elem x)) (ll_first_ref l bs)) s (LL_elem x)) l (as @ x # bs)"
    "ll_frame l (insert x (set (as @ bs))) h (ll_put (ll_put h (LL_next (LL_elem x)) (ll_first_ref l bs)) s (LL_elem x))"
proof -
  show "ll_frame l (insert x (set (as @ bs))) h (ll_put (ll_put h (LL_next (LL_elem x)) (ll_first_ref l bs)) s (LL_elem x))"
    unfolding s_def by (rule ll_frame_trans; rule ll_frame_put; rule ll_own_refs) auto
  let ?h = "ll_put (ll_put h (LL_next (LL_elem x)) (ll_first_ref l bs)) s (LL_elem x)"
  note a = ll_list_at [OF h]
  have d: "distinct (as @ x # bs)" using ll_listD(1) [OF h] x by auto
  have P: "ll_pairs l (as @ x # bs) = ll_seg (LL_head l) as @
      (s, LL_elem x) # (LL_next (LL_elem x), ll_first_ref l bs) # ll_rest l bs"
    by (simp add: ll_pairs_split s_def)
  have D: "distinct (map fst (ll_pairs l (as @ x # bs)))" "distinct (map snd (ll_pairs l (as @ x # bs)))"
    using ll_pairs_distinct [OF d] by simp_all
  have "ll_ok ?h (ll_pairs l (as @ x # bs))"
    using D a(1,2) unfolding P by (auto simp: image_iff)
  moreover have "s \<noteq> LL_next (LL_end l)" by (auto simp: s_def ll_slot_after_def)
  then have "ll_next_of ?h (LL_end l) = LL_null" "ll_dummy_of ?h l = None"
    using ll_listD(2,3) [OF h] by (cases s; auto)+
  ultimately show "ll_list ?h l (as @ x # bs)" using d by (simp add: ll_list_def)
qed

lemma ll_list_delete:
  fixes as bs :: "nat list" and l x :: nat
  assumes h: "ll_list h l (as @ x # bs)"
  defines "s \<equiv> ll_slot_after (LL_head l) as"
  shows "ll_list (ll_put h s (ll_first_ref l bs)) l (as @ bs)" "ll_frame l (set (as @ x # bs)) h (ll_put h s (ll_first_ref l bs))"
proof -
  show "ll_frame l (set (as @ x # bs)) h (ll_put h s (ll_first_ref l bs))"
    unfolding s_def by (rule ll_frame_put; rule ll_own_refs) auto
  let ?h = "ll_put h s (ll_first_ref l bs)"
  have d: "distinct (as @ bs)" using ll_listD(1) [OF h] by auto
  have P: "ll_pairs l (as @ bs) = ll_seg (LL_head l) as @ (s, ll_first_ref l bs) # ll_rest l bs"
    by (simp add: ll_pairs_split s_def)
  have D: "distinct (map fst (ll_pairs l (as @ bs)))" "distinct (map snd (ll_pairs l (as @ bs)))"
    using ll_pairs_distinct [OF d] by simp_all
  have "ll_ok h (ll_pairs l (as @ x # bs))" using ll_listD(5) [OF h] by simp
  then have "ll_ok h (ll_seg (LL_head l) as)" "ll_ok h (ll_rest l bs)" unfolding ll_pairs_split by auto
  then have "ll_ok ?h (ll_pairs l (as @ bs))" using D unfolding P by (auto simp: image_iff)
  moreover have "s \<noteq> LL_next (LL_end l)" by (auto simp: s_def ll_slot_after_def)
  then have "ll_next_of ?h (LL_end l) = LL_null" "ll_dummy_of ?h l = None"
    using ll_listD(2,3) [OF h] by (cases s; auto)+
  ultimately show "ll_list ?h l (as @ bs)" using d by (simp add: ll_list_def)
qed

end
