(* ===== verification/Ll_Ops.thy ===== *)
theory Ll_Ops
  imports Ll_Lists
begin

text \<open>
  Each operation of the doubly linked list does to the list in the heap what its name says; the
  list is a FIFO in the sense of \<open>Fifo\<close>.
\<close>

lemmas ll_access_defs = ll_get_next_def ll_get_prev_def ll_set_next_def ll_set_prev_def ll_set_head_def ll_store_def

lemma ll_first_ref_neq [simp]: "ll_first_ref l xs \<noteq> LL_null" "LL_null \<noteq> ll_first_ref l xs"
  by (cases xs; simp)+

lemma ll_slot_after_cases:
  obtains "xs = []" "ll_slot_after (LL_head l) xs = LL_head l"
    | "xs \<noteq> []" "ll_slot_after (LL_head l) xs = LL_next (LL_elem (last xs))"
  by (cases "xs = []") (auto simp: ll_slot_after_def)

lemma drop_frame: "\<exists>h'. c = ret h' \<and> P h' \<and> Q h' \<Longrightarrow> \<exists>h'. c = ret h' \<and> P h'"
  by blast

section \<open>Insertion\<close>

lemma init_list: "ll_list (ll_init h l) l []"
  by (simp add: ll_list_def ll_init_def)

lemma push_step:
  assumes h: "ll_list h l xs" and x: "x \<notin> set xs"
  shows "\<exists>h'. ll_push h l (LL_elem x) = ret h' \<and> ll_list h' l (x # xs) \<and> ll_frame l (insert x (set xs)) h h'"
proof -
  have "ll_push h l (LL_elem x) = ret (ll_put (ll_put h (LL_next (LL_elem x)) (ll_first_ref l xs)) (LL_head l) (LL_elem x))"
    using ll_listD(6,7) [OF h]
    by (cases xs) (simp_all add: ll_push_def ll_access_defs ll_put_def ll_head_def ll_is_empty_def)
  then show ?thesis using ll_list_insert [of h l "[]" xs x] h x by simp
qed

lemmas push_list = push_step [THEN drop_frame]

lemma enqueue_step:
  assumes h: "ll_list h l xs" and x: "x \<notin> set xs"
  shows "\<exists>h'. ll_enqueue h l (LL_elem x) = ret h' \<and> ll_list h' l (xs @ [x]) \<and> ll_frame l (insert x (set xs)) h h'"
proof -
  let ?s = "ll_slot_after (LL_head l) xs"
  have "ll_enqueue h l (LL_elem x) = ret (ll_put (ll_put h (LL_next (LL_elem x)) (LL_end l)) ?s (LL_elem x))"
    using ll_listD(4) [OF h] x
    by (cases rule: ll_slot_after_cases [of xs l])
      (auto simp: ll_enqueue_def ll_access_defs ll_put_def fun_upd_twist)
  then show ?thesis using ll_list_insert [of h l xs "[]" x] h x by simp
qed

lemmas enqueue_list = enqueue_step [THEN drop_frame]

lemma insert_after_step:
  assumes h: "ll_list h l (as @ e # bs)" and x: "x \<notin> set (as @ e # bs)"
  shows "\<exists>h'. ll_insert_after h (LL_elem e) (LL_elem x) = ret h' \<and> ll_list h' l (as @ e # x # bs) \<and> ll_frame l (insert x (set (as @ e # bs))) h h'"
proof -
  have h': "ll_list h l ((as @ [e]) @ bs)" using h by simp
  have s: "ll_slot_after (LL_head l) (as @ [e]) = LL_next (LL_elem e)" by (simp add: ll_slot_after_def)
  note a = ll_list_at [OF h']
  have n: "ll_next_of h (LL_elem e) = ll_first_ref l bs" using a(4) s by (simp add: ll_content_def)
  have "ll_insert_after h (LL_elem e) (LL_elem x) =
      ret (ll_put (ll_put h (LL_next (LL_elem x)) (ll_first_ref l bs)) (LL_next (LL_elem e)) (LL_elem x))"
    using n x by (cases bs) (auto simp: ll_insert_after_def ll_access_defs ll_put_def fun_upd_twist)
  then show ?thesis using ll_list_insert [OF h', of x] x s by simp
qed

lemmas insert_after_list = insert_after_step [THEN drop_frame]

lemma insert_before_step:
  assumes h: "ll_list h l (as @ e # bs)" and x: "x \<notin> set (as @ e # bs)"
  shows "\<exists>h'. ll_insert_before h (LL_elem e) (LL_elem x) = ret h' \<and> ll_list h' l (as @ x # e # bs) \<and> ll_frame l (insert x (set (as @ e # bs))) h h'"
proof -
  let ?s = "ll_slot_after (LL_head l) as"
  have p: "ll_prev_of h (LL_elem e) = Some ?s" using ll_list_at(3) [OF h] by simp
  have d: "e \<notin> set as" using ll_listD(1) [OF h] by simp
  have "ll_insert_before h (LL_elem e) (LL_elem x) =
      ret (ll_put (ll_put h (LL_next (LL_elem x)) (LL_elem e)) ?s (LL_elem x))"
    using p x d
    by (cases rule: ll_slot_after_cases [of as l])
      (auto simp: ll_insert_before_def ll_access_defs ll_put_def fun_upd_twist)
  then show ?thesis using ll_list_insert [OF h, of x] x by simp
qed

lemmas insert_before_list = insert_before_step [THEN drop_frame]

section \<open>Removal\<close>

lemma next_at:
  assumes h: "ll_list h l (as @ e # bs)"
  shows "ll_get_next h (LL_elem e) = ret (ll_first_ref l bs)"
    and "ll_next h (LL_elem e) = ret (if bs = [] then LL_null else LL_elem (hd bs))"
proof -
  have h': "ll_list h l ((as @ [e]) @ bs)" using h by simp
  have n: "ll_next_of h (LL_elem e) = ll_first_ref l bs"
    using ll_list_at(4) [OF h'] by (simp add: ll_slot_after_def ll_content_def)
  then show "ll_get_next h (LL_elem e) = ret (ll_first_ref l bs)" by (simp add: ll_get_next_def)
  show "ll_next h (LL_elem e) = ret (if bs = [] then LL_null else LL_elem (hd bs))"
  proof (cases bs)
    case Nil
    then show ?thesis using n ll_listD(2) [OF h] by (simp add: ll_next_def ll_is_last_def ll_get_next_def)
  next
    case (Cons b cs)
    have "ll_list h l ((as @ [e, b]) @ cs)" using h Cons by simp
    from ll_list_at(4) [OF this] have "ll_next_of h (LL_elem b) = ll_first_ref l cs"
      by (simp add: ll_slot_after_def ll_content_def)
    then show ?thesis using n Cons by (simp add: ll_next_def ll_is_last_def ll_get_next_def)
  qed
qed

lemma remove_step:
  assumes h: "ll_list h l (as @ e # bs)"
  shows "\<exists>h'. ll_remove h (LL_elem e) = ret h' \<and> ll_list h' l (as @ bs) \<and> ll_frame l (set (as @ e # bs)) h h'"
proof -
  let ?s = "ll_slot_after (LL_head l) as"
  have p: "ll_prev_of h (LL_elem e) = Some ?s" using ll_list_at(3) [OF h] by simp
  have n: "ll_next_of h (LL_elem e) = ll_first_ref l bs" using next_at(1) [OF h] by (simp add: ll_get_next_def)
  have ne: "ll_first_ref l bs \<noteq> LL_elem e" using ll_listD(1) [OF h] by (cases bs) auto
  have "ll_remove h (LL_elem e) = ret (ll_put h ?s (ll_first_ref l bs))"
    using p n ne
    by (cases rule: ll_slot_after_cases [of as l]) (auto simp: ll_remove_def ll_access_defs ll_put_def)
  then show ?thesis using ll_list_delete [OF h] by simp
qed

lemmas remove_list = remove_step [THEN drop_frame]

lemma pop_step:
  assumes h: "ll_list h l (x # xs)"
  shows "\<exists>h'. ll_pop h l = ret h' \<and> ll_list h' l xs \<and> ll_frame l (set (x # xs)) h h'"
proof -
  have head: "ll_head h l = LL_elem x" using ll_listD(6,7) [OF h] by (simp add: ll_head_def)
  have nx: "ll_next h (LL_elem x) = ret (if xs = [] then LL_null else LL_elem (hd xs))"
    using next_at(2) [of h l "[]" x xs] h by simp
  show ?thesis
  proof (cases xs)
    case Nil
    have "ll_pop h l = ret (h\<lparr>ll_head_of := (ll_head_of h)(l := LL_null),
        ll_prev_of := (ll_prev_of h)(LL_end l := Some (LL_head l))\<rparr>)"
      using nx head Nil by (simp add: ll_pop_def ll_set_head_def ll_is_empty_def ll_set_prev_def Let_def)
    then show ?thesis using ll_listD(2,3) [OF h] Nil by (simp add: ll_list_def ll_frame_def)
  next
    case (Cons y ys)
    have "ll_pop h l = ret (ll_put h (LL_head l) (LL_elem y))"
      using nx head Cons
      by (simp add: ll_pop_def ll_set_head_def ll_is_empty_def ll_set_prev_def Let_def ll_head_def ll_put_def)
    then show ?thesis using ll_list_delete [of h l "[]" x xs] h Cons by simp
  qed
qed

lemmas pop_list = pop_step [THEN drop_frame]

section \<open>Traversal\<close>

lemma visit_forward:
  assumes "ll_list h l (as @ e # bs)"
  shows "ll_visit (ll_next h) (LL_elem e) (if bs = [] then LL_null else LL_elem (hd bs))
    = ret (map LL_elem (e # bs))"
  using assms
proof (induction bs arbitrary: as e)
  case Nil
  show ?case by (subst ll_visit.simps) (simp, subst ll_visit.simps, simp)
next
  case (Cons b bs)
  have h': "ll_list h l ((as @ [e]) @ b # bs)" using Cons.prems by simp
  show ?case using Cons.IH [OF h'] next_at(2) [OF h'] by (subst ll_visit.simps) simp
qed

lemma for_each_list:
  assumes h: "ll_list h l xs"
  shows "ll_for_each h l = ret (map LL_elem xs)"
proof (cases xs)
  case Nil
  then have "ll_head h l = LL_null" using ll_listD(6) [OF h] by (simp add: ll_head_def)
  then show ?thesis using Nil by (simp add: ll_for_each_def) (subst ll_visit.simps, simp)
next
  case (Cons x ys)
  then have "ll_head h l = LL_elem x" using ll_listD(6,7) [OF h] by (simp add: ll_head_def)
  then show ?thesis
    using visit_forward [of h l "[]" x ys] next_at(2) [of h l "[]" x ys] h Cons by (simp add: ll_for_each_def)
qed

lemma prev_at:
  assumes h: "ll_list h l (as @ e # bs)"
  shows "ll_prev h (LL_elem e) = ret (if as = [] then LL_null else LL_elem (last as))"
proof (cases as rule: rev_cases)
  case Nil
  then have "ll_prev_of h (LL_elem e) = Some (LL_head l)" using ll_list_at(3) [OF h] by simp
  then show ?thesis using Nil ll_listD(3) [OF h]
    by (simp add: ll_prev_def ll_is_first_def ll_get_prev_def ll_link_prev_def)
next
  case (snoc cs c)
  have p: "ll_prev_of h (LL_elem e) = Some (LL_next (LL_elem c))"
    using ll_list_at(3) [OF h] snoc by (simp add: ll_slot_after_def)
  have "ll_list h l (cs @ c # e # bs)" using h snoc by simp
  then have "ll_prev_of h (LL_elem c) \<noteq> None" using ll_list_at(3) by fastforce
  then show ?thesis using p snoc
    by (simp add: ll_prev_def ll_is_first_def ll_get_prev_def ll_link_prev_def ll_container_def)
qed

lemma visit_backward:
  assumes "ll_list h l (as @ e # bs)"
  shows "ll_visit (ll_prev h) (LL_elem e) (if as = [] then LL_null else LL_elem (last as))
    = ret (map LL_elem (e # rev as))"
  using assms
proof (induction as arbitrary: e bs rule: rev_induct)
  case Nil
  show ?case by (subst ll_visit.simps) (simp, subst ll_visit.simps, simp)
next
  case (snoc a as)
  have "ll_list h l (as @ a # (e # bs))" using snoc.prems by simp
  then show ?case using snoc.IH prev_at by (subst ll_visit.simps) simp
qed

lemma for_each_rev_list:
  assumes h: "ll_list h l xs"
  shows "ll_for_each_rev h l = ret (map LL_elem (rev xs))"
proof (cases xs rule: rev_cases)
  case Nil
  then have "ll_last h l = ret LL_null" using ll_listD(6) [OF h] by (simp add: ll_last_def)
  then show ?thesis using Nil by (simp add: ll_for_each_rev_def) (subst ll_visit.simps, simp)
next
  case (snoc ys x)
  then have "ll_last h l = ret (LL_elem x)"
    using ll_listD(4,6) [OF h] by (simp add: ll_last_def ll_container_def ll_slot_after_def)
  then show ?thesis
    using visit_backward [of h l ys x "[]"] prev_at [of h l ys x "[]"] h snoc by (simp add: ll_for_each_rev_def)
qed

section \<open>A FIFO\<close>

definition ll_first :: "nat \<Rightarrow> ll_heap \<Rightarrow> nat option" where
  "ll_first l h = (case ll_head h l of LL_elem x \<Rightarrow> Some x | _ \<Rightarrow> None)"

interpretation ll_fifo: fifo "\<lambda>h xs. ll_list h l xs" "\<lambda>h x. ll_enqueue h l (LL_elem x)"
    "\<lambda>h. ll_pop h l" "ll_first l" for l
proof unfold_locales
  fix h :: ll_heap and xs x
  assume h: "ll_list h l xs"
  show "\<exists>h'. ll_enqueue h l (LL_elem x) = ret h' \<and> ll_list h' l (xs @ [x])" if "x \<notin> set xs"
    using enqueue_list [OF h that] .
  show "ll_first l h = (case xs of [] \<Rightarrow> None | x # ys \<Rightarrow> Some x)"
    using ll_listD(6,7) [OF h] by (cases xs) (simp_all add: ll_first_def ll_head_def)
next
  fix h :: ll_heap and x xs
  assume "ll_list h l (x # xs)"
  then show "\<exists>h'. ll_pop h l = ret h' \<and> ll_list h' l xs" by (rule pop_list)
qed

end
