(* ===== verification/Sll.thy ===== *)
theory Sll
  imports Fifo
begin

text \<open>
  The singly linked intrusive list of \<open>src/include/a3/sll.h\<close>: the structures and operations. Elements are numbers; \<open>end\<close> of a
  list is the address of its \<open>head\<close> or of some element's \<open>next\<close> field.
\<close>

section \<open>Fields and operations\<close>

datatype sll_slot = SLL_head nat | SLL_next nat

record sll_heap =
  sll_head_of :: "nat \<Rightarrow> nat option"
  sll_end_of :: "nat \<Rightarrow> sll_slot"
  sll_next_of :: "nat \<Rightarrow> nat option"

definition sll_load :: "sll_heap \<Rightarrow> sll_slot \<Rightarrow> nat option" where
  "sll_load h s = (case s of SLL_head l \<Rightarrow> sll_head_of h l | SLL_next x \<Rightarrow> sll_next_of h x)"

definition sll_store :: "sll_heap \<Rightarrow> sll_slot \<Rightarrow> nat option \<Rightarrow> sll_heap" where
  "sll_store h s v = (case s of
       SLL_head l \<Rightarrow> h\<lparr>sll_head_of := (sll_head_of h)(l := v)\<rparr>
     | SLL_next x \<Rightarrow> h\<lparr>sll_next_of := (sll_next_of h)(x := v)\<rparr>)"

definition sll_set_end :: "sll_heap \<Rightarrow> nat \<Rightarrow> sll_slot \<Rightarrow> sll_heap" where
  "sll_set_end h l s = h\<lparr>sll_end_of := (sll_end_of h)(l := s)\<rparr>"

definition sll_next :: "sll_heap \<Rightarrow> nat option \<Rightarrow> nat option run" where
  "sll_next h e = (case e of None \<Rightarrow> fail Null_deref | Some x \<Rightarrow> ret (sll_next_of h x))"

definition sll_init :: "sll_heap \<Rightarrow> nat \<Rightarrow> sll_heap" where
  "sll_init h l = sll_set_end (sll_store h (SLL_head l) None) l (SLL_head l)"

definition sll_is_empty :: "sll_heap \<Rightarrow> nat \<Rightarrow> bool" where
  "sll_is_empty h l \<longleftrightarrow> sll_head_of h l = None"

text \<open>\<open>A3_SLL_END\<close>; \<open>A3_CONTAINER_OF\<close> of the list's own head would be no element.\<close>

definition sll_last :: "sll_heap \<Rightarrow> nat \<Rightarrow> nat option run" where
  "sll_last h l = (if \<not> sll_is_empty h l
     then (case sll_end_of h l of SLL_head k \<Rightarrow> fail Out_of_bounds | SLL_next x \<Rightarrow> ret (Some x))
     else ret None)"

definition sll_insert_after :: "sll_heap \<Rightarrow> nat \<Rightarrow> nat \<Rightarrow> sll_heap" where
  "sll_insert_after h e ne =
     (let h1 = sll_store h (SLL_next ne) (sll_next_of h e) in sll_store h1 (SLL_next e) (Some ne))"

definition sll_pop :: "sll_heap \<Rightarrow> nat \<Rightarrow> sll_heap run" where
  "sll_pop h l = assert_c (sll_head_of h l \<noteq> None)
     (bind_run (sll_next h (sll_head_of h l)) (\<lambda>n.
        let h1 = sll_store h (SLL_head l) n in
        ret (if sll_head_of h1 l = None then sll_set_end h1 l (SLL_head l) else h1)))"

text \<open>The search loop of \<open>A3_SLL_REMOVE\<close>: the element before \<open>e\<close>, if any.\<close>

partial_function (option) sll_before :: "sll_heap \<Rightarrow> nat \<Rightarrow> nat option \<Rightarrow> nat option run" where
  "sll_before h e it =
     (case it of
        None \<Rightarrow> ret None
      | Some x \<Rightarrow> if sll_next_of h x \<noteq> Some e then sll_before h e (sll_next_of h x) else ret it)"

definition sll_remove :: "sll_heap \<Rightarrow> nat \<Rightarrow> nat \<Rightarrow> sll_heap run" where
  "sll_remove h l e =
     (if Some e = sll_head_of h l then sll_pop h l
      else bind_run (sll_before h e (sll_head_of h l)) (\<lambda>it. case it of
           None \<Rightarrow> fail Assert_failed
         | Some x \<Rightarrow> bind_run (sll_next h (sll_next_of h x)) (\<lambda>n.
             let h1 = sll_store h (SLL_next x) n in
             ret (if sll_next_of h1 x = None then sll_set_end h1 l (SLL_next x) else h1))))"

definition sll_push :: "sll_heap \<Rightarrow> nat \<Rightarrow> nat \<Rightarrow> sll_heap" where
  "sll_push h l e =
     (let h1 = sll_store h (SLL_next e) (sll_head_of h l);
          h2 = (if sll_next_of h1 e = None then sll_set_end h1 l (SLL_next e) else h1)
      in sll_store h2 (SLL_head l) (Some e))"

partial_function (option) sll_fixup :: "sll_heap \<Rightarrow> nat \<Rightarrow> sll_heap run" where
  "sll_fixup h l =
     (case sll_load h (sll_end_of h l) of
        None \<Rightarrow> ret h
      | Some x \<Rightarrow> sll_fixup (sll_set_end h l (SLL_next x)) l)"

definition sll_enqueue :: "sll_heap \<Rightarrow> nat \<Rightarrow> nat \<Rightarrow> sll_heap run" where
  "sll_enqueue h l e =
     bind_run (sll_fixup h l) (\<lambda>h1.
       let h2 = sll_store h1 (SLL_next e) None;
           h3 = sll_store h2 (sll_end_of h2 l) (Some e)
       in ret (sll_set_end h3 l (SLL_next e)))"

text \<open>The elements \<open>A3_SLL_FOR_EACH\<close> visits, from \<open>it\<close> on, \<open>nxt\<close> being \<open>ITEM##_next\<close>.\<close>

partial_function (option) sll_visit :: "sll_heap \<Rightarrow> nat option \<Rightarrow> nat option \<Rightarrow> nat list run" where
  "sll_visit h it nxt =
     (case it of
        None \<Rightarrow> ret []
      | Some x \<Rightarrow> bind_run (sll_visit h nxt (case nxt of None \<Rightarrow> None | Some y \<Rightarrow> sll_next_of h y))
          (\<lambda>ys. ret (x # ys)))"

definition sll_for_each :: "sll_heap \<Rightarrow> nat \<Rightarrow> nat list run" where
  "sll_for_each h l = sll_visit h (sll_head_of h l)
     (case sll_head_of h l of None \<Rightarrow> None | Some x \<Rightarrow> sll_next_of h x)"

end
