(* ===== verification/List_Spec.thy ===== *)
theory List_Spec
  imports Operations
begin

text \<open>
  Lists of elements side by side, which is what the intrusive lists of the library are meant to be: what is before and after an
  element, how one is put in, and which list has it.
\<close>

section \<open>One list\<close>

fun before_of :: "nat \<Rightarrow> nat list \<Rightarrow> nat option" where
  "before_of e (x # y # xs) = (if y = e then Some x else before_of e (y # xs))"
| "before_of e xs = None"

fun after_of :: "nat \<Rightarrow> nat list \<Rightarrow> nat option" where
  "after_of e (x # y # xs) = (if x = e then Some y else after_of e (y # xs))"
| "after_of e xs = None"

definition hd_opt :: "nat list \<Rightarrow> nat option" where
  "hd_opt xs = (case xs of [] \<Rightarrow> None | x # ys \<Rightarrow> Some x)"

fun put_after :: "nat \<Rightarrow> nat \<Rightarrow> nat list \<Rightarrow> nat list" where
  "put_after e x [] = []"
| "put_after e x (y # ys) = (if y = e then y # x # ys else y # put_after e x ys)"

fun put_before :: "nat \<Rightarrow> nat \<Rightarrow> nat list \<Rightarrow> nat list" where
  "put_before e x [] = []"
| "put_before e x (y # ys) = (if y = e then x # y # ys else y # put_before e x ys)"

section \<open>Several lists\<close>

text \<open>The list that has an element, among the lists \<open>ls\<close>.\<close>

fun owner :: "nat list \<Rightarrow> (nat \<Rightarrow> nat list) \<Rightarrow> nat \<Rightarrow> nat" where
  "owner [] \<sigma> e = 0"
| "owner (l # ls) \<sigma> e = (if e \<in> set (\<sigma> l) then l else owner ls \<sigma> e)"

definition linked :: "nat list \<Rightarrow> (nat \<Rightarrow> nat list) \<Rightarrow> nat \<Rightarrow> bool" where
  "linked ls \<sigma> e \<longleftrightarrow> list_ex (\<lambda>l. e \<in> set (\<sigma> l)) ls"

section \<open>Lemmas\<close>

lemma owner_has: "linked ls \<sigma> e \<Longrightarrow> owner ls \<sigma> e \<in> set ls \<and> e \<in> set (\<sigma> (owner ls \<sigma> e))"
  by (induction ls) (auto simp: linked_def)

lemma around_simps [simp]:
  assumes "e \<notin> set as"
  shows "put_after e x (as @ e # bs) = as @ e # x # bs" "put_before e x (as @ e # bs) = as @ x # e # bs"
    "remove1 e (as @ e # bs) = as @ bs" "after_of e (as @ e # bs) = hd_opt bs"
  using assms
proof (induction as)
  case Nil
  case 4
  then show ?case by (cases bs) (simp_all add: hd_opt_def)
next
  case (Cons a as)
  case 4
  then show ?case using Cons by (cases as) auto
qed simp_all

lemma hd_opt_append: "hd_opt (xs @ ys) = (if xs = [] then hd_opt ys else hd_opt xs)"
  by (cases xs) (simp_all add: hd_opt_def)

lemma before_of_out: "e \<notin> set (tl xs) \<Longrightarrow> before_of e xs = None"
  by (induction e xs rule: before_of.induct) auto

lemma before_of_at: "distinct (as @ e # bs) \<Longrightarrow> before_of e (as @ e # bs) = hd_opt (rev as)"
proof (induction as)
  case Nil
  then show ?case by (simp add: hd_opt_def before_of_out)
next
  case (Cons a as)
  then show ?case by (cases as) (auto simp: hd_opt_append, simp_all add: hd_opt_def)
qed

end
