(* ===== verification/Sll_Ops.thy ===== *)
theory Sll_Ops
  imports Sll List_Spec
begin

text \<open>
  When the heap holds a given singly linked list, and what each operation does to that list.
\<close>

section \<open>The links of a list\<close>

primrec sll_seg :: "sll_slot \<Rightarrow> nat list \<Rightarrow> (sll_slot \<times> nat option) list" where
  "sll_seg s [] = []"
| "sll_seg s (x # xs) = (s, Some x) # sll_seg (SLL_next x) xs"

definition sll_slot_after :: "sll_slot \<Rightarrow> nat list \<Rightarrow> sll_slot" where
  "sll_slot_after s xs = (if xs = [] then s else SLL_next (last xs))"

definition sll_first_of :: "nat list \<Rightarrow> nat option" where
  "sll_first_of xs = (case xs of [] \<Rightarrow> None | x # ys \<Rightarrow> Some x)"

primrec sll_rest :: "nat list \<Rightarrow> (sll_slot \<times> nat option) list" where
  "sll_rest [] = []"
| "sll_rest (x # xs) = (SLL_next x, sll_first_of xs) # sll_rest xs"

definition sll_pairs :: "nat \<Rightarrow> nat list \<Rightarrow> (sll_slot \<times> nat option) list" where
  "sll_pairs l xs = (SLL_head l, sll_first_of xs) # sll_rest xs"

definition sll_ok :: "sll_heap \<Rightarrow> (sll_slot \<times> nat option) list \<Rightarrow> bool" where
  "sll_ok h ps \<longleftrightarrow> (\<forall>(s, r) \<in> set ps. sll_load h s = r)"

lemma sll_first_of_simps [simp]: "sll_first_of [] = None" "sll_first_of (x # xs) = Some x"
  by (simp_all add: sll_first_of_def)

lemma sll_slot_after_simps [simp]:
  "sll_slot_after s [] = s" "sll_slot_after s (x # xs) = sll_slot_after (SLL_next x) xs"
  "sll_slot_after s (xs @ [x]) = SLL_next x"
  by (simp_all add: sll_slot_after_def)

lemma sll_ok_simps [simp]:
  "sll_ok h []" "sll_ok h (p # ps) \<longleftrightarrow> sll_load h (fst p) = snd p \<and> sll_ok h ps"
  "sll_ok h (ps @ qs) \<longleftrightarrow> sll_ok h ps \<and> sll_ok h qs"
  by (auto simp: sll_ok_def split: prod.splits)

lemma sll_store_simps [simp]:
  "sll_head_of (sll_store h (SLL_head l) v) = (sll_head_of h)(l := v)"
  "sll_head_of (sll_store h (SLL_next x) v) = sll_head_of h"
  "sll_next_of (sll_store h (SLL_next x) v) = (sll_next_of h)(x := v)"
  "sll_next_of (sll_store h (SLL_head l) v) = sll_next_of h"
  "sll_end_of (sll_store h s v) = sll_end_of h"
  "sll_head_of (sll_set_end h l s) = sll_head_of h"
  "sll_next_of (sll_set_end h l s) = sll_next_of h"
  "sll_end_of (sll_set_end h l s) = (sll_end_of h)(l := s)"
  "sll_load (sll_store h s v) t = (if t = s then v else sll_load h t)"
  "sll_load (sll_set_end h l s) t = sll_load h t"
  by (auto simp: sll_store_def sll_set_end_def sll_load_def split: sll_slot.splits)

lemma sll_ok_store [simp]:
  "s \<notin> fst ` set ps \<Longrightarrow> sll_ok (sll_store h s v) ps \<longleftrightarrow> sll_ok h ps"
  "sll_ok (sll_set_end h l t) ps \<longleftrightarrow> sll_ok h ps"
  by (force simp: sll_ok_def)+

lemma sll_rest_split:
  "(s, sll_first_of (xs @ ys)) # sll_rest (xs @ ys) =
    sll_seg s xs @ (sll_slot_after s xs, sll_first_of ys) # sll_rest ys"
  by (induction xs arbitrary: s) simp_all

lemma sll_pairs_split:
  "sll_pairs l (xs @ ys) =
    sll_seg (SLL_head l) xs @ (sll_slot_after (SLL_head l) xs, sll_first_of ys) # sll_rest ys"
  unfolding sll_pairs_def by (rule sll_rest_split)

lemma sll_pairs_fst: "map fst (sll_pairs l xs) = SLL_head l # map SLL_next xs"
proof -
  have "map fst (sll_rest xs) = map SLL_next xs" by (induction xs) simp_all
  then show ?thesis by (simp add: sll_pairs_def)
qed

lemma sll_pairs_distinct: "distinct xs \<Longrightarrow> distinct (map fst (sll_pairs l xs))"
  unfolding sll_pairs_fst by (auto simp: distinct_map inj_on_def)

section \<open>The list in the heap\<close>

text \<open>
  \<open>sll_weak\<close>: the list holds \<open>xs\<close> and \<open>end\<close> points somewhere into it, as after
  \<open>A3_SLL_INSERT_AFTER\<close>. \<open>sll_list\<close>: \<open>end\<close> is the \<open>next\<close> field of the last element.
\<close>

definition sll_weak :: "sll_heap \<Rightarrow> nat \<Rightarrow> nat list \<Rightarrow> bool" where
  "sll_weak h l xs \<longleftrightarrow> distinct xs \<and> sll_ok h (sll_pairs l xs) \<and>
     (\<exists>ys zs. xs = ys @ zs \<and> sll_end_of h l = sll_slot_after (SLL_head l) ys)"

definition sll_list :: "sll_heap \<Rightarrow> nat \<Rightarrow> nat list \<Rightarrow> bool" where
  "sll_list h l xs \<longleftrightarrow> distinct xs \<and> sll_ok h (sll_pairs l xs) \<and>
     sll_end_of h l = sll_slot_after (SLL_head l) xs"

text \<open>Exactly: \<open>end\<close> knows of \<open>ys\<close>, and \<open>zs\<close> were inserted behind its last element.\<close>

definition sll_view :: "sll_heap \<Rightarrow> nat \<Rightarrow> nat list \<Rightarrow> nat list \<Rightarrow> bool" where
  "sll_view h l ys zs \<longleftrightarrow> distinct (ys @ zs) \<and> sll_ok h (sll_pairs l (ys @ zs)) \<and>
     sll_end_of h l = sll_slot_after (SLL_head l) ys \<and> (ys = [] \<longrightarrow> zs = [])"

lemma sll_list_view: "sll_list h l xs \<longleftrightarrow> sll_view h l xs []"
  by (auto simp: sll_list_def sll_view_def)

lemma sll_view_weak: "sll_view h l ys zs \<Longrightarrow> sll_weak h l (ys @ zs)"
  by (auto simp: sll_view_def sll_weak_def)

lemma sll_list_weak: "sll_list h l xs \<Longrightarrow> sll_weak h l xs"
  by (auto simp: sll_list_def sll_weak_def)

text \<open>An operation on the list \<open>l\<close> leaves other lists and elements not in \<open>X\<close> alone.\<close>

definition sll_frame :: "nat \<Rightarrow> nat set \<Rightarrow> sll_heap \<Rightarrow> sll_heap \<Rightarrow> bool" where
  "sll_frame l X h h' \<longleftrightarrow> (\<forall>k. k \<noteq> l \<longrightarrow> sll_head_of h' k = sll_head_of h k \<and> sll_end_of h' k = sll_end_of h k) \<and>
     (\<forall>x. x \<notin> X \<longrightarrow> sll_next_of h' x = sll_next_of h x)"

lemma sll_frame_refl [simp]: "sll_frame l X h h"
  by (simp add: sll_frame_def)

lemma sll_frame_end [simp]: "sll_frame l X h (sll_set_end h1 l s) \<longleftrightarrow> sll_frame l X h h1"
  by (auto simp: sll_frame_def)

lemma sll_frame_store:
  "sll_frame l X h h1 \<Longrightarrow> s = SLL_head l \<or> s \<in> SLL_next ` X \<Longrightarrow> sll_frame l X h (sll_store h1 s v)"
  by (auto simp: sll_frame_def)

lemma sll_slot_after_cases: "sll_slot_after (SLL_head l) ys = SLL_head l \<or> sll_slot_after (SLL_head l) ys \<in> SLL_next ` set ys"
  by (simp add: sll_slot_after_def)

lemma sll_frame_after:
  "sll_frame l X h h1 \<Longrightarrow> set ys \<subseteq> X \<Longrightarrow> sll_frame l X h (sll_store h1 (sll_slot_after (SLL_head l) ys) v)"
  using sll_slot_after_cases [of l ys] by (intro sll_frame_store) auto

lemma sll_head_first: "sll_ok h (sll_pairs l xs) \<Longrightarrow> sll_head_of h l = sll_first_of xs"
  by (simp add: sll_pairs_def sll_load_def)

lemma sll_next_at:
  assumes "sll_ok h (sll_pairs l (xs @ x # ys))"
  shows "sll_next_of h x = sll_first_of ys"
  using assms unfolding sll_pairs_split by (simp add: sll_load_def)

lemma sll_ok_insert:
  assumes ok: "sll_ok h (sll_pairs l (as @ bs))" and d: "distinct (as @ x # bs)"
  defines "s \<equiv> sll_slot_after (SLL_head l) as"
  shows "sll_ok (sll_store (sll_store h (SLL_next x) (sll_first_of bs)) s (Some x)) (sll_pairs l (as @ x # bs))"
proof -
  have P: "sll_pairs l (as @ x # bs) = sll_seg (SLL_head l) as @
      (s, Some x) # (SLL_next x, sll_first_of bs) # sll_rest bs"
    by (simp add: sll_pairs_split s_def)
  have D: "distinct (map fst (sll_pairs l (as @ x # bs)))" using sll_pairs_distinct [OF d] .
  have "sll_ok h (sll_seg (SLL_head l) as)" "sll_ok h (sll_rest bs)"
    using ok unfolding sll_pairs_split by auto
  then show ?thesis using D unfolding P by (auto simp: image_iff)
qed

lemma sll_ok_delete:
  assumes ok: "sll_ok h (sll_pairs l (as @ x # bs))" and d: "distinct (as @ x # bs)"
  shows "sll_ok (sll_store h (sll_slot_after (SLL_head l) as) (sll_first_of bs)) (sll_pairs l (as @ bs))"
proof -
  have "distinct (map fst (sll_pairs l (as @ bs)))" using d by (intro sll_pairs_distinct) simp
  then show ?thesis using ok unfolding sll_pairs_split by (auto simp: image_iff)
qed

section \<open>Operations\<close>

lemma sll_init_list: "sll_list (sll_init h l) l []"
  by (simp add: sll_list_def sll_init_def sll_pairs_def)

lemma sll_push_view:
  assumes h: "sll_view h l ys zs" and x: "x \<notin> set (ys @ zs)"
  shows "sll_view (sll_push h l x) l (x # ys) zs" "sll_frame l {x} h (sll_push h l x)"
proof -
  let ?xs = "ys @ zs"
  let ?h = "sll_store (sll_store h (SLL_next x) (sll_first_of ?xs)) (SLL_head l) (Some x)"
  have ok: "sll_ok ?h (sll_pairs l (x # ?xs))" using sll_ok_insert [of h l "[]" ?xs x] h x by (simp add: sll_view_def)
  have f: "sll_head_of h l = sll_first_of ?xs" using h by (auto simp: sll_view_def dest: sll_head_first)
  have p: "sll_push h l x = (if ?xs = [] then sll_set_end ?h l (SLL_next x) else ?h)"
    using f by (cases ?xs) (simp_all add: sll_push_def sll_set_end_def sll_store_def)
  then show "sll_view (sll_push h l x) l (x # ys) zs" using ok h x by (auto simp: sll_view_def sll_slot_after_def)
  show "sll_frame l {x} h (sll_push h l x)" unfolding p by (auto intro!: sll_frame_store)
qed

lemma sll_push_list: "sll_list h l xs \<Longrightarrow> x \<notin> set xs \<Longrightarrow> sll_list (sll_push h l x) l (x # xs)"
  using sll_push_view(1) [of h l xs "[]" x] by (simp add: sll_list_view)

lemma sll_fixup_list:
  assumes ok: "sll_ok h (sll_pairs l (ys @ zs))" and e: "sll_end_of h l = sll_slot_after (SLL_head l) ys"
  shows "\<exists>h'. sll_fixup h l = ret h' \<and> sll_ok h' (sll_pairs l (ys @ zs)) \<and>
    sll_end_of h' l = sll_slot_after (SLL_head l) (ys @ zs) \<and> sll_frame l {} h h'"
  using assms
proof (induction zs arbitrary: h ys)
  case Nil
  then have "sll_load h (sll_end_of h l) = None" unfolding sll_pairs_split by simp
  then show ?case using Nil by (subst sll_fixup.simps) simp
next
  case (Cons z zs)
  then have l: "sll_load h (sll_end_of h l) = Some z" unfolding sll_pairs_split by simp
  have "\<exists>h'. sll_fixup (sll_set_end h l (SLL_next z)) l = ret h' \<and> sll_ok h' (sll_pairs l ((ys @ [z]) @ zs)) \<and>
      sll_end_of h' l = sll_slot_after (SLL_head l) ((ys @ [z]) @ zs) \<and> sll_frame l {} (sll_set_end h l (SLL_next z)) h'"
    using Cons.prems(1) by (intro Cons.IH) simp_all
  then show ?case using l by (subst sll_fixup.simps) (auto simp: sll_frame_def)
qed

lemma sll_enqueue_step:
  assumes h: "sll_weak h l xs" and x: "x \<notin> set xs"
  shows "\<exists>h'. sll_enqueue h l x = ret h' \<and> sll_list h' l (xs @ [x]) \<and> sll_frame l (insert x (set xs)) h h'"
proof -
  obtain ys zs where xs: "xs = ys @ zs" "sll_end_of h l = sll_slot_after (SLL_head l) ys"
    using h by (auto simp: sll_weak_def)
  then obtain h1 where h1: "sll_fixup h l = ret h1" "sll_ok h1 (sll_pairs l xs)"
    "sll_end_of h1 l = sll_slot_after (SLL_head l) xs" "sll_frame l {} h h1"
    using sll_fixup_list [of h l ys zs] h by (auto simp: sll_weak_def)
  have d: "distinct (xs @ [x])" using h x by (simp add: sll_weak_def)
  let ?h = "sll_store (sll_store h1 (SLL_next x) None) (sll_slot_after (SLL_head l) xs) (Some x)"
  have "sll_ok ?h (sll_pairs l (xs @ [x]))" using sll_ok_insert [of h1 l xs "[]" x] h1(2) d by simp
  moreover have "sll_frame l (insert x (set xs)) h h1" using h1(4) by (simp add: sll_frame_def)
  then have "sll_frame l (insert x (set xs)) h ?h" by (intro sll_frame_after [OF sll_frame_store]) auto
  ultimately show ?thesis using h1 d by (simp add: sll_enqueue_def sll_list_def Let_def)
qed

lemma sll_enqueue_list:
  "sll_weak h l xs \<Longrightarrow> x \<notin> set xs \<Longrightarrow> \<exists>h'. sll_enqueue h l x = ret h' \<and> sll_list h' l (xs @ [x])"
  using sll_enqueue_step by blast

text \<open>Taking out an element: the links are mended, and \<open>end\<close> moves only if nothing is left behind the element.\<close>

lemma sll_pop_ret:
  assumes "sll_ok h (sll_pairs l (x # xs))"
  shows "sll_pop h l = ret (let h1 = sll_store h (SLL_head l) (sll_first_of xs) in if xs = [] then sll_set_end h1 l (SLL_head l) else h1)"
proof -
  have "sll_head_of h l = Some x" "sll_next_of h x = sll_first_of xs"
    using sll_head_first [OF assms] sll_next_at [of h l "[]" x xs] assms by simp_all
  then show ?thesis by (cases xs) (simp_all add: sll_pop_def sll_next_def Let_def)
qed

lemma sll_before_list:
  assumes "sll_ok h (sll_pairs l (as @ b # cs @ e # ds))" and "distinct (as @ b # cs @ e # ds)"
  shows "sll_before h e (Some b) = ret (Some (last (b # cs)))"
  using assms
proof (induction cs arbitrary: as b)
  case Nil
  then have "sll_next_of h b = Some e" using sll_next_at [of h l as b "e # ds"] by simp
  then show ?case by (subst sll_before.simps) simp
next
  case (Cons c cs)
  have "sll_next_of h b = Some c" using sll_next_at [of h l as b "c # cs @ e # ds"] Cons.prems(1) by simp
  moreover have "sll_before h e (Some c) = ret (Some (last (c # cs)))"
    using Cons.IH [of "as @ [b]" c] Cons.prems by simp
  ultimately show ?case using Cons.prems(2) by (subst sll_before.simps) simp
qed

lemma sll_remove_ret:
  assumes ok: "sll_ok h (sll_pairs l (as @ e # bs))" "distinct (as @ e # bs)"
  shows "sll_remove h l e = ret (let s = sll_slot_after (SLL_head l) as; h1 = sll_store h s (sll_first_of bs) in
    if bs = [] then sll_set_end h1 l s else h1)"
proof (cases as)
  case Nil
  then have "sll_head_of h l = Some e" using ok(1) sll_head_first by fastforce
  then show ?thesis using sll_pop_ret [of h l e bs] ok(1) Nil by (simp add: sll_remove_def Let_def)
next
  case (Cons a cs)
  let ?p = "last as"
  have as: "as = butlast as @ [?p]" using Cons by simp
  have head: "sll_head_of h l = Some a" "a \<noteq> e" using sll_head_first [OF ok(1)] ok(2) Cons by auto
  have b: "sll_before h e (Some a) = ret (Some ?p)" using sll_before_list [of h l "[]" a cs e bs] ok Cons by simp
  have "sll_ok h (sll_pairs l (butlast as @ ?p # e # bs))" using ok(1) as by (metis append.assoc append_Cons append_Nil)
  then have n: "sll_next_of h ?p = Some e" by (simp add: sll_next_at)
  have "sll_next_of h e = sll_first_of bs" using sll_next_at [OF ok(1)] .
  moreover have "sll_slot_after (SLL_head l) as = SLL_next ?p" using Cons by (simp add: sll_slot_after_def)
  ultimately show ?thesis using head b n by (cases bs) (auto simp: sll_remove_def sll_next_def Let_def)
qed

text \<open>Searching the list for an element that is not in it.\<close>

lemma sll_before_out:
  assumes "sll_ok h (sll_pairs l (as @ bs))" and "e \<notin> set (as @ bs)"
  shows "sll_before h e (sll_first_of bs) = ret None"
  using assms
proof (induction bs arbitrary: as)
  case Nil
  then show ?case by (subst sll_before.simps) simp
next
  case (Cons b bs)
  then have "sll_next_of h b = sll_first_of bs" "sll_before h e (sll_first_of bs) = ret None"
    using sll_next_at [of h l as b bs] Cons.IH [of "as @ [b]"] by simp_all
  moreover from this(1) Cons.prems(2) have "sll_next_of h b \<noteq> Some e" by (cases bs) auto
  ultimately show ?case by (subst sll_before.simps) simp
qed

lemma sll_remove_out:
  assumes "sll_ok h (sll_pairs l xs)" and "e \<notin> set xs"
  shows "sll_remove h l e = fail Assert_failed"
proof -
  have "sll_head_of h l = sll_first_of xs" using sll_head_first [OF assms(1)] .
  moreover from this assms(2) have "Some e \<noteq> sll_head_of h l" by (cases xs) auto
  ultimately show ?thesis using sll_before_out [of h l "[]" xs e] assms by (simp add: sll_remove_def)
qed

lemma sll_insert_after_ok:
  assumes ok: "sll_ok h (sll_pairs l (as @ e # bs))" and d: "distinct (as @ e # x # bs)"
  shows "sll_ok (sll_insert_after h e x) (sll_pairs l (as @ e # x # bs))"
    "sll_end_of (sll_insert_after h e x) = sll_end_of h" "sll_frame l {e, x} h (sll_insert_after h e x)"
proof -
  have "sll_next_of h e = sll_first_of bs" using sll_next_at [of h l as e bs] ok by simp
  then have r: "sll_insert_after h e x = sll_store (sll_store h (SLL_next x) (sll_first_of bs)) (SLL_next e) (Some x)"
    by (simp add: sll_insert_after_def)
  show "sll_ok (sll_insert_after h e x) (sll_pairs l (as @ e # x # bs))"
    using sll_ok_insert [of h l "as @ [e]" bs x] ok d by (simp add: r)
  show "sll_end_of (sll_insert_after h e x) = sll_end_of h" by (simp add: r)
  show "sll_frame l {e, x} h (sll_insert_after h e x)" unfolding r by (intro sll_frame_store) auto
qed

lemma sll_insert_after_weak:
  assumes h: "sll_weak h l (as @ e # bs)" and x: "x \<notin> set (as @ e # bs)"
  shows "sll_weak (sll_insert_after h e x) l (as @ e # x # bs)"
    and "sll_end_of (sll_insert_after h e x) l = sll_end_of h l"
proof -
  have ok: "sll_ok h (sll_pairs l (as @ e # bs))" and d: "distinct (as @ e # x # bs)" using h x by (auto simp: sll_weak_def)
  note ins = sll_insert_after_ok [OF ok d]
  obtain ys zs where ys: "as @ e # bs = ys @ zs" "sll_end_of h l = sll_slot_after (SLL_head l) ys"
    using h by (auto simp: sll_weak_def)
  have "\<exists>ys' zs'. as @ e # x # bs = ys' @ zs' \<and> sll_slot_after (SLL_head l) ys = sll_slot_after (SLL_head l) ys'"
  proof (cases "length ys \<le> Suc (length as)")
    case True
    then have "length ys - length as = 0 \<or> length ys - length as = Suc 0" by linarith
    then have "take (length ys) (as @ e # x # bs) = take (length ys) (as @ e # bs)" by auto
    also have "\<dots> = ys" using ys(1) by simp
    finally have "as @ e # x # bs = ys @ drop (length ys) (as @ e # x # bs)" by (metis append_take_drop_id)
    then show ?thesis by metis
  next
    case False
    then obtain cs where "ys = as @ e # cs" "bs = cs @ zs"
      using ys(1) by (auto simp: append_eq_append_conv2 Cons_eq_append_conv)
    moreover from this False have "cs \<noteq> []" by auto
    ultimately show ?thesis
      by (intro exI [of _ "as @ e # x # cs"] exI [of _ zs]) (simp add: sll_slot_after_def)
  qed
  then show "sll_weak (sll_insert_after h e x) l (as @ e # x # bs)"
    using ins(1,2) d ys(2) by (auto simp: sll_weak_def)
  show "sll_end_of (sll_insert_after h e x) l = sll_end_of h l" by (simp add: ins(2))
qed

text \<open>What \<open>end\<close> knows and what is behind it, after an insertion behind \<open>e\<close> and after a removal of \<open>e\<close>.\<close>

fun put_behind :: "nat \<Rightarrow> nat \<Rightarrow> nat list \<times> nat list \<Rightarrow> nat list \<times> nat list" where
  "put_behind e x (ys, zs) = (if ys \<noteq> [] \<and> last ys = e then (ys, x # zs)
     else if e \<in> set ys then (put_after e x ys, zs) else (ys, put_after e x zs))"

fun cut_out :: "nat \<Rightarrow> nat list \<times> nat list \<Rightarrow> nat list \<times> nat list" where
  "cut_out e (ys, zs) = (if e \<in> set ys then (remove1 e ys, zs)
     else if last zs = e then (ys @ butlast zs, []) else (ys, remove1 e zs))"

lemma split_where:
  assumes "ys @ zs = as @ e # bs"
  obtains (known) cs where "ys = as @ e # cs" "bs = cs @ zs" | (behind) cs where "as = ys @ cs" "zs = cs @ e # bs"
proof (cases "length as < length ys")
  case True
  have "ys = take (length ys) (as @ e # bs)" "zs = drop (length ys) (as @ e # bs)" using assms by (metis append_eq_conv_conj)+
  moreover obtain k where "length ys - length as = Suc k" using True by (metis Suc_diff_Suc)
  ultimately have "ys = as @ e # take k bs" "zs = drop k bs" using True by simp_all
  then show thesis using known [of "take k bs"] by simp
next
  case False
  then have "ys = take (length ys) as" "zs = drop (length ys) as @ e # bs"
    using assms by (simp_all add: append_eq_append_conv_if)
  then show thesis by (metis append_take_drop_id behind)
qed

text \<open>The one element \<open>end\<close> points into, while others are behind it.\<close>

fun stale_if_gone :: "nat \<Rightarrow> nat list \<times> nat list \<Rightarrow> bool" where
  "stale_if_gone e (ys, zs) = (ys \<noteq> [] \<and> last ys = e \<and> zs \<noteq> [])"

lemma sll_visit_list:
  assumes "sll_ok h (sll_pairs l (as @ x # xs))"
  shows "sll_visit h (Some x) (sll_first_of xs) = ret (x # xs)"
  using assms
proof (induction xs arbitrary: as x)
  case Nil
  show ?case by (subst sll_visit.simps) (simp, subst sll_visit.simps, simp)
next
  case (Cons y ys)
  have ok: "sll_ok h (sll_pairs l ((as @ [x]) @ y # ys))" using Cons.prems by simp
  show ?case using Cons.IH [OF ok] sll_next_at [OF ok] by (subst sll_visit.simps) simp
qed

lemma sll_for_each_list:
  assumes "sll_weak h l xs"
  shows "sll_for_each h l = ret xs"
proof (cases xs)
  case Nil
  then have "sll_head_of h l = None" using assms by (auto simp: sll_weak_def dest: sll_head_first)
  then show ?thesis using Nil by (simp add: sll_for_each_def) (subst sll_visit.simps, simp)
next
  case (Cons x ys)
  have ok: "sll_ok h (sll_pairs l ([] @ x # ys))" using assms Cons by (simp add: sll_weak_def)
  then have "sll_head_of h l = Some x" using sll_head_first [of h l] by simp
  then show ?thesis using sll_visit_list [OF ok] sll_next_at [OF ok] Cons by (simp add: sll_for_each_def)
qed

lemma sll_remove_view:
  assumes h: "sll_view h l ys zs" and e: "e \<in> set (ys @ zs)" "\<not> stale_if_gone e (ys, zs)"
  shows "\<exists>h'. sll_remove h l e = ret h' \<and> (\<lambda>(ys', zs'). sll_view h' l ys' zs') (cut_out e (ys, zs)) \<and>
    sll_frame l (set (ys @ zs)) h h'"
proof -
  obtain as bs where xs: "ys @ zs = as @ e # bs" using e(1) by (meson split_list)
  let ?s = "sll_slot_after (SLL_head l) as"
  let ?h = "sll_store h ?s (sll_first_of bs)"
  let ?h' = "if bs = [] then sll_set_end ?h l ?s else ?h"
  have ok: "sll_ok h (sll_pairs l (as @ e # bs))" "distinct (as @ e # bs)" and en: "sll_end_of h l = sll_slot_after (SLL_head l) ys"
    using h by (auto simp: sll_view_def simp flip: xs)
  have r: "sll_remove h l e = ret ?h'" using sll_remove_ret [OF ok] by (simp add: Let_def)
  have ok': "sll_ok ?h' (sll_pairs l (as @ bs))" using sll_ok_delete [OF ok] by (cases bs) simp_all
  have fr: "sll_frame l (set (ys @ zs)) h ?h'" using xs by (auto intro!: sll_frame_after)
  have "(\<lambda>(ys', zs'). sll_view ?h' l ys' zs') (cut_out e (ys, zs))"
    using xs
  proof (cases rule: split_where)
    case cs: (known cs)
    then have "e \<notin> set as" "cs = [] \<Longrightarrow> zs = []" using ok(2) e(2) by auto
    then show ?thesis using cs ok' ok(2) en by (auto simp: sll_view_def sll_slot_after_def)
  next
    case cs: (behind cs)
    then have out: "e \<notin> set ys" "e \<notin> set cs" "ys \<noteq> []" using ok(2) h by (auto simp: sll_view_def)
    show ?thesis
    proof (cases "bs = []")
      case True
      then show ?thesis using cs ok' ok(2) out by (simp add: sll_view_def)
    next
      case False
      then have "last zs \<noteq> e" using cs(2) ok(2) last_in_set [OF False] by auto
      then have c: "cut_out e (ys, zs) = (ys, cs @ bs)" using out cs(2) by simp
      have "sll_ok ?h (sll_pairs l (ys @ cs @ bs))" using sll_ok_delete [OF ok] cs(1) by simp
      moreover have "distinct (ys @ cs @ bs)" using ok(2) cs(1) by auto
      ultimately show ?thesis unfolding c sll_view_def using en out(3) False by simp
    qed
  qed
  then show ?thesis using r fr by (intro exI [of _ ?h'] conjI)
qed

lemma sll_remove_list:
  assumes "sll_list h l (as @ e # bs)"
  shows "\<exists>h'. sll_remove h l e = ret h' \<and> sll_list h' l (as @ bs)"
proof -
  have "distinct (as @ e # bs)" using assms by (simp add: sll_list_def)
  then show ?thesis using sll_remove_view [of h l "as @ e # bs" "[]" e] assms by (auto simp: sll_list_view)
qed

lemma sll_pop_view:
  assumes "sll_view h l (y # ys) zs" "\<not> stale_if_gone y (y # ys, zs)"
  shows "\<exists>h'. sll_pop h l = ret h' \<and> sll_view h' l ys zs \<and> sll_frame l (set (y # ys @ zs)) h h'"
proof -
  have "sll_head_of h l = Some y" using sll_head_first [of h l "y # ys @ zs"] assms(1) by (simp add: sll_view_def)
  then have "sll_remove h l y = sll_pop h l" by (simp add: sll_remove_def)
  then show ?thesis using sll_remove_view [OF assms(1) _ assms(2)] by simp
qed

lemma sll_pop_list: "sll_list h l (x # xs) \<Longrightarrow> \<exists>h'. sll_pop h l = ret h' \<and> sll_list h' l xs"
  using sll_pop_view [of h l x xs "[]"] by (auto simp: sll_list_view)

lemma sll_insert_after_view:
  assumes h: "sll_view h l ys zs" and e: "e \<in> set (ys @ zs)" and x: "x \<notin> set (ys @ zs)"
  shows "(\<lambda>(ys', zs'). sll_view (sll_insert_after h e x) l ys' zs') (put_behind e x (ys, zs))"
    "sll_frame l (insert x (set (ys @ zs))) h (sll_insert_after h e x)"
proof -
  obtain as bs where xs: "ys @ zs = as @ e # bs" using e by (meson split_list)
  have ok: "sll_ok h (sll_pairs l (as @ e # bs))" and en: "sll_end_of h l = sll_slot_after (SLL_head l) ys"
    and d: "distinct (as @ e # x # bs)"
    using h x unfolding sll_view_def xs by auto
  note ins = sll_insert_after_ok [OF ok d]
  show "sll_frame l (insert x (set (ys @ zs))) h (sll_insert_after h e x)"
    using ins(3) e unfolding sll_frame_def by auto
  show "(\<lambda>(ys', zs'). sll_view (sll_insert_after h e x) l ys' zs') (put_behind e x (ys, zs))"
    using xs
  proof (cases rule: split_where)
    case cs: (known cs)
    then have "e \<notin> set as" "cs \<noteq> [] \<Longrightarrow> last cs \<noteq> e" using d by auto
    then show ?thesis using cs ins(1,2) d en by (auto simp: sll_view_def sll_slot_after_def)
  next
    case cs: (behind cs)
    then have "e \<notin> set ys" "e \<notin> set cs" "ys \<noteq> []" "last ys \<noteq> e" using d h by (auto simp: sll_view_def)
    then show ?thesis using cs ins(1,2) d en by (auto simp: sll_view_def sll_slot_after_def)
  qed
qed

section \<open>A FIFO\<close>

interpretation sll_fifo: fifo "\<lambda>h xs. sll_list h l xs" "\<lambda>h x. sll_enqueue h l x"
    "\<lambda>h. sll_pop h l" "\<lambda>h. sll_head_of h l" for l
proof unfold_locales
  fix h :: sll_heap and xs x
  assume h: "sll_list h l xs"
  show "\<exists>h'. sll_enqueue h l x = ret h' \<and> sll_list h' l (xs @ [x])" if "x \<notin> set xs"
    using sll_enqueue_list [OF sll_list_weak [OF h] that] .
  show "sll_head_of h l = (case xs of [] \<Rightarrow> None | x # ys \<Rightarrow> Some x)"
    using h by (auto simp: sll_list_def sll_first_of_def dest: sll_head_first)
next
  fix h :: sll_heap and x xs
  assume "sll_list h l (x # xs)"
  then show "\<exists>h'. sll_pop h l = ret h' \<and> sll_list h' l xs" by (rule sll_pop_list)
qed

end
