(* ===== verification/List_Props.thy ===== *)
theory List_Props
  imports Ll_Ops Sll_Ops
begin

text \<open>
  The properties of the two intrusive lists.
\<close>

section \<open>Small lists\<close>

text \<open>A doubly linked list 0 made by pushing 3, 2, 1 onto a new list, and a singly linked one.\<close>

definition ex_ll_empty :: ll_heap where
  "ex_ll_empty = ll_init \<lparr>ll_head_of = (\<lambda>l. LL_null), ll_dummy_of = (\<lambda>l. None),
     ll_next_of = (\<lambda>r. LL_null), ll_prev_of = (\<lambda>r. None)\<rparr> 0"

lemma ex_ll_empty_list: "ll_list ex_ll_empty 0 []"
  by (simp add: ex_ll_empty_def init_list)

lemma ex_ll: "\<exists>h. ll_list h 0 [1, 2, 3]"
  using ll_fifo.add_all_rep [OF ex_ll_empty_list, of "[1, 2, 3]"] by auto

definition ex_sll_empty :: sll_heap where
  "ex_sll_empty = sll_init \<lparr>sll_head_of = (\<lambda>l. None), sll_end_of = SLL_head, sll_next_of = (\<lambda>x. None)\<rparr> 0"

lemma ex_sll_empty_list: "sll_list ex_sll_empty 0 []"
  by (simp add: ex_sll_empty_def sll_init_list)

lemma ex_sll: "\<exists>h. sll_list h 0 [1, 2, 3]"
  using sll_fifo.add_all_rep [OF ex_sll_empty_list, of "[1, 2, 3]"] by auto

section \<open>The doubly linked list\<close>

text \<open>Around any element of a doubly linked list, \<open>A3_LL_INSERT_AFTER\<close>, \<open>A3_LL_INSERT_BEFORE\<close> and
  \<open>A3_LL_REMOVE\<close>, which get no pointer to the list, do exactly that to it, at its ends as well as
  in the middle.\<close>

theorem ll_edit_around_element:
  assumes "ll_list h l (as @ e # bs)" and "x \<notin> set (as @ e # bs)"
  shows "(\<exists>h'. ll_insert_after h (LL_elem e) (LL_elem x) = ret h' \<and> ll_list h' l (as @ e # x # bs)) \<and>
    (\<exists>h'. ll_insert_before h (LL_elem e) (LL_elem x) = ret h' \<and> ll_list h' l (as @ x # e # bs)) \<and>
    (\<exists>h'. ll_remove h (LL_elem e) = ret h' \<and> ll_list h' l (as @ bs))"
  using insert_after_list [OF assms] insert_before_list [OF assms] remove_list [OF assms(1)] by blast

theorem ll_edit_around_element_witness:
  "\<exists>h h'. ll_list h 0 [1, 2, 3] \<and> ll_remove h (LL_elem 3) = ret h' \<and> ll_list h' 0 [1, 2]"
proof -
  obtain h where h: "ll_list h 0 [1, 2, 3]" using ex_ll by blast
  then show ?thesis using ll_edit_around_element [of h 0 "[1, 2]" 3 "[]" 9] by auto
qed

text \<open>The doubly linked list is a queue: elements enqueued one after the other come out at the
  head in the same order, after those that were there before, and leave it empty.\<close>

theorem ll_queue_order:
  assumes "ll_list h l xs" and "distinct (xs @ ys)"
  shows "\<exists>h1 h2. add_all (\<lambda>h x. ll_enqueue h l (LL_elem x)) ys h = ret h1 \<and>
    drain (\<lambda>h. ll_pop h l) (ll_first l) (length (xs @ ys)) h1 = ret (h2, map Some (xs @ ys)) \<and> ll_list h2 l []"
  using ll_fifo.add_drain [OF assms] .

theorem ll_queue_order_witness:
  "\<exists>h1 h2. add_all (\<lambda>h x. ll_enqueue h 0 (LL_elem x)) [4, 7] ex_ll_empty = ret h1 \<and>
    drain (\<lambda>h. ll_pop h 0) (ll_first 0) 2 h1 = ret (h2, [Some 4, Some 7])"
  using ll_queue_order [OF ex_ll_empty_list, of "[4, 7]"] by (auto simp: numeral_2_eq_2)

text \<open>\<open>A3_LL_FOR_EACH\<close> ends and visits the elements of a doubly linked list in order, and
  \<open>A3_LL_FOR_EACH_REV\<close> in reverse order; \<open>A3_LL_PUSH\<close> puts an element at the front.\<close>

theorem ll_traversal:
  assumes "ll_list h l xs" and "x \<notin> set xs"
  shows "ll_for_each h l = ret (map LL_elem xs) \<and> ll_for_each_rev h l = ret (map LL_elem (rev xs)) \<and>
    (\<exists>h'. ll_push h l (LL_elem x) = ret h' \<and> ll_for_each h' l = ret (map LL_elem (x # xs)))"
  using for_each_list [OF assms(1)] for_each_rev_list [OF assms(1)] push_list [OF assms] for_each_list by blast

theorem ll_traversal_witness:
  "\<exists>h. ll_for_each_rev h 0 = ret [LL_elem 3, LL_elem 2, LL_elem 1]"
proof -
  obtain h where "ll_list h 0 [1, 2, 3]" using ex_ll by blast
  then show ?thesis using ll_traversal [of h 0 "[1, 2, 3]" 9] by auto
qed

section \<open>The singly linked list\<close>

text \<open>The singly linked list stays a queue after insertions in the middle: \<open>A3_SLL_ENQUEUE\<close>
  repairs an \<open>end\<close> that \<open>A3_SLL_INSERT_AFTER\<close> left behind, and then dequeuing returns the
  elements in order.\<close>

theorem sll_queue_repaired:
  assumes "sll_weak h l (as @ e # bs)" and "distinct (as @ e # x # bs @ [y])"
  shows "\<exists>h1 h2. sll_enqueue (sll_insert_after h e x) l y = ret h1 \<and> sll_list h1 l (as @ e # x # bs @ [y]) \<and>
    drain (\<lambda>h. sll_pop h l) (\<lambda>h. sll_head_of h l) (length (as @ e # x # bs @ [y])) h1 =
      ret (h2, map Some (as @ e # x # bs @ [y])) \<and> sll_list h2 l []"
proof -
  have "sll_weak (sll_insert_after h e x) l (as @ e # x # bs)"
    using sll_insert_after_weak(1) [OF assms(1)] assms(2) by auto
  then obtain h1 where h1: "sll_enqueue (sll_insert_after h e x) l y = ret h1" "sll_list h1 l ((as @ e # x # bs) @ [y])"
    using sll_enqueue_list [of _ l "as @ e # x # bs" y] assms(2) by fastforce
  then have "sll_list h1 l ((as @ e # x # bs @ [y]) @ [])" by simp
  from sll_fifo.drain_rep [OF this] show ?thesis using h1 by auto
qed

theorem sll_queue_repaired_witness:
  "\<exists>h h1. sll_list h 0 [1, 2, 3] \<and> sll_enqueue (sll_insert_after h 3 8) 0 9 = ret h1 \<and>
    sll_list h1 0 [1, 2, 3, 8, 9]"
proof -
  obtain h where h: "sll_list h 0 [1, 2, 3]" using ex_sll by blast
  then show ?thesis using sll_queue_repaired [of h 0 "[1, 2]" 3 "[]" 8 9] sll_list_weak [OF h] by auto
qed

text \<open>\<open>A3_SLL_REMOVE\<close> finds any element of the list, takes it out and keeps \<open>end\<close> exact, also
  when the element was the first or the last one.\<close>

theorem sll_remove_exact:
  assumes "sll_list h l (as @ e # bs)"
  shows "\<exists>h'. sll_remove h l e = ret h' \<and> sll_list h' l (as @ bs) \<and> sll_for_each h' l = ret (as @ bs)"
  using sll_remove_list [OF assms] sll_for_each_list sll_list_weak by blast

theorem sll_remove_exact_witness:
  "\<exists>h h'. sll_list h 0 [1, 2, 3] \<and> sll_remove h 0 2 = ret h' \<and> sll_for_each h' 0 = ret [1, 3]"
proof -
  obtain h where "sll_list h 0 [1, 2, 3]" using ex_sll by blast
  then show ?thesis using sll_remove_exact [of h 0 "[1]" 2 "[3]"] by auto
qed

text \<open>After an insertion behind the only element of a singly linked list, popping that element
  leaves \<open>end\<close> pointing into it although it is no longer in the list; if the caller then clears
  its link (as enqueuing it elsewhere does), the next element enqueued is lost.\<close>

theorem sll_stale_end_loses:
  assumes "sll_list h l [e]" and "x \<noteq> e" and "y \<noteq> e" and "y \<noteq> x"
  shows "\<exists>h1 h2. sll_pop (sll_insert_after h e x) l = ret h1 \<and> sll_end_of h1 l = SLL_next e \<and>
    sll_for_each h1 l = ret [x] \<and>
    sll_enqueue (sll_store h1 (SLL_next e) None) l y = ret h2 \<and> sll_for_each h2 l = ret [x]"
proof -
  have w: "sll_weak h l ([] @ e # [])" using sll_list_weak [OF assms(1)] by simp
  note ins = sll_insert_after_weak [OF w, of x]
  let ?h = "sll_insert_after h e x"
  have ok: "sll_ok ?h (sll_pairs l [e, x])" using ins(1) assms(2) by (simp add: sll_weak_def)
  have fields: "sll_head_of ?h l = Some e" "sll_next_of ?h e = Some x" "sll_next_of ?h x = None"
    using ok by (simp_all add: sll_pairs_def sll_load_def)
  have e: "sll_end_of ?h l = SLL_next e" using ins(2) assms by (simp add: sll_list_def)
  let ?h1 = "sll_store ?h (SLL_head l) (Some x)"
  let ?h2 = "sll_store ?h1 (SLL_next e) None"
  let ?h3 = "sll_set_end (sll_store (sll_store ?h2 (SLL_next y) None) (SLL_next e) (Some y)) l (SLL_next y)"
  have pop: "sll_pop ?h l = ret ?h1" using fields by (simp add: sll_pop_def sll_next_def Let_def)
  have "sll_fixup ?h2 l = ret ?h2" by (subst sll_fixup.simps) (simp add: e)
  then have enq: "sll_enqueue ?h2 l y = ret ?h3" by (simp add: sll_enqueue_def Let_def e)
  have "sll_for_each ?h1 l = ret [x]" "sll_for_each ?h3 l = ret [x]"
    using fields assms(2-4) by (simp_all add: sll_for_each_def sll_visit.simps)
  then show ?thesis using pop enq e by auto
qed

theorem sll_stale_end_loses_witness:
  "\<exists>h h1 h2. sll_list h 0 [1] \<and> sll_pop (sll_insert_after h 1 2) 0 = ret h1 \<and>
    sll_enqueue (sll_store h1 (SLL_next 1) None) 0 3 = ret h2 \<and> sll_for_each h2 0 = ret [2]"
proof -
  obtain h where "sll_list h 0 [1]" using sll_fifo.add_all_rep [OF ex_sll_empty_list, of "[1]"] by auto
  then show ?thesis using sll_stale_end_loses [of h 0 1 2 3] by auto
qed

end
