(* ===== verification/Ll_Seq.thy ===== *)
theory Ll_Seq
  imports List_Props List_Spec
begin

text \<open>
  Several doubly linked lists that share one heap, with elements that move from one to another: sequences of operations on
  them return what the same operations on lists of elements return. An operation on one list leaves the others alone.
\<close>

section \<open>Operations\<close>

text \<open>Those that name a list, and those that get nothing but an element of one.\<close>

datatype ll_op =
    Ll_push nat nat | Ll_enqueue nat nat | Ll_pop nat | Ll_first nat | Ll_last nat | Ll_walk nat | Ll_walk_back nat
  | Ll_after nat nat | Ll_before nat nat | Ll_remove nat | Ll_next_of nat | Ll_prev_of nat

fun ll_exec :: "ll_op \<Rightarrow> ll_heap \<Rightarrow> (ll_ref list \<times> ll_heap) run" where
  "ll_exec (Ll_push l x) h = quietly (ll_push h l (LL_elem x))"
| "ll_exec (Ll_enqueue l x) h = quietly (ll_enqueue h l (LL_elem x))"
| "ll_exec (Ll_pop l) h = quietly (ll_pop h l)"
| "ll_exec (Ll_first l) h = ret ([ll_head h l], h)"
| "ll_exec (Ll_last l) h = seen h (bind_run (ll_last h l) (\<lambda>r. ret [r]))"
| "ll_exec (Ll_walk l) h = seen h (ll_for_each h l)"
| "ll_exec (Ll_walk_back l) h = seen h (ll_for_each_rev h l)"
| "ll_exec (Ll_after e x) h = quietly (ll_insert_after h (LL_elem e) (LL_elem x))"
| "ll_exec (Ll_before e x) h = quietly (ll_insert_before h (LL_elem e) (LL_elem x))"
| "ll_exec (Ll_remove e) h = quietly (ll_remove h (LL_elem e))"
| "ll_exec (Ll_next_of e) h = seen h (bind_run (ll_next h (LL_elem e)) (\<lambda>r. ret [r]))"
| "ll_exec (Ll_prev_of e) h = seen h (bind_run (ll_prev h (LL_elem e)) (\<lambda>r. ret [r]))"

section \<open>The same on lists\<close>

definition ref_of :: "nat option \<Rightarrow> ll_ref" where
  "ref_of x = (case x of None \<Rightarrow> LL_null | Some y \<Rightarrow> LL_elem y)"

fun lists_exec :: "nat list \<Rightarrow> ll_op \<Rightarrow> (nat \<Rightarrow> nat list) \<Rightarrow> (ll_ref list \<times> (nat \<Rightarrow> nat list)) run" where
  "lists_exec ls (Ll_push l x) \<sigma> = ret ([], \<sigma>(l := x # \<sigma> l))"
| "lists_exec ls (Ll_enqueue l x) \<sigma> = ret ([], \<sigma>(l := \<sigma> l @ [x]))"
| "lists_exec ls (Ll_pop l) \<sigma> = (if \<sigma> l = [] then fail Null_deref else ret ([], \<sigma>(l := tl (\<sigma> l))))"
| "lists_exec ls (Ll_first l) \<sigma> = ret ([ref_of (hd_opt (\<sigma> l))], \<sigma>)"
| "lists_exec ls (Ll_last l) \<sigma> = ret ([ref_of (hd_opt (rev (\<sigma> l)))], \<sigma>)"
| "lists_exec ls (Ll_walk l) \<sigma> = ret (map LL_elem (\<sigma> l), \<sigma>)"
| "lists_exec ls (Ll_walk_back l) \<sigma> = ret (map LL_elem (rev (\<sigma> l)), \<sigma>)"
| "lists_exec ls (Ll_after e x) \<sigma> = (let l = owner ls \<sigma> e in ret ([], \<sigma>(l := put_after e x (\<sigma> l))))"
| "lists_exec ls (Ll_before e x) \<sigma> = (let l = owner ls \<sigma> e in ret ([], \<sigma>(l := put_before e x (\<sigma> l))))"
| "lists_exec ls (Ll_remove e) \<sigma> = (let l = owner ls \<sigma> e in ret ([], \<sigma>(l := remove1 e (\<sigma> l))))"
| "lists_exec ls (Ll_next_of e) \<sigma> = ret ([ref_of (after_of e (\<sigma> (owner ls \<sigma> e)))], \<sigma>)"
| "lists_exec ls (Ll_prev_of e) \<sigma> = ret ([ref_of (before_of e (\<sigma> (owner ls \<sigma> e)))], \<sigma>)"

section \<open>What the caller sees to\<close>

text \<open>An element is put into a list only when it is in none, and an element that is named is in one.\<close>

fun ll_op_ok :: "nat list \<Rightarrow> (nat \<Rightarrow> nat list) \<Rightarrow> ll_op \<Rightarrow> bool" where
  "ll_op_ok ls \<sigma> (Ll_push l x) = (l \<in> set ls \<and> \<not> linked ls \<sigma> x)"
| "ll_op_ok ls \<sigma> (Ll_enqueue l x) = (l \<in> set ls \<and> \<not> linked ls \<sigma> x)"
| "ll_op_ok ls \<sigma> (Ll_pop l) = (l \<in> set ls)"
| "ll_op_ok ls \<sigma> (Ll_first l) = (l \<in> set ls)"
| "ll_op_ok ls \<sigma> (Ll_last l) = (l \<in> set ls)"
| "ll_op_ok ls \<sigma> (Ll_walk l) = (l \<in> set ls)"
| "ll_op_ok ls \<sigma> (Ll_walk_back l) = (l \<in> set ls)"
| "ll_op_ok ls \<sigma> (Ll_after e x) = (linked ls \<sigma> e \<and> \<not> linked ls \<sigma> x)"
| "ll_op_ok ls \<sigma> (Ll_before e x) = (linked ls \<sigma> e \<and> \<not> linked ls \<sigma> x)"
| "ll_op_ok ls \<sigma> (Ll_remove e) = linked ls \<sigma> e"
| "ll_op_ok ls \<sigma> (Ll_next_of e) = linked ls \<sigma> e"
| "ll_op_ok ls \<sigma> (Ll_prev_of e) = linked ls \<sigma> e"

section \<open>Lists side by side\<close>

definition ll_lists :: "nat list \<Rightarrow> ll_heap \<Rightarrow> (nat \<Rightarrow> nat list) \<Rightarrow> bool" where
  "ll_lists ls h \<sigma> \<longleftrightarrow> (\<forall>l \<in> set ls. ll_list h l (\<sigma> l)) \<and>
     (\<forall>l \<in> set ls. \<forall>k \<in> set ls. l \<noteq> k \<longrightarrow> set (\<sigma> l) \<inter> set (\<sigma> k) = {})"

text \<open>A list outside the frame of an operation.\<close>

lemma ll_list_frame:
  assumes "ll_frame l X h h'" "ll_list h k ys" "k \<noteq> l" "X \<inter> set ys = {}"
  shows "ll_list h' k ys"
proof -
  have own: "ll_next_of h' r = ll_next_of h r" "ll_prev_of h' r = ll_prev_of h r" if "r = LL_end k \<or> r \<in> LL_elem ` set ys" for r
    using that assms(1,3,4) unfolding ll_frame_def by (metis (no_types, lifting) IntI empty_iff image_iff ll_ref.distinct(5) ll_ref.inject(1) ll_ref.inject(2))+
  have head: "ll_head_of h' k = ll_head_of h k" "ll_dummy_of h' k = ll_dummy_of h k" using assms(1,3) by (simp_all add: ll_frame_def)
  have same: "ll_content h' s = ll_content h s \<and> ll_prev_of h' r = ll_prev_of h r" if "(s, r) \<in> set (ll_pairs k ys)" for s r
  proof -
    have "s \<in> set (map fst (ll_pairs k ys))" "r \<in> set (map snd (ll_pairs k ys))" using that by force+
    then have "s = LL_head k \<or> (\<exists>x \<in> set ys. s = LL_next (LL_elem x))" "r = LL_end k \<or> r \<in> LL_elem ` set ys"
      unfolding ll_pairs_fst ll_pairs_snd by auto
    then show ?thesis using own head by (auto simp: ll_content_def)
  qed
  have "(case p of (s, r) \<Rightarrow> ll_content h' s = r \<and> ll_prev_of h' r = Some s) =
      (case p of (s, r) \<Rightarrow> ll_content h s = r \<and> ll_prev_of h r = Some s)" if "p \<in> set (ll_pairs k ys)" for p
    using same [of "fst p" "snd p"] that by (simp add: case_prod_unfold)
  then have "ll_ok h' (ll_pairs k ys) \<longleftrightarrow> ll_ok h (ll_pairs k ys)" unfolding ll_ok_def by (rule ball_cong [OF refl])
  then show ?thesis using assms(2) own [of "LL_end k"] head by (simp add: ll_list_def)
qed

lemma ll_lists_step:
  assumes "ll_lists ls h \<sigma>" "l \<in> set ls" "ll_list h' l ys" "ll_frame l X h h'"
    and "X \<subseteq> insert x (set (\<sigma> l))" "set ys \<subseteq> insert x (set (\<sigma> l))" "x \<in> set (\<sigma> l) \<or> \<not> linked ls \<sigma> x"
  shows "ll_lists ls h' (\<sigma>(l := ys))"
proof -
  have far: "insert x (set (\<sigma> l)) \<inter> set (\<sigma> k) = {}" if "k \<in> set ls" "k \<noteq> l" for k
    using assms(1,2,7) that by (auto simp: ll_lists_def linked_def list_ex_iff)
  have "ll_list h' k (\<sigma> k)" if "k \<in> set ls" "k \<noteq> l" for k
    by (rule ll_list_frame [OF assms(4)]) (use assms(1,5) far [OF that] that in \<open>auto simp: ll_lists_def\<close>)
  moreover have "set ys \<inter> set (\<sigma> k) = {}" if "k \<in> set ls" "k \<noteq> l" for k using far [OF that] assms(6) by blast
  ultimately show ?thesis using assms(1,3) by (auto simp: ll_lists_def)
qed

section \<open>Each operation\<close>

lemma ref_of_hd: "ref_of (hd_opt xs) = (if xs = [] then LL_null else LL_elem (hd xs))"
  by (cases xs) (simp_all add: ref_of_def hd_opt_def)

lemma agree_quiet:
  assumes "ll_lists ls h \<sigma>" "l \<in> set ls" "\<exists>h'. c = ret h' \<and> ll_list h' l ys \<and> ll_frame l X h h'"
    and "X \<subseteq> insert x (set (\<sigma> l))" "set ys \<subseteq> insert x (set (\<sigma> l))" "x \<in> set (\<sigma> l) \<or> \<not> linked ls \<sigma> x"
  shows "agree (ll_lists ls) (quietly c) (ret ([], \<sigma>(l := ys)))"
proof -
  obtain h' where "c = ret h'" "ll_list h' l ys" "ll_frame l X h h'" using assms(3) by blast
  then show ?thesis using ll_lists_step [OF assms(1,2) _ _ assms(4-6)] by (simp add: agree_def quietly_def)
qed

lemma agree_at_list:
  assumes "ll_lists ls h \<sigma>" "l \<in> set ls"
  shows "\<not> linked ls \<sigma> x \<Longrightarrow> agree (ll_lists ls) (ll_exec (Ll_push l x) h) (lists_exec ls (Ll_push l x) \<sigma>)"
    "\<not> linked ls \<sigma> x \<Longrightarrow> agree (ll_lists ls) (ll_exec (Ll_enqueue l x) h) (lists_exec ls (Ll_enqueue l x) \<sigma>)"
    "agree (ll_lists ls) (ll_exec (Ll_pop l) h) (lists_exec ls (Ll_pop l) \<sigma>)"
    "agree (ll_lists ls) (ll_exec (Ll_first l) h) (lists_exec ls (Ll_first l) \<sigma>)"
    "agree (ll_lists ls) (ll_exec (Ll_last l) h) (lists_exec ls (Ll_last l) \<sigma>)"
    "agree (ll_lists ls) (ll_exec (Ll_walk l) h) (lists_exec ls (Ll_walk l) \<sigma>)"
    "agree (ll_lists ls) (ll_exec (Ll_walk_back l) h) (lists_exec ls (Ll_walk_back l) \<sigma>)"
proof -
  have h: "ll_list h l (\<sigma> l)" using assms by (simp add: ll_lists_def)
  have free: "x \<notin> set (\<sigma> l)" if "\<not> linked ls \<sigma> x" for x using that assms(2) by (auto simp: linked_def list_ex_iff)
  show "agree (ll_lists ls) (ll_exec (Ll_push l x) h) (lists_exec ls (Ll_push l x) \<sigma>)" if "\<not> linked ls \<sigma> x"
    unfolding ll_exec.simps lists_exec.simps by (rule agree_quiet [OF assms push_step [OF h free [OF that]]]) (use that in auto)
  show "agree (ll_lists ls) (ll_exec (Ll_enqueue l x) h) (lists_exec ls (Ll_enqueue l x) \<sigma>)" if "\<not> linked ls \<sigma> x"
    unfolding ll_exec.simps lists_exec.simps by (rule agree_quiet [OF assms enqueue_step [OF h free [OF that]]]) (use that in auto)
  show "agree (ll_lists ls) (ll_exec (Ll_pop l) h) (lists_exec ls (Ll_pop l) \<sigma>)"
  proof (cases "\<sigma> l")
    case Nil
    then have "ll_head h l = LL_null" using ll_listD(6) [OF h] by (simp add: ll_head_def)
    then show ?thesis using Nil by (simp add: agree_def quietly_def ll_pop_def ll_next_def ll_get_next_def)
  next
    case (Cons y ys)
    have "agree (ll_lists ls) (quietly (ll_pop h l)) (ret ([], \<sigma>(l := ys)))"
      by (rule agree_quiet [OF assms pop_step [OF h [unfolded Cons]], where x = y]) (auto simp: Cons)
    then show ?thesis using Cons by simp
  qed
  show "agree (ll_lists ls) (ll_exec (Ll_first l) h) (lists_exec ls (Ll_first l) \<sigma>)"
    using ll_listD(6,7) [OF h] assms(1) by (cases "\<sigma> l") (simp_all add: agree_def ll_head_def ref_of_def hd_opt_def)
  have "ll_last h l = ret (ref_of (hd_opt (rev (\<sigma> l))))"
    using ll_listD(4,6) [OF h] by (cases "\<sigma> l" rule: rev_cases) (simp_all add: ll_last_def ref_of_def hd_opt_def ll_container_def ll_slot_after_def)
  then show "agree (ll_lists ls) (ll_exec (Ll_last l) h) (lists_exec ls (Ll_last l) \<sigma>)"
    unfolding ll_exec.simps lists_exec.simps by (intro agree_seen assms) simp
  show "agree (ll_lists ls) (ll_exec (Ll_walk l) h) (lists_exec ls (Ll_walk l) \<sigma>)"
    unfolding ll_exec.simps lists_exec.simps by (intro agree_seen assms for_each_list h)
  show "agree (ll_lists ls) (ll_exec (Ll_walk_back l) h) (lists_exec ls (Ll_walk_back l) \<sigma>)"
    unfolding ll_exec.simps lists_exec.simps by (intro agree_seen assms for_each_rev_list h)
qed

lemma agree_at_element:
  assumes inv: "ll_lists ls h \<sigma>" and e: "linked ls \<sigma> e"
  shows "\<not> linked ls \<sigma> x \<Longrightarrow> agree (ll_lists ls) (ll_exec (Ll_after e x) h) (lists_exec ls (Ll_after e x) \<sigma>)"
    "\<not> linked ls \<sigma> x \<Longrightarrow> agree (ll_lists ls) (ll_exec (Ll_before e x) h) (lists_exec ls (Ll_before e x) \<sigma>)"
    "agree (ll_lists ls) (ll_exec (Ll_remove e) h) (lists_exec ls (Ll_remove e) \<sigma>)"
    "agree (ll_lists ls) (ll_exec (Ll_next_of e) h) (lists_exec ls (Ll_next_of e) \<sigma>)"
    "agree (ll_lists ls) (ll_exec (Ll_prev_of e) h) (lists_exec ls (Ll_prev_of e) \<sigma>)"
proof -
  define l where "l = owner ls \<sigma> e"
  have l: "l \<in> set ls" "e \<in> set (\<sigma> l)" using owner_has [OF e] by (simp_all add: l_def)
  then obtain as bs where xs: "\<sigma> l = as @ e # bs" by (meson split_list)
  have h: "ll_list h l (as @ e # bs)" using inv l(1) xs by (simp add: ll_lists_def flip: xs)
  have d: "distinct (as @ e # bs)" using ll_listD(1) [OF h] .
  have free: "x \<notin> set (as @ e # bs)" if "\<not> linked ls \<sigma> x" for x using that l(1) by (auto simp: linked_def list_ex_iff simp flip: xs)
  have out: "e \<notin> set as" using d by simp
  note [simp] = around_simps [OF out]
  show "agree (ll_lists ls) (ll_exec (Ll_after e x) h) (lists_exec ls (Ll_after e x) \<sigma>)" if "\<not> linked ls \<sigma> x"
    unfolding ll_exec.simps lists_exec.simps Let_def l_def [symmetric] xs around_simps [OF out]
    by (rule agree_quiet [OF inv l(1) insert_after_step [OF h free [OF that]]]) (use that in \<open>auto simp: xs\<close>)
  show "agree (ll_lists ls) (ll_exec (Ll_before e x) h) (lists_exec ls (Ll_before e x) \<sigma>)" if "\<not> linked ls \<sigma> x"
    unfolding ll_exec.simps lists_exec.simps Let_def l_def [symmetric] xs around_simps [OF out]
    by (rule agree_quiet [OF inv l(1) insert_before_step [OF h free [OF that]]]) (use that in \<open>auto simp: xs\<close>)
  show "agree (ll_lists ls) (ll_exec (Ll_remove e) h) (lists_exec ls (Ll_remove e) \<sigma>)"
    unfolding ll_exec.simps lists_exec.simps Let_def l_def [symmetric] xs around_simps [OF out]
    by (rule agree_quiet [OF inv l(1) remove_step [OF h], where x = e]) (auto simp: xs)
  show "agree (ll_lists ls) (ll_exec (Ll_next_of e) h) (lists_exec ls (Ll_next_of e) \<sigma>)"
    unfolding ll_exec.simps lists_exec.simps l_def [symmetric] xs
    by (intro agree_seen inv) (simp add: next_at(2) [OF h] ref_of_hd)
  show "agree (ll_lists ls) (ll_exec (Ll_prev_of e) h) (lists_exec ls (Ll_prev_of e) \<sigma>)"
    unfolding ll_exec.simps lists_exec.simps l_def [symmetric] xs
    by (intro agree_seen inv) (simp add: prev_at [OF h] before_of_at [OF d] ref_of_hd hd_rev)
qed

lemma agree_op: "ll_lists ls h \<sigma> \<Longrightarrow> ll_op_ok ls \<sigma> x \<Longrightarrow> agree (ll_lists ls) (ll_exec x h) (lists_exec ls x \<sigma>)"
  using agree_at_list agree_at_element by (cases x) (simp_all del: ll_exec.simps lists_exec.simps)

interpretation ll_side: simulation ll_exec "lists_exec ls" "ll_op_ok ls" "ll_lists ls" for ls
  by unfold_locales (rule agree_op)

text \<open>Empty lists, initialised one after the other.\<close>

definition ll_init_all :: "nat list \<Rightarrow> ll_heap \<Rightarrow> ll_heap" where
  "ll_init_all ls h = foldl ll_init h ls"

lemma ll_init_other: "k \<noteq> l \<Longrightarrow> ll_list h k [] \<Longrightarrow> ll_list (ll_init h l) k []"
  by (auto simp: ll_list_def ll_init_def ll_pairs_def ll_content_def)

lemma ll_init_all_lists: "ll_lists ls (ll_init_all ls h) (\<lambda>l. [])"
proof -
  have "ll_list (foldl ll_init h ls) l []" if "l \<in> set ls \<or> ll_list h l []" for l
    using that
  proof (induction ls arbitrary: h)
    case (Cons k ls)
    have "l \<in> set ls \<or> ll_list (ll_init h k) l []" using Cons.prems init_list ll_init_other by (cases "l = k") auto
    then show ?case using Cons.IH [of "ll_init h k"] by simp
  qed simp
  then show ?thesis by (simp add: ll_lists_def ll_init_all_def)
qed

text \<open>C15: doubly linked lists side by side behave like lists: on freshly initialised lists in one heap, any sequence of pushes,
  enqueues, pops, insertions before and after an element, removals and traversals that puts an element into a list only when
  it is in none and names only elements of lists returns what the same operations on lists of elements return, also when
  elements move from one list to another; a pop of an empty list dereferences \<open>NULL\<close>.
\<close>

theorem ll_runs_like_lists:
  assumes "ops_ok (lists_exec ls) (ll_op_ok ls) xs (\<lambda>l. [])"
  shows "bind_run (run_ops ll_exec xs (ll_init_all ls h)) (\<lambda>(rs, h1). ret rs) =
    bind_run (run_ops (lists_exec ls) xs (\<lambda>l. [])) (\<lambda>(rs, \<sigma>). ret rs)"
  using ll_side.same_results [OF ll_init_all_lists assms] .

text \<open>Elements 1, 2 and 3 in list 0; 2 moves to list 5, before 4.\<close>

definition ex_ll_ops :: "ll_op list" where
  "ex_ll_ops = [Ll_enqueue 0 1, Ll_enqueue 0 3, Ll_after 1 2, Ll_push 5 4, Ll_walk 0, Ll_remove 2, Ll_before 4 2,
     Ll_walk 0, Ll_walk_back 5, Ll_next_of 2, Ll_prev_of 2, Ll_pop 0, Ll_first 0, Ll_last 5]"

theorem ll_runs_like_lists_witness:
  "bind_run (run_ops ll_exec ex_ll_ops (ll_init_all [0, 5] ex_ll_empty)) (\<lambda>(rs, h1). ret rs) =
   ret [[], [], [], [], [LL_elem 1, LL_elem 2, LL_elem 3], [], [], [LL_elem 1, LL_elem 3], [LL_elem 4, LL_elem 2], [LL_elem 4], [LL_null],
     [], [LL_elem 3], [LL_elem 4]]"
proof -
  have "ops_ok (lists_exec [0, 5]) (ll_op_ok [0, 5]) ex_ll_ops (\<lambda>l. [])"
    by (simp add: ex_ll_ops_def linked_def Let_def)
  moreover have "bind_run (run_ops (lists_exec [0, 5]) ex_ll_ops (\<lambda>l. [])) (\<lambda>(rs, \<sigma>). ret rs) =
     ret [[], [], [], [], [LL_elem 1, LL_elem 2, LL_elem 3], [], [], [LL_elem 1, LL_elem 3], [LL_elem 4, LL_elem 2], [LL_elem 4], [LL_null],
     [], [LL_elem 3], [LL_elem 4]]"
    by (simp add: ex_ll_ops_def Let_def ref_of_def hd_opt_def)
  ultimately show ?thesis using ll_runs_like_lists [of "[0, 5]" ex_ll_ops ex_ll_empty] by simp
qed

end
