(* ===== verification/Sll_Seq.thy ===== *)
theory Sll_Seq
  imports List_Props
begin

text \<open>
  Several singly linked lists that share one heap: sequences of operations on them return what the same operations on lists
  of elements return, insertions behind the back of \<open>end\<close> included.
\<close>

section \<open>Operations\<close>

datatype sll_op =
    Sll_push nat nat | Sll_enqueue nat nat | Sll_pop nat | Sll_remove nat nat | Sll_after nat nat
  | Sll_first nat | Sll_last nat | Sll_walk nat | Sll_next_of nat

fun sll_exec :: "sll_op \<Rightarrow> sll_heap \<Rightarrow> (nat option list \<times> sll_heap) run" where
  "sll_exec (Sll_push l x) h = ret ([], sll_push h l x)"
| "sll_exec (Sll_enqueue l x) h = quietly (sll_enqueue h l x)"
| "sll_exec (Sll_pop l) h = quietly (sll_pop h l)"
| "sll_exec (Sll_remove l e) h = quietly (sll_remove h l e)"
| "sll_exec (Sll_after e x) h = ret ([], sll_insert_after h e x)"
| "sll_exec (Sll_first l) h = ret ([sll_head_of h l], h)"
| "sll_exec (Sll_last l) h = seen h (bind_run (sll_last h l) (\<lambda>r. ret [r]))"
| "sll_exec (Sll_walk l) h = seen h (bind_run (sll_for_each h l) (\<lambda>xs. ret (map Some xs)))"
| "sll_exec (Sll_next_of e) h = seen h (bind_run (sll_next h (Some e)) (\<lambda>r. ret [r]))"

section \<open>The same on lists\<close>

text \<open>The state of a list: the elements its \<open>end\<close> knows of, and those behind.\<close>

abbreviation whole :: "(nat \<Rightarrow> nat list \<times> nat list) \<Rightarrow> nat \<Rightarrow> nat list" where
  "whole \<sigma> l \<equiv> fst (\<sigma> l) @ snd (\<sigma> l)"

fun views_exec :: "nat list \<Rightarrow> sll_op \<Rightarrow> (nat \<Rightarrow> nat list \<times> nat list) \<Rightarrow> (nat option list \<times> (nat \<Rightarrow> nat list \<times> nat list)) run" where
  "views_exec ls (Sll_push l x) \<sigma> = ret ([], \<sigma>(l := (x # fst (\<sigma> l), snd (\<sigma> l))))"
| "views_exec ls (Sll_enqueue l x) \<sigma> = ret ([], \<sigma>(l := (whole \<sigma> l @ [x], [])))"
| "views_exec ls (Sll_pop l) \<sigma> = (if whole \<sigma> l = [] then fail Assert_failed else ret ([], \<sigma>(l := (tl (fst (\<sigma> l)), snd (\<sigma> l)))))"
| "views_exec ls (Sll_remove l e) \<sigma> = (if e \<in> set (whole \<sigma> l) then ret ([], \<sigma>(l := cut_out e (\<sigma> l))) else fail Assert_failed)"
| "views_exec ls (Sll_after e x) \<sigma> = (let l = owner ls (whole \<sigma>) e in ret ([], \<sigma>(l := put_behind e x (\<sigma> l))))"
| "views_exec ls (Sll_first l) \<sigma> = ret ([hd_opt (whole \<sigma> l)], \<sigma>)"
| "views_exec ls (Sll_last l) \<sigma> = ret ([hd_opt (rev (fst (\<sigma> l)))], \<sigma>)"
| "views_exec ls (Sll_walk l) \<sigma> = ret (map Some (whole \<sigma> l), \<sigma>)"
| "views_exec ls (Sll_next_of e) \<sigma> = ret ([after_of e (whole \<sigma> (owner ls (whole \<sigma>) e))], \<sigma>)"

section \<open>What the caller sees to\<close>

text \<open>
  An element is put into a list only when it is in none, and an element that is named is in one. The element \<open>end\<close> points into
  does not go while others are behind it.
\<close>

fun sll_op_ok :: "nat list \<Rightarrow> (nat \<Rightarrow> nat list \<times> nat list) \<Rightarrow> sll_op \<Rightarrow> bool" where
  "sll_op_ok ls \<sigma> (Sll_push l x) = (l \<in> set ls \<and> \<not> linked ls (whole \<sigma>) x)"
| "sll_op_ok ls \<sigma> (Sll_enqueue l x) = (l \<in> set ls \<and> \<not> linked ls (whole \<sigma>) x)"
| "sll_op_ok ls \<sigma> (Sll_pop l) = (l \<in> set ls \<and> (whole \<sigma> l \<noteq> [] \<longrightarrow> \<not> stale_if_gone (hd (whole \<sigma> l)) (\<sigma> l)))"
| "sll_op_ok ls \<sigma> (Sll_remove l e) = (l \<in> set ls \<and> \<not> stale_if_gone e (\<sigma> l))"
| "sll_op_ok ls \<sigma> (Sll_after e x) = (linked ls (whole \<sigma>) e \<and> \<not> linked ls (whole \<sigma>) x)"
| "sll_op_ok ls \<sigma> (Sll_first l) = (l \<in> set ls)"
| "sll_op_ok ls \<sigma> (Sll_last l) = (l \<in> set ls)"
| "sll_op_ok ls \<sigma> (Sll_walk l) = (l \<in> set ls)"
| "sll_op_ok ls \<sigma> (Sll_next_of e) = linked ls (whole \<sigma>) e"

section \<open>Lists side by side\<close>

definition sll_views :: "nat list \<Rightarrow> sll_heap \<Rightarrow> (nat \<Rightarrow> nat list \<times> nat list) \<Rightarrow> bool" where
  "sll_views ls h \<sigma> \<longleftrightarrow> (\<forall>l \<in> set ls. sll_view h l (fst (\<sigma> l)) (snd (\<sigma> l))) \<and>
     (\<forall>l \<in> set ls. \<forall>k \<in> set ls. l \<noteq> k \<longrightarrow> set (whole \<sigma> l) \<inter> set (whole \<sigma> k) = {})"

text \<open>A list outside the frame of an operation.\<close>

lemma sll_view_frame:
  assumes "sll_frame l X h h'" "sll_view h k ys zs" "k \<noteq> l" "X \<inter> set (ys @ zs) = {}"
  shows "sll_view h' k ys zs"
proof -
  have "sll_load h' s = sll_load h s" if "(s, r) \<in> set (sll_pairs k (ys @ zs))" for s r
  proof -
    have "s \<in> set (map fst (sll_pairs k (ys @ zs)))" using that by force
    then show ?thesis using assms(1,3,4) unfolding sll_pairs_fst sll_frame_def by (auto simp: sll_load_def)
  qed
  then have "sll_ok h' (sll_pairs k (ys @ zs)) \<longleftrightarrow> sll_ok h (sll_pairs k (ys @ zs))" unfolding sll_ok_def by fastforce
  then show ?thesis using assms(1-3) by (simp add: sll_view_def sll_frame_def)
qed

lemma sll_views_step:
  assumes "sll_views ls h \<sigma>" "l \<in> set ls" "sll_view h' l (fst v) (snd v)" "sll_frame l (insert x (set (whole \<sigma> l))) h h'"
    and "set (fst v @ snd v) \<subseteq> insert x (set (whole \<sigma> l))" "x \<in> set (whole \<sigma> l) \<or> \<not> linked ls (whole \<sigma>) x"
  shows "sll_views ls h' (\<sigma>(l := v))"
proof -
  have far: "insert x (set (whole \<sigma> l)) \<inter> set (whole \<sigma> k) = {}" if "k \<in> set ls" "k \<noteq> l" for k
    using assms(1,2,6) that by (auto simp: sll_views_def linked_def list_ex_iff)
  have "sll_view h' k (fst (\<sigma> k)) (snd (\<sigma> k))" if "k \<in> set ls" "k \<noteq> l" for k
    by (rule sll_view_frame [OF assms(4)]) (use assms(1) far [OF that] that in \<open>auto simp: sll_views_def\<close>)
  moreover have "set (fst v @ snd v) \<inter> set (whole \<sigma> k) = {}" if "k \<in> set ls" "k \<noteq> l" for k using far [OF that] assms(5) by blast
  ultimately show ?thesis using assms(1,3) unfolding sll_views_def by (auto simp: Int_commute)
qed

section \<open>Each operation\<close>

lemma agree_changed:
  assumes "sll_views ls h \<sigma>" "l \<in> set ls" "c = ret h'" "sll_view h' l (fst v) (snd v)" "sll_frame l (insert x (set (whole \<sigma> l))) h h'"
    and "set (fst v @ snd v) \<subseteq> insert x (set (whole \<sigma> l))" "x \<in> set (whole \<sigma> l) \<or> \<not> linked ls (whole \<sigma>) x"
  shows "agree (sll_views ls) (quietly c) (ret ([], \<sigma>(l := v)))"
  by (rule agree_quietly [where R = "sll_views ls", OF assms(3) sll_views_step [OF assms(1,2,4-7)]])

lemma sll_frame_mono: "sll_frame l X h h' \<Longrightarrow> X \<subseteq> Y \<Longrightarrow> sll_frame l Y h h'"
  unfolding sll_frame_def by blast

lemma cut_out_subset: "set (fst (cut_out e v)) \<union> set (snd (cut_out e v)) \<subseteq> set (fst v @ snd v)"
  by (cases v) (auto dest: in_set_butlastD set_mp [OF set_remove1_subset])

lemma put_after_subset: "set (put_after e x ys) \<subseteq> insert x (set ys)"
  by (induction ys) auto

lemma put_behind_subset: "set (fst (put_behind e x v)) \<union> set (snd (put_behind e x v)) \<subseteq> insert x (set (fst v @ snd v))"
  using put_after_subset [of e x "fst v"] put_after_subset [of e x "snd v"] by (cases v) auto

lemma sll_first_of_hd: "sll_first_of = hd_opt"
  by (simp add: fun_eq_iff sll_first_of_def hd_opt_def)

lemma agree_at_sll:
  assumes inv: "sll_views ls h \<sigma>" and l: "l \<in> set ls"
  shows "\<not> linked ls (whole \<sigma>) x \<Longrightarrow> agree (sll_views ls) (sll_exec (Sll_push l x) h) (views_exec ls (Sll_push l x) \<sigma>)"
    "\<not> linked ls (whole \<sigma>) x \<Longrightarrow> agree (sll_views ls) (sll_exec (Sll_enqueue l x) h) (views_exec ls (Sll_enqueue l x) \<sigma>)"
    "whole \<sigma> l \<noteq> [] \<longrightarrow> \<not> stale_if_gone (hd (whole \<sigma> l)) (\<sigma> l) \<Longrightarrow>
      agree (sll_views ls) (sll_exec (Sll_pop l) h) (views_exec ls (Sll_pop l) \<sigma>)"
    "\<not> stale_if_gone e (\<sigma> l) \<Longrightarrow> agree (sll_views ls) (sll_exec (Sll_remove l e) h) (views_exec ls (Sll_remove l e) \<sigma>)"
proof -
  obtain ys zs where s: "\<sigma> l = (ys, zs)" by (cases "\<sigma> l")
  then have h: "sll_view h l ys zs" using inv l unfolding sll_views_def by fastforce
  note step = agree_changed [OF inv l]
  have free: "x \<notin> set (ys @ zs)" if "\<not> linked ls (whole \<sigma>) x" for x using that l s by (auto simp: linked_def list_ex_iff)
  show "agree (sll_views ls) (sll_exec (Sll_push l x) h) (views_exec ls (Sll_push l x) \<sigma>)" if "\<not> linked ls (whole \<sigma>) x"
  proof -
    note p = sll_push_view [OF h free [OF that]]
    have "agree (sll_views ls) (quietly (ret (sll_push h l x))) (ret ([], \<sigma>(l := (x # ys, zs))))"
      by (rule step [OF refl, where x = x]) (use p that s in \<open>auto elim: sll_frame_mono\<close>)
    then show ?thesis using s by simp
  qed
  show "agree (sll_views ls) (sll_exec (Sll_enqueue l x) h) (views_exec ls (Sll_enqueue l x) \<sigma>)" if "\<not> linked ls (whole \<sigma>) x"
  proof -
    note x = free [OF that]
    obtain h' where "sll_enqueue h l x = ret h'" "sll_view h' l (ys @ zs @ [x]) []" "sll_frame l (insert x (set (ys @ zs))) h h'"
      using sll_enqueue_step [OF sll_view_weak [OF h] x] by (auto simp: sll_list_view)
    then have "agree (sll_views ls) (quietly (sll_enqueue h l x)) (ret ([], \<sigma>(l := (ys @ zs @ [x], []))))"
      by (intro step [where x = x]) (use that s in auto)
    then show ?thesis using s by simp
  qed
  have gone: "agree (sll_views ls) (quietly c) (ret ([], \<sigma>(l := v)))"
    if "y \<in> set (ys @ zs)" "c = ret h'" "sll_view h' l (fst v) (snd v)" "sll_frame l (set (ys @ zs)) h h'"
      "set (fst v @ snd v) \<subseteq> set (ys @ zs)" for c h' v y
    by (rule step [OF that(2,3), where x = y]) (use that s in \<open>auto elim: sll_frame_mono\<close>)
  show "agree (sll_views ls) (sll_exec (Sll_pop l) h) (views_exec ls (Sll_pop l) \<sigma>)"
    if "whole \<sigma> l \<noteq> [] \<longrightarrow> \<not> stale_if_gone (hd (whole \<sigma> l)) (\<sigma> l)"
  proof (cases ys)
    case Nil
    then have "zs = []" "sll_head_of h l = None" using h by (auto simp: sll_view_def dest: sll_head_first)
    then show ?thesis using s Nil by (simp add: sll_pop_def)
  next
    case (Cons y us)
    have "\<not> stale_if_gone y (y # us, zs)" using that s Cons by simp
    then obtain h' where "sll_pop h l = ret h'" "sll_view h' l us zs" "sll_frame l (set (ys @ zs)) h h'"
      using sll_pop_view [of h l y us zs] h Cons by auto
    then have "agree (sll_views ls) (quietly (sll_pop h l)) (ret ([], \<sigma>(l := (us, zs))))"
      by (intro gone [of y]) (use Cons in auto)
    then show ?thesis using s Cons by simp
  qed
  show "agree (sll_views ls) (sll_exec (Sll_remove l e) h) (views_exec ls (Sll_remove l e) \<sigma>)" if ok: "\<not> stale_if_gone e (\<sigma> l)"
  proof (cases "e \<in> set (ys @ zs)")
    case True
    obtain h' where "sll_remove h l e = ret h'" "sll_view h' l (fst (cut_out e (ys, zs))) (snd (cut_out e (ys, zs)))"
        "sll_frame l (set (ys @ zs)) h h'"
      using sll_remove_view [OF h True] ok s by (auto simp: case_prod_unfold simp del: cut_out.simps)
    then have "agree (sll_views ls) (quietly (sll_remove h l e)) (ret ([], \<sigma>(l := cut_out e (ys, zs))))"
      by (intro gone [OF True]) (use cut_out_subset [of e "(ys, zs)"] in \<open>auto simp del: cut_out.simps\<close>)
    then show ?thesis using s True by (simp del: cut_out.simps)
  next
    case False
    then show ?thesis using sll_remove_out [of h l "ys @ zs" e] h s by (auto simp: sll_view_def)
  qed
qed

lemma agree_sll_look:
  assumes inv: "sll_views ls h \<sigma>" and l: "l \<in> set ls"
  shows "agree (sll_views ls) (sll_exec (Sll_first l) h) (views_exec ls (Sll_first l) \<sigma>)"
    "agree (sll_views ls) (sll_exec (Sll_last l) h) (views_exec ls (Sll_last l) \<sigma>)"
    "agree (sll_views ls) (sll_exec (Sll_walk l) h) (views_exec ls (Sll_walk l) \<sigma>)"
proof -
  let ?ys = "fst (\<sigma> l)" and ?zs = "snd (\<sigma> l)"
  have h: "sll_view h l ?ys ?zs" using inv l by (simp add: sll_views_def)
  have hd: "sll_head_of h l = hd_opt (?ys @ ?zs)"
    using h sll_head_first [of h l "?ys @ ?zs"] by (simp add: sll_view_def sll_first_of_hd)
  then show "agree (sll_views ls) (sll_exec (Sll_first l) h) (views_exec ls (Sll_first l) \<sigma>)"
    using inv by (simp add: agree_def)
  have "sll_last h l = ret (hd_opt (rev ?ys))"
  proof (cases ?ys rule: rev_cases)
    case Nil
    then show ?thesis using h hd by (simp add: sll_last_def sll_is_empty_def hd_opt_def sll_view_def)
  next
    case (snoc us y)
    then have "sll_end_of h l = SLL_next y" "hd_opt (?ys @ ?zs) \<noteq> None" using h by (auto simp: sll_view_def hd_opt_def split: list.split)
    then show ?thesis using hd snoc by (simp add: sll_last_def sll_is_empty_def hd_opt_def)
  qed
  then show "agree (sll_views ls) (sll_exec (Sll_last l) h) (views_exec ls (Sll_last l) \<sigma>)"
    unfolding sll_exec.simps views_exec.simps by (intro agree_seen inv) simp
  show "agree (sll_views ls) (sll_exec (Sll_walk l) h) (views_exec ls (Sll_walk l) \<sigma>)"
    unfolding sll_exec.simps views_exec.simps
    by (intro agree_seen inv) (simp add: sll_for_each_list [OF sll_view_weak [OF h]])
qed

lemma agree_at_sll_element:
  assumes inv: "sll_views ls h \<sigma>" and e: "linked ls (whole \<sigma>) e"
  shows "\<not> linked ls (whole \<sigma>) x \<Longrightarrow> agree (sll_views ls) (sll_exec (Sll_after e x) h) (views_exec ls (Sll_after e x) \<sigma>)"
    "agree (sll_views ls) (sll_exec (Sll_next_of e) h) (views_exec ls (Sll_next_of e) \<sigma>)"
proof -
  define l where "l = owner ls (whole \<sigma>) e"
  have l: "l \<in> set ls" "e \<in> set (whole \<sigma> l)" using owner_has [OF e] by (simp_all add: l_def)
  have h: "sll_view h l (fst (\<sigma> l)) (snd (\<sigma> l))" using inv l(1) by (simp add: sll_views_def)
  show "agree (sll_views ls) (sll_exec (Sll_after e x) h) (views_exec ls (Sll_after e x) \<sigma>)" if x: "\<not> linked ls (whole \<sigma>) x"
  proof -
    have "x \<notin> set (whole \<sigma> l)" using x l(1) by (auto simp: linked_def list_ex_iff)
    note i = sll_insert_after_view [OF h l(2) this]
    have "agree (sll_views ls) (quietly (ret (sll_insert_after h e x))) (ret ([], \<sigma>(l := put_behind e x (\<sigma> l))))"
      by (rule agree_changed [OF inv l(1) refl _ i(2)])
        (use i(1) x put_behind_subset [of e x "\<sigma> l"] in \<open>simp_all add: case_prod_unfold del: put_behind.simps\<close>)
    then show ?thesis by (simp add: l_def Let_def del: put_behind.simps)
  qed
  obtain as bs where xs: "whole \<sigma> l = as @ e # bs" using l(2) by (meson split_list)
  have "e \<notin> set as" "sll_ok h (sll_pairs l (as @ e # bs))" using h unfolding sll_view_def xs by auto
  then have "sll_next h (Some e) = ret (after_of e (whole \<sigma> l))"
    unfolding xs by (simp add: sll_next_def sll_next_at sll_first_of_hd)
  then show "agree (sll_views ls) (sll_exec (Sll_next_of e) h) (views_exec ls (Sll_next_of e) \<sigma>)"
    unfolding sll_exec.simps views_exec.simps l_def [symmetric] by (intro agree_seen inv) simp
qed

interpretation sll_side: simulation sll_exec "views_exec ls" "sll_op_ok ls" "sll_views ls" for ls
proof
  fix h \<sigma> x
  assume "sll_views ls h \<sigma>" "sll_op_ok ls \<sigma> x"
  then show "agree (sll_views ls) (sll_exec x h) (views_exec ls x \<sigma>)"
    using agree_at_sll agree_sll_look agree_at_sll_element
    by (cases x) (simp_all del: sll_exec.simps views_exec.simps stale_if_gone.simps)
qed

section \<open>Property\<close>

text \<open>Empty lists, initialised one after the other.\<close>

definition sll_init_all :: "nat list \<Rightarrow> sll_heap \<Rightarrow> sll_heap" where
  "sll_init_all ls h = foldl sll_init h ls"

lemma sll_init_frame: "sll_frame l {} h (sll_init h l)"
  unfolding sll_init_def by (simp add: sll_frame_store)

lemma sll_init_all_views: "sll_views ls (sll_init_all ls h) (\<lambda>l. ([], []))"
proof -
  have "sll_view (foldl sll_init h ls) l [] []" if "l \<in> set ls \<or> sll_view h l [] []" for l
    using that
  proof (induction ls arbitrary: h)
    case (Cons k ls)
    have "sll_view (sll_init h k) k [] []" using sll_init_list by (simp add: sll_list_view)
    then have "l \<in> set ls \<or> sll_view (sll_init h k) l [] []"
      using Cons.prems sll_view_frame [OF sll_init_frame, of h l "[]" "[]" k] by (cases "l = k") auto
    then show ?case using Cons.IH [of "sll_init h k"] by simp
  qed simp
  then show ?thesis by (simp add: sll_views_def sll_init_all_def)
qed

text \<open>C31: singly linked lists side by side behave like lists: on freshly initialised lists in one heap, any sequence of pushes,
  enqueues, pops, removals, insertions after an element and traversals returns what the same operations on lists of elements
  return. \<open>A3_SLL_END\<close> alone may lag behind, as its documentation says: it may not see the elements inserted behind it. A pop of an empty list and the removal of an element the list does not have fail their
  assertions. The caller has to see to it that an element is put into a list only when it is in none, and that the element \<open>end\<close>
  points into is not taken out while others are behind it.\<close>

theorem sll_runs_like_lists:
  assumes "ops_ok (views_exec ls) (sll_op_ok ls) xs (\<lambda>l. ([], []))"
  shows "bind_run (run_ops sll_exec xs (sll_init_all ls h)) (\<lambda>(rs, h1). ret rs) =
    bind_run (run_ops (views_exec ls) xs (\<lambda>l. ([], []))) (\<lambda>(rs, \<sigma>). ret rs)"
  using sll_side.same_results [OF sll_init_all_views assms] .

text \<open>8 goes in behind 3, the last element \<open>end\<close> knows of; the next enqueue finds it; 2 moves to list 5. At the end list 0 is
  asked to remove what it does not have.\<close>

definition ex_sll_ops :: "sll_op list" where
  "ex_sll_ops = [Sll_enqueue 0 1, Sll_enqueue 0 3, Sll_after 1 2, Sll_after 3 8, Sll_last 0, Sll_walk 0, Sll_enqueue 0 9, Sll_last 0,
     Sll_remove 0 2, Sll_push 5 2, Sll_pop 0, Sll_walk 0, Sll_walk 5, Sll_next_of 3, Sll_first 5]"

theorem sll_runs_like_lists_witness:
  "bind_run (run_ops sll_exec ex_sll_ops (sll_init_all [0, 5] ex_sll_empty)) (\<lambda>(rs, h1). ret rs) =
     ret [[], [], [], [], [Some 3], [Some 1, Some 2, Some 3, Some 8], [], [Some 9], [], [], [], [Some 3, Some 8, Some 9], [Some 2],
       [Some 8], [Some 2]] \<and>
   bind_run (run_ops sll_exec (ex_sll_ops @ [Sll_remove 0 2]) (sll_init_all [0, 5] ex_sll_empty)) (\<lambda>(rs, h1). ret rs) =
     fail Assert_failed"
  using sll_runs_like_lists [of "[0, 5]" ex_sll_ops ex_sll_empty] sll_runs_like_lists [of "[0, 5]" "ex_sll_ops @ [Sll_remove 0 2]" ex_sll_empty]
  by (simp add: ex_sll_ops_def linked_def Let_def hd_opt_def)

end
