(* ===== verification/Cache.thy ===== *)
theory Cache
  imports Ht
begin

text \<open>
  The bounded cache of \<open>src/include/a3/cache.h\<close>: a hash table that may not grow, one access
  bit for each of its slots in 64-bit blocks, and a clock hand \<open>eviction_index\<close>.

  The eviction callback gets a context, the key and the value; here it is a function that
  returns the new context. It is called on entries that are deleted right after, so what it
  does to the objects it is given does not matter. \<open>ok\<close> arguments are allocation outcomes.
\<close>

record ('k, 'v, 'c) cache =
  eviction_index :: size_t
  eviction_callback :: "('c \<Rightarrow> 'k \<Rightarrow> 'v \<Rightarrow> 'c) option"
  accessed :: "u64 list"
  table :: "('k, 'v) ht"

definition cache_block_full :: u64 where
  "cache_block_full = - 1"

definition cache_entries_per_block :: nat where
  "cache_entries_per_block = 8 * 8"

section \<open>Creation and release\<close>

definition cache_init ::
  "('k, 'v) ht_params \<Rightarrow> bool \<Rightarrow> bool \<Rightarrow> bool \<Rightarrow> (nat \<Rightarrow> u8) \<Rightarrow> size_t \<Rightarrow> ('c \<Rightarrow> 'k \<Rightarrow> 'v \<Rightarrow> 'c) option \<Rightarrow>
    ('k, 'v, 'c) cache run" where
  "cache_init p ok_accessed ok_table ok_resize rnd capacity cb = assert_c (0 < capacity)
     (require ok_accessed Panicked
       (bind_run (ht_init p ok_table rnd None False) (\<lambda>t.
        bind_run (ht_resize p ok_resize t capacity) (\<lambda>t'.
          ret \<lparr>eviction_index = 0, eviction_callback = cb,
               accessed = replicate (capacity div cache_entries_per_block) 0, table = t'\<rparr>))))"

definition cache_new ::
  "('k, 'v) ht_params \<Rightarrow> bool \<Rightarrow> bool \<Rightarrow> bool \<Rightarrow> bool \<Rightarrow> (nat \<Rightarrow> u8) \<Rightarrow> size_t \<Rightarrow>
    ('c \<Rightarrow> 'k \<Rightarrow> 'v \<Rightarrow> 'c) option \<Rightarrow> ('k, 'v, 'c) cache option run" where
  "cache_new p ok ok_accessed ok_table ok_resize rnd capacity cb = assert_c (0 < capacity)
     (if \<not> ok then ret None
      else bind_run (cache_init p ok_accessed ok_table ok_resize rnd capacity cb) (\<lambda>c. ret (Some c)))"

definition cache_destroy :: "('k, 'v, 'c) cache \<Rightarrow> ('k, 'v, 'c) cache" where
  "cache_destroy c = c\<lparr>accessed := [], table := ht_destroy (table c)\<rparr>"

definition cache_free :: "('k, 'v, 'c) cache option \<Rightarrow> unit run" where
  "cache_free c = assert_c (c \<noteq> None) (case c of None \<Rightarrow> ret () | Some c \<Rightarrow> (let c' = cache_destroy c in ret ()))"

section \<open>Access bits\<close>

definition access_bit :: "size_t \<Rightarrow> u64" where
  "access_bit index = push_bit (index mod cache_entries_per_block) 1"

definition cache_access :: "('k, 'v, 'c) cache \<Rightarrow> size_t \<Rightarrow> ('k, 'v, 'c) cache run" where
  "cache_access c index = bind_run (array_get (accessed c) (index div cache_entries_per_block)) (\<lambda>block.
     let bit = access_bit index;
         block' = (if or block bit = cache_block_full then 0 else block)
     in ret (c\<lparr>accessed := (accessed c)[index div cache_entries_per_block := or block' bit]\<rparr>))"

definition cache_accessed :: "('k, 'v, 'c) cache \<Rightarrow> size_t \<Rightarrow> bool run" where
  "cache_accessed c index = bind_run (array_get (accessed c) (index div cache_entries_per_block)) (\<lambda>block.
     ret (and block (access_bit index) \<noteq> 0))"

text \<open>\<open>memset(cache->accessed, 0, cap / 64 * 8)\<close>.\<close>

definition cache_forget :: "('k, 'v, 'c) cache \<Rightarrow> ('k, 'v, 'c) cache run" where
  "cache_forget c = (let n = cap (table c) div cache_entries_per_block in
     require (n \<le> length (accessed c)) Out_of_bounds
       (ret (c\<lparr>accessed := replicate n 0 @ drop n (accessed c)\<rparr>)))"

section \<open>Operations\<close>

definition cache_find :: "('k, 'v) ht_params \<Rightarrow> ('k, 'v, 'c) cache \<Rightarrow> 'k \<Rightarrow> (('k, 'v, 'c) cache \<times> 'v option) run" where
  "cache_find p c key = bind_run (ht_find_index p (table c) key) (\<lambda>index.
     if index < 0 then ret (c, None)
     else (let i = nat index in assert_c (i < cap (table c))
       (bind_run (cache_access c i) (\<lambda>c'.
        bind_run (array_get (entries (table c')) i) (\<lambda>e. ret (c', Some (entry_value e)))))))"

text \<open>The \<open>do\<close> loop of \<open>A3_CACHE_EVICT\<close>; returns \<open>found\<close>.\<close>

partial_function (option) evict_loop ::
  "size_t \<Rightarrow> ('k, 'v, 'c) cache \<Rightarrow> (('k, 'v, 'c) cache \<times> bool) run" where
  "evict_loop start c =
     bind_run (cache_accessed c (eviction_index c)) (\<lambda>a.
     bind_run (if a then ret False
               else bind_run (array_get (entries (table c)) (eviction_index c)) (\<lambda>e. ret (entry_hash e \<noteq> 0))) (\<lambda>found.
       if found then ret (c, True)
       else require (0 < cap (table c)) Div_by_zero
         (let c' = c\<lparr>eviction_index := sz_add (eviction_index c) 1 mod cap (table c)\<rparr> in
          if eviction_index c' \<noteq> start then evict_loop start c' else ret (c', False))))"

definition cache_evict :: "('k, 'v, 'c) cache \<Rightarrow> 'c \<Rightarrow> (('k, 'v, 'c) cache \<times> 'c) run" where
  "cache_evict c ctx = (let start = eviction_index c in
     bind_run (evict_loop start c) (\<lambda>(c1, found).
       if eviction_index c1 = start \<and> \<not> found then fail Panicked
       else bind_run (case eviction_callback c1 of
           None \<Rightarrow> ret ctx
         | Some cb \<Rightarrow> bind_run (array_get (entries (table c1)) (eviction_index c1)) (\<lambda>e.
             ret (cb ctx (entry_key e) (entry_value e)))) (\<lambda>ctx'.
       bind_run (ht_delete_index (table c1) (eviction_index c1)) (\<lambda>(r, t).
       bind_run (cache_forget (c1\<lparr>table := t\<rparr>)) (\<lambda>c2. ret (c2, ctx'))))))"

definition cache_insert ::
  "('k, 'v) ht_params \<Rightarrow> bool \<Rightarrow> ('k, 'v, 'c) cache \<Rightarrow> 'k \<Rightarrow> 'v \<Rightarrow> 'c \<Rightarrow> (('k, 'v, 'c) cache \<times> 'c) run" where
  "cache_insert p ok c key v ctx =
     bind_run
       (bind_run (ht_insert p ok (table c) key v) (\<lambda>(r, t).
          let c1 = c\<lparr>table := t\<rparr> in
          if r then ret (c1, ctx)
          else bind_run (cache_evict c1 ctx) (\<lambda>(c2, ctx2).
               bind_run (ht_insert p ok (table c2) key v) (\<lambda>(r2, t2).
                 if r2 then ret (c2\<lparr>table := t2\<rparr>, ctx2) else fail Panicked))))
       (\<lambda>(c3, ctx3). bind_run (cache_find p c3 key) (\<lambda>(c4, val). ret (c4, ctx3)))"

definition cache_clear_step ::
  "nat \<Rightarrow> ('k, 'v, 'c) cache \<times> 'c \<Rightarrow> (('k, 'v, 'c) cache \<times> 'c) run" where
  "cache_clear_step i = (\<lambda>(c, ctx).
     bind_run (array_get (entries (table c)) i) (\<lambda>e.
       if entry_hash e = 0 then ret (c, ctx)
       else bind_run (ht_delete_index (table c) i) (\<lambda>(r, t).
         ret (c\<lparr>table := t\<rparr>, case eviction_callback c of
             None \<Rightarrow> ctx | Some cb \<Rightarrow> cb ctx (entry_key e) (entry_value e)))))"

definition cache_clear :: "('k, 'v, 'c) cache \<Rightarrow> 'c \<Rightarrow> (('k, 'v, 'c) cache \<times> 'c) run" where
  "cache_clear c ctx =
     bind_run (for_run [0..<cap (table c)] cache_clear_step (c, ctx)) (\<lambda>(c1, ctx1).
     bind_run (cache_forget c1) (\<lambda>c2. ret (c2, ctx1)))"

end
