(* ===== verification/Cache_Inv.thy ===== *)
theory Cache_Inv
  imports Cache Ht_Map
begin

text \<open>
  The invariant of a cache, and the behaviour of its operations on the map it stands for.
\<close>

unbundle bit_operations_syntax

section \<open>Access bits\<close>

lemma access_bit_exp: "access_bit i = 2 ^ (i mod 64)"
  by (simp add: access_bit_def cache_entries_per_block_def push_bit_of_1)

lemma access_bit_test: "and b (access_bit i) \<noteq> 0 \<longleftrightarrow> bit b (i mod 64)"
  by (simp add: access_bit_exp and_exp_eq_0_iff_not_bit)

lemma access_bit_not_full: "access_bit i \<noteq> - 1"
proof
  assume "access_bit i = - 1"
  then have "bit (access_bit i) n" if "n < 64" for n using that by simp
  then have "bit (access_bit i) 0" "bit (access_bit i) 1" by simp_all
  then show False by (simp add: access_bit_exp bit_exp_iff)
qed

lemma not_full_bit: "b \<noteq> (- 1 :: u64) \<Longrightarrow> \<exists>n < 64. \<not> bit b n"
  by (rule ccontr) (auto intro: bit_word_eqI)

section \<open>Invariant\<close>

text \<open>
  One access bit per slot, no block with all bits set, and a table of fixed capacity whose
  \<open>size\<close> is the number of its entries.
\<close>

definition cache_inv :: "('k \<Rightarrow> bool) \<Rightarrow> ('k, 'v) ht_params \<Rightarrow> ('k, 'v, 'c) cache \<Rightarrow> bool" where
  "cache_inv valid p c \<longleftrightarrow> ht_inv valid p (table c) \<and> \<not> can_grow (table c) \<and>
     cap (table c) = 64 * length (accessed c) \<and> eviction_index c < cap (table c) \<and>
     (\<forall>b \<in> set (accessed c). b \<noteq> - 1) \<and> ht_size (table c) = card (dom (ht_map (table c)))"

lemma cache_invD:
  assumes "cache_inv valid p c"
  shows "ht_inv valid p (table c)" "\<not> can_grow (table c)" "cap (table c) = 64 * length (accessed c)"
    "eviction_index c < cap (table c)" "ht_size (table c) = card (dom (ht_map (table c)))"
    "ht_wf valid p (table c)" "0 < cap (table c)" "length (entries (table c)) = cap (table c)"
    "cap (table c) < size_mod"
  using assms ht_wfD [of valid p "table c"] by (auto simp: cache_inv_def ht_inv_def)

lemma access_correct:
  assumes c: "cache_inv valid p c" and i: "i < cap (table c)"
  shows "\<exists>bs. cache_access c i = ret (c\<lparr>accessed := bs\<rparr>) \<and> cache_inv valid p (c\<lparr>accessed := bs\<rparr>)"
proof -
  let ?b = "accessed c ! (i div 64)"
  define n where "n = or (if or ?b (access_bit i) = - 1 then 0 else ?b) (access_bit i)"
  have lt: "i div 64 < length (accessed c)" using i cache_invD(3) [OF c] by (simp add: less_mult_imp_div_less mult.commute)
  have "cache_access c i = ret (c\<lparr>accessed := (accessed c)[i div 64 := n]\<rparr>)"
    using lt by (simp add: cache_access_def cache_entries_per_block_def cache_block_full_def Let_def n_def)
  moreover have "n \<noteq> - 1" using access_bit_not_full by (auto simp: n_def)
  then have "\<forall>b \<in> set ((accessed c)[i div 64 := n]). b \<noteq> - 1"
    using c set_update_subset_insert [of "accessed c" "i div 64" n] unfolding cache_inv_def by blast
  then have "cache_inv valid p (c\<lparr>accessed := (accessed c)[i div 64 := n]\<rparr>)"
    using c by (simp add: cache_inv_def)
  ultimately show ?thesis by blast
qed

text \<open>Whether slot \<open>i\<close> is marked as accessed.\<close>

definition marked :: "('k, 'v, 'c) cache \<Rightarrow> nat \<Rightarrow> bool" where
  "marked c i = bit (accessed c ! (i div 64)) (i mod 64)"

lemma accessed_correct:
  assumes c: "cache_inv valid p c" and i: "i < cap (table c)"
  shows "cache_accessed c i = ret (marked c i)"
proof -
  have "i div 64 < length (accessed c)" using i cache_invD(3) [OF c] by (simp add: less_mult_imp_div_less mult.commute)
  then show ?thesis using access_bit_test [of "accessed c ! (i div 64)" i]
    by (simp add: cache_accessed_def cache_entries_per_block_def marked_def)
qed

lemma unmarked_exists:
  assumes "cache_inv valid p c"
  shows "\<exists>z < cap (table c). \<not> marked c z"
proof -
  have "accessed c \<noteq> []" using cache_invD(3,7) [OF assms] by auto
  then have "accessed c ! 0 \<noteq> - 1" using assms by (simp add: cache_inv_def)
  then obtain n where "n < 64" "\<not> bit (accessed c ! 0) n" using not_full_bit by blast
  then show ?thesis using cache_invD(3) [OF assms] \<open>accessed c \<noteq> []\<close>
    by (intro exI [of _ n]) (cases "accessed c"; simp add: marked_def)
qed

lemma full_all_occupied:
  assumes wf: "ht_wf valid p t" and "cap t \<le> card (dom (ht_map t))" and "i < cap t"
  shows "occupied (entries t ! i)"
proof (rule ccontr)
  assume "\<not> occupied (entries t ! i)"
  moreover have "entries t ! i \<in> set (entries t)" using assms(3) ht_wfD(5) [OF wf] by simp
  ultimately have "length (filter occupied (entries t)) < length (entries t)" by (rule length_filter_less [rotated])
  moreover have "size (contents (entries t)) = length (filter occupied (entries t))"
    by (simp add: contents_def flip: mset_filter)
  ultimately show False using assms(2) ht_map_card(1) [OF wf] ht_wfD(5) [OF wf] by simp
qed

section \<open>Eviction\<close>

lemma evict_loop_correct:
  assumes c: "cache_inv valid p c" and z: "z < cap (table c)" "\<not> marked c z" "occupied (entries (table c) ! z)"
    and d: "slot_dist (cap (table c)) z (eviction_index c) \<le> slot_dist (cap (table c)) z start"
  shows "\<exists>i. evict_loop start c = ret (c\<lparr>eviction_index := i\<rparr>, True) \<and> i < cap (table c) \<and>
    occupied (entries (table c) ! i)"
  using assms
proof (induction "slot_dist (cap (table c)) z (eviction_index c)" arbitrary: c)
  case 0
  note i = cache_invD [OF 0(2)]
  have "eviction_index c = z" using slot_dist_eq_0 0(1,3) i(4) by metis
  then show ?case using 0 i accessed_correct [OF 0(2), of z]
    by (subst evict_loop.simps) (auto simp: occupied_def intro: exI [of _ z])
next
  case (Suc d)
  note i = cache_invD [OF Suc(3)]
  let ?n = "cap (table c)" and ?e = "eviction_index c"
  have run: "evict_loop start c = (if \<not> marked c ?e \<and> occupied (entries (table c) ! ?e) then ret (c, True)
      else let c' = c\<lparr>eviction_index := Suc ?e mod ?n\<rparr> in
        if eviction_index c' \<noteq> start then evict_loop start c' else ret (c', False))"
    using i accessed_correct [OF Suc(3) i(4)] sz_add_eq [of ?e 1]
    by (subst evict_loop.simps) (simp add: occupied_def Let_def)
  show ?case
  proof (cases "\<not> marked c ?e \<and> occupied (entries (table c) ! ?e)")
    case True
    then show ?thesis using run i(4) by (intro exI [of _ ?e]) simp
  next
    case False
    let ?c = "c\<lparr>eviction_index := Suc ?e mod ?n\<rparr>"
    have d: "slot_dist ?n z (Suc ?e mod ?n) = d" using Suc(2,4) i(4) by (intro slot_dist_towards) simp_all
    have "Suc ?e mod ?n \<noteq> start" using Suc(2,7) d by auto
    moreover have "Suc ?e mod ?n < ?n" using i(7) by (rule mod_less_divisor)
    then have "cache_inv valid p ?c" using Suc(3) by (auto simp: cache_inv_def)
    then have "\<exists>i. evict_loop start ?c = ret (?c\<lparr>eviction_index := i\<rparr>, True) \<and> i < cap (table ?c) \<and>
        occupied (entries (table ?c) ! i)"
      using Suc(2,4,5,6,7) d by (intro Suc(1)) (simp_all add: marked_def)
    ultimately show ?thesis using run False by (auto simp: Let_def)
  qed
qed

lemma forget_correct:
  assumes "64 * length (accessed c) = cap (table c)"
  shows "cache_forget c = ret (c\<lparr>accessed := replicate (length (accessed c)) 0\<rparr>)"
  using assms by (simp add: cache_forget_def cache_entries_per_block_def Let_def flip: assms)

lemma evict_correct:
  assumes c: "cache_inv valid p c" and z: "z < cap (table c)" "\<not> marked c z" "occupied (entries (table c) ! z)"
  shows "\<exists>c' k v. cache_evict c ctx = ret (c', case eviction_callback c of None \<Rightarrow> ctx | Some cb \<Rightarrow> cb ctx k v) \<and>
    ht_map (table c) k = Some v \<and> ht_map (table c') = (ht_map (table c))(k := None) \<and>
    cache_inv valid p c' \<and> cap (table c') = cap (table c) \<and> eviction_callback c' = eviction_callback c \<and>
    duplicate_cb (table c') = duplicate_cb (table c)"
proof -
  note i = cache_invD [OF c]
  obtain s where s: "evict_loop (eviction_index c) c = ret (c\<lparr>eviction_index := s\<rparr>, True)" "s < cap (table c)"
    "occupied (entries (table c) ! s)" using evict_loop_correct [OF c z] by auto
  let ?e = "entries (table c) ! s"
  obtain t where t: "ht_delete_index (table c) s = ret (True, t)" "ht_inv valid p t"
    "ht_map t = (ht_map (table c))(entry_key ?e := None)" "ht_size t = ht_size (table c) - 1"
    "cap t = cap (table c)" "can_grow t = can_grow (table c)" "duplicate_cb t = duplicate_cb (table c)"
    using delete_index_correct [OF i(1) s(2,3)] by auto
  let ?c = "c\<lparr>eviction_index := s, accessed := replicate (length (accessed c)) 0, table := t\<rparr>"
  have v: "ht_map (table c) (entry_key ?e) = Some (entry_value ?e)"
    using ht_map_Some_iff [OF ht_wfD(7) [OF i(6)]] s(2,3) i(8) by auto
  have "cache_forget (c\<lparr>eviction_index := s, table := t\<rparr>) = ret ?c"
    using forget_correct [of "c\<lparr>eviction_index := s, table := t\<rparr>"] t(5) i(3) by simp
  then have "cache_evict c ctx =
      ret (?c, case eviction_callback c of None \<Rightarrow> ctx | Some cb \<Rightarrow> cb ctx (entry_key ?e) (entry_value ?e))"
    using s t(1) i(8) by (simp add: cache_evict_def split: option.split)
  moreover have "dom (ht_map t) = dom (ht_map (table c)) - {entry_key ?e}" using t(3) by simp
  then have "card (dom (ht_map t)) = card (dom (ht_map (table c))) - 1"
    using v by (simp add: card_Diff_singleton domI)
  then have "cache_inv valid p ?c"
    using t i s(2) by (auto simp: cache_inv_def)
  ultimately show ?thesis using v t(3,5,7) by (intro exI) (intro conjI, assumption+, simp_all)
qed

section \<open>Lookup and insertion\<close>

context ht_keys
begin

lemma cache_find_correct:
  assumes c: "cache_inv valid p c" and k: "valid k"
  shows "\<exists>bs. cache_find p c k = ret (c\<lparr>accessed := bs\<rparr>, ht_map (table c) k) \<and>
    cache_inv valid p (c\<lparr>accessed := bs\<rparr>)"
proof -
  note i = cache_invD [OF c]
  from find_index_correct [OF i(6) k] show ?thesis
  proof (elim disjE exE conjE)
    fix s assume s: "ht_find_index p (table c) k = ret (int s)" "s < cap (table c)"
      "ht_map (table c) k = Some (entry_value (entries (table c) ! s))"
    obtain bs where "cache_access c s = ret (c\<lparr>accessed := bs\<rparr>)" "cache_inv valid p (c\<lparr>accessed := bs\<rparr>)"
      using access_correct [OF c s(2)] by blast
    then show ?thesis using s i(8) by (intro exI [of _ bs]) (simp add: cache_find_def)
  next
    assume "ht_find_index p (table c) k = ret (- 1)" "ht_map (table c) k = None"
    then show ?thesis using c by (intro exI [of _ "accessed c"]) (simp add: cache_find_def)
  qed
qed

lemma table_insert_fresh:
  assumes c: "cache_inv valid p c" and k: "valid k" "ht_map (table c) k = None"
    and room: "card (dom (ht_map (table c))) < cap (table c)"
  shows "\<exists>t. ht_insert p ok (table c) k v = ret (True, t) \<and> ht_map t = (ht_map (table c))(k \<mapsto> v) \<and>
    cache_inv valid p (c\<lparr>table := t\<rparr>) \<and> cap t = cap (table c)"
proof -
  note i = cache_invD [OF c]
  obtain r t where t: "ht_insert p ok (table c) k v = ret (r, t)" "ht_inv valid p t" "insert_spec (table c) k v r t"
    using insert_correct [OF i(1) k(1), of ok v] i(2) by blast
  then have e: "r" "ht_map t = (ht_map (table c))(k \<mapsto> v)" "ht_size t = Suc (ht_size (table c))"
    "can_grow t = can_grow (table c)" "cap t = cap (table c)"
    using i(2,5) room k(2) by (auto simp: insert_spec_def insert_effect_def)
  have "card (dom (ht_map t)) = Suc (card (dom (ht_map (table c))))"
    using e(2) k(2) ht_map_card(2) [OF i(6)] by (simp add: domIff)
  then have "cache_inv valid p (c\<lparr>table := t\<rparr>)" using c t(2) e by (simp add: cache_inv_def)
  then show ?thesis using t(1) e by auto
qed

lemma cache_insert_room:
  assumes c: "cache_inv valid p c" and k: "valid k" "ht_map (table c) k = None"
    and room: "card (dom (ht_map (table c))) < cap (table c)"
  shows "\<exists>c'. cache_insert p ok c k v ctx = ret (c', ctx) \<and> cache_inv valid p c' \<and>
    ht_map (table c') = (ht_map (table c))(k \<mapsto> v) \<and> cap (table c') = cap (table c) \<and>
    eviction_callback c' = eviction_callback c"
proof -
  obtain t where t: "ht_insert p ok (table c) k v = ret (True, t)" "ht_map t = (ht_map (table c))(k \<mapsto> v)"
    "cache_inv valid p (c\<lparr>table := t\<rparr>)" "cap t = cap (table c)"
    using table_insert_fresh [OF assms] by blast
  obtain bs where "cache_find p (c\<lparr>table := t\<rparr>) k = ret (c\<lparr>table := t, accessed := bs\<rparr>, Some v)"
    "cache_inv valid p (c\<lparr>table := t, accessed := bs\<rparr>)"
    using cache_find_correct [OF t(3) k(1)] t(2) by auto
  then show ?thesis using t by (auto simp: cache_insert_def)
qed

lemma cache_insert_full:
  assumes c: "cache_inv valid p c" and k: "valid k" "ht_map (table c) k = None"
    and full: "cap (table c) \<le> card (dom (ht_map (table c)))"
  shows "\<exists>c' ek ev. cache_insert p ok c k v ctx =
      ret (c', case eviction_callback c of None \<Rightarrow> ctx | Some cb \<Rightarrow> cb ctx ek ev) \<and> cache_inv valid p c' \<and>
    ht_map (table c) ek = Some ev \<and> ht_map (table c') = ((ht_map (table c))(ek := None))(k \<mapsto> v) \<and>
    cap (table c') = cap (table c) \<and> eviction_callback c' = eviction_callback c"
proof -
  note i = cache_invD [OF c]
  obtain r t where "ht_insert p ok (table c) k v = ret (r, t)" "insert_spec (table c) k v r t"
    using insert_correct [OF i(1) k(1), of ok v] i(2) by blast
  then have first: "ht_insert p ok (table c) k v = ret (False, table c)"
    using full i(2,5) by (simp add: insert_spec_def)
  obtain z where "z < cap (table c)" "\<not> marked c z" using unmarked_exists [OF c] by blast
  then obtain c2 ek ev where e: "cache_evict c ctx = ret (c2, case eviction_callback c of None \<Rightarrow> ctx | Some cb \<Rightarrow> cb ctx ek ev)"
    "ht_map (table c) ek = Some ev" "ht_map (table c2) = (ht_map (table c))(ek := None)"
    "cache_inv valid p c2" "cap (table c2) = cap (table c)" "eviction_callback c2 = eviction_callback c"
    using evict_correct [OF c _ _ full_all_occupied [OF i(6) full]] by blast
  have "card (dom (ht_map (table c2))) < cap (table c2)"
  proof -
    have "ht_size (table c2) \<le> cap (table c2)" using cache_invD(1) [OF e(4)] by (simp add: ht_inv_def)
    moreover have "card (dom (ht_map (table c))) > 0" using i(7) full by linarith
    moreover have "ht_size (table c) \<le> cap (table c)" using i(1) by (simp add: ht_inv_def)
    moreover have "card (dom (ht_map (table c2))) = card (dom (ht_map (table c))) - 1"
      using e(2,3) by (simp add: card_Diff_singleton domI)
    ultimately show ?thesis using e(5) i(5) by linarith
  qed
  moreover have "ht_map (table c2) k = None" using e(3) k(2) by simp
  ultimately obtain t where t: "ht_insert p ok (table c2) k v = ret (True, t)"
    "ht_map t = (ht_map (table c2))(k \<mapsto> v)" "cache_inv valid p (c2\<lparr>table := t\<rparr>)" "cap t = cap (table c2)"
    using table_insert_fresh [OF e(4) k(1)] by blast
  obtain bs where "cache_find p (c2\<lparr>table := t\<rparr>) k = ret (c2\<lparr>table := t, accessed := bs\<rparr>, Some v)"
    "cache_inv valid p (c2\<lparr>table := t, accessed := bs\<rparr>)"
    using cache_find_correct [OF t(3) k(1)] t(2) by auto
  then have "cache_insert p ok c k v ctx = ret (c2\<lparr>table := t, accessed := bs\<rparr>,
      case eviction_callback c of None \<Rightarrow> ctx | Some cb \<Rightarrow> cb ctx ek ev)"
    using first e(1) t(1) by (simp add: cache_insert_def)
  then show ?thesis using \<open>cache_inv valid p (c2\<lparr>table := t, accessed := bs\<rparr>)\<close> e t by fastforce
qed

end

end
