(* ===== verification/Cache_Props.thy ===== *)
theory Cache_Props
  imports Cache_Inv Ht_Props
begin

text \<open>
  Creation and clearing of a cache, and the properties of the cache.
\<close>

section \<open>Creation\<close>

lemma cache_init_correct:
  assumes keys: "ht_keys p valid" and n: "31 < n" "n * 100 < size_mod"
  shows "\<exists>c. cache_init p True True True rnd n cb = ret c \<and> ht_map (table c) = Map.empty \<and>
    cap (table c) = n \<and> length (accessed c) = n div 64 \<and> eviction_callback c = cb \<and>
    (n mod 64 = 0 \<longrightarrow> cache_inv valid p c)"
proof -
  obtain t where t: "ht_init p True rnd None False = ret t" "ht_inv valid p t" "ht_map t = Map.empty"
    "ht_size t = 0" "cap t = 31" "\<not> can_grow t"
    using init_correct [where key = None and grow = False and p = p and rnd = rnd and valid = valid] by auto
  have wf: "ht_wf valid p t" using t(2) by (simp add: ht_inv_def)
  obtain es where es: "ht_resize p True t n = ret (t\<lparr>cap := n, entries := es\<rparr>)"
    "ht_wf valid p (t\<lparr>cap := n, entries := es\<rparr>)" "ht_map (t\<lparr>cap := n, entries := es\<rparr>) = ht_map t"
    "contents es = contents (entries t)"
    using ht_keys.resize_correct [OF keys wf, of n] n t(5) by auto
  let ?c = "\<lparr>eviction_index = 0, eviction_callback = cb, accessed = replicate (n div 64) 0,
      table = t\<lparr>cap := n, entries := es\<rparr>\<rparr>"
  have "cache_init p True True True rnd n cb = ret ?c"
    using n(1) t(1) es(1) by (simp add: cache_init_def cache_entries_per_block_def)
  moreover have "cache_inv valid p ?c" if "n mod 64 = 0"
    using that n(1) es(2-4) t unfolding cache_inv_def ht_inv_def by (auto simp: dvd_eq_mod_eq_0 [symmetric])
  ultimately show ?thesis using es(3) t(3) by (intro exI [of _ ?c]) simp
qed

lemma cache_init_small:
  assumes "0 < n" and "n \<le> 31"
  shows "cache_init p True True ok rnd n cb = fail Assert_failed"
proof -
  obtain t where "ht_init p True rnd None False = ret t" "cap t = 31"
    using init_correct [where key = None and grow = False and p = p and rnd = rnd and valid = "\<lambda>k. True"] by auto
  then show ?thesis using assms by (simp add: cache_init_def ht_resize_def)
qed

section \<open>Clearing\<close>

text \<open>The context after the callback has been called on the entries \<open>ds\<close>, one after the other.\<close>

definition reported :: "('c \<Rightarrow> 'k \<Rightarrow> 'v \<Rightarrow> 'c) option \<Rightarrow> 'c \<Rightarrow> ('k \<times> 'v) list \<Rightarrow> 'c" where
  "reported cb ctx ds = (case cb of None \<Rightarrow> ctx | Some f \<Rightarrow> foldl (\<lambda>x (k, v). f x k v) ctx ds)"

lemma reported_simps [simp]:
  "reported cb ctx [] = ctx" "reported cb ctx (ds @ es) = reported cb (reported cb ctx ds) es"
  "reported cb ctx [(k, v)] = (case cb of None \<Rightarrow> ctx | Some f \<Rightarrow> f ctx k v)"
  by (simp_all add: reported_def split: option.split)

text \<open>The entries \<open>ds\<close>, different ones of the map \<open>m\<close>, and the map without them.\<close>

definition entries_of :: "('k \<rightharpoonup> 'v) \<Rightarrow> ('k \<times> 'v) list \<Rightarrow> bool" where
  "entries_of m ds \<longleftrightarrow> distinct (map fst ds) \<and> (\<forall>(k, v) \<in> set ds. m k = Some v)"

definition without :: "('k \<rightharpoonup> 'v) \<Rightarrow> ('k \<times> 'v) list \<Rightarrow> ('k \<rightharpoonup> 'v)" where
  "without m ds = m |` (- fst ` set ds)"

lemma entries_of_snoc: "entries_of m ds \<Longrightarrow> without m ds k = Some v \<Longrightarrow> entries_of m (ds @ [(k, v)])"
  by (auto simp: entries_of_def without_def restrict_map_def split: if_splits)

lemma without_simps [simp]: "without m [] = m" "without m (ds @ [(k, v)]) = (without m ds)(k := None)"
  by (auto simp: without_def restrict_map_def)

lemma without_card:
  assumes "entries_of m ds" "finite (dom m)"
  shows "card (dom m) = length ds + card (dom (without m ds))"
proof -
  let ?K = "fst ` set ds"
  have K: "?K \<subseteq> dom m" "card ?K = length ds"
    using assms(1) distinct_card [of "map fst ds"] by (auto simp: entries_of_def)
  have "dom (without m ds) = dom m - ?K" by (auto simp: without_def)
  then show ?thesis using K assms(2) card_Diff_subset [of ?K "dom m"] card_mono [OF assms(2) K(1)] finite_subset [OF K(1) assms(2)]
    by simp
qed

text \<open>
  After \<open>n\<close> rounds: the entries \<open>ds\<close> have been reported and removed; of the slots passed so far no more than that are
  occupied, as every round that leaves its slot occupied has removed an entry.
\<close>

definition clear_ok :: "('k \<Rightarrow> bool) \<Rightarrow> ('k, 'v) ht_params \<Rightarrow> ('k, 'v, 'c) cache \<Rightarrow> 'c \<Rightarrow> nat \<Rightarrow> ('k, 'v, 'c) cache \<times> 'c \<Rightarrow> bool" where
  "clear_ok valid p c ctx n = (\<lambda>(c', ctx'). cache_inv valid p c' \<and> cap (table c') = cap (table c) \<and>
     accessed c' = accessed c \<and> eviction_callback c' = eviction_callback c \<and>
     (\<exists>ds. ctx' = reported (eviction_callback c) ctx ds \<and> entries_of (ht_map (table c)) ds \<and>
       ht_map (table c') = without (ht_map (table c)) ds \<and> card {x. x < n \<and> occupied (entries (table c') ! x)} \<le> length ds))"

lemma clear_step_ok:
  assumes ok: "clear_ok valid p c ctx n s" and n: "n < cap (table c)"
  shows "\<exists>s'. cache_clear_step n s = ret s' \<and> clear_ok valid p c ctx (Suc n) s'"
proof -
  obtain c1 ctx1 where s: "s = (c1, ctx1)" by force
  let ?m = "ht_map (table c)" and ?e = "entries (table c1) ! n" and ?O = "\<lambda>t n. {x. x < n \<and> occupied (entries t ! x)}"
  obtain ds where c1: "cache_inv valid p c1" "cap (table c1) = cap (table c)" "accessed c1 = accessed c"
      "eviction_callback c1 = eviction_callback c"
    and ds: "ctx1 = reported (eviction_callback c) ctx ds" "entries_of ?m ds" "ht_map (table c1) = without ?m ds"
      "card (?O (table c1) n) \<le> length ds"
    using ok by (auto simp: clear_ok_def s)
  note inv = cache_invD [OF c1(1)]
  show ?thesis
  proof (cases "occupied ?e")
    case False
    then have "?O (table c1) (Suc n) = ?O (table c1) n" by (auto simp: less_Suc_eq)
    then have "card (?O (table c1) (Suc n)) \<le> length ds" using ds(4) by simp
    then have "clear_ok valid p c ctx (Suc n) (c1, ctx1)" unfolding clear_ok_def using c1 ds(1-3) by blast
    then show ?thesis using False c1(2) n inv(8) by (simp add: cache_clear_step_def s occupied_def)
  next
    case True
    have len: "length (entries (table c1)) = cap (table c)" using inv(8) c1(2) by simp
    obtain t where t: "ht_delete_index (table c1) n = ret (True, t)" "ht_inv valid p t"
      "ht_map t = (ht_map (table c1))(entry_key ?e := None)" "ht_size t = ht_size (table c1) - 1"
      "cap t = cap (table c1)" "can_grow t = can_grow (table c1)"
      using delete_index_correct [OF inv(1) _ True] n c1(2) by auto
    have v: "ht_map (table c1) (entry_key ?e) = Some (entry_value ?e)"
      using ht_map_Some_iff [OF ht_wfD(7) [OF inv(6)]] True n len by auto
    have "card (dom (ht_map t)) = ht_size t" using t(3,4) v inv(5) by (simp add: card_Diff_singleton domI)
    then have i: "cache_inv valid p (c1\<lparr>table := t\<rparr>)" using c1(1) t by (simp add: cache_inv_def)
    have "occupied (entries (table c1) ! x)" if "x < n" "occupied (entries t ! x)" for x
      using delete_index_free [OF t(1) True, of x] that n len by fastforce
    then have "?O t (Suc n) \<subseteq> insert n (?O (table c1) n)" by (auto simp: less_Suc_eq)
    then have "card (?O t (Suc n)) \<le> card (insert n (?O (table c1) n))" by (intro card_mono) simp_all
    then have count: "card (?O t (Suc n)) \<le> length (ds @ [(entry_key ?e, entry_value ?e)])" using ds(4) by simp
    have "clear_ok valid p c ctx (Suc n) (c1\<lparr>table := t\<rparr>, case eviction_callback c1 of None \<Rightarrow> ctx1 | Some cb \<Rightarrow> cb ctx1 (entry_key ?e) (entry_value ?e))"
      unfolding clear_ok_def prod.case using c1(2-4) t(3,5) i ds(2-4) count entries_of_snoc [OF ds(2) v [unfolded ds(3)]]
      by (intro conjI exI [of _ "ds @ [(entry_key ?e, entry_value ?e)]"]) (simp_all add: ds(1) split: option.split)
    then show ?thesis using True t(1) n len by (simp add: cache_clear_step_def s occupied_def)
  qed
qed

text \<open>Clearing reports and removes the same entries, and at least half of them.\<close>

lemma cache_clear_correct:
  assumes c: "cache_inv valid p c"
  shows "\<exists>c' ds. cache_clear c ctx = ret (c', reported (eviction_callback c) ctx ds) \<and> cache_inv valid p c' \<and>
    entries_of (ht_map (table c)) ds \<and> ht_map (table c') = without (ht_map (table c)) ds \<and>
    card (dom (ht_map (table c))) \<le> 2 * length ds \<and> cap (table c') = cap (table c) \<and>
    eviction_callback c' = eviction_callback c \<and> (\<forall>i < cap (table c'). \<not> marked c' i)"
proof -
  have "\<exists>s'. for_run [0..<cap (table c)] cache_clear_step (c, ctx) = ret s' \<and> clear_ok valid p c ctx (cap (table c)) s'"
  proof (rule for_run_upt_rule [where P = "clear_ok valid p c ctx"])
    show "clear_ok valid p c ctx 0 (c, ctx)" using c by (auto simp: clear_ok_def entries_of_def intro!: exI [of _ "[]"])
    show "\<exists>s'. cache_clear_step i s = ret s' \<and> clear_ok valid p c ctx (Suc i) s'"
      if "i < cap (table c)" "clear_ok valid p c ctx i s" for i s using clear_step_ok [OF that(2,1)] .
  qed simp
  then obtain c1 ds where r: "for_run [0..<cap (table c)] cache_clear_step (c, ctx) = ret (c1, reported (eviction_callback c) ctx ds)"
    "cache_inv valid p c1" "entries_of (ht_map (table c)) ds" "ht_map (table c1) = without (ht_map (table c)) ds"
    "card {x. x < cap (table c) \<and> occupied (entries (table c1) ! x)} \<le> length ds" "cap (table c1) = cap (table c)"
    "eviction_callback c1 = eviction_callback c"
    by (auto simp: clear_ok_def)
  note inv = cache_invD [OF r(2)] and inv0 = cache_invD [OF c]
  let ?c = "c1\<lparr>accessed := replicate (length (accessed c1)) 0\<rparr>"
  have "cache_clear c ctx = ret (?c, reported (eviction_callback c) ctx ds)"
    using r(1) forget_correct [OF inv(3) [symmetric]] by (simp add: cache_clear_def)
  moreover have "cache_inv valid p ?c" using r(2) by (auto simp: cache_inv_def)
  moreover have "\<not> marked ?c i" if "i < cap (table c1)" for i
    using that inv(3) by (simp add: marked_def less_mult_imp_div_less mult.commute)
  moreover have "card (dom (ht_map (table c1))) \<le> length ds"
    using r(5,6) ht_map_card(1) [OF inv(6)] inv(8) by (simp add: contents_def length_filter_conv_card flip: mset_filter)
  then have "card (dom (ht_map (table c))) \<le> 2 * length ds"
    using without_card [OF r(3) ht_map_card(2) [OF inv0(6)]] r(4) by simp
  ultimately show ?thesis using r(3,4,6,7) by (intro exI [of _ ?c] exI [of _ ds]) simp
qed

text \<open>Clearing a run of two entries, the second of them away from its home slot.\<close>

lemma clear_free_slots:
  assumes "\<forall>i \<in> set is. i < length (entries (table c)) \<and> \<not> occupied (entries (table c) ! i)"
  shows "for_run is cache_clear_step (c, ctx) = ret (c, ctx)"
  using assms by (induction "is") (simp_all add: cache_clear_step_def occupied_def)

lemma delete_shifts_one:
  assumes len: "length (entries t) = cap t" "2 * cap t < size_mod" and s: "Suc (Suc s) < cap t"
    and e2: "occupied (entries t ! Suc s)" "ht_probe_count t (Suc s) (entry_hash (entries t ! Suc s)) \<noteq> 0"
    and e3: "\<not> occupied (entries t ! Suc (Suc s))"
  shows "\<exists>es. ht_delete_index t s = ret (True, t\<lparr>ht_size := sz_sub (ht_size t) 1, entries := es\<rparr>) \<and>
    length es = cap t \<and> \<not> occupied (es ! Suc s) \<and>
    (\<forall>i < cap t. i \<noteq> s \<longrightarrow> i \<noteq> Suc s \<longrightarrow> es ! i = entries t ! i)"
proof -
  let ?es = "entries t" and ?e2 = "entries t ! Suc s"
  let ?es0 = "?es[s := (?es ! s)\<lparr>entry_hash := 0\<rparr>]" and ?es1 = "?es[s := ?e2]"
  let ?es2 = "?es[s := ?e2, Suc s := ?e2\<lparr>entry_hash := 0\<rparr>]"
  let ?t = "\<lambda>es. t\<lparr>ht_size := sz_sub (ht_size t) 1, entries := es\<rparr>"
  have swap: "t\<lparr>entries := x, ht_size := n\<rparr> = t\<lparr>ht_size := n, entries := x\<rparr>" for x n by simp
  have pc: "ht_probe_count (?t es) = ht_probe_count t" for es by (simp add: ht_probe_count_def fun_eq_iff)
  have add: "sz_add s 1 mod cap t = Suc s" "sz_add (Suc s) 1 mod cap t = Suc (Suc s)" using s len by simp_all
  have step2: "ht_shift_loop (?t ?es1) (Suc s) (Suc (Suc s)) = ret (?t ?es2)"
    using s len e3 by (subst ht_shift_loop.simps) (simp add: occupied_def)
  have "ht_shift_loop (?t ?es0) s (Suc s) = ht_shift_loop (?t ?es1) (Suc s) (Suc (Suc s))"
    using s len e2 add pc by (subst ht_shift_loop.simps) (simp add: occupied_def)
  then have "ht_shift_loop (?t ?es0) s (Suc s) = ret (?t ?es2)" using step2 by simp
  moreover have "?es \<noteq> []" using s len by auto
  ultimately have "ht_delete_index t s = ret (True, ?t ?es2)"
    using s len add by (simp add: ht_delete_index_def swap)
  then show ?thesis using s len by (intro exI [of _ ?es2]) (simp add: occupied_def)
qed

lemma cache_clear_skips:
  assumes inv: "ht_inv valid p (table c)" and acc: "cap (table c) div 64 \<le> length (accessed c)"
    and s: "Suc (Suc s) < cap (table c)" "occupied (entries (table c) ! s)" "occupied (entries (table c) ! Suc s)"
    and away: "ht_probe_count (table c) (Suc s) (entry_hash (entries (table c) ! Suc s)) \<noteq> 0"
    and rest: "\<forall>i < cap (table c). i \<noteq> s \<longrightarrow> i \<noteq> Suc s \<longrightarrow> \<not> occupied (entries (table c) ! i)"
  shows "\<exists>c' ctx'. cache_clear c ctx = ret (c', ctx') \<and>
    ht_map (table c') (entry_key (entries (table c) ! Suc s)) = Some (entry_value (entries (table c) ! Suc s))"
proof -
  let ?t = "table c" and ?e = "entries (table c) ! s" and ?e2 = "entries (table c) ! Suc s"
  have wf: "ht_wf valid p ?t" using inv by (simp add: ht_inv_def)
  note i = ht_wfD [OF wf]
  obtain es where es: "ht_delete_index ?t s = ret (True, ?t\<lparr>ht_size := sz_sub (ht_size ?t) 1, entries := es\<rparr>)"
    "length es = cap ?t" "\<not> occupied (es ! Suc s)" "\<forall>i < cap ?t. i \<noteq> s \<longrightarrow> i \<noteq> Suc s \<longrightarrow> es ! i = entries ?t ! i"
    using delete_shifts_one [OF i(5) i(3) s(1,3) away] rest s(1) by auto
  let ?t' = "?t\<lparr>ht_size := sz_sub (ht_size ?t) 1, entries := es\<rparr>" and ?ctx = "case eviction_callback c of None \<Rightarrow> ctx | Some cb \<Rightarrow> cb ctx (entry_key ?e) (entry_value ?e)"
  have map: "ht_map ?t' = (ht_map ?t)(entry_key ?e := None)"
    using delete_index_correct [OF inv _ s(2)] s(1) es(1) by auto
  have before: "for_run [0..<s] cache_clear_step (c, ctx) = ret (c, ctx)"
    using rest s(1) i(5) by (intro clear_free_slots) simp
  have at_s: "cache_clear_step s (c, ctx) = ret (c\<lparr>table := ?t'\<rparr>, ?ctx)"
    using s(1,2) i(5) es(1) by (simp add: cache_clear_step_def occupied_def)
  have "\<not> occupied (es ! i)" if "i < cap ?t" "i \<noteq> s" for i using that es(3,4) rest by (cases "i = Suc s") auto
  then have after: "for_run [Suc s..<cap ?t] cache_clear_step (c\<lparr>table := ?t'\<rparr>, ?ctx) = ret (c\<lparr>table := ?t'\<rparr>, ?ctx)"
    using es(2) by (intro clear_free_slots) simp
  have "[0..<cap ?t] = [0..<s] @ s # [Suc s..<cap ?t]"
    using s(1) upt_add_eq_append [of 0 s "cap ?t - s"] by (simp add: upt_conv_Cons)
  then have "for_run [0..<cap ?t] cache_clear_step (c, ctx) = ret (c\<lparr>table := ?t'\<rparr>, ?ctx)"
    using before at_s after by (simp add: for_run_append)
  then have "\<exists>bs. cache_clear c ctx = ret (c\<lparr>table := ?t', accessed := bs\<rparr>, ?ctx)"
    using acc by (simp add: cache_clear_def cache_forget_def cache_entries_per_block_def Let_def)
      (rule exI, rule refl)
  then obtain bs where clear: "cache_clear c ctx = ret (c\<lparr>table := ?t', accessed := bs\<rparr>, ?ctx)" by blast
  have "entry_key ?e2 \<noteq> entry_key ?e" using keys_distinct_nth [OF i(7), of s "Suc s"] s i(5) by auto
  moreover have "ht_map ?t (entry_key ?e2) = Some (entry_value ?e2)"
    unfolding ht_map_Some_iff [OF i(7)] using s(1,3) i(5) by (intro exI [of _ "Suc s"]) simp
  ultimately have "ht_map ?t' (entry_key ?e2) = Some (entry_value ?e2)" using map by simp
  then show ?thesis using clear by auto
qed

section \<open>A small cache\<close>

text \<open>A cache of 64 slots keyed by numbers, as \<open>A3_CACHE_INIT\<close> makes it, and one whose table is
  the four-slot table of \<open>Ht_Props\<close>; the callback collects what is evicted.\<close>

definition ex_cb :: "((nat \<times> nat) list \<Rightarrow> nat \<Rightarrow> nat \<Rightarrow> (nat \<times> nat) list) option" where
  "ex_cb = Some (\<lambda>ctx k v. ctx @ [(k, v)])"

lemma ex_cache: "\<exists>c :: (nat, nat, (nat \<times> nat) list) cache. cache_inv (\<lambda>k. True) ex_params c \<and> ht_map (table c) = Map.empty \<and> cap (table c) = 64"
  using cache_init_correct [OF ex_keys, of 64 "\<lambda>i. 0" ex_cb] by (auto simp: size_mod_def)

definition ex_cache4 :: "(nat, nat, (nat \<times> nat) list) cache" where
  "ex_cache4 = \<lparr>eviction_index = 0, eviction_callback = ex_cb, accessed = [], table = ex_table\<rparr>"

lemma ex_entries:
  "entries ex_table ! 0 = ex_entry 0 0 0" "entries ex_table ! Suc 0 = ex_entry 5 50 5"
  "entries ex_table ! Suc (Suc 0) = ex_entry 9 90 9" "entries ex_table ! 3 = ex_entry 0 0 0"
  by (simp_all add: ex_table_def)

section \<open>Properties\<close>

text \<open>Inserting a new key into a cache with room returns, calls no eviction callback, and adds the
  key to the map.\<close>

theorem cache_insert_adds:
  assumes "ht_keys p valid" and "cache_inv valid p c" and "valid k" and "ht_map (table c) k = None"
    and "card (dom (ht_map (table c))) < cap (table c)"
  shows "\<exists>c'. cache_insert p ok c k v ctx = ret (c', ctx) \<and> cache_inv valid p c' \<and>
    ht_map (table c') = (ht_map (table c))(k \<mapsto> v) \<and> cap (table c') = cap (table c)"
  using ht_keys.cache_insert_room [OF assms, of ok v ctx] by blast

theorem cache_insert_adds_witness:
  "\<exists>c c' :: (nat, nat, (nat \<times> nat) list) cache. cache_insert ex_params True c 5 50 [] = ret (c', []) \<and>
    ht_map (table c') = [5 \<mapsto> 50]"
proof -
  obtain c :: "(nat, nat, (nat \<times> nat) list) cache" where
    "cache_inv (\<lambda>k. True) ex_params c" "ht_map (table c) = Map.empty" "cap (table c) = 64" using ex_cache by blast
  then show ?thesis using cache_insert_adds [OF ex_keys, of c 5 True 50 "[]"] by auto
qed

text \<open>C18: inserting a new key into a full cache always finds an entry to evict: exactly one old entry
  leaves the map and is handed to the callback, the new one enters, and the invariant holds, so the
  cache never panics on new keys.\<close>

theorem cache_insert_evicts_one:
  assumes "ht_keys p valid" and "cache_inv valid p c" and "valid k" and "ht_map (table c) k = None"
    and "cap (table c) \<le> card (dom (ht_map (table c)))"
  shows "\<exists>c' ek ev. cache_insert p ok c k v ctx =
      ret (c', case eviction_callback c of None \<Rightarrow> ctx | Some cb \<Rightarrow> cb ctx ek ev) \<and> cache_inv valid p c' \<and>
    ht_map (table c) ek = Some ev \<and> ht_map (table c') = ((ht_map (table c))(ek := None))(k \<mapsto> v)"
  using ht_keys.cache_insert_full [OF assms, of ok v ctx] by blast

lemma ex_fill:
  "n \<le> 64 \<Longrightarrow> \<exists>c :: (nat, nat, (nat \<times> nat) list) cache. cache_inv (\<lambda>k. True) ex_params c \<and>
    dom (ht_map (table c)) = {..<n} \<and> cap (table c) = 64"
proof (induction n)
  case 0
  then show ?case using ex_cache by fastforce
next
  case (Suc n)
  then obtain c :: "(nat, nat, (nat \<times> nat) list) cache" where c: "cache_inv (\<lambda>k. True) ex_params c"
    "dom (ht_map (table c)) = {..<n}" "cap (table c) = 64" by auto
  have "ht_map (table c) n = None" using c(2) by (metis domIff lessThan_iff less_irrefl)
  then obtain c' :: "(nat, nat, (nat \<times> nat) list) cache" where
    "cache_inv (\<lambda>k. True) ex_params c'" "ht_map (table c') = (ht_map (table c))(n \<mapsto> 0)"
    "cap (table c') = 64"
    using ht_keys.cache_insert_room [OF ex_keys c(1), of n True 0 "[]"] c(2,3) Suc.prems by auto
  moreover from this have "dom (ht_map (table c')) = {..<Suc n}"
    unfolding \<open>ht_map (table c') = _\<close> dom_fun_upd c(2) by (auto simp: lessThan_Suc)
  ultimately show ?case by blast
qed

theorem cache_insert_evicts_one_witness:
  "\<exists>c c' :: (nat, nat, (nat \<times> nat) list) cache. \<exists>ctx ek. card (dom (ht_map (table c))) = 64 \<and>
    cache_insert ex_params True c 99 1 [] = ret (c', ctx) \<and> ek < 64 \<and> ht_map (table c') ek = None \<and>
    ht_map (table c') 99 = Some 1"
proof -
  obtain c :: "(nat, nat, (nat \<times> nat) list) cache" where c: "cache_inv (\<lambda>k. True) ex_params c"
    "dom (ht_map (table c)) = {..<64}" "cap (table c) = 64" using ex_fill [of 64] by auto
  have "99 \<notin> dom (ht_map (table c))" unfolding c(2) by simp
  then have none: "ht_map (table c) 99 = None" by (simp add: domIff)
  obtain c' ek ev where e: "cache_insert ex_params True c 99 1 [] =
      ret (c', case eviction_callback c of None \<Rightarrow> [] | Some cb \<Rightarrow> cb [] ek ev)"
    "ht_map (table c) ek = Some ev" "ht_map (table c') = ((ht_map (table c))(ek := None))(99 \<mapsto> 1)"
    using cache_insert_evicts_one [OF ex_keys c(1), of 99 True 1 "[]"] none c(2,3) by auto
  have "ek \<in> {..<64}" using e(2) c(2) by (metis domI)
  then have "ek < 64" by simp
  then show ?thesis using e c(2)
    by (intro exI [of _ c] exI [of _ c'] exI [of _ "case eviction_callback c of None \<Rightarrow> [] | Some cb \<Rightarrow> cb [] ek ev"] exI [of _ ek]) auto
qed

text \<open>A lookup returns what the cache maps the key to and changes nothing but access bits.\<close>

theorem cache_find_returns_map:
  assumes "ht_keys p valid" and "cache_inv valid p c" and "valid k"
  shows "\<exists>bs. cache_find p c k = ret (c\<lparr>accessed := bs\<rparr>, ht_map (table c) k) \<and>
    cache_inv valid p (c\<lparr>accessed := bs\<rparr>)"
  using ht_keys.cache_find_correct [OF assms] .

theorem cache_find_returns_map_witness:
  "\<exists>c c' :: (nat, nat, (nat \<times> nat) list) cache. \<exists>v. cache_find ex_params c 3 = ret (c', Some v)"
proof -
  obtain c :: "(nat, nat, (nat \<times> nat) list) cache" where c: "cache_inv (\<lambda>k. True) ex_params c"
    "dom (ht_map (table c)) = {..<4}" using ex_fill [of 4] by auto
  have "3 \<in> dom (ht_map (table c))" unfolding c(2) by simp
  then obtain v where "ht_map (table c) 3 = Some v" by blast
  then show ?thesis using cache_find_returns_map [OF ex_keys c(1), of 3] by auto
qed

text \<open>A cache made with a capacity of at most 31 stops at an assertion; otherwise it is made empty,
  with one 64-bit block of access bits per 64 slots rounded down, so that it is well formed when the
  capacity is a multiple of 64.\<close>

theorem cache_init_capacity:
  assumes "ht_keys p valid" and "0 < n" and "n * 100 < size_mod"
  shows "if n \<le> 31 then cache_init p True True True rnd n cb = fail Assert_failed
    else \<exists>c. cache_init p True True True rnd n cb = ret c \<and> ht_map (table c) = Map.empty \<and>
      cap (table c) = n \<and> length (accessed c) = n div 64 \<and> (n mod 64 = 0 \<longrightarrow> cache_inv valid p c)"
  using cache_init_small [OF assms(2), of p True rnd cb] cache_init_correct [OF assms(1) _ assms(3), of rnd cb]
  by auto

theorem cache_init_capacity_witness:
  "cache_init ex_params True True True (\<lambda>i. 0) 16 ex_cb = fail Assert_failed \<and>
    (\<exists>c. cache_init ex_params True True True (\<lambda>i. 0) 40 ex_cb = ret c \<and> accessed c = [])"
  using cache_init_capacity [OF ex_keys, of 16 "\<lambda>i. 0" ex_cb] cache_init_capacity [OF ex_keys, of 40 "\<lambda>i. 0" ex_cb]
  by (auto simp: size_mod_def)

text \<open>Clearing a cache returns, keeps the invariant, leaves at most half of the entries, and resets all access bits.\<close>

theorem cache_clear_shrinks:
  assumes "cache_inv valid p c"
  shows "\<exists>c' ctx'. cache_clear c ctx = ret (c', ctx') \<and> cache_inv valid p c' \<and>
    ht_map (table c') \<subseteq>\<^sub>m ht_map (table c) \<and> 2 * card (dom (ht_map (table c'))) \<le> card (dom (ht_map (table c))) \<and>
    (\<forall>i < cap (table c'). \<not> marked c' i)"
proof -
  obtain c' ds where c': "cache_clear c ctx = ret (c', reported (eviction_callback c) ctx ds)" "cache_inv valid p c'"
      "entries_of (ht_map (table c)) ds" "ht_map (table c') = without (ht_map (table c)) ds"
      "card (dom (ht_map (table c))) \<le> 2 * length ds" "\<forall>i < cap (table c'). \<not> marked c' i"
    using cache_clear_correct [OF assms, of ctx] by blast
  have "ht_map (table c') \<subseteq>\<^sub>m ht_map (table c)" unfolding c'(4) without_def map_le_def by simp
  then show ?thesis using without_card [OF c'(3) ht_map_card(2) [OF cache_invD(6) [OF assms]]] c' by auto
qed

theorem cache_clear_shrinks_witness:
  "\<exists>c c' :: (nat, nat, (nat \<times> nat) list) cache. \<exists>ctx. cache_clear c [] = ret (c', ctx) \<and> ht_map (table c') = Map.empty"
proof -
  obtain c :: "(nat, nat, (nat \<times> nat) list) cache" where c: "cache_inv (\<lambda>k. True) ex_params c"
    "ht_map (table c) = Map.empty" using ex_cache by blast
  then show ?thesis using cache_clear_shrinks [OF c(1), of "[]"] by (fastforce simp: map_le_def)
qed

text \<open>Clearing does not remove everything: an entry that the deletion before it shifts back into
  the slot just cleared is skipped, and is still found afterwards.\<close>

theorem cache_clear_leaves_entry:
  assumes "ht_inv valid p (table c)" and "cap (table c) div 64 \<le> length (accessed c)"
    and "Suc (Suc s) < cap (table c)" and "entry_hash (entries (table c) ! s) \<noteq> 0"
    and "entry_hash (entries (table c) ! Suc s) \<noteq> 0"
    and "ht_probe_count (table c) (Suc s) (entry_hash (entries (table c) ! Suc s)) \<noteq> 0"
    and "\<forall>i < cap (table c). i \<noteq> s \<longrightarrow> i \<noteq> Suc s \<longrightarrow> entry_hash (entries (table c) ! i) = 0"
  shows "\<exists>c' ctx'. cache_clear c ctx = ret (c', ctx') \<and>
    ht_map (table c') (entry_key (entries (table c) ! Suc s)) = Some (entry_value (entries (table c) ! Suc s))"
  using cache_clear_skips [of valid p c s ctx] assms unfolding occupied_def by blast

theorem cache_clear_leaves_entry_witness:
  "\<exists>c' ctx'. cache_clear ex_cache4 [] = ret (c', ctx') \<and> ht_map (table c') 9 = Some 90"
proof -
  have f: "table ex_cache4 = ex_table" "accessed ex_cache4 = []" by (simp_all add: ex_cache4_def)
  have "\<forall>i < 4. i \<noteq> Suc 0 \<longrightarrow> i \<noteq> Suc (Suc 0) \<longrightarrow> entry_hash (entries ex_table ! i) = 0"
    unfolding all_less_4 by (simp add: ex_entries ex_entry_def numeral_2_eq_2)
  then show ?thesis
    using cache_clear_leaves_entry [of "\<lambda>k. True" ex_params ex_cache4 "Suc 0" "[]"] ex_inv
    by (simp add: f ex_fields ex_entries ex_entry_def ht_probe_count_def sz_add_def sz_sub_def size_mod_def)
qed

end
