(* ===== verification/Cache_Seq.thy ===== *)
theory Cache_Seq
  imports Cache_Props Str_Props
begin

text \<open>
  A cache in use: sequences of lookups, of lookups that store a value on a miss, and of clearing. Every
  entry that goes in is accounted for: it is there, or it was removed and handed to the eviction callback.
\<close>

section \<open>Sequences of operations\<close>

datatype ('k, 'v) cache_op = Look 'k | Get 'k 'v | Clear

text \<open>\<open>Get k v\<close> looks \<open>k\<close> up, and inserts \<open>v\<close> for it if it is not there.\<close>

fun cache_exec :: "('k, 'v) ht_params \<Rightarrow> ('k, 'v) cache_op \<Rightarrow> ('k, 'v, 'c) cache \<Rightarrow> 'c \<Rightarrow>
    ('v option \<times> ('k, 'v, 'c) cache \<times> 'c) run" where
  "cache_exec p (Look k) c ctx = bind_run (cache_find p c k) (\<lambda>(c1, r). ret (r, c1, ctx))"
| "cache_exec p (Get k v) c ctx = bind_run (cache_find p c k) (\<lambda>(c1, r).
     if r = None then bind_run (cache_insert p False c1 k v ctx) (\<lambda>(c2, ctx2). ret (r, c2, ctx2)) else ret (r, c1, ctx))"
| "cache_exec p Clear c ctx = bind_run (cache_clear c ctx) (\<lambda>(c1, ctx1). ret (None, c1, ctx1))"

fun cache_exec_all :: "('k, 'v) ht_params \<Rightarrow> ('k, 'v) cache_op list \<Rightarrow> ('k, 'v, 'c) cache \<Rightarrow> 'c \<Rightarrow>
    ('v option list \<times> ('k, 'v, 'c) cache \<times> 'c) run" where
  "cache_exec_all p [] c ctx = ret ([], c, ctx)"
| "cache_exec_all p (x # xs) c ctx = bind_run (cache_exec p x c ctx) (\<lambda>(r, c1, ctx1).
     bind_run (cache_exec_all p xs c1 ctx1) (\<lambda>(rs, c2, ctx2). ret (r # rs, c2, ctx2)))"

fun cache_op_key :: "('k, 'v) cache_op \<Rightarrow> 'k option" where
  "cache_op_key (Look k) = Some k"
| "cache_op_key (Get k v) = Some k"
| "cache_op_key Clear = None"

text \<open>
  What the operations have to return, \<open>rs\<close>, and to remove, \<open>ds\<close>, with respect to the map \<open>m\<close> the cache stands for
  and its capacity \<open>n\<close>:

    \<^item> a lookup returns exactly what the map has, and removes nothing;
    \<^item> a \<open>Get\<close> returns exactly what the map has. On a miss it adds its value; with \<open>n\<close> entries in the map already
      it first removes one of them;
    \<^item> a clear removes at least half of the entries.
\<close>

fun cache_op_ok :: "nat \<Rightarrow> ('k, 'v) cache_op \<Rightarrow> ('k \<rightharpoonup> 'v) \<Rightarrow> 'v option \<Rightarrow> ('k \<times> 'v) list \<Rightarrow> bool" where
  "cache_op_ok n (Look k) m r d \<longleftrightarrow> r = m k \<and> d = []"
| "cache_op_ok n (Get k v) m r d \<longleftrightarrow> r = m k \<and> entries_of m d \<and>
     length d = (if m k = None \<and> n \<le> card (dom m) then 1 else 0)"
| "cache_op_ok n Clear m r d \<longleftrightarrow> r = None \<and> entries_of m d \<and> card (dom m) \<le> 2 * length d"

fun cache_op_map :: "('k, 'v) cache_op \<Rightarrow> ('k \<rightharpoonup> 'v) \<Rightarrow> ('k \<times> 'v) list \<Rightarrow> ('k \<rightharpoonup> 'v)" where
  "cache_op_map (Look k) m d = m"
| "cache_op_map (Get k v) m d = (if m k = None then (without m d)(k \<mapsto> v) else m)"
| "cache_op_map Clear m d = without m d"

fun cache_accounts :: "nat \<Rightarrow> ('k, 'v) cache_op list \<Rightarrow> ('k \<rightharpoonup> 'v) \<Rightarrow> 'v option list \<Rightarrow> ('k \<times> 'v) list list \<Rightarrow>
    ('k \<rightharpoonup> 'v) \<Rightarrow> bool" where
  "cache_accounts n [] m rs dss m' \<longleftrightarrow> rs = [] \<and> dss = [] \<and> m' = m"
| "cache_accounts n (x # xs) m (r # rs) (d # dss) m' \<longleftrightarrow>
     cache_op_ok n x m r d \<and> cache_accounts n xs (cache_op_map x m d) rs dss m'"
| "cache_accounts n (x # xs) m rs dss m' \<longleftrightarrow> False"

section \<open>Lemmas\<close>

lemma insert_absent:
  assumes keys: "ht_keys p valid" and c: "cache_inv valid p c" and k: "valid k" "ht_map (table c) k = None"
  shows "\<exists>c' d. cache_insert p ok c k v ctx = ret (c', reported (eviction_callback c) ctx d) \<and> cache_inv valid p c' \<and>
    eviction_callback c' = eviction_callback c \<and> cap (table c') = cap (table c) \<and>
    ht_map (table c') = (without (ht_map (table c)) d)(k \<mapsto> v) \<and> entries_of (ht_map (table c)) d \<and>
    length d = (if cap (table c) \<le> card (dom (ht_map (table c))) then 1 else 0)"
proof (cases "card (dom (ht_map (table c))) < cap (table c)")
  case True
  from ht_keys.cache_insert_room [OF keys c k True, of ok v ctx] show ?thesis
    using True by (auto simp: entries_of_def intro!: exI [of _ "[]"])
next
  case False
  then have "cap (table c) \<le> card (dom (ht_map (table c)))" by simp
  from ht_keys.cache_insert_full [OF keys c k this, of ok v ctx]
  obtain c' ek ev where c': "cache_insert p ok c k v ctx =
        ret (c', case eviction_callback c of None \<Rightarrow> ctx | Some cb \<Rightarrow> cb ctx ek ev)"
      "cache_inv valid p c'" "ht_map (table c) ek = Some ev"
      "ht_map (table c') = ((ht_map (table c))(ek := None))(k \<mapsto> v)" "cap (table c') = cap (table c)"
      "eviction_callback c' = eviction_callback c"
    by blast
  have "without (ht_map (table c)) [(ek, ev)] = (ht_map (table c))(ek := None)"
    using without_simps(2) [of "ht_map (table c)" "[]" ek ev] by simp
  then show ?thesis using c' False by (intro exI [of _ c'] exI [of _ "[(ek, ev)]"]) (simp add: entries_of_def)
qed

lemma cache_exec_accounts:
  assumes keys: "ht_keys p valid" and c: "cache_inv valid p c"
    and k: "case cache_op_key x of None \<Rightarrow> True | Some k \<Rightarrow> valid k"
  shows "\<exists>r d c'. cache_exec p x c ctx = ret (r, c', reported (eviction_callback c) ctx d) \<and> cache_inv valid p c' \<and>
    eviction_callback c' = eviction_callback c \<and> cap (table c') = cap (table c) \<and>
    cache_op_ok (cap (table c)) x (ht_map (table c)) r d \<and> ht_map (table c') = cache_op_map x (ht_map (table c)) d"
proof (cases x)
  case (Look k')
  then have "valid k'" using k by simp
  from ht_keys.cache_find_correct [OF keys c this] show ?thesis using Look by (auto intro!: exI [of _ "[]"])
next
  case (Get k' v)
  then have vk: "valid k'" using k by simp
  obtain bs where c1: "cache_find p c k' = ret (c\<lparr>accessed := bs\<rparr>, ht_map (table c) k')"
      "cache_inv valid p (c\<lparr>accessed := bs\<rparr>)"
    using ht_keys.cache_find_correct [OF keys c vk] by blast
  show ?thesis
  proof (cases "ht_map (table c) k'")
    case None
    then obtain c' d where "cache_insert p False (c\<lparr>accessed := bs\<rparr>) k' v ctx = ret (c', reported (eviction_callback c) ctx d)"
        "cache_inv valid p c'" "eviction_callback c' = eviction_callback c" "cap (table c') = cap (table c)"
        "ht_map (table c') = (without (ht_map (table c)) d)(k' \<mapsto> v)" "entries_of (ht_map (table c)) d"
        "length d = (if cap (table c) \<le> card (dom (ht_map (table c))) then 1 else 0)"
      using insert_absent [OF keys c1(2) vk, of False v ctx] by auto
    then show ?thesis using Get c1 None by (intro exI [of _ None] exI [of _ d] exI [of _ c']) simp
  next
    case (Some w)
    then show ?thesis using Get c1
      by (intro exI [of _ "Some w"] exI [of _ "[]"] exI [of _ "c\<lparr>accessed := bs\<rparr>"]) (simp add: entries_of_def)
  qed
next
  case Clear
  then show ?thesis using cache_clear_correct [OF c, of ctx]
    by (elim exE conjE) (intro exI conjI, simp, assumption+, simp_all)
qed

lemma cache_exec_all_accounts:
  assumes keys: "ht_keys p valid"
  shows "cache_inv valid p c \<Longrightarrow> \<forall>x \<in> set xs. case cache_op_key x of None \<Rightarrow> True | Some k \<Rightarrow> valid k \<Longrightarrow>
    \<exists>rs dss c'. cache_exec_all p xs c ctx = ret (rs, c', reported (eviction_callback c) ctx (concat dss)) \<and>
      cache_inv valid p c' \<and> cap (table c') = cap (table c) \<and>
      cache_accounts (cap (table c)) xs (ht_map (table c)) rs dss (ht_map (table c'))"
proof (induction xs arbitrary: c ctx)
  case (Cons x xs)
  then have "case cache_op_key x of None \<Rightarrow> True | Some k \<Rightarrow> valid k" by simp
  from cache_exec_accounts [OF keys Cons.prems(1) this, of ctx]
  obtain r d c1 where 1: "cache_exec p x c ctx = ret (r, c1, reported (eviction_callback c) ctx d)" "cache_inv valid p c1"
      "eviction_callback c1 = eviction_callback c" "cap (table c1) = cap (table c)"
      "cache_op_ok (cap (table c)) x (ht_map (table c)) r d" "ht_map (table c1) = cache_op_map x (ht_map (table c)) d"
    by blast
  obtain rs dss c2 where "cache_exec_all p xs c1 (reported (eviction_callback c) ctx d) =
        ret (rs, c2, reported (eviction_callback c) (reported (eviction_callback c) ctx d) (concat dss))"
      "cache_inv valid p c2" "cap (table c2) = cap (table c)"
      "cache_accounts (cap (table c)) xs (cache_op_map x (ht_map (table c)) d) rs dss (ht_map (table c2))"
    using Cons.IH [OF 1(2), of "reported (eviction_callback c) ctx d"] Cons.prems(2) 1(3,4,6) by auto
  then show ?case using 1 by (intro exI [of _ "r # rs"] exI [of _ "d # dss"] exI [of _ c2]) simp
qed (auto intro!: exI [of _ "[]"])

section \<open>Property\<close>

text \<open>C9: a cache keyed by strings, made without allocation failure for a capacity that is a positive multiple of 64, accounts for every
  entry in any sequence of lookups, lookups that insert on a miss, and clearings, and never panics. A lookup
  returns exactly the value the cache stands for; a miss adds the new entry, and removes exactly one old entry when
  the cache is full and none otherwise; clearing removes at least half of the entries, but it may keep others, which
  later lookups return (\<open>cache_clear_leaves_entry\<close>). Exactly the removed entries are handed to the
  eviction callback, in the order they are removed, and there are never more entries than the capacity.\<close>

theorem string_cache_accounts:
  assumes "0 < n" and "n mod 64 = 0" and "n * 100 < size_mod"
    and "\<forall>x \<in> set xs. case cache_op_key x of None \<Rightarrow> True | Some k \<Rightarrow> nul_free k"
  shows "\<exists>c rs dss c'. cache_init (string_params H z) True True True rnd n cb = ret c \<and>
    cache_exec_all (string_params H z) xs c ctx = ret (rs, c', reported cb ctx (concat dss)) \<and>
    cache_accounts n xs Map.empty rs dss (ht_map (table c')) \<and> card (dom (ht_map (table c'))) \<le> n"
proof -
  have "64 dvd n" using assms(2) by (simp add: dvd_eq_mod_eq_0)
  then have "64 \<le> n" using assms(1) by (rule dvd_imp_le)
  then obtain c where c: "cache_init (string_params H z) True True True rnd n cb = ret c" "ht_map (table c) = Map.empty"
      "cache_inv nul_free (string_params H z) c" "cap (table c) = n" "eviction_callback c = cb"
    using cache_init_correct [OF string_ht.ht_keys_axioms _ assms(3), of H z rnd cb] assms(2) by auto
  then obtain rs dss c' where r: "cache_exec_all (string_params H z) xs c ctx = ret (rs, c', reported cb ctx (concat dss))"
      "cache_inv nul_free (string_params H z) c'" "cap (table c') = n"
      "cache_accounts n xs Map.empty rs dss (ht_map (table c'))"
    using cache_exec_all_accounts [OF string_ht.ht_keys_axioms c(3), of xs ctx] assms(4) by auto
  have "card (dom (ht_map (table c'))) \<le> n"
    using cache_invD(1,5) [OF r(2)] r(3) by (simp add: ht_inv_def)
  then show ?thesis using c(1) r by blast
qed

definition ex_cache_ops :: "(u8 list, nat) cache_op list" where
  "ex_cache_ops = [Get [97] 1, Look [97], Clear, Look [97]]"

theorem string_cache_accounts_witness:
  "\<exists>c c'. cache_init (string_params (\<lambda>hk k. 7) 0) True True True (\<lambda>i. 0) 64 (Some (\<lambda>ctx k v. ctx @ [v])) = ret c \<and>
    cache_exec_all (string_params (\<lambda>hk k. 7) 0) ex_cache_ops c [] = ret ([None, Some 1, None, None], c', [1])"
proof -
  have "\<forall>x \<in> set ex_cache_ops. case cache_op_key x of None \<Rightarrow> True | Some k \<Rightarrow> nul_free k"
    by (simp add: ex_cache_ops_def nul_free_def)
  from string_cache_accounts [of 64, OF _ _ _ this, of "\<lambda>hk k. 7" 0 "\<lambda>i. 0" "Some (\<lambda>ctx k v. ctx @ [v])" "[]"]
  obtain c rs dss c' where r: "cache_init (string_params (\<lambda>hk k. 7) 0) True True True (\<lambda>i. 0) 64 (Some (\<lambda>ctx k v. ctx @ [v])) = ret c"
      "cache_exec_all (string_params (\<lambda>hk k. 7) 0) ex_cache_ops c [] = ret (rs, c', reported (Some (\<lambda>ctx k v. ctx @ [v])) [] (concat dss))"
      "cache_accounts 64 ex_cache_ops Map.empty rs dss (ht_map (table c'))"
    by (auto simp: size_mod_def)
  obtain r1 r2 r3 r4 d1 d2 d3 d4 where rs: "rs = [r1, r2, r3, r4]" "dss = [d1, d2, d3, d4]"
    using r(3) by (auto simp: ex_cache_ops_def elim!: cache_accounts.elims)
  have m: "r1 = None" "d1 = []" "r2 = Some 1" "d2 = []" "r3 = None" "d4 = []" "entries_of [[97] \<mapsto> 1] d3" "1 \<le> 2 * length d3"
      "r4 = without [[97] \<mapsto> 1] d3 [97]"
    using r(3) unfolding rs ex_cache_ops_def by auto
  have "d3 = [([97], 1)]" using m(7,8) by (cases d3; cases "tl d3") (auto simp: entries_of_def split: if_splits)
  then show ?thesis using r(1,2) m rs by (auto simp: reported_def without_def)
qed

end
