(* ===== verification/Spmc.thy ===== *)
theory Spmc
  imports Prelude
begin

text \<open>
  The single-producer, multiple-consumer ring queue of \<open>src/include/a3/spmc.h\<close> and
  \<open>src/spmc.c\<close>, as a transition system: every atomic operation is one step, and the steps of
  the producer and of any number of consumers interleave. This model is sequentially
  consistent; the acquire and release orders of the code are in \<open>Spmc_Ra\<close>. Elements are not
  \<open>NULL\<close>. \<open>history\<close> and \<open>taken\<close> are ghosts: the elements published, and what the exchange of each
  dequeue returned, with the consumer and its ticket.
\<close>

section \<open>State\<close>

record 'e spmc =
  q_data :: "'e option list"
  q_cap :: size_t
  q_mask :: size_t
  q_head :: size_t
  q_end :: size_t

text \<open>
  Where the producer is. The flag says whether the call is \<open>a3_spmc_enqueue\<close> (blocking) or
  \<open>a3_spmc_try_enqueue\<close>; \<open>elem\<close> is its argument, the number its local \<open>end\<close>. When it is idle, the
  flag is what the last call returned (true for the call that returns nothing).
\<close>

datatype 'e producer =
    is_P_idle: P_idle bool
  | P_load_head bool 'e size_t
  | P_load_slot bool 'e size_t
  | P_store 'e size_t
  | P_publish 'e size_t

text \<open>
  Where a consumer is, with its local variables: \<open>C_cas i end head\<close> is round \<open>i\<close> of the loop of
  \<open>a3_spmc_try_dequeue\<close>, \<open>C_wait head\<close> the loop of \<open>a3_spmc_dequeue\<close>, \<open>C_take head\<close> before the
  exchange, \<open>C_idle r\<close> after a call that returned \<open>r\<close>.
\<close>

datatype 'e consumer =
    is_C_idle: C_idle "'e option"
  | C_load_head size_t
  | C_cas nat size_t size_t
  | C_wait size_t
  | C_take size_t

record 'e spmc_state = "'e spmc" +
  producer :: "'e producer"
  consumers :: "nat \<Rightarrow> 'e consumer"
  history :: "'e list"
  taken :: "(nat \<times> size_t \<times> 'e option) list"

section \<open>Initialisation\<close>

text \<open>The loop of \<open>a3_spmc_init\<close>; the shift wraps to 0 after \<open>2 ^ 63\<close>.\<close>

partial_function (option) spmc_cap_loop :: "size_t \<Rightarrow> size_t \<Rightarrow> size_t run" where
  "spmc_cap_loop c goal = (if c < goal then spmc_cap_loop (sz_mul c 2) goal else ret c)"

definition spmc_init :: "bool \<Rightarrow> size_t \<Rightarrow> 'e spmc run" where
  "spmc_init ok n = bind_run (spmc_cap_loop 1 n) (\<lambda>c.
     require ok Panicked
       (ret \<lparr>q_data = replicate c None, q_cap = c, q_mask = sz_sub c 1, q_head = 0, q_end = 0\<rparr>))"

definition spmc_new :: "bool \<Rightarrow> bool \<Rightarrow> size_t \<Rightarrow> 'e spmc run" where
  "spmc_new ok_queue ok n = require ok_queue Panicked (spmc_init ok n)"

text \<open>\<open>a3_spmc_destroy\<close> may only be called when the queue is empty.\<close>

definition spmc_destroy :: "('e, 'z) spmc_scheme \<Rightarrow> ('e, 'z) spmc_scheme run" where
  "spmc_destroy q = assert_c (q_head q = q_end q) (ret (q\<lparr>q_data := []\<rparr>))"

definition spmc_free :: "('e, 'z) spmc_scheme \<Rightarrow> unit run" where
  "spmc_free q = bind_run (spmc_destroy q) (\<lambda>q'. ret ())"

definition spmc_index :: "('e, 'z) spmc_scheme \<Rightarrow> size_t \<Rightarrow> size_t" where
  "spmc_index q ticket = and ticket (q_mask q)"

section \<open>Steps\<close>

text \<open>The next step of a call of the producer that has begun.\<close>

fun producer_next :: "'e spmc_state \<Rightarrow> 'e spmc_state" where
  "producer_next s = (case producer s of
       P_idle r \<Rightarrow> s
     | P_load_head blocking e n \<Rightarrow>
         if sz_add (q_head s) (q_cap s) \<le> n
         then (if blocking then s else s\<lparr>producer := P_idle False\<rparr>)
         else s\<lparr>producer := P_load_slot blocking e n\<rparr>
     | P_load_slot blocking e n \<Rightarrow>
         if q_data s ! spmc_index s n \<noteq> None
         then (if blocking then s else s\<lparr>producer := P_idle False\<rparr>)
         else s\<lparr>producer := P_store e n\<rparr>
     | P_store e n \<Rightarrow>
         s\<lparr>q_data := (q_data s)[spmc_index s n := Some e], producer := P_publish e n\<rparr>
     | P_publish e n \<Rightarrow>
         s\<lparr>q_end := sz_add (q_end s) 1, producer := P_idle True, history := history s @ [e]\<rparr>)"

definition set_consumer :: "nat \<Rightarrow> 'e consumer \<Rightarrow> 'e spmc_state \<Rightarrow> 'e spmc_state" where
  "set_consumer c pc s = s\<lparr>consumers := (consumers s)(c := pc)\<rparr>"

text \<open>The next step of a call of consumer \<open>c\<close> that has begun.\<close>

fun consumer_next :: "nat \<Rightarrow> 'e spmc_state \<Rightarrow> 'e spmc_state" where
  "consumer_next c s = (case consumers s c of
       C_idle r \<Rightarrow> s
     | C_load_head n \<Rightarrow> set_consumer c (C_cas 0 n (q_head s)) s
     | C_cas i n h \<Rightarrow>
         if 5 \<le> i then set_consumer c (C_idle None) s
         else if n \<le> h then set_consumer c (C_idle None) s
         else if q_head s = h then set_consumer c (C_take h) (s\<lparr>q_head := sz_add h 1\<rparr>)
         else set_consumer c (C_cas (i + 1) n (q_head s)) s
     | C_wait h \<Rightarrow> if q_end s \<le> h then s else set_consumer c (C_take h) s
     | C_take h \<Rightarrow> set_consumer c (C_idle (q_data s ! spmc_index s h))
         (s\<lparr>q_data := (q_data s)[spmc_index s h := None],
            taken := taken s @ [(c, h, q_data s ! spmc_index s h)]\<rparr>))"

text \<open>A call begins with its first atomic operation: loading \<open>end\<close>, or taking a ticket.\<close>

inductive spmc_step :: "'e spmc_state \<Rightarrow> 'e spmc_state \<Rightarrow> bool" where
  call_enqueue: "is_P_idle (producer s) \<Longrightarrow> spmc_step s (s\<lparr>producer := P_load_head blocking e (q_end s)\<rparr>)"
| producer_step: "\<not> is_P_idle (producer s) \<Longrightarrow> spmc_step s (producer_next s)"
| call_try_dequeue: "is_C_idle (consumers s c) \<Longrightarrow> spmc_step s (set_consumer c (C_load_head (q_end s)) s)"
| call_dequeue: "is_C_idle (consumers s c) \<Longrightarrow>
    spmc_step s (set_consumer c (C_wait (q_head s)) (s\<lparr>q_head := sz_add (q_head s) 1\<rparr>))"
| consumer_step: "\<not> is_C_idle (consumers s c) \<Longrightarrow> spmc_step s (consumer_next c s)"

inductive_cases spmc_stepE: "spmc_step s s'"

text \<open>All threads idle, on a queue as \<open>a3_spmc_init\<close> makes it for some capacity.\<close>

definition spmc_start :: "'e spmc_state \<Rightarrow> bool" where
  "spmc_start s \<longleftrightarrow> (\<exists>n. spmc_init True n = ret (spmc.truncate s)) \<and>
     is_P_idle (producer s) \<and> (\<forall>c. is_C_idle (consumers s c)) \<and> history s = [] \<and> taken s = []"

text \<open>The counters do not wrap: about \<open>2 ^ 64\<close> tickets.\<close>

definition spmc_bounded :: "'e spmc_state \<Rightarrow> bool" where
  "spmc_bounded s \<longleftrightarrow> q_head s + q_cap s + 1 < size_mod"

end
