(* ===== verification/Spmc_Tickets.thy ===== *)
theory Spmc_Tickets
  imports Spmc
begin

text \<open>
  The ownership of tickets: every ticket given out is held by one consumer, or its exchange is done. It speaks of the list of
  exchanges done, the two counters and where the consumers are, and so serves both models of the queue.
\<close>

text \<open>The ticket a consumer holds, and those whose exchange is done.\<close>

fun held :: "'e consumer \<Rightarrow> size_t option" where
  "held (C_wait h) = Some h"
| "held (C_take h) = Some h"
| "held _ = None"

definition tickets_of :: "(nat \<times> size_t \<times> 'e option) list \<Rightarrow> size_t set" where
  "tickets_of log = (\<lambda>(c, t, r). t) ` set log"

definition owned :: "(nat \<times> size_t \<times> 'e option) list \<Rightarrow> size_t \<Rightarrow> size_t \<Rightarrow> (nat \<Rightarrow> 'e consumer) \<Rightarrow> bool" where
  "owned log head tail cons \<longleftrightarrow> distinct (map (\<lambda>(c, t, r). t) log) \<and>
     (\<forall>t \<in> tickets_of log. t < head \<and> t < tail) \<and>
     (\<forall>c t. held (cons c) = Some t \<longrightarrow> t < head \<and> t \<notin> tickets_of log) \<and>
     (\<forall>c c' t. held (cons c) = Some t \<longrightarrow> held (cons c') = Some t \<longrightarrow> c = c') \<and>
     (\<forall>t < head. t \<in> tickets_of log \<or> (\<exists>c. held (cons c) = Some t))"

lemma tickets_of_append [simp]: "tickets_of (log @ [(c, t, r)]) = insert t (tickets_of log)" "tickets_of [] = {}"
  by (auto simp: tickets_of_def)

lemma held_idle [simp]: "is_C_idle pc \<Longrightarrow> held pc = None"
  by (cases pc) simp_all

lemma owned_start: "\<forall>c. is_C_idle (cons c) \<Longrightarrow> owned [] 0 0 cons"
  by (simp add: owned_def)

lemma owned_publish: "owned log head tail cons \<Longrightarrow> tail \<le> end' \<Longrightarrow> owned log head end' cons"
  unfolding owned_def by (meson less_le_trans)

lemma owned_move: "owned log head tail cons \<Longrightarrow> held pc = held (cons c) \<Longrightarrow> owned log head tail (cons(c := pc))"
  by (auto simp: owned_def)

lemma owned_claim:
  "owned log head tail cons \<Longrightarrow> held (cons c) = None \<Longrightarrow> held pc = Some head \<Longrightarrow> owned log (Suc head) tail (cons(c := pc))"
  by (auto simp: owned_def less_Suc_eq, metis option.distinct(1))

lemma owned_take:
  assumes tk: "owned log head tail cons" and c: "held (cons c) = Some h" and "h < tail" "held pc = None"
  shows "owned (log @ [(c, h, r)]) head tail (cons(c := pc))"
proof -
  have h: "h < head" "h \<notin> tickets_of log" using tk c by (auto simp: owned_def)
  have held': "held ((cons(c := pc)) d) = (if d = c then None else held (cons d))" for d
    by (simp add: assms(4))
  have one: "\<forall>d d' t. held (cons d) = Some t \<longrightarrow> held (cons d') = Some t \<longrightarrow> d = d'"
    using tk by (simp add: owned_def)
  have only: "d = c" if "held (cons d) = Some h" for d
    using tk c that unfolding owned_def by blast
  have "distinct (map (\<lambda>(c, t, r). t) (log @ [(c, h, r)]))"
    using tk h(2) by (auto simp: owned_def tickets_of_def)
  moreover have "\<forall>d t. held ((cons(c := pc)) d) = Some t \<longrightarrow> t < head \<and> t \<notin> insert h (tickets_of log)"
    using tk only assms(4) by (auto simp: owned_def)
  moreover have "\<forall>t < head. t \<in> insert h (tickets_of log) \<or> (\<exists>d. held ((cons(c := pc)) d) = Some t)"
    using tk c unfolding held' owned_def by (metis insert_iff option.inject)
  moreover have "\<forall>d d' t. held ((cons(c := pc)) d) = Some t \<longrightarrow> held ((cons(c := pc)) d') = Some t \<longrightarrow> d = d'"
    using one assms(4) by simp
  moreover have "\<forall>t \<in> insert h (tickets_of log). t < head \<and> t < tail"
    using tk h(1) assms(3) by (simp add: owned_def)
  ultimately show ?thesis unfolding owned_def tickets_of_append by (intro conjI) assumption+
qed

end
