(* ===== verification/Transition.thy ===== *)
theory Transition
  imports Main
begin

text \<open>
  Transition systems: the states reachable by steps through states that satisfy a side
  condition, and the invariant rule as a locale.
\<close>

inductive reach :: "('s \<Rightarrow> bool) \<Rightarrow> ('s \<Rightarrow> 's \<Rightarrow> bool) \<Rightarrow> ('s \<Rightarrow> bool) \<Rightarrow> 's \<Rightarrow> bool"
  for init step ok where
  reach_init: "init s \<Longrightarrow> reach init step ok s"
| reach_step: "reach init step ok s \<Longrightarrow> ok s \<Longrightarrow> step s s' \<Longrightarrow> reach init step ok s'"

locale invariant =
  fixes init :: "'s \<Rightarrow> bool" and step :: "'s \<Rightarrow> 's \<Rightarrow> bool" and ok :: "'s \<Rightarrow> bool" and inv :: "'s \<Rightarrow> bool"
  assumes init_inv: "init s \<Longrightarrow> inv s"
    and step_inv: "inv s \<Longrightarrow> ok s \<Longrightarrow> step s s' \<Longrightarrow> inv s'"
begin

lemma reach_inv: "reach init step ok s \<Longrightarrow> inv s"
  by (induction rule: reach.induct) (auto intro: init_inv step_inv)

end

text \<open>
  Progress by a helpful action. In an infinite run in which, again and again, the action is taken or its
  thread has nothing to do, a state that only the action can leave is left by it.
\<close>

lemma helpful_action:
  assumes fair: "\<And>i. \<exists>j \<ge> i. \<not> busy (run j) \<or> act j"
    and start: "P (run m)" and busy: "\<And>s. P s \<Longrightarrow> busy s"
    and stay: "\<And>j. m \<le> j \<Longrightarrow> P (run j) \<Longrightarrow> \<not> act j \<Longrightarrow> P (run (Suc j))"
  shows "\<exists>j \<ge> m. P (run j) \<and> act j"
proof (rule ccontr)
  assume no: "\<not> (\<exists>j \<ge> m. P (run j) \<and> act j)"
  have all: "P (run j)" if "m \<le> j" for j
    using that
  proof (induction j rule: dec_induct)
    case (step j)
    then show ?case using stay no by blast
  qed (rule start)
  obtain j where "m \<le> j" "\<not> busy (run j) \<or> act j" using fair by blast
  then show False using all busy no by blast
qed

end
