(* ===== verification/Spmc_Inv.thy ===== *)
theory Spmc_Inv
  imports Spmc_Tickets Transition
begin

text \<open>
  The invariant of the queue in three parts: the counters and local variables, the ownership of
  tickets, and the contents of the slots; every step keeps each of them.
\<close>

section \<open>Tickets and slots\<close>

definition taken_tickets :: "'e spmc_state \<Rightarrow> size_t set" where
  "taken_tickets s = tickets_of (taken s)"

lemmas taken_tickets_defs = taken_tickets_def tickets_of_def

text \<open>The elements that are in the ring, with their tickets: published and not yet taken, or
  stored and about to be published.\<close>

definition live :: "'e spmc_state \<Rightarrow> (size_t \<times> 'e) set" where
  "live s = {(t, x). t < q_end s \<and> t \<notin> taken_tickets s \<and> x = history s ! t} \<union>
     (case producer s of P_publish e n \<Rightarrow> {(n, e)} | _ \<Rightarrow> {})"

definition shape_inv :: "'e spmc_state \<Rightarrow> bool" where
  "shape_inv s \<longleftrightarrow> (\<exists>k. q_cap s = 2 ^ k \<and> q_mask s = 2 ^ k - 1) \<and> length (q_data s) = q_cap s"

fun producer_ok :: "'e spmc_state \<Rightarrow> 'e producer \<Rightarrow> bool" where
  "producer_ok s (P_idle r) = True"
| "producer_ok s (P_load_head b e n) = (n = q_end s)"
| "producer_ok s (P_load_slot b e n) = (n = q_end s \<and> n < q_head s + q_cap s)"
| "producer_ok s (P_store e n) = (n = q_end s \<and> n < q_head s + q_cap s \<and> q_data s ! (n mod q_cap s) = None)"
| "producer_ok s (P_publish e n) = (n = q_end s \<and> n < q_head s + q_cap s)"

fun consumer_ok :: "'e spmc_state \<Rightarrow> 'e consumer \<Rightarrow> bool" where
  "consumer_ok s (C_load_head n) = (n \<le> q_end s)"
| "consumer_ok s (C_cas i n h) = (n \<le> q_end s \<and> h \<le> q_head s)"
| "consumer_ok s (C_take h) = (h < q_end s)"
| "consumer_ok s _ = True"

definition local_inv :: "'e spmc_state \<Rightarrow> bool" where
  "local_inv s \<longleftrightarrow> shape_inv s \<and> length (history s) = q_end s \<and> q_end s \<le> q_head s + q_cap s \<and>
     producer_ok s (producer s) \<and> (\<forall>c. consumer_ok s (consumers s c))"

definition ticket_inv :: "'e spmc_state \<Rightarrow> bool" where
  "ticket_inv s \<longleftrightarrow> distinct (map (\<lambda>(c, t, r). t) (taken s)) \<and>
     (\<forall>t \<in> taken_tickets s. t < q_head s \<and> t < q_end s) \<and>
     (\<forall>c t. held (consumers s c) = Some t \<longrightarrow> t < q_head s \<and> t \<notin> taken_tickets s) \<and>
     (\<forall>c c' t. held (consumers s c) = Some t \<longrightarrow> held (consumers s c') = Some t \<longrightarrow> c = c') \<and>
     (\<forall>t < q_head s. t \<in> taken_tickets s \<or> (\<exists>c. held (consumers s c) = Some t))"

definition slot_inv :: "'e spmc_state \<Rightarrow> bool" where
  "slot_inv s \<longleftrightarrow>
     (\<forall>t x t' x'. (t, x) \<in> live s \<longrightarrow> (t', x') \<in> live s \<longrightarrow> t mod q_cap s = t' mod q_cap s \<longrightarrow> t = t') \<and>
     (\<forall>i < q_cap s. \<forall>x. q_data s ! i = Some x \<longleftrightarrow> (\<exists>t. (t, x) \<in> live s \<and> t mod q_cap s = i)) \<and>
     (\<forall>(c, t, r) \<in> set (taken s). r = Some (history s ! t))"

definition spmc_inv :: "'e spmc_state \<Rightarrow> bool" where
  "spmc_inv s \<longleftrightarrow> local_inv s \<and> ticket_inv s \<and> slot_inv s"

lemma spmc_index_mod:
  assumes "shape_inv s"
  shows "spmc_index s t = t mod q_cap s"
proof -
  obtain k where k: "q_cap s = 2 ^ k" "q_mask s = 2 ^ k - 1" using assms by (auto simp: shape_inv_def)
  have "and t (mask k) = t mod 2 ^ k" by (simp flip: take_bit_eq_mask add: take_bit_eq_mod)
  then show ?thesis by (simp only: spmc_index_def k mask_eq_exp_minus_1)
qed

lemma shape_cap: "shape_inv s \<Longrightarrow> 0 < q_cap s \<and> length (q_data s) = q_cap s"
  by (auto simp: shape_inv_def)

section \<open>The forms of a step\<close>

text \<open>Each step in the terms the invariants need, under \<open>local_inv\<close> and the bound on the counters.\<close>

lemma sz_add_counters:
  assumes "local_inv s" "spmc_bounded s"
  shows "sz_add (q_head s) 1 = Suc (q_head s)" "sz_add (q_head s) (q_cap s) = q_head s + q_cap s"
    "sz_add (q_end s) 1 = Suc (q_end s)"
  using assms by (simp_all add: spmc_bounded_def local_inv_def)

lemma producer_next_cases:
  assumes inv: "local_inv s" and bound: "spmc_bounded s" and "\<not> is_P_idle (producer s)"
  obtains (prod) pc where "producer_next s = s\<lparr>producer := pc\<rparr>" "producer_ok s pc"
      "\<forall>e n. producer s \<noteq> P_publish e n" "\<forall>e n. pc \<noteq> P_publish e n"
  | (store) e n where "producer s = P_store e n" "n = q_end s"
      "producer_next s = s\<lparr>q_data := (q_data s)[n mod q_cap s := Some e], producer := P_publish e n\<rparr>"
  | (publish) e n where "producer s = P_publish e n" "n = q_end s"
      "producer_next s = s\<lparr>q_end := Suc n, producer := P_idle True, history := history s @ [e]\<rparr>"
  | (stutter) "producer_next s = s"
proof -
  have P: "producer_ok s (producer s)" and idx: "\<And>t. spmc_index s t = t mod q_cap s"
    using inv by (simp_all add: local_inv_def spmc_index_mod)
  note add = sz_add_counters [OF inv bound]
  show thesis
  proof (cases "producer s")
    case (P_load_head b e n)
    then consider "producer_next s = s" | "producer_next s = s\<lparr>producer := P_idle False\<rparr>"
      | "producer_next s = s\<lparr>producer := P_load_slot b e n\<rparr>" "n < q_head s + q_cap s"
      using add by (cases "q_head s + q_cap s \<le> n"; cases b) simp_all
    then show thesis using P P_load_head by cases (auto intro: stutter prod)
  next
    case (P_load_slot b e n)
    then consider "producer_next s = s" | "producer_next s = s\<lparr>producer := P_idle False\<rparr>"
      | "producer_next s = s\<lparr>producer := P_store e n\<rparr>" "q_data s ! (n mod q_cap s) = None"
      using idx by (cases "q_data s ! (n mod q_cap s) = None"; cases b) simp_all
    then show thesis using P P_load_slot by cases (auto intro: stutter prod)
  next
    case (P_store e n)
    then show thesis using P idx by (intro store [of e n]) simp_all
  next
    case (P_publish e n)
    then show thesis using P add by (intro publish [of e n]) simp_all
  qed (use assms(3) in simp)
qed

lemma consumer_next_cases:
  assumes inv: "local_inv s" and bound: "spmc_bounded s" and "\<not> is_C_idle (consumers s c)"
  obtains (move) pc where "consumer_next c s = set_consumer c pc s" "held pc = held (consumers s c)" "consumer_ok s pc"
  | (claim) pc where "consumer_next c s = set_consumer c pc (s\<lparr>q_head := Suc (q_head s)\<rparr>)" "held (consumers s c) = None"
      "held pc = Some (q_head s)" "consumer_ok s pc"
  | (take) h where "consumers s c = C_take h" "h < q_end s"
      "consumer_next c s = set_consumer c (C_idle (q_data s ! (h mod q_cap s))) (s\<lparr>q_data := (q_data s)[h mod q_cap s := None],
         taken := taken s @ [(c, h, q_data s ! (h mod q_cap s))]\<rparr>)"
  | (stutter) "consumer_next c s = s"
proof -
  have C: "consumer_ok s (consumers s c)" and idx: "\<And>t. spmc_index s t = t mod q_cap s"
    using inv by (simp_all add: local_inv_def spmc_index_mod)
  note add = sz_add_counters [OF inv bound]
  show thesis
  proof (cases "consumers s c")
    case (C_load_head n)
    then show thesis using C by (intro move [of "C_cas 0 n (q_head s)"]) simp_all
  next
    case (C_cas i n h)
    consider "5 \<le> i \<or> n \<le> h" | "\<not> 5 \<le> i" "\<not> n \<le> h" "q_head s = h" | "\<not> 5 \<le> i" "\<not> n \<le> h" "q_head s \<noteq> h" by blast
    then show thesis
    proof cases
      case 1
      then show thesis using C_cas by (intro move [of "C_idle None"]) auto
    next
      case 2
      then show thesis using C_cas C add by (intro claim [of "C_take h"]) auto
    next
      case 3
      then show thesis using C_cas C by (intro move [of "C_cas (i + 1) n (q_head s)"]) auto
    qed
  next
    case (C_wait h)
    then show thesis using stutter by (cases "q_end s \<le> h") (auto intro: move [of "C_take h"])
  next
    case (C_take h)
    then show thesis using C idx by (intro take [of h]) auto
  qed (use assms(3) in simp)
qed

text \<open>The forms of a step of the system: those of the producer, and those of a consumer.\<close>

lemma spmc_step_cases:
  assumes "spmc_step s s'" and inv: "local_inv s" and bound: "spmc_bounded s"
  obtains (prod) pc where "s' = s\<lparr>producer := pc\<rparr>" "producer_ok s pc"
      "\<forall>e n. producer s \<noteq> P_publish e n" "\<forall>e n. pc \<noteq> P_publish e n"
  | (store) e n where "producer s = P_store e n" "n = q_end s"
      "s' = s\<lparr>q_data := (q_data s)[n mod q_cap s := Some e], producer := P_publish e n\<rparr>"
  | (publish) e n where "producer s = P_publish e n" "n = q_end s"
      "s' = s\<lparr>q_end := Suc n, producer := P_idle True, history := history s @ [e]\<rparr>"
  | (move) c pc where "s' = set_consumer c pc s" "held pc = held (consumers s c)" "consumer_ok s pc"
  | (claim) c pc where "s' = set_consumer c pc (s\<lparr>q_head := Suc (q_head s)\<rparr>)" "held (consumers s c) = None"
      "held pc = Some (q_head s)" "consumer_ok s pc"
  | (take) c h where "consumers s c = C_take h" "h < q_end s"
      "s' = set_consumer c (C_idle (q_data s ! (h mod q_cap s))) (s\<lparr>q_data := (q_data s)[h mod q_cap s := None],
         taken := taken s @ [(c, h, q_data s ! (h mod q_cap s))]\<rparr>)"
  | (stutter) "s' = s"
  using assms(1)
proof (cases rule: spmc_step.cases)
  case (call_enqueue blocking e)
  then show ?thesis by (intro prod [of "P_load_head blocking e (q_end s)"]) (auto simp: is_P_idle_def)
next
  case producer_step
  from inv bound this(2) show ?thesis
    by (cases rule: producer_next_cases) (use producer_step prod store publish stutter in metis)+
next
  case (call_try_dequeue c)
  then show ?thesis by (intro move [of c "C_load_head (q_end s)"]) (auto simp: is_C_idle_def)
next
  case (call_dequeue c)
  then show ?thesis using sz_add_counters [OF inv bound] by (intro claim [of c "C_wait (q_head s)"]) (auto simp: is_C_idle_def)
next
  case (consumer_step c)
  from inv bound this(2) show ?thesis
    by (cases rule: consumer_next_cases) (use consumer_step move claim take stutter in metis)+
qed

section \<open>What the parts depend on\<close>

lemma taken_tickets_update [simp]:
  "taken_tickets (s\<lparr>producer := p\<rparr>) = taken_tickets s"
  "taken_tickets (s\<lparr>q_data := d\<rparr>) = taken_tickets s"
  "taken_tickets (s\<lparr>q_end := n\<rparr>) = taken_tickets s"
  "taken_tickets (s\<lparr>q_head := n\<rparr>) = taken_tickets s"
  "taken_tickets (s\<lparr>history := h\<rparr>) = taken_tickets s"
  "taken_tickets (set_consumer c pc s) = taken_tickets s"
  "taken_tickets (s\<lparr>taken := taken s @ [(c, t, r)]\<rparr>) = insert t (taken_tickets s)"
  by (auto simp: taken_tickets_defs set_consumer_def)

lemma set_consumer_fields [simp]:
  "q_data (set_consumer c pc s) = q_data s" "q_cap (set_consumer c pc s) = q_cap s"
  "q_mask (set_consumer c pc s) = q_mask s" "q_head (set_consumer c pc s) = q_head s"
  "q_end (set_consumer c pc s) = q_end s" "producer (set_consumer c pc s) = producer s"
  "history (set_consumer c pc s) = history s" "taken (set_consumer c pc s) = taken s"
  "consumers (set_consumer c pc s) = (consumers s)(c := pc)"
  by (simp_all add: set_consumer_def)

lemma shape_inv_update:
  "q_cap s' = q_cap s \<Longrightarrow> q_mask s' = q_mask s \<Longrightarrow> length (q_data s') = length (q_data s) \<Longrightarrow>
   shape_inv s' = shape_inv s"
  by (simp add: shape_inv_def)

lemma producer_ok_mono:
  assumes "producer_ok s p" "q_end s' = q_end s" "q_head s \<le> q_head s'" "q_cap s' = q_cap s"
    and "\<And>i. i < q_cap s \<Longrightarrow> q_data s ! i = None \<Longrightarrow> q_data s' ! i = None" "0 < q_cap s"
  shows "producer_ok s' p"
  using assms by (cases p) auto

lemma consumer_ok_mono: "consumer_ok s p \<Longrightarrow> q_end s \<le> q_end s' \<Longrightarrow> q_head s \<le> q_head s' \<Longrightarrow> consumer_ok s' p"
  by (cases p) auto

lemma local_invI:
  assumes "local_inv s" "q_cap s' = q_cap s" "q_mask s' = q_mask s" "length (q_data s') = length (q_data s)"
    and "length (history s') = q_end s'" "q_end s' \<le> q_head s' + q_cap s'" "producer_ok s' (producer s')"
    and "q_end s \<le> q_end s'" "q_head s \<le> q_head s'" "\<And>c. consumers s' c = consumers s c \<or> consumer_ok s (consumers s' c)"
  shows "local_inv s'"
  unfolding local_inv_def
proof (intro conjI allI)
  show "shape_inv s'" using assms(1-4) by (simp add: local_inv_def shape_inv_update [of s' s])
  fix c
  have "consumer_ok s (consumers s' c)" using assms(1) assms(10) [of c] by (auto simp: local_inv_def)
  then show "consumer_ok s' (consumers s' c)" using assms(8,9) by (rule consumer_ok_mono)
qed (use assms in simp_all)

lemma local_inv_step:
  assumes "spmc_step s s'" and inv: "local_inv s" and bound: "spmc_bounded s"
  shows "local_inv s'"
proof -
  have P: "producer_ok s (producer s)"
    and e: "q_end s \<le> q_head s + q_cap s" "length (history s) = q_end s"
    using inv by (simp_all add: local_inv_def)
  have cap: "0 < q_cap s" "length (q_data s) = q_cap s"
    using shape_cap [of s] inv by (simp_all add: local_inv_def)
  show ?thesis
    using assms
  proof (cases rule: spmc_step_cases)
    case (prod pc)
    have "producer_ok s' pc" by (rule producer_ok_mono [OF prod(2)]) (simp_all add: prod(1) cap)
    then show ?thesis using prod(1) e by (intro local_invI [OF inv]) simp_all
  next
    case (store e n)
    then show ?thesis using e P by (intro local_invI [OF inv]) simp_all
  next
    case (publish e n)
    then show ?thesis using e P by (intro local_invI [OF inv]) simp_all
  next
    case (move c pc)
    have "producer_ok s' (producer s)" by (rule producer_ok_mono [OF P]) (simp_all add: move(1) cap)
    then show ?thesis using move e by (intro local_invI [OF inv]) simp_all
  next
    case (claim c pc)
    have "producer_ok s' (producer s)" by (rule producer_ok_mono [OF P]) (simp_all add: claim(1) cap)
    then show ?thesis using claim e by (intro local_invI [OF inv]) simp_all
  next
    case (take c h)
    have "producer_ok s' (producer s)"
      by (rule producer_ok_mono [OF P]) (simp_all add: take(3) cap nth_list_update)
    then show ?thesis using take e by (intro local_invI [OF inv]) simp_all
  qed (use inv in simp)
qed

lemma ticket_inv_owned: "ticket_inv s \<longleftrightarrow> owned (taken s) (q_head s) (q_end s) (consumers s)"
  by (simp add: ticket_inv_def owned_def taken_tickets_def)

lemma ticket_inv_step:
  assumes "spmc_step s s'" and inv: "local_inv s" and bound: "spmc_bounded s" and tk: "ticket_inv s"
  shows "ticket_inv s'"
  using assms(1-3)
proof (cases rule: spmc_step_cases)
  case (publish e n)
  then show ?thesis using tk by (simp add: ticket_inv_owned owned_publish)
next
  case (move c pc)
  then show ?thesis using tk by (simp add: ticket_inv_owned owned_move)
next
  case (claim c pc)
  then show ?thesis using tk by (simp add: ticket_inv_owned owned_claim)
next
  case (take c h)
  have "held (consumers s c) = Some h" by (simp add: take(1))
  then show ?thesis using tk take(2) by (simp add: take(3) ticket_inv_owned owned_take)
qed (use tk in \<open>simp_all add: ticket_inv_owned\<close>)

section \<open>The contents of the slots\<close>

lemma live_same:
  "q_end s' = q_end s \<Longrightarrow> taken_tickets s' = taken_tickets s \<Longrightarrow> history s' = history s \<Longrightarrow>
   (\<forall>e n. producer s' = P_publish e n \<longleftrightarrow> producer s = P_publish e n) \<Longrightarrow> live s' = live s"
  by (auto simp: live_def split: producer.splits)

lemma live_publish:
  assumes "producer s = P_publish e n" "n = q_end s" "ticket_inv s" "length (history s) = q_end s"
  shows "live (s\<lparr>q_end := Suc n, producer := P_idle True, history := history s @ [e]\<rparr>) = live s"
proof -
  have "n \<notin> taken_tickets s" using assms(2,3) by (auto simp: ticket_inv_def)
  then show ?thesis using assms(1,2,4)
    by (auto simp: live_def less_Suc_eq nth_append taken_tickets_defs)
qed

lemma slot_inv_same:
  "live s' = live s \<Longrightarrow> q_cap s' = q_cap s \<Longrightarrow> q_data s' = q_data s \<Longrightarrow> taken s' = taken s \<Longrightarrow>
   (\<forall>t \<in> taken_tickets s. history s' ! t = history s ! t) \<Longrightarrow> slot_inv s = slot_inv s'"
  by (force simp: slot_inv_def taken_tickets_defs)

lemma slot_inv_store:
  assumes slot: "slot_inv s" and free: "q_data s ! (n mod q_cap s) = None" "length (q_data s) = q_cap s" "0 < q_cap s"
    and live: "live s' = insert (n, e) (live s)" and s': "q_cap s' = q_cap s" "taken s' = taken s" "history s' = history s"
      "q_data s' = (q_data s)[n mod q_cap s := Some e]"
  shows "slot_inv s'"
proof -
  have new: "t mod q_cap s \<noteq> n mod q_cap s" if "(t, x) \<in> live s" for t x
    using slot that free unfolding slot_inv_def by (metis mod_less_divisor option.distinct(1))
  have "\<forall>t x t' x'. (t, x) \<in> live s' \<longrightarrow> (t', x') \<in> live s' \<longrightarrow> t mod q_cap s = t' mod q_cap s \<longrightarrow> t = t'"
    using slot new [THEN not_sym] new by (auto simp: slot_inv_def live)
  moreover have "q_data s' ! i = Some x \<longleftrightarrow> (\<exists>t. (t, x) \<in> live s' \<and> t mod q_cap s = i)"
    if i: "i < q_cap s" for i x
  proof (cases "i = n mod q_cap s")
    case True
    then show ?thesis using i free new by (auto simp: s' live)
  next
    case False
    then show ?thesis using slot i free by (auto simp: s' live slot_inv_def)
  qed
  ultimately show ?thesis using slot by (simp add: slot_inv_def s')
qed

lemma slot_inv_take:
  assumes slot: "slot_inv s" and h: "(h, x) \<in> live s" "q_data s ! (h mod q_cap s) = Some x" "x = history s ! h"
    and len: "length (q_data s) = q_cap s" "0 < q_cap s"
    and live: "live s' = live s - {h} \<times> UNIV"
    and s': "q_cap s' = q_cap s" "taken s' = taken s @ [(c, h, Some x)]" "history s' = history s"
      "q_data s' = (q_data s)[h mod q_cap s := None]"
  shows "slot_inv s'"
proof -
  have other: "t = h" if "(t, y) \<in> live s" "t mod q_cap s = h mod q_cap s" for t y
    using slot that h(1) unfolding slot_inv_def by blast
  have "\<forall>t x t' x'. (t, x) \<in> live s' \<longrightarrow> (t', x') \<in> live s' \<longrightarrow> t mod q_cap s = t' mod q_cap s \<longrightarrow> t = t'"
    using slot by (auto simp: slot_inv_def live)
  moreover have "q_data s' ! i = Some y \<longleftrightarrow> (\<exists>t. (t, y) \<in> live s' \<and> t mod q_cap s = i)"
    if i: "i < q_cap s" for i y
  proof (cases "i = h mod q_cap s")
    case True
    then show ?thesis using i len other by (auto simp: s' live)
  next
    case False
    then show ?thesis using slot i len by (auto simp: s' live slot_inv_def)
  qed
  ultimately show ?thesis using slot h(3) by (simp add: slot_inv_def s')
qed

lemma slot_inv_step:
  assumes "spmc_step s s'" and inv: "local_inv s" and bound: "spmc_bounded s" and tk: "ticket_inv s"
    and slot: "slot_inv s"
  shows "slot_inv s'"
proof -
  have P: "producer_ok s (producer s)" and e: "length (history s) = q_end s"
    using inv by (simp_all add: local_inv_def)
  have cap: "0 < q_cap s" "length (q_data s) = q_cap s"
    using shape_cap [of s] inv by (simp_all add: local_inv_def)
  have tk': "\<forall>t \<in> taken_tickets s. t < q_end s" using tk by (simp add: ticket_inv_def)
  show ?thesis
    using assms(1-3)
  proof (cases rule: spmc_step_cases)
    case (prod pc)
    have "live s' = live s" by (rule live_same) (use prod in simp_all)
    then show ?thesis using slot prod by (simp add: slot_inv_same [of s' s])
  next
    case (store e n)
    have "live s' = insert (n, e) (live s)" using store by (auto simp: live_def taken_tickets_defs)
    then show ?thesis using store P cap by (intro slot_inv_store [OF slot, of n s' e]) simp_all
  next
    case (publish e n)
    have "live s' = live s" using live_publish [OF publish(1,2) tk] e publish(3) by simp
    then show ?thesis using slot publish tk' e by (subst (asm) slot_inv_same [of s' s]) (simp_all add: nth_append)
  next
    case (move c pc)
    have "live s' = live s" by (rule live_same) (use move in simp_all)
    then show ?thesis using slot move by (simp add: slot_inv_same [of s' s])
  next
    case (claim c pc)
    have "live s' = live s" by (rule live_same) (use claim in simp_all)
    then show ?thesis using slot claim by (simp add: slot_inv_same [of s' s])
  next
    case (take c h)
    let ?x = "history s ! h"
    have "held (consumers s c) = Some h" by (simp add: take(1))
    then have "h \<notin> taken_tickets s" using tk by (auto simp: ticket_inv_def)
    then have h: "(h, ?x) \<in> live s" using take(2) by (simp add: live_def)
    then have d: "q_data s ! (h mod q_cap s) = Some ?x" using slot cap by (auto simp: slot_inv_def)
    have t: "taken_tickets s' = insert h (taken_tickets s)"
      by (auto simp: take(3) taken_tickets_defs)
    have "live s' = live s - {h} \<times> UNIV"
      unfolding live_def t using take(2,3) P by (auto split: producer.splits)
    then show ?thesis using take d cap by (intro slot_inv_take [OF slot h d refl]) simp_all
  qed (use slot in simp)
qed

section \<open>The initial state\<close>

text \<open>The doubling loop stops at the first power of two that is large enough, if there is one
  below \<open>2 ^ 64\<close>; otherwise the capacity becomes 0 and it never stops.\<close>

lemma spmc_cap_loop_power:
  assumes "n \<le> 2 ^ m" "m \<le> 63" "j \<le> m" "\<And>i. j \<le> i \<Longrightarrow> i < m \<Longrightarrow> 2 ^ i < n"
  shows "spmc_cap_loop (2 ^ j) n = ret (2 ^ m)"
  using assms(3,4)
proof (induction j rule: inc_induct)
  case base
  then show ?case using assms(1) by (subst spmc_cap_loop.simps) simp
next
  case (step j)
  have "(2::nat) ^ Suc j < 2 ^ 64" using step.hyps(2) assms(2) by (intro power_strict_increasing) simp_all
  then have "sz_mul (2 ^ j) 2 = 2 ^ Suc j" by (simp add: size_mod_def)
  then show ?case using step by (subst spmc_cap_loop.simps) simp
qed

lemma spmc_cap_loop_huge:
  assumes "2 ^ 63 < n"
  shows "spmc_cap_loop 1 n = diverge"
proof -
  define small where "small c \<longleftrightarrow> c = 0 \<or> (\<exists>k \<le> 63. c = (2::nat) ^ k)" for c
  have double: "small (sz_mul c 2) \<and> c \<le> 2 ^ 63" if "small c" for c
  proof (cases "c = 0 \<or> c = 2 ^ 63")
    case True
    then show ?thesis by (auto simp: small_def sz_mul_def size_mod_def)
  next
    case False
    then obtain k where k: "c = 2 ^ k" "k \<le> 63" "k \<noteq> 63"
      using \<open>small c\<close> unfolding small_def by blast
    then have "Suc k \<le> 63" by simp
    have "(2::nat) ^ Suc k < 2 ^ 64" using \<open>Suc k \<le> 63\<close> by (intro power_strict_increasing) simp_all
    then have "sz_mul c 2 = 2 ^ Suc k" by (simp add: k(1) size_mod_def)
    moreover have "c \<le> 2 ^ 63" unfolding k(1) using k(2) by (rule power_increasing) simp
    ultimately show ?thesis using \<open>Suc k \<le> 63\<close> unfolding small_def by blast
  qed
  have "small c \<longrightarrow> m \<le> 2 ^ 63" if "spmc_cap_loop c m = Some r" for c m r
  proof (rule spmc_cap_loop.raw_induct [of "\<lambda>c m r. small c \<longrightarrow> m \<le> 2 ^ 63", OF _ that])
    fix loop c m r
    assume IH: "\<And>c m r. loop c m = Some r \<Longrightarrow> small c \<longrightarrow> m \<le> 2 ^ 63"
      and r: "(if c < m then loop (sz_mul c 2) m else ret c) = Some r"
    show "small c \<longrightarrow> m \<le> 2 ^ 63"
      using IH [of "sz_mul c 2" m] r double [of c] by (auto split: if_splits)
  qed
  moreover have "small 1" unfolding small_def by (intro disjI2 exI [of _ 0]) simp
  ultimately show ?thesis using assms by (metis not_None_eq not_less)
qed

lemma spmc_smallest_power:
  assumes "n \<le> 2 ^ 63"
  obtains k where "k \<le> 63" "n \<le> 2 ^ k" "k = 0 \<or> 2 ^ (k - 1) < n" "spmc_cap_loop 1 n = ret (2 ^ k)"
proof -
  define k where "k = (LEAST k. n \<le> 2 ^ k)"
  have k: "n \<le> 2 ^ k" unfolding k_def by (rule LeastI) (rule assms)
  have le: "k \<le> 63" unfolding k_def by (rule Least_le) (rule assms)
  have less: "2 ^ i < n" if "i < k" for i using not_less_Least [of i "\<lambda>k. n \<le> 2 ^ k"] that by (simp add: k_def)
  have "spmc_cap_loop (2 ^ 0) n = ret (2 ^ k)" using k le less by (intro spmc_cap_loop_power) simp_all
  then show thesis using k le less by (intro that [of k]) (cases k; simp)+
qed

lemma spmc_init_fields:
  assumes "spmc_init True n = ret q"
  obtains k where "q = \<lparr>q_data = replicate (2 ^ k) None, q_cap = 2 ^ k, q_mask = 2 ^ k - 1, q_head = 0, q_end = 0\<rparr>"
proof -
  have "n \<le> 2 ^ 63" using assms spmc_cap_loop_huge [of n] by (force simp: spmc_init_def)
  then obtain k where k: "k \<le> 63" "spmc_cap_loop 1 n = ret (2 ^ k)" by (rule spmc_smallest_power)
  have "(2::nat) ^ k < 2 ^ 64" using k(1) by (intro power_strict_increasing) simp_all
  then have "sz_sub (2 ^ k) 1 = 2 ^ k - 1" by (simp add: size_mod_def)
  then show thesis using assms k(2) by (intro that [of k]) (simp add: spmc_init_def)
qed

lemma spmc_init_two: "spmc_init True 2 = ret \<lparr>q_data = [None, None], q_cap = 2, q_mask = 1, q_head = 0, q_end = 0\<rparr>"
proof -
  have replicate_two: "replicate 2 x = [x, x]" for x :: "'a option" by (simp add: numeral_2_eq_2)
  have "spmc_cap_loop 1 2 = ret 2"
    by (subst spmc_cap_loop.simps, simp add: sz_mul_def size_mod_def, subst spmc_cap_loop.simps, simp)
  then show ?thesis by (simp add: spmc_init_def sz_sub_def size_mod_def replicate_two)
qed

lemma spmc_start_inv:
  assumes "spmc_start s"
  shows "spmc_inv s"
proof -
  obtain n where n: "spmc_init True n = ret (spmc.truncate s)" and idle: "is_P_idle (producer s)"
      "\<forall>c. is_C_idle (consumers s c)" "history s = []" "taken s = []"
    using assms by (auto simp: spmc_start_def)
  from n obtain k where "spmc.truncate s = \<lparr>q_data = replicate (2 ^ k) None, q_cap = 2 ^ k, q_mask = 2 ^ k - 1, q_head = 0, q_end = 0\<rparr>"
    by (rule spmc_init_fields)
  then have f: "q_data s = replicate (2 ^ k) None" "q_cap s = 2 ^ k" "q_mask s = 2 ^ k - 1" "q_head s = 0" "q_end s = 0"
    by (simp_all add: spmc.defs)
  obtain b where b: "producer s = P_idle b" using idle(1) by (auto simp: is_P_idle_def)
  have c: "held (consumers s c) = None" "consumer_ok s (consumers s c)" for c
    using spec [OF idle(2), of c] by (cases "consumers s c"; simp)+
  have live: "live s = {}" using f b by (simp add: live_def)
  have tk: "taken_tickets s = {}" using idle by (simp add: taken_tickets_defs)
  show ?thesis
    using idle(3,4) f b c by (simp add: spmc_inv_def local_inv_def shape_inv_def ticket_inv_def slot_inv_def live tk)
qed

interpretation spmc_safe: invariant spmc_start spmc_step spmc_bounded spmc_inv
proof unfold_locales
  fix s s' :: "'e spmc_state"
  assume "spmc_inv s" "spmc_bounded s" "spmc_step s s'"
  then show "spmc_inv s'"
    using local_inv_step [of s s'] ticket_inv_step [of s s'] slot_inv_step [of s s'] by (simp add: spmc_inv_def)
qed (rule spmc_start_inv)

end
