(* ===== verification/Spmc_Props.thy ===== *)
theory Spmc_Props
  imports Spmc_Inv
begin

text \<open>
  The properties of the ring queue. They rest on the invariant of every reachable state
  (\<open>spmc_safe.reach_inv\<close>).
\<close>

section \<open>Calls that run alone\<close>

text \<open>A whole call of \<open>a3_spmc_try_enqueue\<close> or \<open>a3_spmc_try_dequeue\<close> with no other step in
  between: its first operation, then the rest.\<close>

definition try_enqueue_alone :: "'e \<Rightarrow> 'e spmc_state \<Rightarrow> 'e spmc_state" where
  "try_enqueue_alone e s = (producer_next ^^ 4) (s\<lparr>producer := P_load_head False e (q_end s)\<rparr>)"

definition try_dequeue_alone :: "nat \<Rightarrow> 'e spmc_state \<Rightarrow> 'e spmc_state" where
  "try_dequeue_alone c s = (consumer_next c ^^ 3) (set_consumer c (C_load_head (q_end s)) s)"

lemma taken_result:
  assumes "spmc_inv s" "(c, t, r) \<in> set (taken s)"
  shows "r = Some (history s ! t) \<and> t < q_head s \<and> t < length (history s)"
  using assms by (force simp: spmc_inv_def local_inv_def ticket_inv_def slot_inv_def taken_tickets_defs)

lemma idle_tickets:
  assumes "spmc_inv s" "\<forall>c. held (consumers s c) = None"
  shows "taken_tickets s = {..<q_head s}" "q_head s \<le> q_end s"
proof -
  have t: "\<forall>t \<in> taken_tickets s. t < q_head s \<and> t < q_end s" "\<forall>t < q_head s. t \<in> taken_tickets s"
    using assms by (auto simp: spmc_inv_def ticket_inv_def)
  then show "taken_tickets s = {..<q_head s}" by auto
  show "q_head s \<le> q_end s"
  proof (rule ccontr)
    assume "\<not> q_head s \<le> q_end s"
    then have "q_end s \<in> taken_tickets s" using t(2) by simp
    then show False using t(1) by blast
  qed
qed

lemma idle_slot:
  assumes "spmc_inv s" "\<forall>c. held (consumers s c) = None" "q_head s \<le> t" "t < q_end s"
  shows "q_data s ! spmc_index s t = Some (history s ! t)"
proof -
  have "(t, history s ! t) \<in> live s" using idle_tickets [OF assms(1,2)] assms(3,4) by (simp add: live_def)
  moreover have "shape_inv s" "0 < q_cap s" using assms(1) shape_cap [of s] by (auto simp: spmc_inv_def local_inv_def)
  ultimately show ?thesis using assms(1) by (auto simp: spmc_inv_def slot_inv_def spmc_index_mod)
qed

lemma idle_free_slot:
  assumes inv: "spmc_inv s" and idle: "\<forall>c. held (consumers s c) = None" "is_P_idle (producer s)"
    and space: "q_end s < q_head s + q_cap s"
  shows "q_data s ! spmc_index s (q_end s) = None"
proof (rule ccontr)
  assume "\<not> ?thesis"
  then obtain x where x: "q_data s ! spmc_index s (q_end s) = Some x" by auto
  have sh: "shape_inv s" "0 < q_cap s" using inv shape_cap [of s] by (auto simp: spmc_inv_def local_inv_def)
  obtain t where "(t, x) \<in> live s" "t mod q_cap s = q_end s mod q_cap s"
    using inv x sh by (auto simp: spmc_inv_def slot_inv_def spmc_index_mod)
  then have t: "q_head s \<le> t" "t < q_end s" "q_end s mod q_cap s = t mod q_cap s"
    using idle idle_tickets [OF inv idle(1)] by (auto simp: live_def is_P_idle_def)
  then have "q_cap s dvd q_end s - t" by (simp add: mod_eq_dvd_iff_nat)
  then have "q_cap s \<le> q_end s - t" using t(2) by (intro dvd_imp_le) simp_all
  then show False using t space by linarith
qed

section \<open>Example states\<close>

text \<open>A queue of capacity 2: at the start, after one element is enqueued, and after consumer 3
  has taken it.\<close>

definition ex_start :: "nat spmc_state" where
  "ex_start = \<lparr>q_data = [None, None], q_cap = 2, q_mask = 1, q_head = 0, q_end = 0,
     producer = P_idle True, consumers = \<lambda>c. C_idle None, history = [], taken = []\<rparr>"

definition ex_enqueued :: "nat spmc_state" where
  "ex_enqueued = ex_start\<lparr>q_data := [Some 7, None], q_end := 1, history := [7]\<rparr>"

definition ex_dequeued :: "nat spmc_state" where
  "ex_dequeued = ex_start\<lparr>q_head := 1, q_end := 1, history := [7], taken := [(3, 0, Some 7)],
     consumers := (\<lambda>c. C_idle None)(3 := C_idle (Some 7))\<rparr>"

lemma reach_producer:
  assumes "reach spmc_start spmc_step spmc_bounded s" "spmc_bounded s"
  shows "reach spmc_start spmc_step spmc_bounded (producer_next s)"
proof (cases "is_P_idle (producer s)")
  case True
  then show ?thesis using assms(1) by (auto simp: is_P_idle_def is_C_idle_def)
next
  case False
  then show ?thesis using assms by (metis reach_step spmc_step.producer_step)
qed

lemma reach_consumer:
  assumes "reach spmc_start spmc_step spmc_bounded s" "spmc_bounded s"
  shows "reach spmc_start spmc_step spmc_bounded (consumer_next c s)"
proof (cases "is_C_idle (consumers s c)")
  case True
  then show ?thesis using assms(1) by (auto simp: is_P_idle_def is_C_idle_def)
next
  case False
  then show ?thesis using assms by (metis reach_step spmc_step.consumer_step)
qed

lemmas ex_spmc_defs = ex_start_def spmc_bounded_def spmc_index_def size_mod_def sz_add_def

lemma ex_start: "reach spmc_start spmc_step spmc_bounded ex_start"
proof (rule reach_init)
  have "spmc_init True 2 = ret (spmc.truncate ex_start)" by (simp add: spmc_init_two spmc.defs ex_start_def)
  then show "spmc_start ex_start" by (auto simp: spmc_start_def ex_start_def)
qed

lemma ex_enqueued: "reach spmc_start spmc_step spmc_bounded ex_enqueued"
proof -
  let ?s = "ex_start\<lparr>producer := P_load_head False 7 (q_end ex_start)\<rparr>"
  have "spmc_step ex_start ?s" by (rule call_enqueue) (simp add: ex_start_def)
  then have "reach spmc_start spmc_step spmc_bounded ?s"
    by (rule reach_step [OF ex_start, rotated]) (simp add: ex_spmc_defs)
  then have "reach spmc_start spmc_step spmc_bounded (producer_next (producer_next (producer_next (producer_next ?s))))"
    by (intro reach_producer) (simp_all add: ex_spmc_defs)
  also have "producer_next (producer_next (producer_next (producer_next ?s))) = ex_enqueued"
    by (simp add: ex_spmc_defs ex_enqueued_def)
  finally show ?thesis .
qed

lemma ex_dequeued: "reach spmc_start spmc_step spmc_bounded ex_dequeued"
proof -
  let ?s = "set_consumer 3 (C_load_head (q_end ex_enqueued)) ex_enqueued"
  have "spmc_step ex_enqueued ?s" by (rule call_try_dequeue) (simp add: ex_start_def ex_enqueued_def)
  then have "reach spmc_start spmc_step spmc_bounded ?s"
    by (rule reach_step [OF ex_enqueued, rotated]) (simp add: ex_spmc_defs ex_enqueued_def)
  then have "reach spmc_start spmc_step spmc_bounded (consumer_next 3 (consumer_next 3 (consumer_next 3 ?s)))"
    by (intro reach_consumer) (simp_all add: ex_spmc_defs ex_enqueued_def)
  also have "consumer_next 3 (consumer_next 3 (consumer_next 3 ?s)) = ex_dequeued"
    by (simp add: ex_spmc_defs ex_enqueued_def ex_dequeued_def set_consumer_def fun_upd_idem)
  finally show ?thesis .
qed

section \<open>Properties\<close>

text \<open>C13: whatever the interleaving of the producer with any number of consumers, the exchange
  of a dequeue that holds ticket \<open>t\<close> returns the \<open>t\<close>-th element published, never \<open>NULL\<close>, and no ticket is
  served twice: the queue is first-in first-out and duplicates nothing.\<close>

theorem spmc_dequeues_in_order:
  assumes "reach spmc_start spmc_step spmc_bounded s"
  shows "(\<forall>(c, t, r) \<in> set (taken s). t < length (history s) \<and> r = Some (history s ! t)) \<and>
    distinct (map (\<lambda>(c, t, r). t) (taken s))"
proof -
  have inv: "spmc_inv s" using assms by (rule spmc_safe.reach_inv)
  then have "\<forall>(c, t, r) \<in> set (taken s). t < length (history s) \<and> r = Some (history s ! t)"
    using taken_result by blast
  then show ?thesis using inv by (simp add: spmc_inv_def ticket_inv_def)
qed

theorem spmc_dequeues_in_order_witness:
  "taken ex_dequeued = [(3, 0, Some 7)] \<and> Some 7 = Some (history ex_dequeued ! 0) \<and>
   distinct (map (\<lambda>(c, t, r). t) (taken ex_dequeued))"
  using spmc_dequeues_in_order [OF ex_dequeued] by (simp add: ex_dequeued_def)

text \<open>C17: nothing is lost. When no consumer holds a ticket, the tickets served are exactly those
  below \<open>head\<close>, every element published from \<open>head\<close> on is still in its slot, and at most \<open>cap\<close>
  elements are in the queue.\<close>

theorem spmc_nothing_lost:
  assumes "reach spmc_start spmc_step spmc_bounded s" and "\<forall>c. held (consumers s c) = None"
  shows "(\<lambda>(c, t, r). t) ` set (taken s) = {..<q_head s} \<and>
    (\<forall>t. q_head s \<le> t \<and> t < length (history s) \<longrightarrow> q_data s ! spmc_index s t = Some (history s ! t)) \<and>
    q_head s \<le> length (history s) \<and> length (history s) - q_head s \<le> q_cap s"
proof -
  have inv: "spmc_inv s" using assms(1) by (rule spmc_safe.reach_inv)
  then have "length (history s) = q_end s" "q_end s \<le> q_head s + q_cap s"
    by (simp_all add: spmc_inv_def local_inv_def)
  then show ?thesis
    using idle_tickets [OF inv assms(2)] idle_slot [OF inv assms(2)] by (auto simp: taken_tickets_defs)
qed

theorem spmc_nothing_lost_witness:
  "q_head ex_enqueued = 0 \<and> length (history ex_enqueued) = 1 \<and>
   q_data ex_enqueued ! spmc_index ex_enqueued 0 = Some (history ex_enqueued ! 0)"
  using spmc_nothing_lost [OF ex_enqueued] by (simp add: ex_enqueued_def ex_start_def)

text \<open>A call of \<open>a3_spmc_try_enqueue\<close> that runs while nothing else is in progress succeeds
  exactly when fewer than \<open>cap\<close> elements are in the queue; then it stores the element in the slot
  of \<open>end\<close>, publishes it and returns true, and otherwise it returns false and changes nothing.\<close>

theorem spmc_try_enqueue_when_space:
  assumes "reach spmc_start spmc_step spmc_bounded s" and "spmc_bounded s"
    and "is_P_idle (producer s)" and "\<forall>c. held (consumers s c) = None"
  shows "try_enqueue_alone e s = (if length (history s) - q_head s < q_cap s
    then s\<lparr>q_data := (q_data s)[spmc_index s (q_end s) := Some e], q_end := Suc (q_end s), history := history s @ [e], producer := P_idle True\<rparr>
    else s\<lparr>producer := P_idle False\<rparr>)"
proof -
  have inv: "spmc_inv s" using assms(1) by (rule spmc_safe.reach_inv)
  then have l: "local_inv s" "length (history s) = q_end s" by (simp_all add: spmc_inv_def local_inv_def)
  note add = sz_add_counters [OF l(1) assms(2)]
  have head: "q_head s \<le> q_end s" using idle_tickets [OF inv assms(4)] by simp
  have four: "f ^^ 4 = f \<circ> f \<circ> f \<circ> f" for f :: "'a spmc_state \<Rightarrow> 'a spmc_state"
    by (simp add: numeral_eq_Suc fun_eq_iff)
  show ?thesis
  proof (cases "q_end s < q_head s + q_cap s")
    case True
    then have "q_data s ! spmc_index s (q_end s) = None" using idle_free_slot [OF inv assms(4,3)] by simp
    then show ?thesis using True l(2) add head
      by (simp add: try_enqueue_alone_def four spmc_index_def less_diff_conv2)
  next
    case False
    then show ?thesis using l(2) add head
      by (simp add: try_enqueue_alone_def four less_diff_conv2)
  qed
qed

theorem spmc_try_enqueue_when_space_witness:
  "try_enqueue_alone 9 ex_enqueued =
   ex_enqueued\<lparr>q_data := [Some 7, Some 9], q_end := 2, history := [7, 9]\<rparr>"
  using spmc_try_enqueue_when_space [OF ex_enqueued, of 9] by (simp add: ex_enqueued_def ex_spmc_defs)

text \<open>A call of \<open>a3_spmc_try_dequeue\<close> that runs while no other consumer holds a ticket
  takes and returns the oldest element of the queue; it returns \<open>NULL\<close> and changes nothing when the queue is empty.\<close>

theorem spmc_try_dequeue_takes_oldest:
  assumes "reach spmc_start spmc_step spmc_bounded s" and "spmc_bounded s"
    and "\<forall>c. held (consumers s c) = None" and "is_C_idle (consumers s c)"
  shows "try_dequeue_alone c s = (if q_head s < length (history s)
    then s\<lparr>q_head := Suc (q_head s), q_data := (q_data s)[spmc_index s (q_head s) := None],
           taken := taken s @ [(c, q_head s, Some (history s ! q_head s))],
           consumers := (consumers s)(c := C_idle (Some (history s ! q_head s)))\<rparr>
    else s\<lparr>consumers := (consumers s)(c := C_idle None)\<rparr>)"
proof -
  have inv: "spmc_inv s" using assms(1) by (rule spmc_safe.reach_inv)
  then have l: "local_inv s" "length (history s) = q_end s" by (simp_all add: spmc_inv_def local_inv_def)
  note add = sz_add_counters [OF l(1) assms(2)]
  have three: "f ^^ 3 = f \<circ> f \<circ> f" for f :: "'a spmc_state \<Rightarrow> 'a spmc_state"
    by (simp add: numeral_eq_Suc fun_eq_iff)
  show ?thesis
    using idle_slot [OF inv assms(3), of "q_head s"] l(2) add
    by (simp add: try_dequeue_alone_def three set_consumer_def spmc_index_def)
qed

theorem spmc_try_dequeue_takes_oldest_witness:
  "try_dequeue_alone 3 ex_enqueued = ex_dequeued"
  using spmc_try_dequeue_takes_oldest [OF ex_enqueued, of 3]
  by (simp add: ex_enqueued_def ex_dequeued_def ex_spmc_defs)

text \<open>C37: \<open>a3_spmc_init\<close> makes an empty queue whose capacity is the smallest power of two that is
  at least the one asked for, up to \<open>2 ^ 63\<close>. For a larger request the doubling wraps to 0 and the call
  never returns.\<close>

theorem spmc_init_rounds_up:
  "if n \<le> 2 ^ 63
   then \<exists>k \<le> 63. n \<le> 2 ^ k \<and> (k = 0 \<or> 2 ^ (k - 1) < n) \<and>
     spmc_init True n = ret \<lparr>q_data = replicate (2 ^ k) None, q_cap = 2 ^ k, q_mask = 2 ^ k - 1, q_head = 0, q_end = 0\<rparr>
   else spmc_init True n = diverge"
proof (cases "n \<le> 2 ^ 63")
  case True
  then obtain k where k: "k \<le> 63" "n \<le> 2 ^ k" "k = 0 \<or> 2 ^ (k - 1) < n" "spmc_cap_loop 1 n = ret (2 ^ k)"
    by (rule spmc_smallest_power)
  have "(2::nat) ^ k < 2 ^ 64" using k(1) by (intro power_strict_increasing) simp_all
  then have "sz_sub (2 ^ k) 1 = 2 ^ k - 1" by (simp add: size_mod_def)
  then have "spmc_init True n =
      ret \<lparr>q_data = replicate (2 ^ k) None, q_cap = 2 ^ k, q_mask = 2 ^ k - 1, q_head = 0, q_end = 0\<rparr>"
    using k(4) by (simp add: spmc_init_def)
  then show ?thesis using True k by (simp only: if_True) blast
next
  case False
  then show ?thesis using spmc_cap_loop_huge [of n] by (simp only: if_False) (simp add: spmc_init_def)
qed

end
