(* ===== verification/Spmc_Run.thy ===== *)
theory Spmc_Run
  imports Spmc_Props
begin

text \<open>
  Infinite runs of the queue: labelled steps, what each thread leaves alone, what only grows, and
  what a fair schedule is.
\<close>

section \<open>Labelled steps\<close>

datatype 'e spmc_action =
    Begin_enqueue bool 'e
  | Produce
  | Begin_try_dequeue nat
  | Begin_dequeue nat
  | Consume nat

text \<open>The step of an action, if its thread is ready for it.\<close>

fun spmc_act :: "'e spmc_action \<Rightarrow> 'e spmc_state \<Rightarrow> 'e spmc_state option" where
  "spmc_act (Begin_enqueue blocking e) s =
     (if is_P_idle (producer s) then Some (s\<lparr>producer := P_load_head blocking e (q_end s)\<rparr>) else None)"
| "spmc_act Produce s = (if is_P_idle (producer s) then None else Some (producer_next s))"
| "spmc_act (Begin_try_dequeue c) s =
     (if is_C_idle (consumers s c) then Some (set_consumer c (C_load_head (q_end s)) s) else None)"
| "spmc_act (Begin_dequeue c) s =
     (if is_C_idle (consumers s c)
      then Some (set_consumer c (C_wait (q_head s)) (s\<lparr>q_head := sz_add (q_head s) 1\<rparr>)) else None)"
| "spmc_act (Consume c) s = (if is_C_idle (consumers s c) then None else Some (consumer_next c s))"

lemma spmc_act_step: "(\<exists>x. spmc_act x s = Some s') \<longleftrightarrow> spmc_step s s'"
proof
  assume "\<exists>x. spmc_act x s = Some s'"
  then obtain x where "spmc_act x s = Some s'" by blast
  then show "spmc_step s s'"
    by (cases x) (auto simp del: producer_next.simps consumer_next.simps One_nat_def split: if_splits intro: spmc_step.intros)
next
  assume "spmc_step s s'"
  then show "\<exists>x. spmc_act x s = Some s'"
  proof (cases rule: spmc_step.cases)
    case (call_enqueue b e)
    then show ?thesis by (intro exI [of _ "Begin_enqueue b e"]) simp
  next
    case producer_step
    then show ?thesis by (intro exI [of _ Produce]) simp
  next
    case (call_try_dequeue c)
    then show ?thesis by (intro exI [of _ "Begin_try_dequeue c"]) simp
  next
    case (call_dequeue c)
    then show ?thesis by (intro exI [of _ "Begin_dequeue c"]) simp
  next
    case (consumer_step c)
    then show ?thesis by (intro exI [of _ "Consume c"]) simp
  qed
qed

section \<open>Runs\<close>

text \<open>An infinite run from a reachable state, with pauses (\<open>None\<close>), that keeps the counters from wrapping.\<close>

definition spmc_run :: "(nat \<Rightarrow> 'e spmc_state) \<Rightarrow> (nat \<Rightarrow> 'e spmc_action option) \<Rightarrow> bool" where
  "spmc_run run acts \<longleftrightarrow> reach spmc_start spmc_step spmc_bounded (run 0) \<and>
     (\<forall>i. spmc_bounded (run i) \<and>
       (case acts i of None \<Rightarrow> run (Suc i) = run i | Some x \<Rightarrow> spmc_act x (run i) = Some (run (Suc i))))"

text \<open>Weak fairness: a thread with a call in progress is scheduled again and again.\<close>

definition consumer_fair :: "(nat \<Rightarrow> 'e spmc_state) \<Rightarrow> (nat \<Rightarrow> 'e spmc_action option) \<Rightarrow> nat \<Rightarrow> bool" where
  "consumer_fair run acts c \<longleftrightarrow> (\<forall>i. \<exists>j \<ge> i. is_C_idle (consumers (run j) c) \<or> acts j = Some (Consume c))"

definition producer_fair :: "(nat \<Rightarrow> 'e spmc_state) \<Rightarrow> (nat \<Rightarrow> 'e spmc_action option) \<Rightarrow> bool" where
  "producer_fair run acts \<longleftrightarrow> (\<forall>i. \<exists>j \<ge> i. is_P_idle (producer (run j)) \<or> acts j = Some Produce)"

lemma run_step:
  assumes "spmc_run run acts"
  shows "run (Suc i) = run i \<and> acts i = None \<or> (\<exists>x. acts i = Some x \<and> spmc_act x (run i) = Some (run (Suc i)))"
    and "spmc_bounded (run i)"
  using assms by (auto simp: spmc_run_def split: option.splits dest: spec [of _ i])

lemma run_reach:
  assumes "spmc_run run acts"
  shows "reach spmc_start spmc_step spmc_bounded (run i)"
proof (induction i)
  case 0
  then show ?case using assms by (simp add: spmc_run_def)
next
  case (Suc i)
  have "run (Suc i) = run i \<or> spmc_step (run i) (run (Suc i))"
    using run_step(1) [OF assms, of i] spmc_act_step by blast
  then show ?case using Suc run_step(2) [OF assms, of i] by (auto intro: reach_step)
qed

lemma run_inv: "spmc_run run acts \<Longrightarrow> spmc_inv (run i)"
  using run_reach by (rule spmc_safe.reach_inv)

section \<open>What a step leaves alone\<close>

lemma act_other_consumer:
  assumes "spmc_act x s = Some s'" "x \<noteq> Consume c" "\<not> is_C_idle (consumers s c)"
  shows "consumers s' c = consumers s c"
  using assms
  by (cases x) (auto simp: set_consumer_def split: if_splits producer.splits consumer.splits)

lemma consumer_next_data:
  "q_data (consumer_next c s) =
     (case consumers s c of C_take h \<Rightarrow> (q_data s)[spmc_index s h := None] | _ \<Rightarrow> q_data s)"
  by (simp split: consumer.split)

lemma consumer_next_leaves:
  "producer (consumer_next c s) = producer s" "history (consumer_next c s) = history s" "q_end (consumer_next c s) = q_end s"
  by (simp_all split: consumer.split)

lemma consumer_next_clears:
  assumes "q_data s ! i = None" "i < length (q_data s)"
  shows "q_data (consumer_next c s) ! i = None"
proof (cases "consumers s c")
  case (C_take h)
  then have "q_data (consumer_next c s) = (q_data s)[spmc_index s h := None]"
    by (simp add: consumer_next_data del: consumer_next.simps)
  then show ?thesis using assms by (cases "i = spmc_index s h") simp_all
qed (use assms in \<open>simp_all add: consumer_next_data del: consumer_next.simps\<close>)

lemma act_form:
  assumes "spmc_act x s = Some s'"
  shows "x = Produce \<or> (\<exists>c. x = Consume c \<and> s' = consumer_next c s) \<or> (\<exists>b e. x = Begin_enqueue b e \<and> is_P_idle (producer s)) \<or>
    (producer s' = producer s \<and> history s' = history s \<and> q_end s' = q_end s \<and> q_data s' = q_data s)"
  using assms by (cases x) (auto simp del: producer_next.simps consumer_next.simps split: if_splits)

lemma act_other_producer:
  assumes "spmc_act x s = Some s'" "x \<noteq> Produce" "\<not> is_P_idle (producer s)"
  shows "producer s' = producer s" "history s' = history s" "q_end s' = q_end s"
    "q_data s ! i = None \<Longrightarrow> i < length (q_data s) \<Longrightarrow> q_data s' ! i = None"
  using assms(2,3) act_form [OF assms(1)] consumer_next_leaves [where s = s] consumer_next_clears [of s i]
  by (auto simp del: consumer_next.simps)

lemma step_mono:
  assumes "spmc_step s s'" "spmc_inv s" "spmc_bounded s"
  shows "q_end s \<le> q_end s'" "q_head s \<le> q_head s'" "q_cap s' = q_cap s" "set (taken s) \<subseteq> set (taken s')"
    "take (length (history s)) (history s') = history s"
proof -
  have "local_inv s" using assms(2) by (simp add: spmc_inv_def)
  from assms(1) this assms(3)
  have "q_end s \<le> q_end s' \<and> q_head s \<le> q_head s' \<and> q_cap s' = q_cap s \<and> set (taken s) \<subseteq> set (taken s') \<and>
    take (length (history s)) (history s') = history s"
    by (cases rule: spmc_step_cases) auto
  then show "q_end s \<le> q_end s'" "q_head s \<le> q_head s'" "q_cap s' = q_cap s" "set (taken s) \<subseteq> set (taken s')"
    "take (length (history s)) (history s') = history s" by simp_all
qed

text \<open>Along a run the counters and the ghosts only grow.\<close>

lemma run_mono:
  assumes run: "spmc_run run acts" and "i \<le> j"
  shows "q_end (run i) \<le> q_end (run j) \<and> q_head (run i) \<le> q_head (run j) \<and> q_cap (run j) = q_cap (run i) \<and>
    set (taken (run i)) \<subseteq> set (taken (run j))"
  using assms(2)
proof (induction j rule: dec_induct)
  case (step j)
  have "run (Suc j) = run j \<or> spmc_step (run j) (run (Suc j))"
    using run_step(1) [OF run, of j] spmc_act_step by blast
  then show ?case using step.IH step_mono [of "run j" "run (Suc j)"] run_inv [OF run, of j] run_step(2) [OF run, of j]
    by fastforce
qed simp

lemma run_consumer_stays:
  assumes run: "spmc_run run acts" and "acts j \<noteq> Some (Consume c)" "\<not> is_C_idle (consumers (run j) c)"
  shows "consumers (run (Suc j)) c = consumers (run j) c"
  using run_step(1) [OF run, of j] act_other_consumer [of _ "run j" "run (Suc j)" c] assms(2,3) by auto

lemma run_producer_stays:
  assumes run: "spmc_run run acts" and "acts j \<noteq> Some Produce" "\<not> is_P_idle (producer (run j))"
  shows "producer (run (Suc j)) = producer (run j)" "history (run (Suc j)) = history (run j)"
    "q_data (run j) ! i = None \<Longrightarrow> i < length (q_data (run j)) \<Longrightarrow> q_data (run (Suc j)) ! i = None"
  using run_step(1) [OF run, of j] act_other_producer [of _ "run j" "run (Suc j)"] assms(2,3) by auto

lemma run_consume: "spmc_run run acts \<Longrightarrow> acts j = Some (Consume c) \<Longrightarrow> run (Suc j) = consumer_next c (run j)"
  using run_step(1) [of run acts j] by (auto simp del: consumer_next.simps split: if_splits)

lemma run_produce: "spmc_run run acts \<Longrightarrow> acts j = Some Produce \<Longrightarrow> run (Suc j) = producer_next (run j)"
  using run_step(1) [of run acts j] by (auto simp del: producer_next.simps split: if_splits)

text \<open>A thread that is scheduled fairly leaves a state that only it can leave.\<close>

lemma consumer_helps:
  assumes "spmc_run run acts" "consumer_fair run acts c" "P (run m)" "\<And>s. P s \<Longrightarrow> \<not> is_C_idle (consumers s c)"
    and "\<And>j. m \<le> j \<Longrightarrow> P (run j) \<Longrightarrow> acts j \<noteq> Some (Consume c) \<Longrightarrow> P (run (Suc j))"
  shows "\<exists>j \<ge> m. P (run j) \<and> run (Suc j) = consumer_next c (run j)"
proof -
  have "\<exists>j \<ge> m. P (run j) \<and> acts j = Some (Consume c)"
    by (rule helpful_action [where busy = "\<lambda>s. \<not> is_C_idle (consumers s c)"])
      (use assms in \<open>auto simp: consumer_fair_def\<close>)
  then show ?thesis using run_consume [OF assms(1)] by blast
qed

lemma producer_helps:
  assumes "spmc_run run acts" "producer_fair run acts" "P (run m)" "\<And>s. P s \<Longrightarrow> \<not> is_P_idle (producer s)"
    and "\<And>j. m \<le> j \<Longrightarrow> P (run j) \<Longrightarrow> acts j \<noteq> Some Produce \<Longrightarrow> P (run (Suc j))"
  shows "\<exists>j \<ge> m. P (run j) \<and> run (Suc j) = producer_next (run j)"
proof -
  have "\<exists>j \<ge> m. P (run j) \<and> acts j = Some Produce"
    by (rule helpful_action [where busy = "\<lambda>s. \<not> is_P_idle (producer s)"])
      (use assms in \<open>auto simp: producer_fair_def\<close>)
  then show ?thesis using run_produce [OF assms(1)] by blast
qed

end
