(* ===== verification/Spmc_Live.thy ===== *)
theory Spmc_Live
  imports Spmc_Run
begin

text \<open>
  Progress of the queue: under a fair schedule the blocking calls return as soon as the other side has done
  its part, and the calls that do not block return after a bounded number of their own steps,
  whatever the schedule.
\<close>

section \<open>A dequeue that holds a ticket\<close>

text \<open>The call of consumer \<open>c\<close> with ticket \<open>t\<close> has just returned element \<open>t\<close>.\<close>

definition dequeued :: "nat \<Rightarrow> size_t \<Rightarrow> 'e spmc_state \<Rightarrow> bool" where
  "dequeued c t s \<longleftrightarrow> consumers s c = C_idle (Some (history s ! t)) \<and> (c, t, Some (history s ! t)) \<in> set (taken s)"

lemma take_step:
  assumes run: "spmc_run run acts" and c: "consumers (run j) c = C_take t" and s: "run (Suc j) = consumer_next c (run j)"
  shows "dequeued c t (run (Suc j))"
proof -
  let ?r = "q_data (run j) ! spmc_index (run j) t"
  have t: "consumers (run (Suc j)) c = C_idle ?r" "(c, t, ?r) \<in> set (taken (run (Suc j)))" using c s by simp_all
  then show ?thesis using taken_result [OF run_inv [OF run] t(2)] by (simp add: dequeued_def)
qed

lemma held_until_dequeued:
  assumes run: "spmc_run run acts" and "held (consumers (run i) c) = Some t" and "i \<le> j"
  shows "held (consumers (run j) c) = Some t \<or> (\<exists>k. i \<le> k \<and> dequeued c t (run k))"
  using assms(3)
proof (induction j rule: dec_induct)
  case (step j)
  show ?case
  proof (cases "held (consumers (run j) c) = Some t")
    case True
    then consider "consumers (run j) c = C_wait t" | "consumers (run j) c = C_take t"
      by (cases "consumers (run j) c") auto
    then show ?thesis
    proof cases
      case 1
      then show ?thesis using run_consumer_stays [OF run, of j c] run_consume [OF run, of j c]
        by (cases "acts j = Some (Consume c)"; cases "q_end (run j) \<le> t") simp_all
    next
      case 2
      then show ?thesis
        using run_consumer_stays [OF run, of j c] run_consume [OF run, of j c] take_step [OF run 2] step.hyps(1)
        by (cases "acts j = Some (Consume c)") (auto simp del: consumer_next.simps intro: le_SucI)
    qed
  next
    case False
    then show ?thesis using step.IH by blast
  qed
qed (use assms(2) in simp)

lemma take_completes:
  assumes run: "spmc_run run acts" and fair: "consumer_fair run acts c" and c: "consumers (run m) c = C_take t"
  shows "\<exists>j \<ge> m. dequeued c t (run j)"
proof -
  obtain j where "m \<le> j" "consumers (run j) c = C_take t" "run (Suc j) = consumer_next c (run j)"
    using consumer_helps [OF run fair, of "\<lambda>s. consumers s c = C_take t" m] c run_consumer_stays [OF run, of _ c] by auto
  then show ?thesis using take_step [OF run] by (intro exI [of _ "Suc j"]) simp
qed

lemma wait_completes:
  assumes run: "spmc_run run acts" and fair: "consumer_fair run acts c"
    and c: "consumers (run m) c = C_wait t" "t < q_end (run m)"
  shows "\<exists>j \<ge> m. dequeued c t (run j)"
proof -
  have stay: "consumers (run (Suc j)) c = C_wait t \<and> t < q_end (run (Suc j))"
    if "consumers (run j) c = C_wait t \<and> t < q_end (run j)" "acts j \<noteq> Some (Consume c)" for j
    using that run_consumer_stays [OF run that(2)] run_mono [OF run, of j "Suc j"] by auto
  obtain j where j: "m \<le> j" "consumers (run j) c = C_wait t" "t < q_end (run j)" "run (Suc j) = consumer_next c (run j)"
    using consumer_helps [OF run fair, of "\<lambda>s. consumers s c = C_wait t \<and> t < q_end s" m] c stay by auto
  then have "consumers (run (Suc j)) c = C_take t" by simp
  from take_completes [OF run fair this] show ?thesis using j(1) by (auto intro: Suc_leD order_trans)
qed

lemma dequeue_completes:
  assumes run: "spmc_run run acts" and fair: "consumer_fair run acts c"
    and "held (consumers (run i) c) = Some t" "t < q_end (run k)"
  shows "\<exists>j \<ge> i. dequeued c t (run j)"
proof -
  let ?m = "max i k"
  have "t < q_end (run ?m)" using assms(4) run_mono [OF run, of k ?m] by simp
  moreover have "held (consumers (run ?m) c) = Some t \<or> (\<exists>k. i \<le> k \<and> dequeued c t (run k))"
    by (rule held_until_dequeued [OF run assms(3)]) simp
  ultimately show ?thesis
    using take_completes [OF run fair, of ?m t] wait_completes [OF run fair, of ?m t]
    by (cases "consumers (run ?m) c") (auto intro: order_trans [OF max.cobounded1])
qed

section \<open>A blocking enqueue\<close>

text \<open>The call that enqueues \<open>e\<close> behind the elements \<open>h\<close> has just returned.\<close>

definition enqueued :: "'e list \<Rightarrow> 'e \<Rightarrow> 'e spmc_state \<Rightarrow> bool" where
  "enqueued h e s \<longleftrightarrow> producer s = P_idle True \<and> history s = h @ [e]"

lemma publish_completes:
  assumes run: "spmc_run run acts" and fair: "producer_fair run acts"
    and p: "producer (run m) = P_publish e n" "history (run m) = h"
  shows "\<exists>j \<ge> m. enqueued h e (run j)"
proof -
  obtain j where "m \<le> j" "producer (run j) = P_publish e n" "history (run j) = h" "run (Suc j) = producer_next (run j)"
    using producer_helps [OF run fair, of "\<lambda>s. producer s = P_publish e n \<and> history s = h" m] p
      run_producer_stays [OF run] by auto
  then show ?thesis by (intro exI [of _ "Suc j"]) (simp add: enqueued_def)
qed

lemma store_completes:
  assumes run: "spmc_run run acts" and fair: "producer_fair run acts"
    and p: "producer (run m) = P_store e n" "history (run m) = h"
  shows "\<exists>j \<ge> m. enqueued h e (run j)"
proof -
  obtain j where j: "m \<le> j" "producer (run j) = P_store e n" "history (run j) = h" "run (Suc j) = producer_next (run j)"
    using producer_helps [OF run fair, of "\<lambda>s. producer s = P_store e n \<and> history s = h" m] p
      run_producer_stays [OF run] by auto
  then have "producer (run (Suc j)) = P_publish e n" "history (run (Suc j)) = h" by simp_all
  from publish_completes [OF run fair this] show ?thesis using j(1) by (auto intro: Suc_leD order_trans)
qed

lemma load_slot_until:
  assumes run: "spmc_run run acts" and fair: "producer_fair run acts"
    and p: "producer (run m) = P_load_slot True e n" "history (run m) = h" and "m \<le> j"
  shows "producer (run j) = P_load_slot True e n \<and> history (run j) = h \<or> (\<exists>k \<ge> m. enqueued h e (run k))"
  using assms(5)
proof (induction j rule: dec_induct)
  case (step j)
  show ?case
  proof (cases "producer (run j) = P_load_slot True e n \<and> history (run j) = h")
    case now: True
    show ?thesis
    proof (cases "acts j = Some Produce")
      case True
      then have s: "run (Suc j) = producer_next (run j)" using run_produce [OF run] by blast
      show ?thesis
      proof (cases "q_data (run j) ! spmc_index (run j) n = None")
        case True
        then have "producer (run (Suc j)) = P_store e n" "history (run (Suc j)) = h" using s now by simp_all
        from store_completes [OF run fair this] show ?thesis using step.hyps(1) by (auto intro: Suc_leD order_trans)
      next
        case False
        then show ?thesis using s now by simp
      qed
    next
      case False
      then show ?thesis using run_producer_stays [OF run False] now by simp
    qed
  next
    case False
    then show ?thesis using step.IH by blast
  qed
qed (use p in simp)

lemma run_index: "spmc_run run acts \<Longrightarrow> spmc_index (run j) n = n mod q_cap (run j)"
  using run_inv [of run acts j] by (simp add: spmc_inv_def local_inv_def spmc_index_mod)

lemma free_slot_completes:
  assumes run: "spmc_run run acts" and fair: "producer_fair run acts"
    and p: "producer (run m) = P_load_slot True e n" "history (run m) = h"
    and free: "q_data (run m) ! (n mod q_cap (run m)) = None"
  shows "\<exists>j \<ge> m. enqueued h e (run j)"
proof -
  let ?c = "q_cap (run m)"
  let ?P = "\<lambda>s. producer s = P_load_slot True e n \<and> history s = h \<and> q_data s ! (n mod ?c) = None \<and> q_cap s = ?c"
  have len: "0 < q_cap (run j) \<and> length (q_data (run j)) = q_cap (run j)" for j
    using run_inv [OF run, of j] shape_cap by (auto simp: spmc_inv_def local_inv_def)
  have stay: "?P (run (Suc j))" if now: "?P (run j)" and other: "acts j \<noteq> Some Produce" for j
  proof -
    have busy: "\<not> is_P_idle (producer (run j))" using now by simp
    have "n mod ?c < length (q_data (run j))" using len [of j] now by simp
    then show ?thesis using run_producer_stays [OF run other busy] run_mono [OF run, of j "Suc j"] now by simp
  qed
  obtain j where j: "m \<le> j" "?P (run j)" "run (Suc j) = producer_next (run j)"
    using producer_helps [OF run fair, of ?P m] p free stay by auto
  then have "producer (run (Suc j)) = P_store e n" "history (run (Suc j)) = h"
    using run_index [OF run, of j n] by simp_all
  from store_completes [OF run fair this] show ?thesis using j(1) by (auto intro: Suc_leD order_trans)
qed

text \<open>The element still in the slot has a ticket that a consumer holds.\<close>

lemma occupied_slot_held:
  assumes inv: "spmc_inv s" and p: "producer s = P_load_slot b e n" and full: "q_data s ! (n mod q_cap s) \<noteq> None"
  shows "\<exists>c t. held (consumers s c) = Some t \<and> t < q_end s \<and> t mod q_cap s = n mod q_cap s \<and> (t, history s ! t) \<in> live s"
proof -
  have l: "local_inv s" "ticket_inv s" "slot_inv s" using inv by (simp_all add: spmc_inv_def)
  have n: "n = q_end s" "n < q_head s + q_cap s" using l(1) p by (auto simp: local_inv_def)
  have cap: "0 < q_cap s" using l(1) shape_cap by (auto simp: local_inv_def)
  obtain x where "q_data s ! (n mod q_cap s) = Some x" using full by auto
  then obtain t where t: "(t, x) \<in> live s" "t mod q_cap s = n mod q_cap s" using l(3) cap by (auto simp: slot_inv_def)
  then have t': "t < q_end s" "t \<notin> taken_tickets s" "x = history s ! t" using p by (auto simp: live_def)
  then have "q_cap s dvd n - t" using t(2) n(1) by (metis mod_eq_dvd_iff_nat less_imp_le_nat)
  then have "q_cap s \<le> n - t" using t'(1) n(1) by (intro dvd_imp_le) simp_all
  then have "t < q_head s" using n(2) t'(1) n(1) by linarith
  then obtain c where "held (consumers s c) = Some t" using l(2) t'(2) by (auto simp: ticket_inv_def)
  then show ?thesis using t t' by blast
qed

lemma live_unique:
  assumes "spmc_inv s" "(t, x) \<in> live s" "(u, y) \<in> live s" "t mod q_cap s = u mod q_cap s"
  shows "t = u"
  using assms unfolding spmc_inv_def slot_inv_def by blast

lemma load_slot_completes:
  assumes run: "spmc_run run acts" and fair: "producer_fair run acts" "\<And>c. consumer_fair run acts c"
    and p: "producer (run m) = P_load_slot True e n" "history (run m) = h"
  shows "\<exists>j \<ge> m. enqueued h e (run j)"
proof (cases "q_data (run m) ! (n mod q_cap (run m)) = None")
  case True
  then show ?thesis using free_slot_completes [OF run fair(1) p] by blast
next
  case False
  then obtain c t where t: "held (consumers (run m) c) = Some t" "t < q_end (run m)"
      "t mod q_cap (run m) = n mod q_cap (run m)" "(t, history (run m) ! t) \<in> live (run m)"
    using occupied_slot_held [OF run_inv [OF run] p(1)] by blast
  obtain j where j: "m \<le> j" "dequeued c t (run j)" using dequeue_completes [OF run fair(2) t(1,2)] by blast
  show ?thesis
  proof (cases "producer (run j) = P_load_slot True e n \<and> history (run j) = h")
    case now: True
    have "q_data (run j) ! (n mod q_cap (run j)) = None"
    proof (rule ccontr)
      assume "q_data (run j) ! (n mod q_cap (run j)) \<noteq> None"
      then obtain u where u: "u < q_end (run j)" "u mod q_cap (run j) = n mod q_cap (run j)" "(u, history (run j) ! u) \<in> live (run j)"
        using occupied_slot_held [OF run_inv [OF run]] now by blast
      have mono: "q_cap (run j) = q_cap (run m)" "set (taken (run m)) \<subseteq> set (taken (run j))" using run_mono [OF run j(1)] by simp_all
      have ends: "q_end (run j) = n" "q_end (run m) = n"
        using run_inv [OF run, of j] run_inv [OF run, of m] now p by (simp_all add: spmc_inv_def local_inv_def)
      have "u \<notin> taken_tickets (run j)" using u(3) now by (auto simp: live_def)
      then have free: "u \<notin> taken_tickets (run m)" "u \<noteq> t"
        using mono(2) j(2) by (auto simp: taken_tickets_defs dequeued_def image_iff)
      then have "(u, history (run m) ! u) \<in> live (run m)" using u(1) ends by (simp add: live_def)
      then have "u = t" using live_unique [OF run_inv [OF run, of m] _ t(4)] t(3) u(2) mono(1) by simp
      then show False using free(2) by simp
    qed
    then show ?thesis using free_slot_completes [OF run fair(1), of j e n h] now j(1) by (auto intro: order_trans)
  next
    case False
    then show ?thesis using load_slot_until [OF run fair(1) p j(1)] by blast
  qed
qed

lemma load_head_until:
  assumes run: "spmc_run run acts" and p: "producer (run i) = P_load_head True e n" "history (run i) = h" and "i \<le> j"
  shows "producer (run j) = P_load_head True e n \<and> history (run j) = h \<or>
    (\<exists>m \<ge> i. producer (run m) = P_load_slot True e n \<and> history (run m) = h)"
  using assms(4)
proof (induction j rule: dec_induct)
  case (step j)
  show ?case
  proof (cases "producer (run j) = P_load_head True e n \<and> history (run j) = h")
    case now: True
    show ?thesis
    proof (cases "acts j = Some Produce")
      case True
      then have "run (Suc j) = producer_next (run j)" using run_produce [OF run] by blast
      then show ?thesis using now step.hyps(1)
        by (cases "sz_add (q_head (run j)) (q_cap (run j)) \<le> n") (auto intro!: exI [of _ "Suc j"])
    next
      case False
      then show ?thesis using run_producer_stays [OF run False] now by simp
    qed
  next
    case False
    then show ?thesis using step.IH by blast
  qed
qed (use p in simp)

lemma enqueue_completes:
  assumes run: "spmc_run run acts" and fair: "producer_fair run acts" "\<And>c. consumer_fair run acts c"
    and p: "producer (run i) = P_load_head True e n" "n < q_head (run k) + q_cap (run k)"
  shows "\<exists>j \<ge> i. enqueued (history (run i)) e (run j)"
proof -
  let ?m = "max i k" and ?h = "history (run i)"
  have late: ?thesis if "i \<le> m" "producer (run m) = P_load_slot True e n" "history (run m) = ?h" for m
    using load_slot_completes [OF run fair that(2,3)] that(1) by (auto intro: order_trans)
  have space: "n < q_head (run j) + q_cap (run j)" if "k \<le> j" for j using p(2) run_mono [OF run that] by simp
  consider "producer (run ?m) = P_load_head True e n \<and> history (run ?m) = ?h"
    | m where "i \<le> m" "producer (run m) = P_load_slot True e n" "history (run m) = ?h"
    using load_head_until [OF run p(1), of ?h ?m] by auto
  then show ?thesis
  proof cases
    case 1
    let ?P = "\<lambda>s. producer s = P_load_head True e n \<and> history s = ?h"
    obtain j where j: "?m \<le> j" "?P (run j)" "run (Suc j) = producer_next (run j)"
      using producer_helps [OF run fair(1), of ?P ?m] 1 run_producer_stays [OF run] by auto
    have "local_inv (run j)" using run_inv [OF run, of j] by (simp add: spmc_inv_def)
    then have "sz_add (q_head (run j)) (q_cap (run j)) = q_head (run j) + q_cap (run j)"
      using sz_add_counters(2) run_step(2) [OF run] by blast
    then have "producer (run (Suc j)) = P_load_slot True e n" "history (run (Suc j)) = ?h"
      using j(2,3) space [of j] j(1) by simp_all
    then show ?thesis using late [of "Suc j"] j(1) by simp
  qed (rule late)
qed

section \<open>Calls that do not block\<close>

text \<open>An upper bound on the own steps left of a call of \<open>a3_spmc_try_dequeue\<close> and of \<open>a3_spmc_try_enqueue\<close>.\<close>

fun try_dequeue_left :: "'e consumer \<Rightarrow> nat" where
  "try_dequeue_left (C_idle r) = 0"
| "try_dequeue_left (C_load_head n) = 7"
| "try_dequeue_left (C_cas i n h) = max 1 (6 - i)"
| "try_dequeue_left (C_wait h) = 0"
| "try_dequeue_left (C_take h) = 1"

fun try_enqueue_left :: "'e producer \<Rightarrow> nat" where
  "try_enqueue_left (P_idle r) = 0"
| "try_enqueue_left (P_load_head b e n) = 4"
| "try_enqueue_left (P_load_slot b e n) = 3"
| "try_enqueue_left (P_store e n) = 2"
| "try_enqueue_left (P_publish e n) = 1"

fun is_blocking :: "'e producer \<Rightarrow> bool" where
  "is_blocking (P_load_head b e n) = b"
| "is_blocking (P_load_slot b e n) = b"
| "is_blocking _ = False"

text \<open>The atomic operations a thread has made between two points of a run, the one that begins a call included.\<close>

fun of_consumer :: "nat \<Rightarrow> 'e spmc_action \<Rightarrow> bool" where
  "of_consumer c (Begin_try_dequeue d) \<longleftrightarrow> c = d"
| "of_consumer c (Begin_dequeue d) \<longleftrightarrow> c = d"
| "of_consumer c (Consume d) \<longleftrightarrow> c = d"
| "of_consumer c _ \<longleftrightarrow> False"

fun of_producer :: "'e spmc_action \<Rightarrow> bool" where
  "of_producer (Begin_enqueue b e) \<longleftrightarrow> True"
| "of_producer Produce \<longleftrightarrow> True"
| "of_producer _ \<longleftrightarrow> False"

definition own_steps :: "(nat \<Rightarrow> 'e spmc_action option) \<Rightarrow> ('e spmc_action \<Rightarrow> bool) \<Rightarrow> nat \<Rightarrow> nat \<Rightarrow> nat" where
  "own_steps acts P i j = length (filter (\<lambda>k. case acts k of None \<Rightarrow> False | Some x \<Rightarrow> P x) [i..<j])"

lemma own_steps_Suc:
  "i \<le> j \<Longrightarrow> own_steps acts P i (Suc j) = own_steps acts P i j + (case acts j of None \<Rightarrow> 0 | Some x \<Rightarrow> if P x then 1 else 0)"
  by (simp add: own_steps_def split: option.split)

lemma own_steps_first:
  "i < j \<Longrightarrow> acts i = Some x \<Longrightarrow> P x \<Longrightarrow> own_steps acts P i j = Suc (own_steps acts P (Suc i) j)"
  by (simp add: own_steps_def upt_conv_Cons)

lemma own_steps_refl [simp]: "own_steps acts P i i = 0"
  by (simp add: own_steps_def)

text \<open>A thread whose call is in progress only continues it.\<close>

lemma busy_consumer:
  "spmc_run run acts \<Longrightarrow> \<not> is_C_idle (consumers (run j) c) \<Longrightarrow> acts j = Some x \<Longrightarrow> of_consumer c x \<longleftrightarrow> x = Consume c"
  using run_step(1) [of run acts j] by (cases x) auto

lemma busy_producer:
  "spmc_run run acts \<Longrightarrow> \<not> is_P_idle (producer (run j)) \<Longrightarrow> acts j = Some x \<Longrightarrow> of_producer x \<longleftrightarrow> x = Produce"
  using run_step(1) [of run acts j] by (cases x) auto

lemma consumer_next_left:
  assumes "\<forall>h. consumers s c \<noteq> C_wait h" "\<not> is_C_idle (consumers s c)"
  shows "try_dequeue_left (consumers (consumer_next c s) c) + 1 \<le> try_dequeue_left (consumers s c)"
    "\<forall>h. consumers (consumer_next c s) c \<noteq> C_wait h"
  using assms by (cases "consumers s c"; auto)+

lemma producer_next_left:
  assumes "\<not> is_blocking (producer s)" "\<not> is_P_idle (producer s)"
  shows "try_enqueue_left (producer (producer_next s)) + 1 \<le> try_enqueue_left (producer s)"
    "\<not> is_blocking (producer (producer_next s))"
  using assms by (cases "producer s"; auto)+

lemma try_dequeue_bound:
  assumes run: "spmc_run run acts" and c: "consumers (run i) c = C_load_head n" and "i \<le> j"
    and busy: "\<And>k. i \<le> k \<Longrightarrow> k < j \<Longrightarrow> \<not> is_C_idle (consumers (run k) c)"
  shows "try_dequeue_left (consumers (run j) c) + own_steps acts (of_consumer c) i j \<le> 7 \<and>
    (\<forall>h. consumers (run j) c \<noteq> C_wait h)"
  using assms(3) busy
proof (induction j rule: dec_induct)
  case (step j)
  then have ih: "try_dequeue_left (consumers (run j) c) + own_steps acts (of_consumer c) i j \<le> 7"
      "\<forall>h. consumers (run j) c \<noteq> C_wait h" and b: "\<not> is_C_idle (consumers (run j) c)"
    by auto
  show ?case
  proof (cases "acts j = Some (Consume c)")
    case True
    then show ?thesis using consumer_next_left [OF ih(2) b] ih(1) run_consume [OF run True] step.hyps(1)
      by (simp add: own_steps_Suc del: consumer_next.simps)
  next
    case False
    then show ?thesis using run_consumer_stays [OF run False b] ih step.hyps(1) busy_consumer [OF run b]
      by (auto simp: own_steps_Suc split: option.splits)
  qed
qed (use c in simp)

lemma try_enqueue_bound:
  assumes run: "spmc_run run acts" and p: "producer (run i) = P_load_head False e n" and "i \<le> j"
    and busy: "\<And>k. i \<le> k \<Longrightarrow> k < j \<Longrightarrow> \<not> is_P_idle (producer (run k))"
  shows "try_enqueue_left (producer (run j)) + own_steps acts of_producer i j \<le> 4 \<and> \<not> is_blocking (producer (run j))"
  using assms(3) busy
proof (induction j rule: dec_induct)
  case (step j)
  then have ih: "try_enqueue_left (producer (run j)) + own_steps acts of_producer i j \<le> 4"
      "\<not> is_blocking (producer (run j))" and b: "\<not> is_P_idle (producer (run j))"
    by auto
  show ?case
  proof (cases "acts j = Some Produce")
    case True
    then show ?thesis using producer_next_left [OF ih(2) b] ih(1) run_produce [OF run True] step.hyps(1)
      by (simp add: own_steps_Suc del: producer_next.simps)
  next
    case False
    then show ?thesis using run_producer_stays(1) [OF run False b] ih step.hyps(1) busy_producer [OF run b]
      by (auto simp: own_steps_Suc split: option.splits)
  qed
qed (use p in simp)

end
