(* ===== verification/Spmc_Progress.thy ===== *)
theory Spmc_Progress
  imports Spmc_Live
begin

text \<open>
  The progress properties of the queue, with a run on the queue of capacity 2 as witness.
\<close>

section \<open>An example run\<close>

text \<open>The run that performs a list of actions and then pauses for ever.\<close>

fun trace :: "'e spmc_action list \<Rightarrow> 'e spmc_state \<Rightarrow> nat \<Rightarrow> 'e spmc_state" where
  "trace [] s i = s"
| "trace (x # xs) s 0 = s"
| "trace (x # xs) s (Suc i) = trace xs (the (spmc_act x s)) i"

definition trace_acts :: "'e spmc_action list \<Rightarrow> nat \<Rightarrow> 'e spmc_action option" where
  "trace_acts xs i = (if i < length xs then Some (xs ! i) else None)"

fun trace_ok :: "'e spmc_action list \<Rightarrow> 'e spmc_state \<Rightarrow> bool" where
  "trace_ok [] s \<longleftrightarrow> spmc_bounded s"
| "trace_ok (x # xs) s \<longleftrightarrow> spmc_bounded s \<and> (case spmc_act x s of None \<Rightarrow> False | Some s' \<Rightarrow> trace_ok xs s')"

lemma trace_0 [simp]: "trace xs s 0 = s"
  by (cases xs) simp_all

lemma trace_numeral [simp]: "trace (x # xs) s (numeral n) = trace xs (the (spmc_act x s)) (pred_numeral n)"
  by (simp add: numeral_eq_Suc)

lemma trace_step:
  assumes "trace_ok xs s"
  shows "spmc_bounded (trace xs s i)"
    "case trace_acts xs i of None \<Rightarrow> trace xs s (Suc i) = trace xs s i
      | Some x \<Rightarrow> spmc_act x (trace xs s i) = Some (trace xs s (Suc i))"
proof -
  have "spmc_bounded (trace xs s i) \<and> (case trace_acts xs i of None \<Rightarrow> trace xs s (Suc i) = trace xs s i
      | Some x \<Rightarrow> spmc_act x (trace xs s i) = Some (trace xs s (Suc i)))"
    using assms
  proof (induction xs arbitrary: s i)
    case (Cons x xs)
    then obtain s' where s': "spmc_act x s = Some s'" "trace_ok xs s'" by (auto split: option.splits)
    show ?case
    proof (cases i)
      case 0
      then show ?thesis using s' Cons.prems by (simp add: trace_acts_def)
    next
      case (Suc k)
      then show ?thesis using Cons.IH [OF s'(2), of k] s'(1) by (cases "k < length xs") (simp_all add: trace_acts_def)
    qed
  qed (simp add: trace_acts_def)
  then show "spmc_bounded (trace xs s i)"
    "case trace_acts xs i of None \<Rightarrow> trace xs s (Suc i) = trace xs s i
      | Some x \<Rightarrow> spmc_act x (trace xs s i) = Some (trace xs s (Suc i))" by simp_all
qed

lemma trace_run: "reach spmc_start spmc_step spmc_bounded s \<Longrightarrow> trace_ok xs s \<Longrightarrow> spmc_run (trace xs s) (trace_acts xs)"
  using trace_step [of xs s] by (simp add: spmc_run_def)

lemma trace_end: "length xs \<le> i \<Longrightarrow> trace xs s i = trace xs s (length xs)"
  by (induction xs s i rule: trace.induct) auto

lemma trace_fair:
  "is_C_idle (consumers (trace xs s (length xs)) c) \<Longrightarrow> consumer_fair (trace xs s) (trace_acts xs) c"
  "is_P_idle (producer (trace xs s (length xs))) \<Longrightarrow> producer_fair (trace xs s) (trace_acts xs)"
  using trace_end [of xs _ s] unfolding consumer_fair_def producer_fair_def
  by (metis nat_le_linear order_refl)+

text \<open>A blocking dequeue by consumer 3 and a blocking enqueue of 9 next to it; calls of \<open>try_dequeue\<close> and
  \<open>try_enqueue\<close> side by side.\<close>

definition ex_acts :: "nat spmc_action list" where
  "ex_acts = [Begin_dequeue 3, Begin_enqueue True 9, Consume 3, Produce, Produce, Consume 3, Produce, Produce]"

definition ex_try_acts :: "nat spmc_action list" where
  "ex_try_acts = [Begin_try_dequeue 4, Begin_enqueue False 5, Consume 4, Produce, Consume 4]"

abbreviation ex_run :: "nat \<Rightarrow> nat spmc_state" where
  "ex_run \<equiv> trace ex_acts ex_enqueued"

lemma ex_run: "spmc_run ex_run (trace_acts ex_acts)"
  by (rule trace_run [OF ex_enqueued]) (simp add: ex_acts_def ex_enqueued_def ex_spmc_defs)

lemma ex_try_run: "spmc_run (trace ex_try_acts ex_enqueued) (trace_acts ex_try_acts)"
  by (rule trace_run [OF ex_enqueued]) (simp add: ex_try_acts_def ex_enqueued_def ex_spmc_defs)

lemma ex_fair: "consumer_fair ex_run (trace_acts ex_acts) c" "producer_fair ex_run (trace_acts ex_acts)"
  by (rule trace_fair, simp add: ex_acts_def ex_enqueued_def ex_spmc_defs)+

section \<open>Properties\<close>

text \<open>C6: under a fair schedule a dequeue that holds a ticket returns, once the element of its ticket is
  published at any time of the run, and it returns that element. This covers every blocking dequeue, and
  \<open>a3_spmc_try_dequeue\<close> after it has won its ticket.\<close>

theorem spmc_dequeue_returns:
  assumes "spmc_run run acts" and "consumer_fair run acts c"
    and "held (consumers (run i) c) = Some t" and "t < q_end (run k)"
  shows "\<exists>j \<ge> i. consumers (run j) c = C_idle (Some (history (run j) ! t))"
  using dequeue_completes [OF assms] by (auto simp: dequeued_def)

theorem spmc_dequeue_returns_witness:
  "held (consumers (ex_run 1) 3) = Some 0 \<and> (\<exists>j \<ge> 1. consumers (ex_run j) 3 = C_idle (Some (history (ex_run j) ! 0)))"
proof -
  have "held (consumers (ex_run 1) 3) = Some 0" "0 < q_end (ex_run 1)"
    by (simp_all add: ex_acts_def ex_enqueued_def ex_spmc_defs)
  then show ?thesis using spmc_dequeue_returns [OF ex_run ex_fair(1), of 1 3 0 1] by simp
qed

text \<open>C7: under a fair schedule \<open>a3_spmc_enqueue\<close> returns, once consumers have taken enough tickets for its own
  to be within the capacity: it waits for the consumer that holds the slot, and then publishes its element behind
  those that were there when it was called.\<close>

theorem spmc_enqueue_returns:
  assumes "spmc_run run acts" and "producer_fair run acts" and "\<And>c. consumer_fair run acts c"
    and "producer (run i) = P_load_head True e n" and "n < q_head (run k) + q_cap (run k)"
  shows "\<exists>j \<ge> i. producer (run j) = P_idle True \<and> history (run j) = history (run i) @ [e]"
  using enqueue_completes [OF assms] by (simp add: enqueued_def)

theorem spmc_enqueue_returns_witness:
  "producer (ex_run 2) = P_load_head True 9 1 \<and>
   (\<exists>j \<ge> 2. producer (ex_run j) = P_idle True \<and> history (ex_run j) = history (ex_run 2) @ [9])"
proof -
  have "producer (ex_run 2) = P_load_head True 9 1" "1 < q_head (ex_run 2) + q_cap (ex_run 2)"
    by (simp_all add: ex_acts_def ex_enqueued_def ex_spmc_defs)
  then show ?thesis using spmc_enqueue_returns [OF ex_run ex_fair(2,1), of 2 9 1 2] by simp
qed

text \<open>C24: whatever the schedule, a call of \<open>a3_spmc_try_dequeue\<close> is over after at most eight of its own steps, the load of
  \<open>end\<close> that begins it included (two loads, five compare-exchanges and the exchange), and a call of \<open>a3_spmc_try_enqueue\<close> after
  at most five: as long as the call has not returned, it has made fewer.\<close>

theorem spmc_try_calls_bounded:
  assumes "spmc_run run acts" and "i < j"
  shows "(acts i = Some (Begin_try_dequeue c) \<longrightarrow>
      (\<forall>k. i < k \<and> k \<le> j \<longrightarrow> \<not> is_C_idle (consumers (run k) c)) \<longrightarrow> own_steps acts (of_consumer c) i j < 8) \<and>
    (acts i = Some (Begin_enqueue False e) \<longrightarrow>
      (\<forall>k. i < k \<and> k \<le> j \<longrightarrow> \<not> is_P_idle (producer (run k))) \<longrightarrow> own_steps acts of_producer i j < 5)"
proof (intro conjI impI)
  assume x: "acts i = Some (Begin_try_dequeue c)" and busy: "\<forall>k. i < k \<and> k \<le> j \<longrightarrow> \<not> is_C_idle (consumers (run k) c)"
  have c: "consumers (run (Suc i)) c = C_load_head (q_end (run i))"
    using run_step(1) [OF assms(1), of i] x by (auto split: if_splits dest!: sym [of _ "run (Suc i)"] simp: set_consumer_def)
  have "try_dequeue_left (consumers (run j) c) + own_steps acts (of_consumer c) (Suc i) j \<le> 7 \<and>
    (\<forall>h. consumers (run j) c \<noteq> C_wait h)"
    by (rule try_dequeue_bound [OF assms(1) c]) (use busy assms(2) in simp_all)
  moreover from this have "0 < try_dequeue_left (consumers (run j) c)" using busy assms(2)
    by (cases "consumers (run j) c") (auto simp: is_C_idle_def)
  ultimately show "own_steps acts (of_consumer c) i j < 8" using own_steps_first [OF assms(2), of acts _ "of_consumer c"] x by simp
next
  assume x: "acts i = Some (Begin_enqueue False e)" and busy: "\<forall>k. i < k \<and> k \<le> j \<longrightarrow> \<not> is_P_idle (producer (run k))"
  have p: "producer (run (Suc i)) = P_load_head False e (q_end (run i))"
    using run_step(1) [OF assms(1), of i] x by (auto split: if_splits dest!: sym [of _ "run (Suc i)"])
  have "try_enqueue_left (producer (run j)) + own_steps acts of_producer (Suc i) j \<le> 4 \<and> \<not> is_blocking (producer (run j))"
    by (rule try_enqueue_bound [OF assms(1) p]) (use busy assms(2) in simp_all)
  moreover have "0 < try_enqueue_left (producer (run j))" using busy assms(2)
    by (cases "producer (run j)") (auto simp: is_P_idle_def)
  ultimately show "own_steps acts of_producer i j < 5" using own_steps_first [OF assms(2), of acts _ of_producer] x by simp
qed

theorem spmc_try_calls_bounded_witness:
  "trace_acts ex_try_acts 0 = Some (Begin_try_dequeue 4) \<and> own_steps (trace_acts ex_try_acts) (of_consumer 4) 0 4 = 2 \<and>
   own_steps (trace_acts ex_try_acts) (of_consumer 4) 0 4 < 8"
proof -
  have c: "consumers (trace ex_try_acts ex_enqueued 1) 4 = C_load_head 1"
      "consumers (trace ex_try_acts ex_enqueued 2) 4 = C_load_head 1"
      "consumers (trace ex_try_acts ex_enqueued 3) 4 = C_cas 0 1 0"
      "consumers (trace ex_try_acts ex_enqueued 4) 4 = C_cas 0 1 0"
    by (simp_all add: ex_try_acts_def ex_enqueued_def ex_spmc_defs)
  have "\<not> is_C_idle (consumers (trace ex_try_acts ex_enqueued k) 4)" if "0 < k" "k \<le> 4" for k
  proof -
    consider "k = 1" | "k = 2" | "k = 3" | "k = 4" using \<open>0 < k\<close> \<open>k \<le> 4\<close> by linarith
    then show ?thesis by cases (simp_all only: c consumer.disc simp_thms)
  qed
  moreover have "trace_acts ex_try_acts 0 = Some (Begin_try_dequeue 4)" by (simp add: trace_acts_def ex_try_acts_def)
  moreover have "own_steps (trace_acts ex_try_acts) (of_consumer 4) 0 4 = 2"
    by (simp add: own_steps_def trace_acts_def ex_try_acts_def eval_nat_numeral)
  ultimately show ?thesis using conjunct1 [OF spmc_try_calls_bounded [OF ex_try_run, of 0 4 4 0]] by simp
qed

end
