(* ===== verification/Spmc_Empty.thy ===== *)
theory Spmc_Empty
  imports Spmc_Progress
begin

text \<open>What it means that \<open>a3_spmc_try_dequeue\<close> returns \<open>NULL\<close>: a bound on \<open>head\<close> along the call.\<close>

section \<open>Along the call\<close>

text \<open>The call loaded \<open>end\<close> when the counters were \<open>head0\<close> and \<open>end0\<close>; after \<open>r\<close> lost races \<open>head\<close> has moved by \<open>r\<close>.\<close>

fun try_dequeue_track :: "size_t \<Rightarrow> size_t \<Rightarrow> 'e spmc_state \<Rightarrow> 'e consumer \<Rightarrow> bool" where
  "try_dequeue_track head0 end0 s (C_load_head n) = (n = end0 \<and> head0 \<le> q_head s)"
| "try_dequeue_track head0 end0 s (C_cas r n h) = (n = end0 \<and> head0 + r \<le> h \<and> h \<le> q_head s)"
| "try_dequeue_track head0 end0 s (C_take h) = True"
| "try_dequeue_track head0 end0 s (C_wait h) = False"
| "try_dequeue_track head0 end0 s (C_idle r) = (r = None \<longrightarrow> end0 \<le> q_head s \<or> head0 + 5 \<le> q_head s)"

lemma try_dequeue_track_mono:
  "try_dequeue_track head0 end0 s pc \<Longrightarrow> q_head s \<le> q_head s' \<Longrightarrow> try_dequeue_track head0 end0 s' pc"
  by (cases pc) auto

lemma take_reads:
  assumes "spmc_inv s" "consumers s c = C_take h"
  shows "q_data s ! spmc_index s h \<noteq> None"
proof -
  have own: "h < q_head s" "h \<notin> taken_tickets s" "h < q_end s"
    using assms unfolding spmc_inv_def ticket_inv_def local_inv_def by (metis held.simps(2) consumer_ok.simps(3))+
  have "shape_inv s" using assms(1) by (simp add: spmc_inv_def local_inv_def)
  then have "spmc_index s h = h mod q_cap s" "h mod q_cap s < q_cap s" by (simp_all add: spmc_index_mod shape_cap)
  moreover have "(h, history s ! h) \<in> live s" using own by (simp add: live_def)
  ultimately show ?thesis using assms(1) unfolding spmc_inv_def slot_inv_def by (metis option.distinct(1))
qed

lemma try_dequeue_track_next:
  assumes "spmc_inv s" "spmc_bounded s" "try_dequeue_track head0 end0 s (consumers s c)" "\<not> is_C_idle (consumers s c)"
  shows "try_dequeue_track head0 end0 (consumer_next c s) (consumers (consumer_next c s) c)"
proof (cases "consumers s c")
  case (C_take h)
  then show ?thesis using take_reads [OF assms(1) C_take] by auto
qed (use assms in auto)

lemma try_dequeue_tracked:
  assumes run: "spmc_run run acts" and c: "consumers (run i) c = C_load_head (q_end (run i))" and "i \<le> j"
    and busy: "\<And>k. i \<le> k \<Longrightarrow> k < j \<Longrightarrow> \<not> is_C_idle (consumers (run k) c)"
  shows "try_dequeue_track (q_head (run i)) (q_end (run i)) (run j) (consumers (run j) c)"
  using assms(3) busy
proof (induction j rule: dec_induct)
  case (step j)
  then have ih: "try_dequeue_track (q_head (run i)) (q_end (run i)) (run j) (consumers (run j) c)"
    and b: "\<not> is_C_idle (consumers (run j) c)"
    by auto
  show ?case
  proof (cases "acts j = Some (Consume c)")
    case True
    then show ?thesis using try_dequeue_track_next [OF run_inv [OF run] run_step(2) [OF run] ih b] run_consume [OF run True]
      by (simp del: consumer_next.simps)
  next
    case False
    have "q_head (run j) \<le> q_head (run (Suc j))" using run_mono [OF run, of j "Suc j"] by simp
    then show ?thesis using run_consumer_stays [OF run False b] try_dequeue_track_mono [OF ih] by simp
  qed
qed (use c in simp)

section \<open>The property\<close>

text \<open>C25: if \<open>a3_spmc_try_dequeue\<close> returns \<open>NULL\<close>, then by its return every element that was published when the call began has been
  claimed by some dequeue, or at least five elements have been claimed by others during the call. Only with one of
  these excuses may it fail.
\<close>

theorem spmc_try_dequeue_null:
  assumes "spmc_run run acts" "i \<le> j" "consumers (run i) c = C_load_head (q_end (run i))"
    and "\<And>k. i \<le> k \<Longrightarrow> k < j \<Longrightarrow> \<not> is_C_idle (consumers (run k) c)" and "consumers (run j) c = C_idle None"
  shows "q_end (run i) \<le> q_head (run j) \<or> q_head (run i) + 5 \<le> q_head (run j)"
  using try_dequeue_tracked [OF assms(1,3,2,4)] assms(5) by simp

text \<open>
  A run in which the queue is never empty during a call that returns \<open>NULL\<close>: consumer 4 loads \<open>end\<close>, then 9 is published
  and consumer 3 claims the first element, and then consumer 4 loads \<open>head\<close>.
\<close>

definition ex_null_acts :: "nat spmc_action list" where
  "ex_null_acts = [Begin_try_dequeue 4, Begin_enqueue False 9, Produce, Produce, Produce, Produce, Begin_dequeue 3, Consume 4, Consume 4]"

lemma ex_null_run: "spmc_run (trace ex_null_acts ex_enqueued) (trace_acts ex_null_acts)"
  by (rule trace_run [OF ex_enqueued]) (simp add: ex_null_acts_def ex_enqueued_def ex_spmc_defs)

lemma ex_null_states:
  "map (\<lambda>k. (consumers (trace ex_null_acts ex_enqueued k) 4, q_head (trace ex_null_acts ex_enqueued k), q_end (trace ex_null_acts ex_enqueued k)))
     [1, 2, 3, 4, 5, 6, 7, 8, 9] =
   [(C_load_head 1, 0, 1), (C_load_head 1, 0, 1), (C_load_head 1, 0, 1), (C_load_head 1, 0, 1), (C_load_head 1, 0, 1), (C_load_head 1, 0, 2),
    (C_load_head 1, 1, 2), (C_cas 0 1 1, 1, 2), (C_idle None, 1, 2)]"
  by (simp add: ex_null_acts_def ex_enqueued_def ex_spmc_defs)

theorem spmc_try_dequeue_null_witness:
  "consumers (trace ex_null_acts ex_enqueued 9) 4 = C_idle None \<and> 1 \<le> q_head (trace ex_null_acts ex_enqueued 9) \<and>
   list_all (\<lambda>k. q_head (trace ex_null_acts ex_enqueued k) < q_end (trace ex_null_acts ex_enqueued k)) [1, 2, 3, 4, 5, 6, 7, 8, 9]"
proof -
  have "q_end (trace ex_null_acts ex_enqueued 1) \<le> q_head (trace ex_null_acts ex_enqueued 9) \<or>
      q_head (trace ex_null_acts ex_enqueued 1) + 5 \<le> q_head (trace ex_null_acts ex_enqueued 9)"
  proof (rule spmc_try_dequeue_null [OF ex_null_run, of 1 9 4])
    fix k :: nat assume "1 \<le> k" "k < 9"
    then consider "k = 1" | "k = 2" | "k = 3" | "k = 4" | "k = 5" | "k = 6" | "k = 7" | "k = 8" by linarith
    then show "\<not> is_C_idle (consumers (trace ex_null_acts ex_enqueued k) 4)" using ex_null_states by cases (simp_all only: list.map list.inject prod.inject consumer.disc simp_thms)
  qed (use ex_null_states in simp_all)
  then show ?thesis using ex_null_states by simp
qed

end
