(* ===== verification/Weak_Mem.thy ===== *)
theory Weak_Mem
  imports Prelude "HOL-Library.Product_Lexorder"
begin

text \<open>
  The atomic operations behind \<open>A3_ATOMIC_LOAD\<close> and its fellows in \<open>shim/atomic/c11.h\<close>, with their memory orders, as an
  operational reading of the release and acquire fragment of the C11 memory model. A location has many messages, each with a
  timestamp; the timestamps are its modification order. A thread has a view, the oldest message of each location it may still
  read; a load may read any message that is not older. A message carries a view too: a release writes the view of its
  thread, and an acquire that reads the message takes it over. A read-modify-write reads a message that none has read
  before, and its own message comes right after it.
\<close>

section \<open>Orders, timestamps and views\<close>

datatype memory_order = Relaxed | Acquire | Release | Acq_rel | Seq_cst

fun acquires :: "memory_order \<Rightarrow> bool" where
  "acquires Relaxed = False"
| "acquires Release = False"
| "acquires ord = True"

fun releases :: "memory_order \<Rightarrow> bool" where
  "releases Relaxed = False"
| "releases Acquire = False"
| "releases ord = True"

text \<open>
  A store has a timestamp \<open>(n, 0)\<close> of its own choice, so that another may come before it; the read-modify-write of the
  message at \<open>(n, k)\<close> has \<open>(n, k + 1)\<close>. A sequentially consistent operation is taken to be no more than an acquire and release.
\<close>

type_synonym stamp = "nat \<times> nat"

type_synonym 'l view = "'l \<Rightarrow> stamp"

type_synonym ('l, 'v) wmem = "'l \<Rightarrow> stamp \<Rightarrow> ('v \<times> 'l view) option"

definition view_bot :: "'l view" where
  "view_bot = (\<lambda>l. (0, 0))"

definition join_if :: "bool \<Rightarrow> 'l view \<Rightarrow> 'l view \<Rightarrow> 'l view" where
  "join_if b V W = (if b then sup V W else V)"

definition write_msg :: "'l \<Rightarrow> stamp \<Rightarrow> 'v \<Rightarrow> 'l view \<Rightarrow> ('l, 'v) wmem \<Rightarrow> ('l, 'v) wmem" where
  "write_msg l t v W M = M(l := (M l)(t \<mapsto> (v, W)))"

section \<open>The operations\<close>

text \<open>Each takes the timestamp the memory chooses, and is undefined where the memory cannot choose it.\<close>

definition wmem_init :: "('l \<Rightarrow> 'v) \<Rightarrow> ('l, 'v) wmem" where
  "wmem_init v l = [(0, 0) \<mapsto> (v l, view_bot)]"

definition atomic_load :: "memory_order \<Rightarrow> 'l \<Rightarrow> stamp \<Rightarrow> ('l, 'v) wmem \<Rightarrow> 'l view \<Rightarrow> ('v \<times> 'l view) option" where
  "atomic_load ord l t M V = (case M l t of None \<Rightarrow> None
     | Some (v, W) \<Rightarrow> if V l \<le> t then Some (v, join_if (acquires ord) (V(l := t)) W) else None)"

definition atomic_store :: "memory_order \<Rightarrow> 'l \<Rightarrow> stamp \<Rightarrow> 'v \<Rightarrow> ('l, 'v) wmem \<Rightarrow> 'l view \<Rightarrow> (('l, 'v) wmem \<times> 'l view) option" where
  "atomic_store ord l t v M V = (if snd t = 0 \<and> V l < t \<and> M l t = None
     then Some (write_msg l t v (join_if (releases ord) (view_bot(l := t)) (V(l := t))) M, V(l := t))
     else None)"

text \<open>The message of a read-modify-write also carries the view of the one it replaces (the release sequence).\<close>

definition stamp_next :: "stamp \<Rightarrow> stamp" where
  "stamp_next t = (fst t, snd t + 1)"

definition atomic_rmw :: "memory_order \<Rightarrow> 'l \<Rightarrow> stamp \<Rightarrow> ('v \<Rightarrow> 'v) \<Rightarrow> ('l, 'v) wmem \<Rightarrow> 'l view \<Rightarrow>
    ('v \<times> ('l, 'v) wmem \<times> 'l view) option" where
  "atomic_rmw ord l t f M V = (case M l t of None \<Rightarrow> None
     | Some (v, W) \<Rightarrow> let t' = stamp_next t; V' = join_if (acquires ord) (V(l := t')) W in
         if V l \<le> t \<and> M l t' = None
         then Some (v, write_msg l t' (f v) (sup W (join_if (releases ord) (view_bot(l := t')) V')) M, V')
         else None)"

definition atomic_exchange :: "memory_order \<Rightarrow> 'l \<Rightarrow> stamp \<Rightarrow> 'v \<Rightarrow> ('l, 'v) wmem \<Rightarrow> 'l view \<Rightarrow> ('v \<times> ('l, 'v) wmem \<times> 'l view) option" where
  "atomic_exchange ord l t v M V = atomic_rmw ord l t (\<lambda>_. v) M V"

text \<open>A strong compare-exchange: the value read, and the new memory and view; it has failed if the value is not \<open>expected\<close>.\<close>

definition atomic_cas :: "memory_order \<Rightarrow> memory_order \<Rightarrow> 'l \<Rightarrow> stamp \<Rightarrow> 'v \<Rightarrow> 'v \<Rightarrow> ('l, 'v) wmem \<Rightarrow> 'l view \<Rightarrow>
    ('v \<times> ('l, 'v) wmem \<times> 'l view) option" where
  "atomic_cas ord ord_fail l t expected v M V = (case M l t of None \<Rightarrow> None
     | Some (x, W) \<Rightarrow> if x = expected then atomic_rmw ord l t (\<lambda>_. v) M V
         else map_option (\<lambda>(y, V'). (y, M, V')) (atomic_load ord_fail l t M V))"

text \<open>The weak one may also fail for no reason; the flag says whether it succeeded.\<close>

definition atomic_cas_weak :: "bool \<Rightarrow> memory_order \<Rightarrow> memory_order \<Rightarrow> 'l \<Rightarrow> stamp \<Rightarrow> 'v \<Rightarrow> 'v \<Rightarrow> ('l, 'v) wmem \<Rightarrow> 'l view \<Rightarrow>
    (bool \<times> 'v \<times> ('l, 'v) wmem \<times> 'l view) option" where
  "atomic_cas_weak spurious ord ord_fail l t expected v M V =
     (if spurious then map_option (\<lambda>(y, V'). (False, y, M, V')) (atomic_load ord_fail l t M V)
      else map_option (\<lambda>(y, M', V'). (y = expected, y, M', V')) (atomic_cas ord ord_fail l t expected v M V))"

section \<open>Facts\<close>

lemma view_bot_le [simp]: "view_bot \<le> V"
  by (simp add: view_bot_def le_fun_def less_eq_prod_def)

lemma sup_view_bot [simp]: "sup view_bot V = V" "sup V view_bot = V"
  by (simp_all add: sup.absorb1 sup.absorb2)

lemma stamp_next_gt [simp]: "t < stamp_next t" "t \<le> stamp_next t" "stamp_next (n, k) = (n, Suc k)"
  by (cases t, simp add: stamp_next_def)+

lemma join_if_ge [simp]: "V \<le> join_if b V W" "V l \<le> join_if b V W l"
  by (simp_all add: join_if_def)

lemma write_msg_apply:
  "write_msg l t v W M l' t' = (if l' = l \<and> t' = t then Some (v, W) else M l' t')"
  by (simp add: write_msg_def)

lemma fun_upd_ge: "V l \<le> t \<Longrightarrow> V \<le> V(l := t)" for V :: "'l view"
  by (simp add: le_fun_def)

text \<open>What each operation reads and writes.\<close>

lemma load_ret:
  assumes "atomic_load ord l t M V = Some (v, V')"
  obtains W where "M l t = Some (v, W)" "V l \<le> t" "V' = join_if (acquires ord) (V(l := t)) W" "V \<le> V'" "t \<le> V' l"
proof -
  obtain W where W: "M l t = Some (v, W)" "V l \<le> t" "V' = join_if (acquires ord) (V(l := t)) W"
    using assms by (auto simp: atomic_load_def split: option.splits if_splits)
  have "V \<le> V(l := t)" using W(2) by (rule fun_upd_ge)
  then have "V \<le> V'" unfolding W(3) by (rule order_trans) simp
  moreover have "t \<le> V' l" unfolding W(3) by (rule order_trans [OF _ join_if_ge(2)]) simp
  ultimately show thesis using that W by blast
qed

lemma store_ret:
  assumes "atomic_store ord l t v M V = Some (M', V')"
  shows "snd t = 0" "V l < t" "M l t = None" "V' = V(l := t)" "V \<le> V'"
    "M' = write_msg l t v (join_if (releases ord) (view_bot(l := t)) V') M"
proof -
  show g: "snd t = 0" "V l < t" "M l t = None" "V' = V(l := t)"
    "M' = write_msg l t v (join_if (releases ord) (view_bot(l := t)) V') M"
    using assms by (auto simp: atomic_store_def split: if_splits)
  show "V \<le> V'" unfolding g(4) using g(2) by (intro fun_upd_ge) simp
qed

lemma rmw_ret:
  assumes "atomic_rmw ord l t f M V = Some (v, M', V')"
  obtains W where "M l t = Some (v, W)" "V l \<le> t" "M l (stamp_next t) = None"
    "V' = join_if (acquires ord) (V(l := stamp_next t)) W" "V \<le> V'"
    "M' = write_msg l (stamp_next t) (f v) (sup W (join_if (releases ord) (view_bot(l := stamp_next t)) V')) M"
proof -
  obtain W where W: "M l t = Some (v, W)" "V l \<le> t" "M l (stamp_next t) = None"
    "V' = join_if (acquires ord) (V(l := stamp_next t)) W"
    "M' = write_msg l (stamp_next t) (f v) (sup W (join_if (releases ord) (view_bot(l := stamp_next t)) V')) M"
    using assms by (auto simp: atomic_rmw_def Let_def split: option.splits if_splits)
  have "V l \<le> stamp_next t" using W(2) stamp_next_gt(2) by (rule order_trans)
  then have "V \<le> V(l := stamp_next t)" by (rule fun_upd_ge)
  then have "V \<le> V'" unfolding W(4) by (rule order_trans) simp
  then show thesis using that W by blast
qed

lemma cas_cases:
  assumes "atomic_cas ord ord_fail l t x v M V = Some (y, M', V')"
  obtains (won) "y = x" "atomic_rmw ord l t (\<lambda>_. v) M V = Some (x, M', V')"
  | (lost) "y \<noteq> x" "M' = M" "atomic_load ord_fail l t M V = Some (y, V')"
  using assms by (auto simp: atomic_cas_def atomic_rmw_def atomic_load_def Let_def split: option.splits if_splits)

section \<open>Litmus tests\<close>

text \<open>
  Message passing, with locations \<open>False\<close> for the data and \<open>True\<close> for the flag. A thread writes 7 to the data and 1 to the flag. Another
  that has read the flag may still read the old data if the flag is written or read in the relaxed order, but not
  after a release and an acquire.
\<close>

definition pass_message :: "memory_order \<Rightarrow> (bool, nat) wmem option" where
  "pass_message ord = Option.bind (atomic_store Relaxed False (1, 0) 7 (wmem_init (\<lambda>l. 0)) view_bot) (\<lambda>(M, V).
     map_option fst (atomic_store ord True (1, 0) 1 M V))"

definition receive :: "memory_order \<Rightarrow> stamp \<Rightarrow> (bool, nat) wmem \<Rightarrow> (nat \<times> nat) option" where
  "receive ord t M = Option.bind (atomic_load ord True (1, 0) M view_bot) (\<lambda>(flag, V).
     map_option (\<lambda>(data, V'). (flag, data)) (atomic_load Relaxed False t M V))"

lemmas litmus_defs = pass_message_def receive_def atomic_load_def atomic_store_def wmem_init_def write_msg_def join_if_def
  view_bot_def sup_prod_def less_eq_prod_def less_prod_def sup_fun_def

lemma message_passing:
  "Option.bind (pass_message Release) (receive Acquire (0, 0)) = None"
  "Option.bind (pass_message Release) (receive Acquire (1, 0)) = Some (1, 7)"
  "Option.bind (pass_message Relaxed) (receive Acquire (0, 0)) = Some (1, 0)"
  "Option.bind (pass_message Release) (receive Relaxed (0, 0)) = Some (1, 0)"
  by (simp_all add: litmus_defs)

end
