(* ===== verification/Spmc_Ra.thy ===== *)
theory Spmc_Ra
  imports Weak_Mem Spmc
begin

text \<open>
  The ring queue of \<open>src/spmc.c\<close> again, now over the weak memory of \<open>Weak_Mem\<close> and with the memory orders of the code. The
  threads are where they are in \<open>Spmc\<close>, with a view each; a step takes the timestamp the memory chooses for its operation.
  Besides the queue there is a location \<open>Work\<close> for what the producer does to its own data, in plain writes between its calls.
  Ghosts: \<open>ra_stored\<close> has, for each element stored, the timestamp of its store and the producer's view of \<open>Work\<close> then;
  \<open>ra_pubs\<close> and \<open>ra_claims\<close> count the elements published and the tickets given out; \<open>ra_taken\<close> is what the dequeues took.
\<close>

section \<open>State\<close>

datatype ra_loc = Head | End | Slot size_t | Work

datatype 'e ra_val = Num size_t | Elem "'e option"

fun val_num :: "'e ra_val \<Rightarrow> size_t" where
  "val_num (Num n) = n"
| "val_num (Elem x) = 0"

fun val_elem :: "'e ra_val \<Rightarrow> 'e option" where
  "val_elem (Num n) = None"
| "val_elem (Elem x) = x"

record 'e ra_state =
  ra_cap :: size_t
  ra_mask :: size_t
  ra_mem :: "(ra_loc, 'e ra_val) wmem"
  ra_prod :: "'e producer"
  ra_pview :: "ra_loc view"
  ra_cons :: "nat \<Rightarrow> 'e consumer"
  ra_cview :: "nat \<Rightarrow> ra_loc view"
  ra_stored :: "('e \<times> stamp \<times> stamp) list"
  ra_pubs :: nat
  ra_claims :: nat
  ra_taken :: "(nat \<times> size_t \<times> 'e option) list"

definition ra_index :: "'e ra_state \<Rightarrow> size_t \<Rightarrow> size_t" where
  "ra_index s ticket = and ticket (ra_mask s)"

section \<open>The producer\<close>

definition ra_at :: "'e producer \<Rightarrow> ra_loc view \<Rightarrow> 'e ra_state \<Rightarrow> 'e ra_state" where
  "ra_at pc V s = s\<lparr>ra_prod := pc, ra_pview := V\<rparr>"

text \<open>Work of its own, and the load of \<open>end\<close> that begins a call.\<close>

definition ra_work :: "'e ra_val \<Rightarrow> stamp \<Rightarrow> 'e ra_state \<Rightarrow> 'e ra_state option" where
  "ra_work v t s = map_option (\<lambda>(M, V). s\<lparr>ra_mem := M, ra_pview := V\<rparr>) (atomic_store Relaxed Work t v (ra_mem s) (ra_pview s))"

definition ra_call_enqueue :: "bool \<Rightarrow> 'e \<Rightarrow> stamp \<Rightarrow> 'e ra_state \<Rightarrow> 'e ra_state option" where
  "ra_call_enqueue blocking e t s = map_option (\<lambda>(v, V). ra_at (P_load_head blocking e (val_num v)) V s)
     (atomic_load Relaxed End t (ra_mem s) (ra_pview s))"

fun ra_producer :: "stamp \<Rightarrow> 'e ra_state \<Rightarrow> 'e ra_state option" where
  "ra_producer t s = (case ra_prod s of
       P_idle r \<Rightarrow> None
     | P_load_head blocking e n \<Rightarrow> map_option (\<lambda>(h, V). ra_at
         (if sz_add (val_num h) (ra_cap s) \<le> n
          then (if blocking then P_load_head blocking e n else P_idle False)
          else P_load_slot blocking e n) V s)
         (atomic_load Acquire Head t (ra_mem s) (ra_pview s))
     | P_load_slot blocking e n \<Rightarrow> map_option (\<lambda>(x, V). ra_at
         (if val_elem x \<noteq> None
          then (if blocking then P_load_slot blocking e n else P_idle False)
          else P_store e n) V s)
         (atomic_load Acquire (Slot (ra_index s n)) t (ra_mem s) (ra_pview s))
     | P_store e n \<Rightarrow> map_option (\<lambda>(M, V). (ra_at (P_publish e n) V s)
           \<lparr>ra_mem := M, ra_stored := ra_stored s @ [(e, t, V Work)]\<rparr>)
         (atomic_store Release (Slot (ra_index s n)) t (Elem (Some e)) (ra_mem s) (ra_pview s))
     | P_publish e n \<Rightarrow> map_option (\<lambda>(v, M, V). (ra_at (P_idle True) V s)\<lparr>ra_mem := M, ra_pubs := ra_pubs s + 1\<rparr>)
         (atomic_rmw Release End t (\<lambda>v. Num (sz_add (val_num v) 1)) (ra_mem s) (ra_pview s)))"

section \<open>The consumers\<close>

definition ra_cat :: "nat \<Rightarrow> 'e consumer \<Rightarrow> ra_loc view \<Rightarrow> 'e ra_state \<Rightarrow> 'e ra_state" where
  "ra_cat c pc V s = s\<lparr>ra_cons := (ra_cons s)(c := pc), ra_cview := (ra_cview s)(c := V)\<rparr>"

definition ra_call_try_dequeue :: "nat \<Rightarrow> stamp \<Rightarrow> 'e ra_state \<Rightarrow> 'e ra_state option" where
  "ra_call_try_dequeue c t s = map_option (\<lambda>(v, V). ra_cat c (C_load_head (val_num v)) V s)
     (atomic_load Acquire End t (ra_mem s) (ra_cview s c))"

definition ra_call_dequeue :: "nat \<Rightarrow> stamp \<Rightarrow> 'e ra_state \<Rightarrow> 'e ra_state option" where
  "ra_call_dequeue c t s = map_option (\<lambda>(h, M, V). (ra_cat c (C_wait (val_num h)) V s)\<lparr>ra_mem := M, ra_claims := ra_claims s + 1\<rparr>)
     (atomic_rmw Acq_rel Head t (\<lambda>v. Num (sz_add (val_num v) 1)) (ra_mem s) (ra_cview s c))"

fun ra_consumer :: "nat \<Rightarrow> stamp \<Rightarrow> 'e ra_state \<Rightarrow> 'e ra_state option" where
  "ra_consumer c t s = (case ra_cons s c of
       C_idle r \<Rightarrow> None
     | C_load_head n \<Rightarrow> map_option (\<lambda>(h, V). ra_cat c (C_cas 0 n (val_num h)) V s)
         (atomic_load Acquire Head t (ra_mem s) (ra_cview s c))
     | C_cas i n h \<Rightarrow>
         if 5 \<le> i \<or> n \<le> h then Some (ra_cat c (C_idle None) (ra_cview s c) s)
         else map_option (\<lambda>(x, M, V).
             if x = Num h then (ra_cat c (C_take h) V s)\<lparr>ra_mem := M, ra_claims := ra_claims s + 1\<rparr>
             else ra_cat c (C_cas (i + 1) n (val_num x)) V s)
           (atomic_cas Acq_rel Acquire Head t (Num h) (Num (sz_add h 1)) (ra_mem s) (ra_cview s c))
     | C_wait h \<Rightarrow> map_option (\<lambda>(v, V). ra_cat c (if val_num v \<le> h then C_wait h else C_take h) V s)
         (atomic_load Acquire End t (ra_mem s) (ra_cview s c))
     | C_take h \<Rightarrow> map_option (\<lambda>(x, M, V). (ra_cat c (C_idle (val_elem x)) V s)
           \<lparr>ra_mem := M, ra_taken := ra_taken s @ [(c, h, val_elem x)]\<rparr>)
         (atomic_exchange Acq_rel (Slot (ra_index s h)) t (Elem None) (ra_mem s) (ra_cview s c)))"

section \<open>Steps\<close>

inductive ra_step :: "'e ra_state \<Rightarrow> 'e ra_state \<Rightarrow> bool" where
  work: "is_P_idle (ra_prod s) \<Longrightarrow> ra_work v t s = Some s' \<Longrightarrow> ra_step s s'"
| call_enqueue: "is_P_idle (ra_prod s) \<Longrightarrow> ra_call_enqueue blocking e t s = Some s' \<Longrightarrow> ra_step s s'"
| producer: "ra_producer t s = Some s' \<Longrightarrow> ra_step s s'"
| call_try_dequeue: "is_C_idle (ra_cons s c) \<Longrightarrow> ra_call_try_dequeue c t s = Some s' \<Longrightarrow> ra_step s s'"
| call_dequeue: "is_C_idle (ra_cons s c) \<Longrightarrow> ra_call_dequeue c t s = Some s' \<Longrightarrow> ra_step s s'"
| consumer: "ra_consumer c t s = Some s' \<Longrightarrow> ra_step s s'"

inductive_cases ra_stepE: "ra_step s s'"

text \<open>A queue as \<open>a3_spmc_init\<close> leaves it, before any thread uses it.\<close>

fun ra_initial :: "ra_loc \<Rightarrow> 'e ra_val" where
  "ra_initial (Slot i) = Elem None"
| "ra_initial l = Num 0"

definition ra_start :: "'e ra_state \<Rightarrow> bool" where
  "ra_start s \<longleftrightarrow> (\<exists>n q. spmc_init True n = ret (q :: 'e spmc) \<and> ra_cap s = q_cap q \<and> ra_mask s = q_mask q) \<and>
     ra_mem s = wmem_init ra_initial \<and> is_P_idle (ra_prod s) \<and> ra_pview s = view_bot \<and>
     (\<forall>c. is_C_idle (ra_cons s c) \<and> ra_cview s c = view_bot) \<and>
     ra_stored s = [] \<and> ra_pubs s = 0 \<and> ra_claims s = 0 \<and> ra_taken s = []"

text \<open>The counters do not wrap.\<close>

definition ra_bounded :: "'e ra_state \<Rightarrow> bool" where
  "ra_bounded s \<longleftrightarrow> ra_claims s + ra_cap s + 1 < size_mod"

end
