(* ===== verification/Spmc_Ra_Inv.thy ===== *)
theory Spmc_Ra_Inv
  imports Spmc_Ra Spmc_Tickets Transition
begin

text \<open>
  The invariant of the queue over the weak memory: what the messages of each location are, what each thread has seen of
  them, and who owns which ticket. Every step keeps it.
\<close>

section \<open>Counters\<close>

text \<open>
  A location that only read-modify-writes count up has the messages \<open>0\<close>, \<dots>, \<open>K\<close> with their own numbers as values; the
  view of message \<open>k\<close> satisfies \<open>P k\<close>.
\<close>

definition counts :: "ra_loc \<Rightarrow> nat \<Rightarrow> (nat \<Rightarrow> ra_loc view \<Rightarrow> bool) \<Rightarrow> (ra_loc, 'e ra_val) wmem \<Rightarrow> bool" where
  "counts l K P M \<longleftrightarrow> (\<forall>k \<le> K. M l (0, k) \<noteq> None) \<and>
     (\<forall>t v W. M l t = Some (v, W) \<longrightarrow> (\<exists>k \<le> K. t = (0, k) \<and> v = Num k \<and> P k W))"

lemma counts_load:
  assumes "counts l K P M" "atomic_load ord l t M V = Some (v, V')"
  obtains k W where "k \<le> K" "t = (0, k)" "v = Num k" "P k W" "V l \<le> (0, k)" "V \<le> V'" "V' = join_if (acquires ord) (V(l := t)) W"
  using assms(2)
proof (cases rule: load_ret)
  case (1 W)
  then show thesis using assms(1) that unfolding counts_def by blast
qed

lemma counts_rmw:
  assumes "counts l K P M" "atomic_rmw ord l t f M V = Some (v, M', V')"
  obtains W where "t = (0, K)" "v = Num K" "P K W" "V \<le> V'" "V' = join_if (acquires ord) (V(l := (0, Suc K))) W"
    "M' = write_msg l (0, Suc K) (f (Num K)) (sup W (join_if (releases ord) (view_bot(l := (0, Suc K))) V')) M"
  using assms(2)
proof (cases rule: rmw_ret)
  case (1 W)
  obtain k where k: "k \<le> K" "t = (0, k)" "v = Num k" "P k W" using assms(1) 1(1) unfolding counts_def by blast
  have "\<not> Suc k \<le> K" using assms(1) 1(3) by (auto simp: k(2) counts_def)
  then have "k = K" using k(1) by simp
  then show thesis using 1 k by (intro that [of W]) simp_all
qed

lemma counts_write:
  assumes "counts l K P M" "P (Suc K) W" shows "counts l (Suc K) P (write_msg l (0, Suc K) (Num (Suc K)) W M)"
  unfolding counts_def write_msg_apply
proof (intro conjI allI impI)
  fix k assume "k \<le> Suc K"
  then show "(if l = l \<and> (0, k) = (0, Suc K) then Some (Num (Suc K), W) else M l (0, k)) \<noteq> None"
    using assms(1) by (auto simp: counts_def le_Suc_eq)
next
  fix t v W' assume "(if l = l \<and> t = (0, Suc K) then Some (Num (Suc K), W) else M l t) = Some (v, W')"
  then show "\<exists>k \<le> Suc K. t = (0, k) \<and> v = Num k \<and> P k W'"
    using assms le_SucI unfolding counts_def by (cases "t = (0, Suc K)") (fastforce, metis)
qed

lemma counts_other: "l' \<noteq> l \<Longrightarrow> counts l K P (write_msg l' t v W M) = counts l K P M"
  by (simp add: counts_def write_msg_apply)

lemma counts_mono: "counts l K P M \<Longrightarrow> (\<And>k W. k \<le> K \<Longrightarrow> P k W \<Longrightarrow> Q k W) \<Longrightarrow> counts l K Q M"
  unfolding counts_def by blast

section \<open>Slots\<close>

text \<open>The timestamp of the store of element \<open>\<tau>\<close>, and whether a view has seen it.\<close>

definition put_at :: "('e \<times> stamp \<times> stamp) list \<Rightarrow> nat \<Rightarrow> stamp" where
  "put_at st \<tau> = fst (snd (st ! \<tau>))"

definition saw :: "size_t \<Rightarrow> ('e \<times> stamp \<times> stamp) list \<Rightarrow> ra_loc view \<Rightarrow> nat \<Rightarrow> bool" where
  "saw c st V \<tau> \<longleftrightarrow> \<tau> < length st \<and> put_at st \<tau> \<le> V (Slot (\<tau> mod c))"

text \<open>A message of a slot is the initial one, the store of an element, or the exchange that took it.\<close>

definition slot_msg :: "size_t \<Rightarrow> ('e \<times> stamp \<times> stamp) list \<Rightarrow> nat set \<Rightarrow> nat \<Rightarrow> stamp \<Rightarrow> 'e ra_val \<Rightarrow> ra_loc view \<Rightarrow> bool" where
  "slot_msg c st T i t v W \<longleftrightarrow> t = (0, 0) \<and> v = Elem None \<or>
     (\<exists>\<tau> < length st. \<tau> mod c = i \<and>
       (t = put_at st \<tau> \<and> v = Elem (Some (fst (st ! \<tau>))) \<and> snd (snd (st ! \<tau>)) \<le> W Work \<or>
        t = stamp_next (put_at st \<tau>) \<and> v = Elem None \<and> \<tau> \<in> T))"

definition slots_ok :: "size_t \<Rightarrow> ('e \<times> stamp \<times> stamp) list \<Rightarrow> nat set \<Rightarrow> (ra_loc, 'e ra_val) wmem \<Rightarrow> bool" where
  "slots_ok c st T M \<longleftrightarrow> (\<forall>i t v W. M (Slot i) t = Some (v, W) \<longrightarrow> slot_msg c st T i t v W)"

text \<open>An element is stored only after the earlier ones of its slot have been taken, and above their stores.\<close>

definition puts_ok :: "size_t \<Rightarrow> ('e \<times> stamp \<times> stamp) list \<Rightarrow> nat set \<Rightarrow> bool" where
  "puts_ok c st T \<longleftrightarrow> (\<forall>\<tau> < length st. snd (put_at st \<tau>) = 0 \<and> (0, 0) < put_at st \<tau>) \<and>
     (\<forall>\<tau>' < length st. \<forall>\<tau> < \<tau>'. \<tau> mod c = \<tau>' mod c \<longrightarrow> put_at st \<tau> < put_at st \<tau>' \<and> \<tau> \<in> T)"

lemma put_at_append [simp]: "\<tau> < length st \<Longrightarrow> put_at (st @ [x]) \<tau> = put_at st \<tau>" "put_at (st @ [x]) (length st) = fst (snd x)"
  by (simp_all add: put_at_def nth_append)

lemma puts_before:
  assumes "puts_ok c st T" "\<tau> < \<tau>'" "\<tau>' < length st" "\<tau> mod c = \<tau>' mod c"
  shows "put_at st \<tau> < put_at st \<tau>'" "\<tau> \<in> T"
  using assms unfolding puts_ok_def by blast+

lemma puts_stamp:
  assumes "puts_ok c st T" "\<tau> < length st"
  shows "snd (put_at st \<tau>) = 0" "(0, 0) < put_at st \<tau>"
  using assms unfolding puts_ok_def by blast+

lemma saw_mono: "saw c st V \<tau> \<Longrightarrow> V \<le> V' \<Longrightarrow> saw c st V' \<tau>"
  unfolding saw_def le_fun_def by (meson order_trans)

lemma saw_append: "saw c st V \<tau> \<Longrightarrow> saw c (st @ [x]) V \<tau>"
  by (simp add: saw_def)

lemma less_stamp_next: "snd s = 0 \<Longrightarrow> snd t = 0 \<Longrightarrow> s \<le> stamp_next t \<Longrightarrow> s \<le> t"
  by (cases s; cases t) (auto simp: less_eq_prod_def)

lemma stamp_cross: "snd s = 0 \<Longrightarrow> snd t = 0 \<Longrightarrow> stamp_next s \<noteq> t"
  by (cases s; cases t) auto

text \<open>What is in a slot at or above the store of an element: that store, or the elements up to this one have been taken.\<close>

lemma slot_msg_above:
  assumes msg: "slot_msg c st T (\<tau> mod c) t v W" and puts: "puts_ok c st T" and \<tau>: "\<tau> < length st" "put_at st \<tau> \<le> t"
  obtains (stored) "t = put_at st \<tau>" "v = Elem (Some (fst (st ! \<tau>)))" "snd (snd (st ! \<tau>)) \<le> W Work"
  | (taken) "\<tau> \<in> T"
  using msg unfolding slot_msg_def
proof (elim disjE conjE exE)
  assume "t = (0, 0)"
  then show thesis using puts_stamp(2) [OF puts \<tau>(1)] \<tau>(2) by simp
next
  fix \<sigma> assume \<sigma>: "\<sigma> < length st" "\<sigma> mod c = \<tau> mod c" and
    t: "t = put_at st \<sigma>" "v = Elem (Some (fst (st ! \<sigma>)))" "snd (snd (st ! \<sigma>)) \<le> W Work"
  consider "\<sigma> = \<tau>" | "\<sigma> < \<tau>" | "\<tau> < \<sigma>" by linarith
  then show thesis
  proof cases
    case 2
    then show thesis using puts_before(1) [OF puts 2 \<tau>(1) \<sigma>(2)] \<tau>(2) t(1) by simp
  next
    case 3
    show thesis by (rule taken, rule puts_before(2) [OF puts 3 \<sigma>(1) \<sigma>(2) [symmetric]])
  next
    case 1
    show thesis by (rule stored [OF t [unfolded 1]])
  qed
next
  fix \<sigma> assume \<sigma>: "\<sigma> < length st" "\<sigma> mod c = \<tau> mod c" and t: "t = stamp_next (put_at st \<sigma>)" "\<sigma> \<in> T"
  have "put_at st \<tau> \<le> put_at st \<sigma>"
    by (rule less_stamp_next [OF puts_stamp(1) [OF puts \<tau>(1)] puts_stamp(1) [OF puts \<sigma>(1)] \<tau>(2) [unfolded t(1)]])
  then have "\<not> \<sigma> < \<tau>" using puts_before(1) [OF puts _ \<tau>(1) \<sigma>(2)] by auto
  then consider "\<sigma> = \<tau>" | "\<tau> < \<sigma>" by linarith
  then show thesis
  proof cases
    case 2
    show thesis by (rule taken, rule puts_before(2) [OF puts 2 \<sigma>(1) \<sigma>(2) [symmetric]])
  next
    case 1
    show thesis by (rule taken [OF t(2) [unfolded 1]])
  qed
qed

section \<open>The invariant\<close>

definition saw_all :: "size_t \<Rightarrow> ('e \<times> stamp \<times> stamp) list \<Rightarrow> nat \<Rightarrow> ra_loc view \<Rightarrow> bool" where
  "saw_all c st k V \<longleftrightarrow> (\<forall>\<tau> < k. saw c st V \<tau>)"

definition ra_tickets :: "'e ra_state \<Rightarrow> nat set" where
  "ra_tickets s = tickets_of (ra_taken s)"

definition memory_ok :: "'e ra_state \<Rightarrow> bool" where
  "memory_ok s \<longleftrightarrow> (\<exists>k. ra_cap s = 2 ^ k \<and> ra_mask s = 2 ^ k - 1) \<and> ra_pubs s \<le> ra_claims s + ra_cap s \<and>
     counts Head (ra_claims s) (\<lambda>k W. True) (ra_mem s) \<and>
     counts End (ra_pubs s) (saw_all (ra_cap s) (ra_stored s)) (ra_mem s) \<and>
     slots_ok (ra_cap s) (ra_stored s) (ra_tickets s) (ra_mem s) \<and> puts_ok (ra_cap s) (ra_stored s) (ra_tickets s)"

fun ra_prod_pc :: "'e ra_state \<Rightarrow> 'e producer \<Rightarrow> bool" where
  "ra_prod_pc s (P_idle r) = (length (ra_stored s) = ra_pubs s)"
| "ra_prod_pc s (P_load_head b e n) = (n = ra_pubs s \<and> length (ra_stored s) = n)"
| "ra_prod_pc s (P_load_slot b e n) = (n = ra_pubs s \<and> length (ra_stored s) = n \<and> n < ra_claims s + ra_cap s)"
| "ra_prod_pc s (P_store e n) = (n = ra_pubs s \<and> length (ra_stored s) = n \<and> n < ra_claims s + ra_cap s \<and>
     (\<forall>\<tau> < n. \<tau> mod ra_cap s = n mod ra_cap s \<longrightarrow> \<tau> \<in> ra_tickets s))"
| "ra_prod_pc s (P_publish e n) = (n = ra_pubs s \<and> length (ra_stored s) = Suc n \<and> n < ra_claims s + ra_cap s)"

definition ra_prod_ok :: "'e ra_state \<Rightarrow> bool" where
  "ra_prod_ok s \<longleftrightarrow> ra_prod_pc s (ra_prod s) \<and> (0, ra_pubs s) \<le> ra_pview s End \<and>
     saw_all (ra_cap s) (ra_stored s) (length (ra_stored s)) (ra_pview s)"

fun ra_cons_pc :: "'e ra_state \<Rightarrow> ra_loc view \<Rightarrow> 'e consumer \<Rightarrow> bool" where
  "ra_cons_pc s V (C_load_head n) = (n \<le> ra_pubs s \<and> saw_all (ra_cap s) (ra_stored s) n V)"
| "ra_cons_pc s V (C_cas i n h) = (n \<le> ra_pubs s \<and> saw_all (ra_cap s) (ra_stored s) n V)"
| "ra_cons_pc s V (C_take h) = (h < ra_pubs s \<and> saw (ra_cap s) (ra_stored s) V h)"
| "ra_cons_pc s V pc = True"

definition ra_taken_ok :: "'e ra_state \<Rightarrow> bool" where
  "ra_taken_ok s \<longleftrightarrow> (\<forall>(c, t, r) \<in> set (ra_taken s). t < length (ra_stored s) \<and> r = Some (fst (ra_stored s ! t)) \<and>
     snd (snd (ra_stored s ! t)) \<le> ra_cview s c Work)"

definition ra_inv :: "'e ra_state \<Rightarrow> bool" where
  "ra_inv s \<longleftrightarrow> memory_ok s \<and> ra_prod_ok s \<and> (\<forall>c. ra_cons_pc s (ra_cview s c) (ra_cons s c)) \<and>
     owned (ra_taken s) (ra_claims s) (ra_pubs s) (ra_cons s) \<and> ra_taken_ok s"

lemma saw_all_mono: "saw_all c st k V \<Longrightarrow> V \<le> V' \<Longrightarrow> saw_all c st k V'"
  unfolding saw_all_def using saw_mono by blast

lemma saw_all_append: "saw_all c st k V \<Longrightarrow> saw_all c (st @ [x]) k V"
  unfolding saw_all_def using saw_append by blast

lemma ra_index_mod:
  assumes "memory_ok s"
  shows "ra_index s t = t mod ra_cap s" "0 < ra_cap s"
proof -
  obtain k where k: "ra_cap s = 2 ^ k" "ra_mask s = 2 ^ k - 1" using assms by (auto simp: memory_ok_def)
  have "and t (mask k) = t mod 2 ^ k" by (simp flip: take_bit_eq_mask add: take_bit_eq_mod)
  then show "ra_index s t = t mod ra_cap s" by (simp only: ra_index_def k mask_eq_exp_minus_1)
  show "0 < ra_cap s" by (simp add: k)
qed

text \<open>What the two conditions on the program counters depend on.\<close>

lemma ra_prod_pc_mono:
  assumes "ra_prod_pc s pc" "ra_pubs s' = ra_pubs s" "ra_stored s' = ra_stored s" "ra_claims s \<le> ra_claims s'"
    "ra_cap s' = ra_cap s" "ra_tickets s \<subseteq> ra_tickets s'"
  shows "ra_prod_pc s' pc"
  using assms by (cases pc) auto

lemma ra_cons_pc_mono:
  assumes "ra_cons_pc s V pc" "ra_pubs s \<le> ra_pubs s'" "ra_stored s' = ra_stored s \<or> (\<exists>x. ra_stored s' = ra_stored s @ [x])"
    "V \<le> V'" "ra_cap s' = ra_cap s"
  shows "ra_cons_pc s' V' pc"
proof -
  have saw: "saw c (ra_stored s') V' \<tau>" if "saw c (ra_stored s) V \<tau>" for c \<tau>
    using assms(3) saw_mono [OF that assms(4)] saw_append by auto
  then have "saw_all c (ra_stored s') k V'" if "saw_all c (ra_stored s) k V" for c k
    using that by (simp add: saw_all_def)
  then show ?thesis using assms(1,2,5) saw by (cases pc) auto
qed

section \<open>Steps that only look\<close>

lemma ra_at_fields [simp]:
  "ra_cap (ra_at pc V s) = ra_cap s" "ra_mask (ra_at pc V s) = ra_mask s" "ra_mem (ra_at pc V s) = ra_mem s"
  "ra_prod (ra_at pc V s) = pc" "ra_pview (ra_at pc V s) = V" "ra_cons (ra_at pc V s) = ra_cons s"
  "ra_cview (ra_at pc V s) = ra_cview s" "ra_stored (ra_at pc V s) = ra_stored s" "ra_pubs (ra_at pc V s) = ra_pubs s"
  "ra_claims (ra_at pc V s) = ra_claims s" "ra_taken (ra_at pc V s) = ra_taken s"
  by (simp_all add: ra_at_def)

lemma ra_cat_fields [simp]:
  "ra_cap (ra_cat c pc V s) = ra_cap s" "ra_mask (ra_cat c pc V s) = ra_mask s" "ra_mem (ra_cat c pc V s) = ra_mem s"
  "ra_prod (ra_cat c pc V s) = ra_prod s" "ra_pview (ra_cat c pc V s) = ra_pview s"
  "ra_cons (ra_cat c pc V s) = (ra_cons s)(c := pc)" "ra_cview (ra_cat c pc V s) = (ra_cview s)(c := V)"
  "ra_stored (ra_cat c pc V s) = ra_stored s" "ra_pubs (ra_cat c pc V s) = ra_pubs s"
  "ra_claims (ra_cat c pc V s) = ra_claims s" "ra_taken (ra_cat c pc V s) = ra_taken s"
  by (simp_all add: ra_cat_def)

text \<open>A part of the invariant for a state with the same queue but other views, or more of the queue.\<close>

lemma memory_ok_same:
  assumes "memory_ok s" "ra_cap s' = ra_cap s" "ra_mask s' = ra_mask s" "ra_mem s' = ra_mem s" "ra_stored s' = ra_stored s"
    "ra_pubs s' = ra_pubs s" "ra_claims s' = ra_claims s" "ra_taken s' = ra_taken s"
  shows "memory_ok s'"
  using assms by (simp add: memory_ok_def ra_tickets_def)

lemma ra_cons_all:
  assumes "\<forall>d. ra_cons_pc s (ra_cview s d) (ra_cons s d)" "ra_cons_pc s V pc"
    and "ra_pubs s \<le> ra_pubs s'" "ra_stored s' = ra_stored s \<or> (\<exists>x. ra_stored s' = ra_stored s @ [x])" "ra_cap s' = ra_cap s"
    and "ra_cons s' = (ra_cons s)(c := pc)" "ra_cview s' = (ra_cview s)(c := V)"
  shows "ra_cons_pc s' (ra_cview s' d) (ra_cons s' d)"
  using assms(2) assms(1) [rule_format, of d] assms(3-) by (auto intro: ra_cons_pc_mono)

lemma ra_taken_view:
  assumes "ra_taken_ok s" "ra_cview s c \<le> V" "ra_taken s' = ra_taken s" "ra_stored s' = ra_stored s"
    "ra_cview s' = (ra_cview s)(c := V)"
  shows "ra_taken_ok s'"
  unfolding ra_taken_ok_def
proof clarify
  fix d t r assume "(d, t, r) \<in> set (ra_taken s')"
  then have o: "t < length (ra_stored s)" "r = Some (fst (ra_stored s ! t))" "snd (snd (ra_stored s ! t)) \<le> ra_cview s d Work"
    using assms(1,3) by (auto simp: ra_taken_ok_def)
  have "ra_cview s c Work \<le> V Work" using assms(2) by (rule le_funD)
  then show "t < length (ra_stored s') \<and> r = Some (fst (ra_stored s' ! t)) \<and> snd (snd (ra_stored s' ! t)) \<le> ra_cview s' d Work"
    using o assms(4,5) by (auto intro: order_trans)
qed

lemma ra_prod_move:
  assumes inv: "ra_inv s" and pc: "ra_prod_pc s pc" and V: "ra_pview s \<le> V"
  shows "ra_inv (ra_at pc V s)"
proof -
  have "ra_pview s End \<le> V End" using V by (rule le_funD)
  moreover have "ra_prod_pc (ra_at pc V s) pc" by (rule ra_prod_pc_mono [OF pc]) (simp_all add: ra_tickets_def)
  ultimately have "ra_prod_ok (ra_at pc V s)"
    using inv V by (auto simp: ra_inv_def ra_prod_ok_def intro: order_trans saw_all_mono)
  moreover have "memory_ok (ra_at pc V s)" by (rule memory_ok_same [of s]) (use inv in \<open>simp_all add: ra_inv_def\<close>)
  moreover have "ra_cons_pc (ra_at pc V s) (ra_cview s d) (ra_cons s d)" for d
    by (rule ra_cons_pc_mono [of s "ra_cview s d"]) (use inv in \<open>simp_all add: ra_inv_def\<close>)
  ultimately show ?thesis using inv by (simp add: ra_inv_def ra_taken_ok_def)
qed

lemma ra_cons_move:
  assumes inv: "ra_inv s" and pc: "ra_cons_pc s V pc" "held pc = held (ra_cons s c)" and V: "ra_cview s c \<le> V"
  shows "ra_inv (ra_cat c pc V s)"
proof -
  let ?s = "ra_cat c pc V s"
  have "memory_ok ?s" by (rule memory_ok_same [of s]) (use inv in \<open>simp_all add: ra_inv_def\<close>)
  moreover have "ra_prod_ok ?s"
    using inv ra_prod_pc_mono [of s "ra_prod s" ?s] by (simp add: ra_inv_def ra_prod_ok_def ra_tickets_def)
  moreover have "ra_cons_pc ?s (ra_cview ?s d) (ra_cons ?s d)" for d
    by (rule ra_cons_all [of s V pc _ c]) (use inv pc in \<open>simp_all add: ra_inv_def\<close>)
  moreover have "ra_taken_ok ?s" by (rule ra_taken_view [of s c V]) (use inv V in \<open>simp_all add: ra_inv_def\<close>)
  ultimately show ?thesis using inv pc(2) by (simp add: ra_inv_def owned_move del: fun_upd_apply)
qed

end
