(* ===== verification/Spmc_Ra_Steps.thy ===== *)
theory Spmc_Ra_Steps
  imports Spmc_Ra_Inv
begin

text \<open>The steps of the queue over the weak memory that write: each keeps the invariant of \<open>Spmc_Ra_Inv\<close>.\<close>

section \<open>Work and tickets\<close>

lemma slots_ok_other: "\<forall>i. Slot i \<noteq> l \<Longrightarrow> slots_ok c st T (write_msg l t v W M) = slots_ok c st T M"
  by (simp add: slots_ok_def write_msg_apply)

lemma ra_inv_work:
  assumes inv: "ra_inv s" and step: "ra_work v t s = Some s'"
  shows "ra_inv s'"
proof -
  obtain M V where a: "atomic_store Relaxed Work t v (ra_mem s) (ra_pview s) = Some (M, V)"
    and s': "s' = (ra_at (ra_prod s) V s)\<lparr>ra_mem := M\<rparr>"
    using step by (auto simp: ra_work_def ra_at_def)
  note st = store_ret [OF a]
  have "ra_inv (ra_at (ra_prod s) V s)"
    using inv st(5) by (intro ra_prod_move) (simp_all add: ra_inv_def ra_prod_ok_def)
  moreover have "counts l K P M = counts l K P (ra_mem s)" if "l \<noteq> Work" for l K P
    unfolding st(6) using that by (intro counts_other) simp
  moreover have "slots_ok c ss T M = slots_ok c ss T (ra_mem s)" for c ss T
    unfolding st(6) by (intro slots_ok_other) simp
  moreover have "ra_prod_pc s' pc = ra_prod_pc (ra_at (ra_prod s) V s) pc" for pc
    by (cases pc) (simp_all add: s' ra_tickets_def)
  moreover have "ra_cons_pc s' W pc = ra_cons_pc (ra_at (ra_prod s) V s) W pc" for W pc
    by (cases pc) (simp_all add: s')
  ultimately show ?thesis
    by (simp add: ra_inv_def memory_ok_def ra_prod_ok_def ra_taken_ok_def ra_tickets_def s')
qed

lemma ra_inv_claim:
  assumes inv: "ra_inv s" and a: "atomic_rmw Acq_rel Head t f (ra_mem s) (ra_cview s c) = Some (v, M, V)"
    and f: "f (Num (ra_claims s)) = Num (Suc (ra_claims s))"
    and pc: "ra_cons_pc s V pc" "held (ra_cons s c) = None" "held pc = Some (ra_claims s)"
  shows "ra_inv ((ra_cat c pc V s)\<lparr>ra_mem := M, ra_claims := ra_claims s + 1\<rparr>)"
    (is "ra_inv ?s")
proof -
  have mem: "memory_ok s" and "counts Head (ra_claims s) (\<lambda>k W. True) (ra_mem s)"
    using inv by (simp_all add: ra_inv_def memory_ok_def)
  from this(2) a obtain W where V: "ra_cview s c \<le> V"
    and M: "M = write_msg Head (0, Suc (ra_claims s)) (f (Num (ra_claims s))) W (ra_mem s)"
    by (rule counts_rmw) blast
  have "counts Head (Suc (ra_claims s)) (\<lambda>k W. True) M"
    unfolding M f by (rule counts_write) (use mem in \<open>simp_all add: memory_ok_def\<close>)
  moreover have "counts End (ra_pubs s) (saw_all (ra_cap s) (ra_stored s)) M"
    unfolding M using mem by (subst counts_other) (simp_all add: memory_ok_def)
  moreover have "slots_ok (ra_cap s) (ra_stored s) (ra_tickets s) M"
    unfolding M using mem by (subst slots_ok_other) (simp_all add: memory_ok_def)
  ultimately have "memory_ok ?s" using mem by (simp add: memory_ok_def ra_tickets_def)
  moreover have "ra_prod_ok ?s"
    using inv ra_prod_pc_mono [of s "ra_prod s" ?s] by (simp add: ra_inv_def ra_prod_ok_def ra_tickets_def)
  moreover have "ra_cons_pc ?s (ra_cview ?s d) (ra_cons ?s d)" for d
    by (rule ra_cons_all [of s V pc _ c]) (use inv pc in \<open>simp_all add: ra_inv_def\<close>)
  moreover have "ra_taken_ok ?s" by (rule ra_taken_view [of s c V]) (use inv V in \<open>simp_all add: ra_inv_def\<close>)
  moreover have "owned (ra_taken ?s) (ra_claims ?s) (ra_pubs ?s) (ra_cons ?s)"
    using inv owned_claim [where cons = "ra_cons s", OF _ pc(2,3)] by (simp add: ra_inv_def del: fun_upd_apply)
  ultimately show ?thesis by (simp add: ra_inv_def)
qed

section \<open>The producer\<close>

lemma slot_msg_grow:
  assumes "slot_msg c st T i t v W" "T \<subseteq> T'" shows "slot_msg c (st @ [x]) T' i t v W" "slot_msg c st T' i t v W"
  using assms unfolding slot_msg_def by (force simp: nth_append less_Suc_eq)+

lemma puts_ok_append:
  assumes "puts_ok c st T" "snd t = 0" "(0, 0) < t"
    and "\<And>\<tau>. \<tau> < length st \<Longrightarrow> \<tau> mod c = length st mod c \<Longrightarrow> put_at st \<tau> < t \<and> \<tau> \<in> T"
  shows "puts_ok c (st @ [(e, t, w)]) T"
  using assms by (auto simp: puts_ok_def less_Suc_eq)

lemma ra_inv_store:
  assumes inv: "ra_inv s" and pc: "ra_prod s = P_store e n"
    and a: "atomic_store Release (Slot (ra_index s n)) t (Elem (Some e)) (ra_mem s) (ra_pview s) = Some (M, V)"
  shows "ra_inv ((ra_at (P_publish e n) V s)\<lparr>ra_mem := M, ra_stored := ra_stored s @ [(e, t, V Work)]\<rparr>)"
    (is "ra_inv ?s")
proof -
  let ?i = "n mod ra_cap s" and ?st = "ra_stored s"
  let ?st' = "?st @ [(e, t, V Work)]"
  have mem: "memory_ok s" and idx: "ra_index s n = ?i" using inv by (simp_all add: ra_inv_def ra_index_mod)
  note st = store_ret [OF a [unfolded idx]]
  have n: "n = ra_pubs s" "length ?st = n" "n < ra_claims s + ra_cap s"
      "\<And>\<tau>. \<tau> < n \<Longrightarrow> \<tau> mod ra_cap s = ?i \<Longrightarrow> \<tau> \<in> ra_tickets s"
    using inv by (simp_all add: ra_inv_def ra_prod_ok_def pc)
  have "saw_all (ra_cap s) ?st (length ?st) (ra_pview s)" "(0, ra_pubs s) \<le> ra_pview s End"
    using inv unfolding ra_inv_def ra_prod_ok_def by blast+
  note seen = this [unfolded n(2)]
  have puts: "puts_ok (ra_cap s) ?st' (ra_tickets s)"
  proof (rule puts_ok_append)
    show "(0, 0) < t" using st(2) by (rule order_le_less_trans [rotated]) (cases "ra_pview s (Slot ?i)", simp)
    fix \<tau> assume \<tau>: "\<tau> < length ?st" "\<tau> mod ra_cap s = length ?st mod ra_cap s"
    have "put_at ?st \<tau> \<le> ra_pview s (Slot ?i)" using seen(1) \<tau> by (auto simp: saw_all_def saw_def n(2))
    then show "put_at ?st \<tau> < t \<and> \<tau> \<in> ra_tickets s" using st(2) n \<tau> by auto
  qed (use mem st(1) in \<open>simp_all add: memory_ok_def\<close>)
  have "slot_msg (ra_cap s) ?st' (ra_tickets s) i t' v W" if "M (Slot i) t' = Some (v, W)" for i t' v W
  proof (cases "i = ?i \<and> t' = t")
    case True
    then have "v = Elem (Some e)" "W = sup (view_bot(Slot ?i := t)) V"
      using that by (simp_all add: st(6) write_msg_apply join_if_def)
    then show ?thesis using True n(2) unfolding slot_msg_def
      by (intro disjI2 exI [of _ n]) (auto simp: put_at_def nth_append)
  next
    case False
    then have "ra_mem s (Slot i) t' = Some (v, W)" using that by (simp add: st(6) write_msg_apply split: if_splits)
    moreover have "slots_ok (ra_cap s) ?st (ra_tickets s) (ra_mem s)" using mem by (simp add: memory_ok_def)
    ultimately have "slot_msg (ra_cap s) ?st (ra_tickets s) i t' v W" unfolding slots_ok_def by blast
    then show ?thesis by (rule slot_msg_grow(1)) simp
  qed
  then have "slots_ok (ra_cap s) ?st' (ra_tickets s) M" by (simp add: slots_ok_def)
  moreover have "counts l K P M = counts l K P (ra_mem s)" if "\<And>i. l \<noteq> Slot i" for l K P
    unfolding st(6) using that by (intro counts_other) metis
  then have "counts Head (ra_claims s) (\<lambda>k W. True) M" "counts End (ra_pubs s) (saw_all (ra_cap s) ?st') M"
    using mem by (auto simp: memory_ok_def intro: saw_all_append elim: counts_mono)
  ultimately have "memory_ok ?s" using mem puts by (simp add: memory_ok_def ra_tickets_def)
  moreover have "saw (ra_cap s) ?st' V n" by (simp add: saw_def put_at_def n(2) [symmetric] st(4))
  then have "saw_all (ra_cap s) ?st' (Suc n) V"
    using saw_all_append [OF saw_all_mono [OF seen(1) st(5)]] by (simp add: saw_all_def less_Suc_eq)
  then have "ra_prod_ok ?s" using n seen(2) by (simp add: ra_prod_ok_def st(4))
  moreover have "ra_cons_pc ?s (ra_cview s d) (ra_cons s d)" for d
    by (rule ra_cons_pc_mono [of s "ra_cview s d"]) (use inv in \<open>simp_all add: ra_inv_def\<close>)
  moreover have "ra_taken_ok ?s" using inv by (auto simp: ra_inv_def ra_taken_ok_def nth_append)
  ultimately show ?thesis using inv by (simp add: ra_inv_def)
qed

lemma ra_inv_publish:
  assumes inv: "ra_inv s" and bound: "ra_bounded s" and pc: "ra_prod s = P_publish e n"
    and a: "atomic_rmw Release End t (\<lambda>v. Num (sz_add (val_num v) 1)) (ra_mem s) (ra_pview s) = Some (v, M, V)"
  shows "ra_inv ((ra_at (P_idle True) V s)\<lparr>ra_mem := M, ra_pubs := ra_pubs s + 1\<rparr>)"
    (is "ra_inv ?s")
proof -
  have mem: "memory_ok s" and n: "n = ra_pubs s" "length (ra_stored s) = Suc n" "n < ra_claims s + ra_cap s"
    using inv by (simp_all add: ra_inv_def ra_prod_ok_def pc)
  have "saw_all (ra_cap s) (ra_stored s) (length (ra_stored s)) (ra_pview s)"
    using inv unfolding ra_inv_def ra_prod_ok_def by blast
  note seen = this [unfolded n(2)]
  have add: "sz_add (ra_pubs s) 1 = Suc (ra_pubs s)" using n bound by (simp add: ra_bounded_def)
  have cnt: "counts End (ra_pubs s) (saw_all (ra_cap s) (ra_stored s)) (ra_mem s)" using mem by (simp add: memory_ok_def)
  then obtain W where V: "ra_pview s \<le> V" "V = (ra_pview s)(End := (0, Suc (ra_pubs s)))"
    and M: "M = write_msg End (0, Suc (ra_pubs s)) (Num (Suc (ra_pubs s)))
      (sup W (sup (view_bot(End := (0, Suc (ra_pubs s)))) V)) (ra_mem s)"
    using a by (rule counts_rmw) (simp add: join_if_def add [simplified])
  have seen': "saw_all (ra_cap s) (ra_stored s) (Suc n) V" using seen V(1) by (rule saw_all_mono)
  have "counts End (Suc (ra_pubs s)) (saw_all (ra_cap s) (ra_stored s)) M"
    unfolding M by (rule counts_write [OF cnt], rule saw_all_mono [OF seen' [unfolded n(1)]]) (simp add: le_supI2)
  moreover have "counts Head (ra_claims s) (\<lambda>k W. True) M"
    unfolding M using mem by (subst counts_other) (simp_all add: memory_ok_def)
  moreover have "slots_ok (ra_cap s) (ra_stored s) (ra_tickets s) M"
    unfolding M using mem by (subst slots_ok_other) (simp_all add: memory_ok_def)
  ultimately have "memory_ok ?s" using mem n by (simp add: memory_ok_def ra_tickets_def)
  moreover have "ra_prod_ok ?s" using n seen' by (simp add: ra_prod_ok_def V(2))
  moreover have "ra_cons_pc ?s (ra_cview s d) (ra_cons s d)" for d
    by (rule ra_cons_pc_mono [of s "ra_cview s d"]) (use inv in \<open>simp_all add: ra_inv_def\<close>)
  moreover have "owned (ra_taken s) (ra_claims s) (Suc (ra_pubs s)) (ra_cons s)"
    using inv by (auto simp: ra_inv_def intro: owned_publish)
  ultimately show ?thesis using inv by (simp add: ra_inv_def ra_taken_ok_def)
qed

section \<open>The exchange of a dequeue\<close>

lemma ra_take_reads:
  assumes inv: "ra_inv s" and pc: "ra_cons s c = C_take h"
    and msg: "ra_mem s (Slot (h mod ra_cap s)) t = Some (v, W)" "ra_cview s c (Slot (h mod ra_cap s)) \<le> t"
  shows "h < length (ra_stored s)" "t = put_at (ra_stored s) h" "v = Elem (Some (fst (ra_stored s ! h)))"
    "snd (snd (ra_stored s ! h)) \<le> W Work" "h < ra_pubs s"
proof -
  have "ra_cons_pc s (ra_cview s c) (ra_cons s c)" using inv by (simp add: ra_inv_def)
  then have h: "h < ra_pubs s" "h < length (ra_stored s)"
      "put_at (ra_stored s) h \<le> ra_cview s c (Slot (h mod ra_cap s))"
    by (simp_all add: pc saw_def)
  have mem: "slots_ok (ra_cap s) (ra_stored s) (ra_tickets s) (ra_mem s)" "puts_ok (ra_cap s) (ra_stored s) (ra_tickets s)"
    using inv by (simp_all add: ra_inv_def memory_ok_def)
  have "held (ra_cons s c) = Some h" by (simp add: pc)
  then have own: "h \<notin> ra_tickets s" using inv unfolding ra_inv_def owned_def ra_tickets_def by blast
  have "slot_msg (ra_cap s) (ra_stored s) (ra_tickets s) (h mod ra_cap s) t v W"
    using mem(1) msg(1) unfolding slots_ok_def by blast
  then show "t = put_at (ra_stored s) h" "v = Elem (Some (fst (ra_stored s ! h)))" "snd (snd (ra_stored s ! h)) \<le> W Work"
    using mem(2) h(2) order_trans [OF h(3) msg(2)] own by (cases rule: slot_msg_above; simp)+
  show "h < length (ra_stored s)" "h < ra_pubs s" by (fact h)+
qed

lemma puts_ok_mono: "puts_ok c st T \<Longrightarrow> T \<subseteq> T' \<Longrightarrow> puts_ok c st T'"
  unfolding puts_ok_def by blast

lemma ra_inv_take:
  assumes inv: "ra_inv s" and pc: "ra_cons s c = C_take h"
    and a: "atomic_exchange Acq_rel (Slot (ra_index s h)) t (Elem None) (ra_mem s) (ra_cview s c) = Some (x, M, V)"
  shows "ra_inv ((ra_cat c (C_idle (val_elem x)) V s)\<lparr>ra_mem := M, ra_taken := ra_taken s @ [(c, h, val_elem x)]\<rparr>)"
    (is "ra_inv ?s")
proof -
  let ?i = "h mod ra_cap s" and ?st = "ra_stored s"
  have mem: "memory_ok s" and idx: "ra_index s h = ?i" using inv by (simp_all add: ra_inv_def ra_index_mod)
  obtain W W' where W: "ra_mem s (Slot ?i) t = Some (x, W)" "ra_cview s c (Slot ?i) \<le> t" "ra_cview s c \<le> V" "W \<le> V"
    and M: "M = write_msg (Slot ?i) (stamp_next t) (Elem None) W' (ra_mem s)"
    using a [unfolded idx atomic_exchange_def] by (rule rmw_ret) (simp add: join_if_def)
  note reads = ra_take_reads [OF inv pc W(1,2)]
  have T: "ra_tickets ?s = insert h (ra_tickets s)" by (simp add: ra_tickets_def)
  have "slot_msg (ra_cap s) ?st (insert h (ra_tickets s)) i t' v U" if "M (Slot i) t' = Some (v, U)" for i t' v U
  proof (cases "i = ?i \<and> t' = stamp_next t")
    case True
    then show ?thesis using that reads(1,2) unfolding slot_msg_def
      by (intro disjI2 exI [of _ h]) (simp add: M write_msg_apply)
  next
    case False
    then have "ra_mem s (Slot i) t' = Some (v, U)" using that by (simp add: M write_msg_apply split: if_splits)
    moreover have "slots_ok (ra_cap s) ?st (ra_tickets s) (ra_mem s)" using mem by (simp add: memory_ok_def)
    ultimately have "slot_msg (ra_cap s) ?st (ra_tickets s) i t' v U" unfolding slots_ok_def by blast
    then show ?thesis by (rule slot_msg_grow(2)) blast
  qed
  then have "slots_ok (ra_cap s) ?st (insert h (ra_tickets s)) M" by (simp add: slots_ok_def)
  moreover have "puts_ok (ra_cap s) ?st (insert h (ra_tickets s))"
    by (rule puts_ok_mono [of _ _ "ra_tickets s"]) (use mem in \<open>auto simp: memory_ok_def\<close>)
  ultimately have "memory_ok ?s" using mem counts_other unfolding memory_ok_def T by (simp add: M counts_other)
  moreover have "ra_prod_ok ?s"
    using inv ra_prod_pc_mono [of s "ra_prod s" ?s] T by (auto simp: ra_inv_def ra_prod_ok_def)
  moreover have "ra_cons_pc ?s (ra_cview ?s d) (ra_cons ?s d)" for d
    by (rule ra_cons_all [of s V "C_idle (val_elem x)" _ c]) (use inv in \<open>simp_all add: ra_inv_def\<close>)
  moreover have "owned (ra_taken ?s) (ra_claims ?s) (ra_pubs ?s) (ra_cons ?s)"
    using inv owned_take [where cons = "ra_cons s" and c = c and h = h] pc reads(5) by (simp add: ra_inv_def del: fun_upd_apply)
  moreover have "ra_taken_ok ((ra_cat c (C_idle (val_elem x)) V s)\<lparr>ra_mem := M\<rparr>)"
    by (rule ra_taken_view [of s c V]) (use inv W in \<open>simp_all add: ra_inv_def\<close>)
  then have "ra_taken_ok ?s"
    using reads le_funD [OF W(4), of Work] by (auto simp: ra_taken_ok_def intro: order_trans)
  ultimately show ?thesis by (simp add: ra_inv_def)
qed

section \<open>Every step\<close>

lemma ra_counters:
  assumes "ra_inv s" "ra_bounded s"
  shows "sz_add (ra_claims s) (Suc 0) = Suc (ra_claims s)" "k \<le> ra_claims s \<Longrightarrow> sz_add k (ra_cap s) = k + ra_cap s"
  using assms by (simp_all add: ra_bounded_def)

lemma ra_reads:
  assumes "ra_inv s"
  shows "counts Head (ra_claims s) (\<lambda>k W. True) (ra_mem s)"
    "counts End (ra_pubs s) (saw_all (ra_cap s) (ra_stored s)) (ra_mem s)"
    "slots_ok (ra_cap s) (ra_stored s) (ra_tickets s) (ra_mem s)" "puts_ok (ra_cap s) (ra_stored s) (ra_tickets s)"
  using assms by (simp_all add: ra_inv_def memory_ok_def)

text \<open>An empty slot that the producer reads: all the elements that were stored in it have been taken.\<close>

lemma ra_slot_free:
  assumes inv: "ra_inv s" and l: "atomic_load ord (Slot i) t (ra_mem s) (ra_pview s) = Some (Elem None, V)"
    and \<tau>: "\<tau> < length (ra_stored s)" "\<tau> mod ra_cap s = i"
  shows "\<tau> \<in> ra_tickets s"
proof -
  obtain W where W: "ra_mem s (Slot i) t = Some (Elem None, W)" "ra_pview s (Slot i) \<le> t"
    using l by (rule load_ret) blast
  have "saw (ra_cap s) (ra_stored s) (ra_pview s) \<tau>"
    using inv \<tau>(1) unfolding ra_inv_def ra_prod_ok_def saw_all_def by blast
  then have "put_at (ra_stored s) \<tau> \<le> t" using W(2) \<tau>(2) by (auto simp: saw_def)
  moreover have "slot_msg (ra_cap s) (ra_stored s) (ra_tickets s) (\<tau> mod ra_cap s) t (Elem None) W"
    using ra_reads(3) [OF inv] W(1) \<tau>(2) unfolding slots_ok_def by blast
  ultimately show ?thesis using ra_reads(4) [OF inv] \<tau>(1) by (cases rule: slot_msg_above [rotated 3]) simp_all
qed

lemma ra_inv_producer:
  assumes inv: "ra_inv s" and bound: "ra_bounded s" and step: "ra_producer t s = Some s'"
  shows "ra_inv s'"
proof (cases "ra_prod s")
  case (P_load_head b e n)
  obtain v V where a: "atomic_load Acquire Head t (ra_mem s) (ra_pview s) = Some (v, V)"
    and s': "s' = ra_at (if sz_add (val_num v) (ra_cap s) \<le> n then (if b then P_load_head b e n else P_idle False)
          else P_load_slot b e n) V s"
    using step P_load_head by auto
  obtain k where k: "k \<le> ra_claims s" "v = Num k" "ra_pview s \<le> V"
    using ra_reads(1) [OF inv] a by (rule counts_load)
  have "n = ra_pubs s" "length (ra_stored s) = n" using inv by (simp_all add: ra_inv_def ra_prod_ok_def P_load_head)
  then show ?thesis unfolding s' using k ra_counters(2) [OF inv bound k(1)]
    by (intro ra_prod_move [OF inv _ k(3)]) auto
next
  case (P_load_slot b e n)
  have i: "ra_index s n = n mod ra_cap s" using inv by (simp add: ra_inv_def ra_index_mod)
  obtain v V where a: "atomic_load Acquire (Slot (n mod ra_cap s)) t (ra_mem s) (ra_pview s) = Some (v, V)"
    and s': "s' = ra_at (if val_elem v \<noteq> None then (if b then P_load_slot b e n else P_idle False) else P_store e n) V s"
    using step P_load_slot i by auto
  obtain W where W: "ra_mem s (Slot (n mod ra_cap s)) t = Some (v, W)" "ra_pview s \<le> V"
    using a by (rule load_ret)
  have n: "n = ra_pubs s" "length (ra_stored s) = n" "n < ra_claims s + ra_cap s"
    using inv by (simp_all add: ra_inv_def ra_prod_ok_def P_load_slot)
  have "slot_msg (ra_cap s) (ra_stored s) (ra_tickets s) (n mod ra_cap s) t v W"
    using ra_reads(3) [OF inv] W(1) unfolding slots_ok_def by blast
  then have "v = Elem (val_elem v)" by (auto simp: slot_msg_def)
  then have "\<tau> \<in> ra_tickets s" if "val_elem v = None" "\<tau> < n" "\<tau> mod ra_cap s = n mod ra_cap s" for \<tau>
    using ra_slot_free [OF inv] a that n(2) by metis
  then show ?thesis unfolding s' using n by (intro ra_prod_move [OF inv _ W(2)]) auto
next
  case (P_store e n)
  then show ?thesis using step ra_inv_store [OF inv] by fastforce
next
  case (P_publish e n)
  then show ?thesis using step ra_inv_publish [OF inv bound] by fastforce
qed (use step in simp)

lemma ra_inv_consumer:
  assumes inv: "ra_inv s" and bound: "ra_bounded s" and step: "ra_consumer c t s = Some s'"
  shows "ra_inv s'"
proof -
  note move = ra_cons_move [OF inv, of _ _ c]
  have ok: "ra_cons_pc s (ra_cview s c) (ra_cons s c)" using inv by (simp add: ra_inv_def)
  show ?thesis
  proof (cases "ra_cons s c")
    case (C_load_head n)
    obtain v V where a: "atomic_load Acquire Head t (ra_mem s) (ra_cview s c) = Some (v, V)"
      and s': "s' = ra_cat c (C_cas 0 n (val_num v)) V s"
      using step C_load_head by auto
    have V: "ra_cview s c \<le> V" using a by (rule load_ret)
    show ?thesis unfolding s' by (rule move) (use ok V C_load_head in \<open>auto intro: saw_all_mono\<close>)
  next
    case (C_cas i n h)
    show ?thesis
    proof (cases "5 \<le> i \<or> n \<le> h")
      case True
      then have s': "s' = ra_cat c (C_idle None) (ra_cview s c) s" using step C_cas by auto
      show ?thesis unfolding s' by (rule move) (simp_all add: C_cas)
    next
      case False
      obtain x M V where a: "atomic_cas Acq_rel Acquire Head t (Num h) (Num (sz_add h 1)) (ra_mem s) (ra_cview s c) = Some (x, M, V)"
        and s': "s' = (if x = Num h then (ra_cat c (C_take h) V s)\<lparr>ra_mem := M, ra_claims := ra_claims s + 1\<rparr>
             else ra_cat c (C_cas (i + 1) n (val_num x)) V s)"
        using step C_cas False by auto
      from a show ?thesis
      proof (cases rule: cas_cases)
        case won
        obtain W where "Num h = Num (ra_claims s)" "ra_cview s c \<le> V"
          using ra_reads(1) [OF inv] won(2) by (rule counts_rmw) blast
        then have h: "h = ra_claims s" "ra_cview s c \<le> V" by simp_all
        have "h < n" using False by simp
        then have "ra_cons_pc s V (C_take h)" using ok saw_all_mono [OF _ h(2)] by (auto simp: C_cas saw_all_def)
        then show ?thesis unfolding s' using won ra_counters(1) [OF inv bound]
          by (simp add: h(1) C_cas ra_inv_claim [OF inv, simplified])
      next
        case lost
        have V: "ra_cview s c \<le> V" using lost(3) by (rule load_ret)
        have "s' = ra_cat c (C_cas (i + 1) n (val_num x)) V s" using s' lost(1) by simp
        then show ?thesis using move [of V "C_cas (i + 1) n (val_num x)"] ok V by (auto simp: C_cas intro: saw_all_mono)
      qed
    qed
  next
    case (C_wait h)
    obtain v V where a: "atomic_load Acquire End t (ra_mem s) (ra_cview s c) = Some (v, V)"
      and s': "s' = ra_cat c (if val_num v \<le> h then C_wait h else C_take h) V s"
      using step C_wait by auto
    obtain k W where k: "k \<le> ra_pubs s" "v = Num k" "saw_all (ra_cap s) (ra_stored s) k W" "ra_cview s c \<le> V"
        "V = sup ((ra_cview s c)(End := t)) W"
      using ra_reads(2) [OF inv] a by (rule counts_load) (simp add: join_if_def)
    have "saw_all (ra_cap s) (ra_stored s) k V" by (rule saw_all_mono [OF k(3)]) (simp add: k(5))
    then show ?thesis unfolding s' using k by (intro move) (auto simp: C_wait saw_all_def)
  next
    case (C_take h)
    then show ?thesis using step ra_inv_take [OF inv] by fastforce
  qed (use step in simp)
qed

lemma ra_inv_step:
  assumes inv: "ra_inv s" and bound: "ra_bounded s" and step: "ra_step s s'"
  shows "ra_inv s'"
  using step
proof (cases rule: ra_step.cases)
  case (work v t)
  then show ?thesis using ra_inv_work [OF inv] by blast
next
  case (call_enqueue b e t)
  obtain v V where a: "atomic_load Relaxed End t (ra_mem s) (ra_pview s) = Some (v, V)"
    and s': "s' = ra_at (P_load_head b e (val_num v)) V s"
    using call_enqueue by (auto simp: ra_call_enqueue_def)
  obtain k where k: "k \<le> ra_pubs s" "t = (0, k)" "v = Num k" "ra_pview s End \<le> (0, k)" "ra_pview s \<le> V"
    using ra_reads(2) [OF inv] a by (rule counts_load)
  have p: "length (ra_stored s) = ra_pubs s" "(0, ra_pubs s) \<le> ra_pview s End"
    using inv call_enqueue(1) by (auto simp: ra_inv_def ra_prod_ok_def is_P_idle_def)
  have "(0, ra_pubs s) \<le> (0::nat, k)" using p(2) k(4) by (rule order_trans)
  then have "k = ra_pubs s" using k(1) by simp
  then show ?thesis unfolding s' using p(1) k(3) by (intro ra_prod_move [OF inv _ k(5)]) simp
next
  case (producer t)
  then show ?thesis by (rule ra_inv_producer [OF inv bound])
next
  case (call_try_dequeue c t)
  obtain v V where a: "atomic_load Acquire End t (ra_mem s) (ra_cview s c) = Some (v, V)"
    and s': "s' = ra_cat c (C_load_head (val_num v)) V s"
    using call_try_dequeue by (auto simp: ra_call_try_dequeue_def)
  obtain k W where k: "k \<le> ra_pubs s" "v = Num k" "saw_all (ra_cap s) (ra_stored s) k W" "ra_cview s c \<le> V"
      "V = sup ((ra_cview s c)(End := t)) W"
    using ra_reads(2) [OF inv] a by (rule counts_load) (simp add: join_if_def)
  have "saw_all (ra_cap s) (ra_stored s) k V" by (rule saw_all_mono [OF k(3)]) (simp add: k(5))
  then show ?thesis unfolding s' using k call_try_dequeue(1) by (intro ra_cons_move [OF inv]) simp_all
next
  case (call_dequeue c t)
  obtain v M V where a: "atomic_rmw Acq_rel Head t (\<lambda>v. Num (sz_add (val_num v) 1)) (ra_mem s) (ra_cview s c) = Some (v, M, V)"
    and s': "s' = (ra_cat c (C_wait (val_num v)) V s)\<lparr>ra_mem := M, ra_claims := ra_claims s + 1\<rparr>"
    using call_dequeue by (auto simp: ra_call_dequeue_def)
  have v: "v = Num (ra_claims s)" using ra_reads(1) [OF inv] a by (rule counts_rmw)
  show ?thesis unfolding s'
    by (rule ra_inv_claim [OF inv a]) (use call_dequeue(1) ra_counters(1) [OF inv bound] in \<open>simp_all add: v\<close>)
next
  case (consumer c t)
  then show ?thesis by (rule ra_inv_consumer [OF inv bound])
qed

end
