(* ===== verification/Spmc_Ra_Props.thy ===== *)
theory Spmc_Ra_Props
  imports Spmc_Ra_Steps Spmc_Inv
begin

text \<open>The invariant of the queue over the weak memory holds in every reachable state, and what the dequeues get by it.\<close>

section \<open>The invariant holds\<close>

lemma wmem_init_ra: "wmem_init ra_initial l t = (if t = (0, 0) then Some (ra_initial l, view_bot) else None)"
  by (simp add: wmem_init_def)

lemma ra_start_inv:
  assumes "ra_start s" shows "ra_inv s"
proof -
  obtain n and q :: "'a spmc" where "spmc_init True n = ret q" "ra_cap s = q_cap q" "ra_mask s = q_mask q"
    using assms by (auto simp: ra_start_def)
  then obtain k where k: "ra_cap s = 2 ^ k" "ra_mask s = 2 ^ k - 1" by (auto elim: spmc_init_fields)
  have f: "ra_mem s = wmem_init ra_initial" "ra_pview s = view_bot" "ra_stored s = []" "ra_pubs s = 0" "ra_claims s = 0"
      "ra_taken s = []" "is_P_idle (ra_prod s)" "\<And>c. is_C_idle (ra_cons s c)" "\<And>c. ra_cview s c = view_bot"
    using assms by (auto simp: ra_start_def)
  have "memory_ok s" using k f
    by (auto simp: memory_ok_def counts_def slots_ok_def puts_ok_def slot_msg_def wmem_init_ra saw_all_def split: if_splits)
  moreover have "ra_prod_ok s" using f by (auto simp: ra_prod_ok_def saw_all_def is_P_idle_def view_bot_def)
  moreover have "ra_cons_pc s (ra_cview s c) (ra_cons s c)" for c using f(8) [of c] by (auto simp: is_C_idle_def)
  ultimately show ?thesis using f by (auto simp: ra_inv_def ra_taken_ok_def intro: owned_start)
qed

interpretation ra_safe: invariant ra_start ra_step ra_bounded ra_inv
  by unfold_locales (auto intro: ra_start_inv ra_inv_step)

section \<open>Runs\<close>

text \<open>Actions with the timestamps the memory chooses, to run the queue.\<close>

datatype 'e ra_action =
    Ra_work "'e ra_val" stamp
  | Ra_enqueue bool 'e stamp
  | Ra_produce stamp
  | Ra_try_dequeue nat stamp
  | Ra_dequeue nat stamp
  | Ra_consume nat stamp

fun ra_act :: "'e ra_action \<Rightarrow> 'e ra_state \<Rightarrow> 'e ra_state option" where
  "ra_act (Ra_work v t) s = (if is_P_idle (ra_prod s) then ra_work v t s else None)"
| "ra_act (Ra_enqueue blocking e t) s = (if is_P_idle (ra_prod s) then ra_call_enqueue blocking e t s else None)"
| "ra_act (Ra_produce t) s = ra_producer t s"
| "ra_act (Ra_try_dequeue c t) s = (if is_C_idle (ra_cons s c) then ra_call_try_dequeue c t s else None)"
| "ra_act (Ra_dequeue c t) s = (if is_C_idle (ra_cons s c) then ra_call_dequeue c t s else None)"
| "ra_act (Ra_consume c t) s = ra_consumer c t s"

text \<open>A run within the bound on the counters; undefined where an action is not possible.\<close>

fun ra_run :: "'e ra_action list \<Rightarrow> 'e ra_state \<Rightarrow> 'e ra_state option" where
  "ra_run [] s = Some s"
| "ra_run (x # xs) s = (if ra_bounded s then Option.bind (ra_act x s) (ra_run xs) else None)"

lemma ra_act_step: "ra_act x s = Some s' \<Longrightarrow> ra_step s s'"
  by (cases x) (auto split: if_splits simp del: ra_producer.simps ra_consumer.simps intro: ra_step.intros)

lemma ra_run_reach:
  "reach ra_start ra_step ra_bounded s \<Longrightarrow> ra_run xs s = Some s' \<Longrightarrow> reach ra_start ra_step ra_bounded s'"
proof (induction xs arbitrary: s)
  case (Cons x xs)
  then obtain s1 where "ra_bounded s" "ra_act x s = Some s1" "ra_run xs s1 = Some s'"
    by (auto split: if_splits simp: Option.bind_eq_Some_conv)
  then show ?case using Cons.IH [OF reach_step [OF Cons.prems(1)]] ra_act_step by blast
qed simp

definition ra_zero :: "'e ra_state" where
  "ra_zero = \<lparr>ra_cap = 2, ra_mask = 1, ra_mem = wmem_init ra_initial, ra_prod = P_idle True, ra_pview = view_bot,
     ra_cons = (\<lambda>c. C_idle None), ra_cview = (\<lambda>c. view_bot), ra_stored = [], ra_pubs = 0, ra_claims = 0, ra_taken = []\<rparr>"

lemma ra_zero_start: "ra_start ra_zero"
  unfolding ra_start_def using spmc_init_two by (auto simp: ra_zero_def intro!: exI [of _ 2])

lemma ra_zero_reach: "ra_run xs ra_zero = Some s \<Longrightarrow> reach ra_start ra_step ra_bounded s"
  by (rule ra_run_reach, rule reach_init, rule ra_zero_start)

text \<open>The producer writes its data, puts 5 in the queue, and consumer 3 takes it.\<close>

definition ra_handover :: "nat ra_action list" where
  "ra_handover = [Ra_work (Num 9) (4, 0), Ra_enqueue False 5 (0, 0), Ra_produce (0, 0), Ra_produce (0, 0), Ra_produce (1, 0),
     Ra_produce (0, 0), Ra_try_dequeue 3 (0, 1), Ra_consume 3 (0, 0), Ra_consume 3 (0, 0), Ra_consume 3 (1, 0)]"

lemma sup_view_upd: "sup (V(l := t)) W = (sup V W)(l := sup t (W l))" for V W :: "'l view"
  by (simp add: fun_eq_iff)

lemmas ra_evals = ra_zero_def ra_bounded_def size_mod_def sz_add_def ra_work_def ra_call_enqueue_def ra_call_try_dequeue_def
  ra_call_dequeue_def atomic_load_def atomic_store_def atomic_rmw_def atomic_exchange_def atomic_cas_def write_msg_def join_if_def Let_def
  ra_at_def ra_cat_def ra_index_def stamp_next_def sup_view_upd sup_prod_def max_def less_prod_def less_eq_prod_def wmem_init_ra

lemma view_bot_apply [simp]: "view_bot l = (0, 0)"
  by (simp add: view_bot_def)

lemma ra_handover_run: "map_option (\<lambda>s. (ra_taken s, ra_stored s, ra_cview s 3 Work)) (ra_run ra_handover ra_zero) = Some ([(3, 0, Some 5)], [(5, (1, 0), (4, 0))], (4, 0))"
  by (simp add: ra_handover_def ra_evals)

lemma ra_handover_reach:
  obtains s :: "nat ra_state" where "reach ra_start ra_step ra_bounded s" "ra_taken s = [(3, 0, Some 5)]"
    "ra_stored s = [(5, (1, 0), (4, 0))]"
proof -
  obtain s where s: "ra_run ra_handover ra_zero = Some s" "(ra_taken s, ra_stored s, ra_cview s 3 Work) = ([(3, 0, Some 5)], [(5, (1, 0), (4, 0))], (4, 0))"
    using ra_handover_run by (auto simp del: ra_run.simps)
  have "reach ra_start ra_step ra_bounded s" using s(1) by (rule ra_zero_reach)
  then show thesis using s(2) by (intro that [of s]) simp_all
qed

section \<open>Properties\<close>

text \<open>C8: with the memory orders of the code, in every interleaving and for every choice of the memory, as long as the counters do not
  wrap: no two dequeues take the same ticket, the dequeue with ticket \<open>t\<close> returns the element that was enqueued as number \<open>t\<close>,
  which has been published, and whatever that consumer then reads of the producer's data is no older than what the producer
  had written before it stored the element.
\<close>

theorem spmc_ra_hands_over:
  assumes "reach ra_start ra_step ra_bounded s" "(c, t, r) \<in> set (ra_taken s)"
  shows "distinct (map (\<lambda>(c, t, r). t) (ra_taken s)) \<and> t < ra_pubs s \<and> r = Some (fst (ra_stored s ! t)) \<and>
    (\<forall>ord u v V. atomic_load ord Work u (ra_mem s) (ra_cview s c) = Some (v, V) \<longrightarrow> snd (snd (ra_stored s ! t)) \<le> u)"
proof -
  have own: "owned (ra_taken s) (ra_claims s) (ra_pubs s) (ra_cons s)" and "ra_taken_ok s"
    using ra_safe.reach_inv [OF assms(1)] by (simp_all add: ra_inv_def)
  then have r: "r = Some (fst (ra_stored s ! t))" "snd (snd (ra_stored s ! t)) \<le> ra_cview s c Work"
    using assms(2) by (auto simp: ra_taken_ok_def)
  have "t \<in> tickets_of (ra_taken s)" using assms(2) by (force simp: tickets_of_def)
  then have t: "t < ra_pubs s" "distinct (map (\<lambda>(c, t, r). t) (ra_taken s))" using own by (auto simp: owned_def)
  show ?thesis using r t by (auto elim!: load_ret intro: order_trans)
qed

theorem spmc_ra_hands_over_witness:
  "\<exists>s :: nat ra_state. reach ra_start ra_step ra_bounded s \<and> ra_taken s = [(3, 0, Some 5)] \<and>
     atomic_load Relaxed Work (0, 0) (ra_mem s) (ra_cview s 3) = None"
proof -
  obtain s :: "nat ra_state" where s: "reach ra_start ra_step ra_bounded s" "ra_taken s = [(3, 0, Some 5)]"
      "ra_stored s = [(5, (1, 0), (4, 0))]"
    by (rule ra_handover_reach)
  have "snd (snd (ra_stored s ! 0)) \<le> (0, 0)" if "atomic_load Relaxed Work (0, 0) (ra_mem s) (ra_cview s 3) = Some (v, V)" for v V
    using spmc_ra_hands_over [OF s(1), of 3 0 "Some 5"] that by (simp add: s(2)) blast
  then have "atomic_load Relaxed Work (0, 0) (ra_mem s) (ra_cview s 3) = None"
    by (cases "atomic_load Relaxed Work (0, 0) (ra_mem s) (ra_cview s 3)") (auto simp: s(3))
  then show ?thesis using s by blast
qed

text \<open>C14: over the weak memory too, the producer never overwrites an element: when it stores element \<open>t\<close>, the earlier elements of the
  same slot have been taken by dequeues that got them, and its store comes after theirs in the modification order of the slot.
\<close>

theorem spmc_ra_never_overwrites:
  assumes "reach ra_start ra_step ra_bounded s" "u < t" "t < length (ra_stored s)" "u mod ra_cap s = t mod ra_cap s"
  shows "(\<exists>c. (c, u, Some (fst (ra_stored s ! u))) \<in> set (ra_taken s)) \<and>
    fst (snd (ra_stored s ! u)) < fst (snd (ra_stored s ! t))"
proof -
  have inv: "ra_inv s" using assms(1) by (rule ra_safe.reach_inv)
  note before = puts_before [OF ra_reads(4) [OF inv] assms(2-4)]
  from before(2) obtain c r where "(c, u, r) \<in> set (ra_taken s)" by (auto simp: ra_tickets_def tickets_of_def)
  moreover from this have "r = Some (fst (ra_stored s ! u))" using inv by (auto simp: ra_inv_def ra_taken_ok_def)
  ultimately show ?thesis using before(1) by (auto simp: put_at_def)
qed

text \<open>Two more elements through the same queue of two slots: the third goes into the slot of the first.\<close>

definition ra_reuse :: "nat ra_action list" where
  "ra_reuse = ra_handover @
     [Ra_enqueue True 6 (0, 1), Ra_produce (0, 0), Ra_produce (0, 0), Ra_produce (1, 0), Ra_produce (0, 1),
      Ra_enqueue True 7 (0, 2), Ra_produce (0, 1), Ra_produce (1, 1), Ra_produce (2, 0)]"

lemma ra_reuse_run: "map_option (\<lambda>s. (ra_cap s, map fst (ra_stored s))) (ra_run ra_reuse ra_zero) = Some (2, [5, 6, 7])"
  by (simp add: ra_reuse_def ra_handover_def ra_evals)

theorem spmc_ra_never_overwrites_witness:
  "\<exists>s :: nat ra_state. reach ra_start ra_step ra_bounded s \<and> map fst (ra_stored s) = [5, 6, 7] \<and>
     (\<exists>c. (c, 0, Some 5) \<in> set (ra_taken s)) \<and> fst (snd (ra_stored s ! 0)) < fst (snd (ra_stored s ! 2))"
proof -
  obtain s where s: "ra_run ra_reuse ra_zero = Some s" "(ra_cap s, map fst (ra_stored s)) = (2, [5, 6, 7])"
    using ra_reuse_run by (auto simp del: ra_run.simps)
  have r: "reach ra_start ra_step ra_bounded s" using s(1) by (rule ra_zero_reach)
  have st: "length (ra_stored s) = 3" "fst (ra_stored s ! 0) = 5"
    using s(2) by (auto simp: map_eq_Cons_conv)
  have "(\<exists>c. (c, 0, Some (fst (ra_stored s ! 0))) \<in> set (ra_taken s)) \<and> fst (snd (ra_stored s ! 0)) < fst (snd (ra_stored s ! 2))"
    by (rule spmc_ra_never_overwrites [OF r]) (use s(2) st in simp_all)
  then show ?thesis using r s(2) st by auto
qed

end
