(* ===== verification/Shims.thy ===== *)
theory Shims
  imports Prelude Weak_Mem
begin

text \<open>
  The atomic operations of \<open>src/shim/atomic/msvc.c\<close>, for a compiler without \<open>stdatomic.h\<close>, on the machine they run on:
  x86, where each thread has a buffer of stores that other threads do not see yet. Each function of the shim is a short
  piece of code whose instructions (\<open>MemoryBarrier()\<close>, a plain load or store, an Interlocked function) are separate steps, which
  interleave with those of all other threads and with the buffers. The clients are arbitrary programs.

  Memory maps addresses to words of some width, \<open>size_t\<close> and \<open>void*\<close> being words of that width; for 64 bits and for 32 this
  covers both branches of \<open>_WIN64\<close>. The Interlocked functions are parameters; the contract \<open>interlocked_ok\<close> is
  their documentation.
\<close>

section \<open>The Interlocked functions\<close>

text \<open>Each takes the content of the location and its arguments, and gives its result and the new content.\<close>

record 'v interlocked =
  ilk_exchange :: "'v \<Rightarrow> 'v \<Rightarrow> 'v \<times> 'v"
  ilk_compare_exchange :: "'v \<Rightarrow> 'v \<Rightarrow> 'v \<Rightarrow> 'v \<times> 'v"
  ilk_exchange_add :: "'v \<Rightarrow> 'v \<Rightarrow> 'v \<times> 'v"

definition interlocked_ok :: "'w::len word interlocked \<Rightarrow> bool" where
  "interlocked_ok ilk \<longleftrightarrow>
     (\<forall>old v. ilk_exchange ilk old v = (old, v)) \<and>
     (\<forall>old v e. ilk_compare_exchange ilk old v e = (old, if old = e then v else old)) \<and>
     (\<forall>old v. ilk_exchange_add ilk old v = (old, old + v))"

section \<open>The shim\<close>

text \<open>
  The code of a function, up to its return into the state of the caller: \<open>Store a v p\<close> stores \<open>v\<close> at \<open>a\<close> and goes on with \<open>p\<close>, and
  \<open>Load a k\<close> goes on with \<open>k v\<close> if it reads \<open>v\<close>.
\<close>

datatype ('v, 'c) code =
    Return 'c
  | Barrier "('v, 'c) code"   \<comment> \<open>\<open>MemoryBarrier()\<close>\<close>
  | Load 'v "'v \<Rightarrow> ('v, 'c) code"
  | Store 'v 'v "('v, 'c) code"
  | Exchange 'v 'v "'v \<Rightarrow> ('v, 'c) code"
  | Compare_exchange 'v 'v 'v "'v \<Rightarrow> ('v, 'c) code"   \<comment> \<open>destination, new value, comparand\<close>
  | Exchange_add 'v 'v "'v \<Rightarrow> ('v, 'c) code"
  | Failed_assert

text \<open>The last argument is what the caller does with the result.\<close>

definition atomic_ptr_load :: "'v \<Rightarrow> memory_order \<Rightarrow> ('v \<Rightarrow> 'c) \<Rightarrow> ('v, 'c) code" where
  "atomic_ptr_load atom ord k = Barrier (Load atom (\<lambda>v. Return (k v)))"

definition atomic_usize_load :: "'v \<Rightarrow> memory_order \<Rightarrow> ('v \<Rightarrow> 'c) \<Rightarrow> ('v, 'c) code" where
  "atomic_usize_load atom ord k = Barrier (Load atom (\<lambda>v. Return (k v)))"

definition atomic_ptr_store :: "'v \<Rightarrow> 'v \<Rightarrow> memory_order \<Rightarrow> 'c \<Rightarrow> ('v, 'c) code" where
  "atomic_ptr_store atom v ord k = Store atom v (Barrier (Return k))"

definition atomic_usize_store :: "'v \<Rightarrow> 'v \<Rightarrow> memory_order \<Rightarrow> 'c \<Rightarrow> ('v, 'c) code" where
  "atomic_usize_store atom v ord k = Store atom v (Barrier (Return k))"

definition atomic_ptr_exchange :: "'v \<Rightarrow> 'v \<Rightarrow> memory_order \<Rightarrow> ('v \<Rightarrow> 'c) \<Rightarrow> ('v, 'c) code" where
  "atomic_ptr_exchange atom v ord k = Exchange atom v (\<lambda>old. Return (k old))"

definition atomic_usize_exchange :: "'v \<Rightarrow> 'v \<Rightarrow> memory_order \<Rightarrow> ('v \<Rightarrow> 'c) \<Rightarrow> ('v, 'c) code" where
  "atomic_usize_exchange atom v ord k = Exchange atom v (\<lambda>old. Return (k old))"

text \<open>\<open>expected\<close> is what \<open>*expected\<close> is at the call; the caller gets the result and what it is in the end.\<close>

definition atomic_ptr_compare_exchange ::
  "'v \<Rightarrow> 'v \<Rightarrow> 'v \<Rightarrow> memory_order \<Rightarrow> memory_order \<Rightarrow> (bool \<Rightarrow> 'v \<Rightarrow> 'c) \<Rightarrow> ('v, 'c) code" where
  "atomic_ptr_compare_exchange atom expected v ord order_fail k = Compare_exchange atom v expected (\<lambda>old.
     if old = expected then Return (k True expected) else atomic_ptr_load atom order_fail (k False))"

definition atomic_usize_compare_exchange ::
  "'v \<Rightarrow> 'v \<Rightarrow> 'v \<Rightarrow> memory_order \<Rightarrow> memory_order \<Rightarrow> (bool \<Rightarrow> 'v \<Rightarrow> 'c) \<Rightarrow> ('v, 'c) code" where
  "atomic_usize_compare_exchange atom expected v ord order_fail k = Compare_exchange atom v expected (\<lambda>old.
     if old = expected then Return (k True expected) else atomic_usize_load atom order_fail (k False))"

definition atomic_ptr_compare_exchange_weak ::
  "'v \<Rightarrow> 'v \<Rightarrow> 'v \<Rightarrow> memory_order \<Rightarrow> memory_order \<Rightarrow> (bool \<Rightarrow> 'v \<Rightarrow> 'c) \<Rightarrow> ('v, 'c) code" where
  "atomic_ptr_compare_exchange_weak atom expected v ord order_fail k =
     atomic_ptr_compare_exchange atom expected v ord order_fail k"

definition atomic_usize_compare_exchange_weak ::
  "'v \<Rightarrow> 'v \<Rightarrow> 'v \<Rightarrow> memory_order \<Rightarrow> memory_order \<Rightarrow> (bool \<Rightarrow> 'v \<Rightarrow> 'c) \<Rightarrow> ('v, 'c) code" where
  "atomic_usize_compare_exchange_weak atom expected v ord order_fail k =
     atomic_usize_compare_exchange atom expected v ord order_fail k"

text \<open>\<open>assert(ret < INT64_MAX)\<close>, or \<open>LONG_MAX\<close>: the largest signed number of the width; the addition has been done by then.\<close>

definition atomic_usize_fetch_add :: "'w::len word \<Rightarrow> 'w word \<Rightarrow> memory_order \<Rightarrow> ('w word \<Rightarrow> 'c) \<Rightarrow> ('w word, 'c) code" where
  "atomic_usize_fetch_add atom rhs ord k = Exchange_add atom rhs (\<lambda>old.
     if unat old < 2 ^ (LENGTH('w) - 1) - 1 then Return (k old) else Failed_assert)"

section \<open>Clients\<close>

text \<open>
  The atomic operations as the macros of \<open>src/include/a3/shim/atomic/other.h\<close> offer them, and \<open>_A3_ATOMIC_DISPATCH\<close>. There is no
  \<open>a3_atomic_ptr_fetch_add\<close> in \<open>msvc.c\<close>.
\<close>

datatype atomic_type = Pointer | Usize

datatype ('v, 'c) call =
    Atomic_load atomic_type 'v memory_order "'v \<Rightarrow> 'c"
  | Atomic_store atomic_type 'v 'v memory_order 'c
  | Atomic_exchange atomic_type 'v 'v memory_order "'v \<Rightarrow> 'c"
  | Atomic_compare_exchange atomic_type 'v 'v 'v memory_order memory_order "bool \<Rightarrow> 'v \<Rightarrow> 'c"
  | Atomic_compare_exchange_weak atomic_type 'v 'v 'v memory_order memory_order "bool \<Rightarrow> 'v \<Rightarrow> 'c"
  | Atomic_fetch_add 'v 'v memory_order "'v \<Rightarrow> 'c"

fun atomic_dispatch :: "('w::len word, 'c) call \<Rightarrow> ('w word, 'c) code" where
  "atomic_dispatch (Atomic_load Pointer a ord k) = atomic_ptr_load a ord k"
| "atomic_dispatch (Atomic_load Usize a ord k) = atomic_usize_load a ord k"
| "atomic_dispatch (Atomic_store Pointer a v ord k) = atomic_ptr_store a v ord k"
| "atomic_dispatch (Atomic_store Usize a v ord k) = atomic_usize_store a v ord k"
| "atomic_dispatch (Atomic_exchange Pointer a v ord k) = atomic_ptr_exchange a v ord k"
| "atomic_dispatch (Atomic_exchange Usize a v ord k) = atomic_usize_exchange a v ord k"
| "atomic_dispatch (Atomic_compare_exchange Pointer a e v ord ord2 k) = atomic_ptr_compare_exchange a e v ord ord2 k"
| "atomic_dispatch (Atomic_compare_exchange Usize a e v ord ord2 k) = atomic_usize_compare_exchange a e v ord ord2 k"
| "atomic_dispatch (Atomic_compare_exchange_weak Pointer a e v ord ord2 k) = atomic_ptr_compare_exchange_weak a e v ord ord2 k"
| "atomic_dispatch (Atomic_compare_exchange_weak Usize a e v ord ord2 k) = atomic_usize_compare_exchange_weak a e v ord ord2 k"
| "atomic_dispatch (Atomic_fetch_add a n ord k) = atomic_usize_fetch_add a n ord k"

text \<open>What a thread does in a state of its own: nothing more, a plain read or write, or an atomic operation.\<close>

datatype ('v, 'c) action =
    Done
  | Read 'v "'v \<Rightarrow> 'c"
  | Write 'v 'v 'c
  | Call "('v, 'c) call"

section \<open>The machine\<close>

text \<open>Memory, and for each thread its stores that are not in memory yet, oldest first, and where it is.\<close>

record ('v, 't) machine =
  cells :: "'v \<Rightarrow> 'v"
  waiting :: "nat \<Rightarrow> ('v \<times> 'v) list"
  threads :: "nat \<Rightarrow> 't"

datatype ('v, 'c) thread = Client 'c | Inside "('v, 'c) code" | Crashed

definition set_thread :: "nat \<Rightarrow> 't \<Rightarrow> ('v, 't) machine \<Rightarrow> ('v, 't) machine" where
  "set_thread t x m = m\<lparr>threads := (threads m)(t := x)\<rparr>"

definition set_cell :: "'v \<Rightarrow> 'v \<Rightarrow> ('v, 't) machine \<Rightarrow> ('v, 't) machine" where
  "set_cell a v m = m\<lparr>cells := (cells m)(a := v)\<rparr>"

text \<open>A thread reads its own latest store if there is one in its buffer.\<close>

definition plain_read :: "nat \<Rightarrow> 'v \<Rightarrow> ('v, 't) machine \<Rightarrow> 'v" where
  "plain_read t a m = (case map_of (rev (waiting m t)) a of Some v \<Rightarrow> v | None \<Rightarrow> cells m a)"

definition plain_write :: "nat \<Rightarrow> 'v \<Rightarrow> 'v \<Rightarrow> ('v, 't) machine \<Rightarrow> ('v, 't) machine" where
  "plain_write t a v m = m\<lparr>waiting := (waiting m)(t := waiting m t @ [(a, v)])\<rparr>"

text \<open>The oldest store of a thread reaches memory.\<close>

definition drain :: "nat \<Rightarrow> ('v, 't) machine \<Rightarrow> ('v, 't) machine option" where
  "drain t m = (case waiting m t of [] \<Rightarrow> None
     | (a, v) # b \<Rightarrow> Some (set_cell a v (m\<lparr>waiting := (waiting m)(t := b)\<rparr>)))"

text \<open>An Interlocked function: a barrier, and one step that reads and writes.\<close>

definition locked_step :: "nat \<Rightarrow> 'v \<Rightarrow> ('v \<Rightarrow> 'v \<times> 'v) \<Rightarrow> ('v \<Rightarrow> ('v, 'c) code) \<Rightarrow>
    ('v, ('v, 'c) thread) machine \<Rightarrow> ('v, ('v, 'c) thread) machine option" where
  "locked_step t a f k m = (if waiting m t \<noteq> [] then None
     else let (result, new) = f (cells m a) in Some (set_thread t (Inside (k result)) (set_cell a new m)))"

fun code_next :: "'v interlocked \<Rightarrow> nat \<Rightarrow> ('v, 'c) code \<Rightarrow>
    ('v, ('v, 'c) thread) machine \<Rightarrow> ('v, ('v, 'c) thread) machine option" where
  "code_next ilk t (Return c) m = Some (set_thread t (Client c) m)"
| "code_next ilk t (Barrier p) m = (if waiting m t \<noteq> [] then None else Some (set_thread t (Inside p) m))"
| "code_next ilk t (Load a k) m = Some (set_thread t (Inside (k (plain_read t a m))) m)"
| "code_next ilk t (Store a v p) m = Some (set_thread t (Inside p) (plain_write t a v m))"
| "code_next ilk t (Exchange a v k) m = locked_step t a (\<lambda>old. ilk_exchange ilk old v) k m"
| "code_next ilk t (Compare_exchange a v e k) m = locked_step t a (\<lambda>old. ilk_compare_exchange ilk old v e) k m"
| "code_next ilk t (Exchange_add a n k) m = locked_step t a (\<lambda>old. ilk_exchange_add ilk old n) k m"
| "code_next ilk t Failed_assert m = Some (set_thread t Crashed m)"

type_synonym ('w, 'c) x86 = "('w word, ('w word, 'c) thread) machine"

definition x86_next :: "(nat \<Rightarrow> 'c \<Rightarrow> ('w::len word, 'c) action) \<Rightarrow> 'w word interlocked \<Rightarrow> nat \<Rightarrow>
    ('w, 'c) x86 \<Rightarrow> ('w, 'c) x86 option" where
  "x86_next client ilk t m = (case threads m t of
       Client c \<Rightarrow> (case client t c of
           Done \<Rightarrow> None
         | Read a k \<Rightarrow> Some (set_thread t (Client (k (plain_read t a m))) m)
         | Write a v c' \<Rightarrow> Some (set_thread t (Client c') (plain_write t a v m))
         | Call x \<Rightarrow> Some (set_thread t (Inside (atomic_dispatch x)) m))
     | Inside p \<Rightarrow> code_next ilk t p m
     | Crashed \<Rightarrow> None)"

text \<open>The steps of one thread and its buffer, and those of the machine.\<close>

definition x86_own :: "(nat \<Rightarrow> 'c \<Rightarrow> ('w::len word, 'c) action) \<Rightarrow> 'w word interlocked \<Rightarrow> nat \<Rightarrow>
    ('w, 'c) x86 \<Rightarrow> ('w, 'c) x86 \<Rightarrow> bool" where
  "x86_own client ilk t m m' \<longleftrightarrow> drain t m = Some m' \<or> x86_next client ilk t m = Some m'"

definition x86_step :: "(nat \<Rightarrow> 'c \<Rightarrow> ('w::len word, 'c) action) \<Rightarrow> 'w word interlocked \<Rightarrow>
    ('w, 'c) x86 \<Rightarrow> ('w, 'c) x86 \<Rightarrow> bool" where
  "x86_step client ilk m m' \<longleftrightarrow> (\<exists>t. x86_own client ilk t m m')"

definition x86_start :: "('w::len word \<Rightarrow> 'w word) \<Rightarrow> (nat \<Rightarrow> 'c) \<Rightarrow> ('w, 'c) x86" where
  "x86_start mem cs = \<lparr>cells = mem, waiting = \<lambda>t. [], threads = \<lambda>t. Client (cs t)\<rparr>"

section \<open>What the shim promises\<close>

text \<open>
  The same clients on a machine that has the atomic operations: each is one step, which finds all stores that its thread
  made before in memory, and whose own store is in memory at once. The exception is a compare-exchange that finds another value
  than the expected one: it loads the value for \<open>*expected\<close> in a second step. A ticket from the signed maximum on stops the thread at
  the assertion of the shim.
\<close>

datatype ('v, 'c) sc_thread = Running 'c | Reloading 'v "'v \<Rightarrow> 'c" | Stopped

definition sc_exchange :: "nat \<Rightarrow> 'v \<Rightarrow> 'v \<Rightarrow> 'v \<Rightarrow> (bool \<Rightarrow> 'v \<Rightarrow> 'c) \<Rightarrow>
    ('v, ('v, 'c) sc_thread) machine \<Rightarrow> ('v, ('v, 'c) sc_thread) machine" where
  "sc_exchange t a e v k m = (if cells m a = e then set_thread t (Running (k True e)) (set_cell a v m)
     else set_thread t (Reloading a (k False)) m)"

fun sc_call :: "nat \<Rightarrow> ('w::len word, 'c) call \<Rightarrow>
    ('w word, ('w word, 'c) sc_thread) machine \<Rightarrow> ('w word, ('w word, 'c) sc_thread) machine" where
  "sc_call t (Atomic_load ty a ord k) m = set_thread t (Running (k (cells m a))) m"
| "sc_call t (Atomic_store ty a v ord c) m = set_thread t (Running c) (set_cell a v m)"
| "sc_call t (Atomic_exchange ty a v ord k) m = set_thread t (Running (k (cells m a))) (set_cell a v m)"
| "sc_call t (Atomic_compare_exchange ty a e v ord ord2 k) m = sc_exchange t a e v k m"
| "sc_call t (Atomic_compare_exchange_weak ty a e v ord ord2 k) m = sc_exchange t a e v k m"
| "sc_call t (Atomic_fetch_add a n ord k) m = set_thread t
     (if unat (cells m a) < 2 ^ (LENGTH('w) - 1) - 1 then Running (k (cells m a)) else Stopped)
     (set_cell a (cells m a + n) m)"

type_synonym ('w, 'c) sc = "('w word, ('w word, 'c) sc_thread) machine"

definition sc_next :: "(nat \<Rightarrow> 'c \<Rightarrow> ('w::len word, 'c) action) \<Rightarrow> nat \<Rightarrow> ('w, 'c) sc \<Rightarrow> ('w, 'c) sc option" where
  "sc_next client t m = (case threads m t of
       Running c \<Rightarrow> (case client t c of
           Done \<Rightarrow> None
         | Read a k \<Rightarrow> Some (set_thread t (Running (k (plain_read t a m))) m)
         | Write a v c' \<Rightarrow> Some (set_thread t (Running c') (plain_write t a v m))
         | Call x \<Rightarrow> if waiting m t \<noteq> [] then None else Some (sc_call t x m))
     | Reloading a k \<Rightarrow> if waiting m t \<noteq> [] then None else Some (set_thread t (Running (k (cells m a))) m)
     | Stopped \<Rightarrow> None)"

definition sc_step :: "(nat \<Rightarrow> 'c \<Rightarrow> ('w::len word, 'c) action) \<Rightarrow> ('w, 'c) sc \<Rightarrow> ('w, 'c) sc \<Rightarrow> bool" where
  "sc_step client m m' \<longleftrightarrow> (\<exists>t. drain t m = Some m' \<or> sc_next client t m = Some m')"

definition sc_start :: "('w::len word \<Rightarrow> 'w word) \<Rightarrow> (nat \<Rightarrow> 'c) \<Rightarrow> ('w, 'c) sc" where
  "sc_start mem cs = \<lparr>cells = mem, waiting = \<lambda>t. [], threads = \<lambda>t. Running (cs t)\<rparr>"

section \<open>The simulation\<close>

lemma machine_fields [simp]:
  "cells (set_thread t x m) = cells m" "waiting (set_thread t x m) = waiting m" "threads (set_thread t x m) = (threads m)(t := x)"
  "cells (set_cell a v m) = (cells m)(a := v)" "waiting (set_cell a v m) = waiting m" "threads (set_cell a v m) = threads m"
  "cells (plain_write t a v m) = cells m" "waiting (plain_write t a v m) = (waiting m)(t := waiting m t @ [(a, v)])"
  "threads (plain_write t a v m) = threads m"
  by (simp_all add: set_thread_def set_cell_def plain_write_def)

lemma plain_read_empty [simp]: "waiting m t = [] \<Longrightarrow> plain_read t a m = cells m a"
  by (simp add: plain_read_def)

lemma plain_read_same: "cells m = cells m' \<Longrightarrow> waiting m t = waiting m' t \<Longrightarrow> plain_read t a m = plain_read t a m'"
  by (simp add: plain_read_def split: option.split)

lemma sc_step_next: "sc_next client t m = Some m' \<Longrightarrow> sc_step client m m'"
  and sc_step_drain: "drain t m = Some m' \<Longrightarrow> sc_step client m m'"
  by (auto simp: sc_step_def)

lemmas shim_defs = atomic_ptr_load_def atomic_usize_load_def atomic_ptr_store_def atomic_usize_store_def
  atomic_ptr_exchange_def atomic_usize_exchange_def atomic_ptr_compare_exchange_def atomic_usize_compare_exchange_def
  atomic_ptr_compare_exchange_weak_def atomic_usize_compare_exchange_weak_def atomic_usize_fetch_add_def

text \<open>
  How a thread of x86 with its buffer shows a thread of the promised machine with its buffer. A call that has begun has
  not happened before its store has left the buffer, its load has been done, or its Interlocked function has run.
\<close>

inductive mirrors :: "('c \<Rightarrow> ('w::len word, 'c) action) \<Rightarrow> ('w word, 'c) thread \<Rightarrow> ('w word \<times> 'w word) list \<Rightarrow>
    ('w word, 'c) sc_thread \<Rightarrow> ('w word \<times> 'w word) list \<Rightarrow> bool" for client where
  outside: "mirrors client (Client c) b (Running c) b"
| begun: "client c = Call x \<Longrightarrow> mirrors client (Inside (atomic_dispatch x)) b (Running c) b"
| loading: "client c = Call (Atomic_load ty a ord k) \<Longrightarrow>
    mirrors client (Inside (Load a (\<lambda>v. Return (k v)))) [] (Running c) []"
| stored: "client c = Call (Atomic_store ty a v ord c') \<Longrightarrow>
    mirrors client (Inside (Barrier (Return c'))) (b @ [(a, v)]) (Running c) b"
| flushed: "mirrors client (Inside (Barrier (Return c))) [] (Running c) []"
| returning: "mirrors client (Inside (Return c)) [] (Running c) []"
| failing: "mirrors client (Inside (Barrier (Load a (\<lambda>v. Return (k v))))) [] (Reloading a k) []"
| reloading: "mirrors client (Inside (Load a (\<lambda>v. Return (k v)))) [] (Reloading a k) []"
| asserting: "mirrors client (Inside Failed_assert) [] Stopped []"
| crashed: "mirrors client Crashed [] Stopped []"

definition x86_mirrors :: "(nat \<Rightarrow> 'c \<Rightarrow> ('w::len word, 'c) action) \<Rightarrow> ('w, 'c) x86 \<Rightarrow> ('w, 'c) sc \<Rightarrow> bool" where
  "x86_mirrors client m a \<longleftrightarrow> cells m = cells a \<and>
     (\<forall>t. mirrors (client t) (threads m t) (waiting m t) (threads a t) (waiting a t))"

lemma x86_mirrorsI:
  assumes "x86_mirrors client m a" and "cells m' = cells a'"
    and "\<And>u. u \<noteq> t \<Longrightarrow> threads m' u = threads m u \<and> waiting m' u = waiting m u \<and>
      threads a' u = threads a u \<and> waiting a' u = waiting a u"
    and "mirrors (client t) (threads m' t) (waiting m' t) (threads a' t) (waiting a' t)"
  shows "x86_mirrors client m' a'"
  using assms unfolding x86_mirrors_def by metis

text \<open>A store of the buffer: one of the client in both machines, or the one of an atomic store, which happens now.\<close>

lemma mirrors_drain:
  assumes "mirrors client p (x # b) q b'"
  shows "(\<exists>b''. b' = x # b'' \<and> mirrors client p b q b'') \<or>
    (\<exists>c ty ord c'. b = [] \<and> b' = [] \<and> q = Running c \<and> client c = Call (Atomic_store ty (fst x) (snd x) ord c') \<and>
      mirrors client p [] (Running c') [])"
  using assms
proof (cases rule: mirrors.cases)
  case (stored c ty a v ord c')
  then show ?thesis by (cases b') (auto intro: mirrors.intros)
qed (auto intro: mirrors.intros)

lemma drain_mirrors:
  assumes sim: "x86_mirrors client m a" and m': "drain t m = Some m'"
  shows "\<exists>a'. (sc_step client)\<^sup>*\<^sup>* a a' \<and> x86_mirrors client m' a'"
proof -
  obtain i v b where b: "waiting m t = (i, v) # b" "m' = set_cell i v (m\<lparr>waiting := (waiting m)(t := b)\<rparr>)"
    using m' by (auto simp: drain_def split: list.splits)
  have c: "cells m = cells a" and s: "mirrors (client t) (threads m t) ((i, v) # b) (threads a t) (waiting a t)"
    using sim b(1) unfolding x86_mirrors_def by metis+
  from mirrors_drain [OF s] show ?thesis
  proof (elim disjE exE conjE)
    fix b'' assume b'': "waiting a t = (i, v) # b''" "mirrors (client t) (threads m t) b (threads a t) b''"
    let ?a = "set_cell i v (a\<lparr>waiting := (waiting a)(t := b'')\<rparr>)"
    have "drain t a = Some ?a" using b''(1) by (simp add: drain_def)
    then have "sc_step client a ?a" by (rule sc_step_drain)
    moreover have "x86_mirrors client m' ?a" using b'' b(2) c by (intro x86_mirrorsI [OF sim, where t = t]) simp_all
    ultimately show ?thesis by blast
  next
    fix c0 ty ord c' assume e: "b = []" "waiting a t = []" "threads a t = Running c0"
      "client t c0 = Call (Atomic_store ty (fst (i, v)) (snd (i, v)) ord c')" "mirrors (client t) (threads m t) [] (Running c') []"
    let ?a = "set_thread t (Running c') (set_cell i v a)"
    have "sc_next client t a = Some ?a" using e by (simp add: sc_next_def)
    then have "sc_step client a ?a" by (rule sc_step_next)
    moreover have "x86_mirrors client m' ?a" using e b(2) c by (intro x86_mirrorsI [OF sim, where t = t]) simp_all
    ultimately show ?thesis by blast
  qed
qed

text \<open>The first instruction of a call.\<close>

lemma begun_mirrors:
  fixes m :: "('w::len, 'c) x86"
  assumes sim: "x86_mirrors client m a" and ok: "interlocked_ok ilk" and x: "client t c = Call x"
    and m: "threads a t = Running c" "waiting a t = waiting m t" and m': "code_next ilk t (atomic_dispatch x) m = Some m'"
  shows "\<exists>a'. (sc_step client)\<^sup>*\<^sup>* a a' \<and> x86_mirrors client m' a'"
proof -
  have c: "cells m = cells a" using sim by (simp add: x86_mirrors_def)
  have stay: ?thesis if "cells m' = cells m" "\<And>u. u \<noteq> t \<Longrightarrow> threads m' u = threads m u \<and> waiting m' u = waiting m u"
      "mirrors (client t) (threads m' t) (waiting m' t) (Running c) (waiting m t)"
    using that c m by (intro exI [of _ a] conjI x86_mirrorsI [OF sim, where t = t]) simp_all
  have do: ?thesis if "waiting m t = []" "cells m' = cells (sc_call t x a)" "waiting m' = waiting m"
      "\<And>u. u \<noteq> t \<Longrightarrow> threads m' u = threads m u \<and> threads (sc_call t x a) u = threads a u"
      "waiting (sc_call t x a) = waiting a" "mirrors (client t) (threads m' t) [] (threads (sc_call t x a) t) []"
  proof -
    have "sc_next client t a = Some (sc_call t x a)" using that(1) m x by (simp add: sc_next_def)
    then have "sc_step client a (sc_call t x a)" by (rule sc_step_next)
    moreover have "x86_mirrors client m' (sc_call t x a)"
      using that m by (intro x86_mirrorsI [OF sim, where t = t]) simp_all
    ultimately show ?thesis by blast
  qed
  note ilk = ok [unfolded interlocked_ok_def]
  show ?thesis
  proof (cases x)
    case (Atomic_load ty i ord k)
    then have "m' = set_thread t (Inside (Load i (\<lambda>v. Return (k v)))) m" "waiting m t = []"
      using m' by (cases ty; simp add: shim_defs split: if_splits)+
    then show ?thesis using x Atomic_load by (intro stay) (auto intro: mirrors.loading)
  next
    case (Atomic_store ty i v ord c')
    then have "m' = set_thread t (Inside (Barrier (Return c'))) (plain_write t i v m)"
      using m' by (cases ty) (simp_all add: shim_defs)
    then show ?thesis using x Atomic_store by (intro stay) (auto intro: mirrors.stored)
  next
    case (Atomic_exchange ty i v ord k)
    then have "m' = set_thread t (Inside (Return (k (cells m i)))) (set_cell i v m)" "waiting m t = []"
      using m' ilk by (cases ty; simp add: shim_defs locked_step_def split: if_splits)+
    then show ?thesis using Atomic_exchange c by (intro do) (auto intro: mirrors.returning)
  next
    case (Atomic_compare_exchange ty i e v ord ord2 k)
    then have "m' = set_thread t (Inside (if cells m i = e then Return (k True e) else Barrier (Load i (\<lambda>v. Return (k False v)))))
        (set_cell i (if cells m i = e then v else cells m i) m)" "waiting m t = []"
      using m' ilk by (cases ty; simp add: shim_defs locked_step_def split: if_splits)+
    then show ?thesis using Atomic_compare_exchange c
      by (intro do) (auto simp: sc_exchange_def intro: mirrors.returning mirrors.failing)
  next
    case (Atomic_compare_exchange_weak ty i e v ord ord2 k)
    then have "m' = set_thread t (Inside (if cells m i = e then Return (k True e) else Barrier (Load i (\<lambda>v. Return (k False v)))))
        (set_cell i (if cells m i = e then v else cells m i) m)" "waiting m t = []"
      using m' ilk by (cases ty; simp add: shim_defs locked_step_def split: if_splits)+
    then show ?thesis using Atomic_compare_exchange_weak c
      by (intro do) (auto simp: sc_exchange_def intro: mirrors.returning mirrors.failing)
  next
    case (Atomic_fetch_add i n ord k)
    then have "m' = set_thread t (Inside (if unat (cells m i) < 2 ^ (LENGTH('w) - 1) - 1 then Return (k (cells m i)) else Failed_assert))
        (set_cell i (cells m i + n) m)" "waiting m t = []"
      using m' ilk by (auto simp: shim_defs locked_step_def split: if_splits)
    then show ?thesis using Atomic_fetch_add c by (intro do) (auto intro: mirrors.returning mirrors.asserting)
  qed
qed

text \<open>Every step of x86 is one step of the promised machine, or none.\<close>

lemma next_mirrors:
  assumes sim: "x86_mirrors client m a" and ok: "interlocked_ok ilk" and m': "x86_next client ilk t m = Some m'"
  shows "\<exists>a'. (sc_step client)\<^sup>*\<^sup>* a a' \<and> x86_mirrors client m' a'"
proof -
  have c: "cells m = cells a" using sim by (simp add: x86_mirrors_def)
  have stay: ?thesis if "cells m' = cells m" "waiting m' = waiting m" "\<And>u. u \<noteq> t \<Longrightarrow> threads m' u = threads m u"
      "mirrors (client t) (threads m' t) (waiting m t) (threads a t) (waiting a t)"
    using that c by (intro exI [of _ a] conjI x86_mirrorsI [OF sim, where t = t]) simp_all
  have move: ?thesis if "sc_next client t a = Some a'" "cells m' = cells a'"
      "\<And>u. u \<noteq> t \<Longrightarrow> threads m' u = threads m u \<and> waiting m' u = waiting m u \<and> threads a' u = threads a u \<and> waiting a' u = waiting a u"
      "mirrors (client t) (threads m' t) (waiting m' t) (threads a' t) (waiting a' t)" for a'
    using sc_step_next [OF that(1)] x86_mirrorsI [OF sim that(2,3,4)] by blast
  have "mirrors (client t) (threads m t) (waiting m t) (threads a t) (waiting a t)" using sim by (simp add: x86_mirrors_def)
  then show ?thesis
  proof (cases rule: mirrors.cases)
    case (outside c0)
    show ?thesis
    proof (cases "client t c0")
      case (Read i k)
      then show ?thesis using m' outside c plain_read_same [OF c, of t i]
        by (intro move [of "set_thread t (Running (k (plain_read t i a))) a"])
          (auto simp: x86_next_def sc_next_def intro: mirrors.outside)
    next
      case (Write i v c')
      then show ?thesis using m' outside c
        by (intro move [of "set_thread t (Running c') (plain_write t i v a)"])
          (auto simp: x86_next_def sc_next_def intro: mirrors.outside)
    next
      case (Call x)
      then show ?thesis using m' outside by (intro stay) (auto simp: x86_next_def intro: mirrors.begun)
    qed (use m' outside in \<open>simp add: x86_next_def\<close>)
  next
    case (begun c0 x)
    then show ?thesis using m' by (intro begun_mirrors [OF sim ok, of t c0 x]) (simp_all add: x86_next_def)
  next
    case (loading c0 ty i ord k)
    then show ?thesis using m' c by (intro move [of "sc_call t (Atomic_load ty i ord k) a"])
      (auto simp: x86_next_def sc_next_def intro: mirrors.returning)
  next
    case (reloading i k)
    then show ?thesis using m' c by (intro move [of "set_thread t (Running (k (cells a i))) a"])
      (auto simp: x86_next_def sc_next_def intro: mirrors.returning)
  next
    case (flushed c0)
    then show ?thesis using m' by (intro stay) (auto simp: x86_next_def intro: mirrors.returning)
  next
    case (returning c0)
    then show ?thesis using m' by (intro stay) (auto simp: x86_next_def intro: mirrors.outside)
  next
    case (failing i k)
    then show ?thesis using m' by (intro stay) (auto simp: x86_next_def intro: mirrors.reloading)
  next
    case asserting
    then show ?thesis using m' by (intro stay) (auto simp: x86_next_def intro: mirrors.crashed)
  qed (use m' in \<open>simp_all add: x86_next_def\<close>)
qed

lemma x86_step_mirrors:
  assumes "x86_mirrors client m a" and "interlocked_ok ilk" and "x86_step client ilk m m'"
  shows "\<exists>a'. (sc_step client)\<^sup>*\<^sup>* a a' \<and> x86_mirrors client m' a'"
  using assms drain_mirrors next_mirrors unfolding x86_step_def x86_own_def by metis

lemma x86_steps_mirrors:
  assumes "(x86_step client ilk)\<^sup>*\<^sup>* (x86_start mem cs) m" and ok: "interlocked_ok ilk"
  shows "\<exists>a. (sc_step client)\<^sup>*\<^sup>* (sc_start mem cs) a \<and> x86_mirrors client m a"
  using assms(1)
proof (induction rule: rtranclp_induct)
  case base
  have "x86_mirrors client (x86_start mem cs) (sc_start mem cs)"
    by (simp add: x86_mirrors_def x86_start_def sc_start_def mirrors.outside)
  then show ?case by blast
next
  case (step m m')
  then show ?case using x86_step_mirrors [OF _ ok step.hyps(2)] by (meson rtranclp_trans)
qed

section \<open>Calls return\<close>

text \<open>Code that is at its end after \<open>n\<close> steps, counting a store twice, as it has to leave the buffer.\<close>

fun ends_in :: "nat \<Rightarrow> ('v, 'c) code \<Rightarrow> bool" where
  "ends_in 0 p \<longleftrightarrow> False"
| "ends_in (Suc n) (Return c) \<longleftrightarrow> True"
| "ends_in (Suc n) (Barrier p) \<longleftrightarrow> ends_in n p"
| "ends_in (Suc n) (Load a k) \<longleftrightarrow> (\<forall>v. ends_in n (k v))"
| "ends_in (Suc n) (Store a v p) \<longleftrightarrow> 0 < n \<and> ends_in (n - 1) p"
| "ends_in (Suc n) (Exchange a v k) \<longleftrightarrow> (\<forall>v. ends_in n (k v))"
| "ends_in (Suc n) (Compare_exchange a v e k) \<longleftrightarrow> (\<forall>v. ends_in n (k v))"
| "ends_in (Suc n) (Exchange_add a v k) \<longleftrightarrow> (\<forall>v. ends_in n (k v))"
| "ends_in (Suc n) Failed_assert \<longleftrightarrow> True"

lemma shim_ends: "ends_in 4 (atomic_dispatch x)"
proof (cases x)
  case (Atomic_load ty a ord k)
  then show ?thesis by (cases ty) (simp_all add: shim_defs numeral_eq_Suc)
next
  case (Atomic_store ty a v ord k)
  then show ?thesis by (cases ty) (simp_all add: shim_defs numeral_eq_Suc)
next
  case (Atomic_exchange ty a v ord k)
  then show ?thesis by (cases ty) (simp_all add: shim_defs numeral_eq_Suc)
next
  case (Atomic_compare_exchange ty a e v ord ord2 k)
  then show ?thesis by (cases ty) (simp_all add: shim_defs numeral_eq_Suc)
next
  case (Atomic_compare_exchange_weak ty a e v ord ord2 k)
  then show ?thesis by (cases ty) (simp_all add: shim_defs numeral_eq_Suc)
qed (simp add: shim_defs numeral_eq_Suc)

lemma ends_in_Suc: "ends_in n p \<Longrightarrow> ends_in (Suc n) p"
proof (induction n p rule: ends_in.induct)
  case (5 n a v p)
  then show ?case by (cases n) simp_all
qed simp_all

lemma ends_in_mono:
  assumes "ends_in n p" "n \<le> n'"
  shows "ends_in n' p"
  using assms(2,1) by (induction n' rule: dec_induct) (simp_all add: ends_in_Suc)

text \<open>Every thread inside a call has at most four steps of the call before it.\<close>

definition calls_end :: "('w::len, 'c) x86 \<Rightarrow> bool" where
  "calls_end m \<longleftrightarrow> (\<forall>t p. threads m t = Inside p \<longrightarrow> ends_in 4 p)"

lemma drain_fields:
  assumes "drain t m = Some m'"
  shows "threads m' = threads m" "length (waiting m t) = Suc (length (waiting m' t))" "\<And>u. u \<noteq> t \<Longrightarrow> waiting m' u = waiting m u"
  using assms by (auto simp: drain_def split: list.splits)

lemma code_next_ends:
  assumes "code_next ilk t p m = Some m'" and "ends_in n p"
  shows "(\<forall>u. u \<noteq> t \<longrightarrow> threads m' u = threads m u) \<and>
    ((\<exists>c. threads m' t = Client c) \<or> threads m' t = Crashed \<or>
     (\<exists>q j. threads m' t = Inside q \<and> ends_in j q \<and> j \<le> n \<and> j + length (waiting m' t) < n + length (waiting m t)))"
proof -
  obtain i where n: "n = Suc i" using assms(2) by (cases n) simp_all
  show ?thesis
  proof (cases p)
    case (Store a v q)
    then show ?thesis using assms by (auto simp: n intro!: exI [of _ "i - 1"])
  qed (use assms in \<open>auto simp: n locked_step_def split: if_splits prod.splits intro!: exI [of _ i]\<close>)
qed

lemma code_next_some: "waiting m t = [] \<Longrightarrow> \<exists>m'. code_next ilk t p m = Some m'"
  by (cases p) (simp_all add: locked_step_def split_beta Let_def)

lemma call_returns:
  fixes m :: "('w::len, 'c) x86"
  assumes "threads m t = Inside p" "ends_in n p"
  shows "\<exists>m' j. j \<le> n + length (waiting m t) \<and> (x86_own client ilk t ^^ j) m m' \<and>
    ((\<exists>c. threads m' t = Client c) \<or> threads m' t = Crashed)"
  using assms
proof (induction "n + length (waiting m t)" arbitrary: n m p rule: less_induct)
  case less
  have go: ?case if own: "x86_own client ilk t m m1" and m1: "threads m1 t = Inside q" "ends_in j q"
      "j + length (waiting m1 t) < n + length (waiting m t)" for m1 q j
  proof -
    obtain m' i where "i \<le> j + length (waiting m1 t)" "(x86_own client ilk t ^^ i) m1 m'"
        "(\<exists>c. threads m' t = Client c) \<or> threads m' t = Crashed"
      using less.hyps [OF m1(3,1,2)] by blast
    moreover from own this(2) have "(x86_own client ilk t ^^ Suc i) m m'" by (rule relpowp_Suc_I2)
    ultimately show ?thesis using m1(3) by (intro exI [of _ m'] exI [of _ "Suc i"]) simp
  qed
  show ?case
  proof (cases "waiting m t")
    case Nil
    obtain m1 where m1: "code_next ilk t p m = Some m1" using code_next_some [OF Nil] by blast
    then have own: "x86_own client ilk t m m1" using less.prems(1) by (simp add: x86_own_def x86_next_def)
    from code_next_ends [OF m1 less.prems(2)] consider "(\<exists>c. threads m1 t = Client c) \<or> threads m1 t = Crashed"
      | q j where "threads m1 t = Inside q" "ends_in j q" "j + length (waiting m1 t) < n + length (waiting m t)" by blast
    then show ?thesis
    proof cases
      case 1
      have "0 < n" using less.prems(2) by (cases n) simp_all
      then show ?thesis using 1 own by (intro exI [of _ m1] exI [of _ 1]) (auto simp: eq_OO)
    qed (rule go [OF own])
  next
    case (Cons x b)
    then obtain m1 where m1: "drain t m = Some m1" by (cases x) (simp add: drain_def)
    show ?thesis using drain_fields(1,2) [OF m1] less.prems m1 by (intro go [of m1 p n]) (auto simp: x86_own_def)
  qed
qed

lemma x86_step_calls_end:
  assumes "x86_step client ilk m m'" and "calls_end m"
  shows "calls_end m'"
proof -
  obtain t where t: "drain t m = Some m' \<or> x86_next client ilk t m = Some m'"
    using assms(1) by (auto simp: x86_step_def x86_own_def)
  from t show ?thesis
  proof
    assume "drain t m = Some m'"
    then show ?thesis using drain_fields(1) assms(2) by (fastforce simp: calls_end_def)
  next
    assume m': "x86_next client ilk t m = Some m'"
    show ?thesis
    proof (cases "threads m t")
      case (Client c)
      then show ?thesis using m' assms(2) shim_ends
        by (auto simp: x86_next_def calls_end_def split: action.splits if_splits)
    next
      case (Inside p)
      then have e: "code_next ilk t p m = Some m'" "ends_in 4 p" using m' assms(2) by (simp_all add: x86_next_def calls_end_def)
      show ?thesis unfolding calls_end_def
      proof (intro allI impI)
        fix u q assume "threads m' u = Inside q"
        then show "ends_in 4 q" using code_next_ends [OF e] assms(2) ends_in_mono
          by (cases "u = t") (auto simp: calls_end_def)
      qed
    qed (use m' in \<open>simp add: x86_next_def\<close>)
  qed
qed

lemma x86_calls_end:
  assumes "(x86_step client ilk)\<^sup>*\<^sup>* (x86_start mem cs) m"
  shows "calls_end m"
  using assms by (induction rule: rtranclp_induct) (simp add: calls_end_def x86_start_def, rule x86_step_calls_end)

section \<open>Property\<close>

lemma dispatch_not_return: "atomic_dispatch x \<noteq> Return c"
proof (cases x)
  case (Atomic_load ty a ord k)
  then show ?thesis by (cases ty) (simp_all add: shim_defs)
next
  case (Atomic_store ty a v ord k)
  then show ?thesis by (cases ty) (simp_all add: shim_defs)
next
  case (Atomic_exchange ty a v ord k)
  then show ?thesis by (cases ty) (simp_all add: shim_defs)
next
  case (Atomic_compare_exchange ty a e v ord ord2 k)
  then show ?thesis by (cases ty) (simp_all add: shim_defs)
next
  case (Atomic_compare_exchange_weak ty a e v ord ord2 k)
  then show ?thesis by (cases ty) (simp_all add: shim_defs)
qed (simp add: shim_defs)

inductive_cases mirrors_clientE: "mirrors client (Client c) b q b'"
inductive_cases mirrors_insideE: "mirrors client (Inside p) b q b'"
inductive_cases mirrors_crashedE: "mirrors client Crashed b q b'"

lemma mirrors_returned: "mirrors client (Inside (Return c)) b q b' \<Longrightarrow> q = Running c \<and> b = [] \<and> b' = []"
  by (erule mirrors_insideE) (simp_all add: dispatch_not_return [symmetric])

text \<open>C26: any threads whose shared accesses are plain ones and atomic operations of the shim run on x86, with its store
  buffers, as on a machine that has these operations. Each operation takes effect in one step at some moment of the call; by then all
  stores its thread made before are in memory, and its own is in memory when it returns, so that whatever the memory order, the
  operations are sequentially consistent. Of a compare-exchange only the failing one takes two steps, the second of which
  loads \<open>*expected\<close>. A fetch-add stops at the assertion exactly for a value from the signed maximum on. And no call blocks: it
  returns, or stops there, after at most four steps of its own thread and one for each store of the thread still waiting in its buffer.\<close>

theorem shim_sequentially_consistent:
  assumes "interlocked_ok ilk" and "(x86_step client ilk)\<^sup>*\<^sup>* (x86_start mem cs) m"
  shows "(\<exists>a. (sc_step client)\<^sup>*\<^sup>* (sc_start mem cs) a \<and> cells a = cells m \<and>
      (\<forall>t c. threads m t = Client c \<longrightarrow> threads a t = Running c \<and> waiting a t = waiting m t) \<and>
      (\<forall>t c. threads m t = Inside (Return c) \<longrightarrow> threads a t = Running c \<and> waiting a t = [] \<and> waiting m t = []) \<and>
      (\<forall>t. threads m t = Crashed \<longrightarrow> threads a t = Stopped)) \<and>
    (\<forall>t p. threads m t = Inside p \<longrightarrow> (\<exists>m' j. j \<le> 4 + length (waiting m t) \<and> (x86_own client ilk t ^^ j) m m' \<and>
      ((\<exists>c. threads m' t = Client c) \<or> threads m' t = Crashed)))"
proof (intro conjI allI impI)
  obtain a where a: "(sc_step client)\<^sup>*\<^sup>* (sc_start mem cs) a" "x86_mirrors client m a"
    using x86_steps_mirrors [OF assms(2,1)] by blast
  have s: "mirrors (client t) (threads m t) (waiting m t) (threads a t) (waiting a t)" for t
    using a(2) by (simp add: x86_mirrors_def)
  have c: "threads m t = Client c \<Longrightarrow> threads a t = Running c \<and> waiting a t = waiting m t" for t c
    using s [of t] by (auto elim: mirrors_clientE)
  have r: "threads m t = Inside (Return c) \<Longrightarrow> threads a t = Running c \<and> waiting a t = [] \<and> waiting m t = []" for t c
    using s [of t] mirrors_returned by fastforce
  have f: "threads m t = Crashed \<Longrightarrow> threads a t = Stopped" for t
    using s [of t] by (auto elim: mirrors_crashedE)
  have "cells a = cells m" using a(2) by (simp add: x86_mirrors_def)
  then show "\<exists>a. (sc_step client)\<^sup>*\<^sup>* (sc_start mem cs) a \<and> cells a = cells m \<and>
      (\<forall>t c. threads m t = Client c \<longrightarrow> threads a t = Running c \<and> waiting a t = waiting m t) \<and>
      (\<forall>t c. threads m t = Inside (Return c) \<longrightarrow> threads a t = Running c \<and> waiting a t = [] \<and> waiting m t = []) \<and>
      (\<forall>t. threads m t = Crashed \<longrightarrow> threads a t = Stopped)"
    using a(1) c r f by blast
next
  fix t p assume t: "threads m t = Inside p"
  have "ends_in 4 p" using x86_calls_end [OF assms(2)] t by (simp add: calls_end_def)
  then show "\<exists>m' j. j \<le> 4 + length (waiting m t) \<and> (x86_own client ilk t ^^ j) m m' \<and>
      ((\<exists>c. threads m' t = Client c) \<or> threads m' t = Crashed)" by (rule call_returns [OF t])
qed

text \<open>The documented functions.\<close>

definition windows_interlocked :: "'w::len word interlocked" where
  "windows_interlocked = \<lparr>ilk_exchange = \<lambda>old v. (old, v), ilk_compare_exchange = \<lambda>old v e. (old, if old = e then v else old),
     ilk_exchange_add = \<lambda>old v. (old, old + v)\<rparr>"

lemma windows_interlocked_ok: "interlocked_ok windows_interlocked"
  by (simp add: interlocked_ok_def windows_interlocked_def)

text \<open>
  Thread 0 makes a compare-exchange of the cell at 8 from 0 to 2 while the cell is 1, and thread 1 stores 0 there before the second
  step: the result is false, and \<open>*expected\<close> is 0 as it was. A compare-exchange of C11 is false only if it found another value.
\<close>

definition ex_shim_client :: "nat \<Rightarrow> (bool \<times> u64) option \<Rightarrow> (64 word, (bool \<times> u64) option) action" where
  "ex_shim_client t c = (case c of
       None \<Rightarrow> if t = 0 then Call (Atomic_compare_exchange Usize 8 0 2 Acq_rel Acquire (\<lambda>b v. Some (b, v)))
         else if t = 1 then Write 8 0 (Some (True, 0)) else Done
     | Some r \<Rightarrow> Done)"

text \<open>A run by a schedule: which thread takes a step, or a step of its buffer.\<close>

fun x86_run :: "(nat \<Rightarrow> 'c \<Rightarrow> ('w::len word, 'c) action) \<Rightarrow> 'w word interlocked \<Rightarrow> (nat \<times> bool) list \<Rightarrow>
    ('w, 'c) x86 \<Rightarrow> ('w, 'c) x86 option" where
  "x86_run client ilk [] m = Some m"
| "x86_run client ilk ((t, b) # ts) m =
     (case if b then drain t m else x86_next client ilk t m of None \<Rightarrow> None | Some m' \<Rightarrow> x86_run client ilk ts m')"

lemma x86_run_steps: "x86_run client ilk ts m = Some m' \<Longrightarrow> (x86_step client ilk)\<^sup>*\<^sup>* m m'"
proof (induction ts arbitrary: m)
  case (Cons x ts)
  obtain t b where x: "x = (t, b)" by force
  then obtain m1 where m1: "(if b then drain t m else x86_next client ilk t m) = Some m1" "x86_run client ilk ts m1 = Some m'"
    using Cons.prems by (auto split: option.splits)
  then have "x86_step client ilk m m1" unfolding x86_step_def x86_own_def by (metis (full_types))
  then show ?case using Cons.IH [OF m1(2)] by (rule converse_rtranclp_into_rtranclp)
qed simp

definition ex_shim_schedule :: "(nat \<times> bool) list" where
  "ex_shim_schedule = [(0, False), (0, False), (1, False), (1, True), (0, False), (0, False), (0, False)]"

lemma ex_shim_run:
  "\<exists>m. x86_run ex_shim_client windows_interlocked ex_shim_schedule (x86_start (\<lambda>a. 1) (\<lambda>t. None)) = Some m \<and>
    threads m 0 = Client (Some (False, 0)) \<and> cells m 8 = 0"
  by (simp add: ex_shim_schedule_def ex_shim_client_def x86_start_def x86_next_def drain_def locked_step_def shim_defs
    windows_interlocked_def plain_read_def)

theorem shim_sequentially_consistent_witness:
  "\<exists>a. (sc_step ex_shim_client)\<^sup>*\<^sup>* (sc_start (\<lambda>a. 1) (\<lambda>t. None)) a \<and> cells a 8 = 0 \<and>
    threads a 0 = Running (Some (False, 0))"
proof -
  obtain m where m: "(x86_step ex_shim_client windows_interlocked)\<^sup>*\<^sup>* (x86_start (\<lambda>a. 1) (\<lambda>t. None)) m"
      "threads m 0 = Client (Some (False, 0))" "cells m 8 = 0"
    using ex_shim_run x86_run_steps by blast
  show ?thesis using shim_sequentially_consistent [OF windows_interlocked_ok m(1)] m(2,3) by fastforce
qed

end
