(* ===== verification/Vec.thy ===== *)
theory Vec
  imports Mem
begin

unbundle bit_operations_syntax

text \<open>
  The growable array of \<open>src/include/a3/vec.h\<close> and \<open>src/vec.c\<close>, over the byte memory, with the
  aligned allocation of \<open>src/shim/aligned_alloc/aligned_alloc.c\<close>.
\<close>

section \<open>Alignment\<close>

text \<open>\<open>~x\<close> of a \<open>size_t\<close>.\<close>

definition sz_not :: "size_t \<Rightarrow> size_t" where
  "sz_not x = size_mod - 1 - x"

definition align_down :: "size_t \<Rightarrow> size_t \<Rightarrow> size_t" where
  "align_down v align = v AND sz_not (sz_sub align 1)"

definition align_up :: "size_t \<Rightarrow> size_t \<Rightarrow> size_t" where
  "align_up v align = align_down (sz_sub (sz_add v align) 1) align"

text \<open>
  The shim for a power of two \<open>align\<close> (aligning \<open>NULL\<close> then gives \<open>NULL\<close> again). What the platform does in a call of \<open>a3_shim_aligned_alloc\<close>: whether \<open>aligned_alloc\<close> succeeds,
  whether the \<open>malloc\<close> after a failure does, and the address of each block.
\<close>

record alloc_env =
  env_aligned :: bool
  env_malloc :: bool
  env_address :: "nat \<Rightarrow> size_t"

definition a3_shim_aligned_alloc :: "mem \<Rightarrow> alloc_env \<Rightarrow> size_t \<Rightarrow> size_t \<Rightarrow> (mem \<times> ptr) run" where
  "a3_shim_aligned_alloc m env sz align = assert_c (0 < sz) (assert_c (0 < align)
     (if env_aligned env then ret (c_malloc m True sz)
      else (case c_malloc m (env_malloc env) (sz_add sz align) of
          (m', Null) \<Rightarrow> ret (m', Null)
        | (m', Ptr b off) \<Rightarrow>
            ret (m', Ptr b (sz_sub (align_up (env_address env b) align) (env_address env b))))))"

definition a3_shim_aligned_free :: "mem \<Rightarrow> ptr \<Rightarrow> mem run" where
  "a3_shim_aligned_free m p = assert_c (p \<noteq> Null) (c_free m p)"

text \<open>The shim for Windows, over \<open>_aligned_malloc\<close> and \<open>_aligned_free\<close>.\<close>

definition a3_shim_aligned_alloc_ms :: "(mem \<Rightarrow> size_t \<Rightarrow> size_t \<Rightarrow> mem \<times> ptr) \<Rightarrow> mem \<Rightarrow> size_t \<Rightarrow> size_t \<Rightarrow> (mem \<times> ptr) run" where
  "a3_shim_aligned_alloc_ms aligned_malloc m sz align =
     assert_c (0 < sz) (assert_c (0 < align) (ret (aligned_malloc m sz align)))"

definition a3_shim_aligned_free_ms :: "(mem \<Rightarrow> ptr \<Rightarrow> mem run) \<Rightarrow> mem \<Rightarrow> ptr \<Rightarrow> mem run" where
  "a3_shim_aligned_free_ms aligned_free m p = assert_c (p \<noteq> Null) (aligned_free m p)"

section \<open>The vector\<close>

record a3_vec =
  v_cap :: size_t
  v_len :: size_t
  v_elem_size :: size_t
  v_elem_align :: size_t
  v_buf :: ptr

definition a3_vec_index :: "a3_vec \<Rightarrow> size_t \<Rightarrow> ptr" where
  "a3_vec_index v i = (if v_buf v = Null \<or> v_cap v < i then Null
     else ptr_plus (v_buf v) (sz_mul i (v_elem_size v)))"

text \<open>\<open>A3_UNWRAPN\<close> around an aligned allocation.\<close>

definition vec_alloc :: "mem \<Rightarrow> alloc_env \<Rightarrow> size_t \<Rightarrow> size_t \<Rightarrow> (mem \<times> ptr) run" where
  "vec_alloc m env sz align = bind_run (a3_shim_aligned_alloc m env sz align) (\<lambda>(m', p).
     require (p \<noteq> Null) Panicked (ret (m', p)))"

definition a3_vec_init :: "mem \<Rightarrow> alloc_env \<Rightarrow> size_t \<Rightarrow> size_t \<Rightarrow> size_t \<Rightarrow> (mem \<times> a3_vec) run" where
  "a3_vec_init m env elem_size elem_align c = assert_c (0 < elem_size) (assert_c (0 < elem_align)
     (let v = \<lparr>v_cap = c, v_len = 0, v_elem_size = align_up elem_size elem_align,
               v_elem_align = elem_align, v_buf = Null\<rparr> in
      if c \<noteq> 0 then bind_run (vec_alloc m env (sz_mul c elem_size) elem_align) (\<lambda>(m', p).
        ret (m', v\<lparr>v_buf := p\<rparr>))
      else ret (m, v)))"

text \<open>The doubling loop of \<open>a3_vec_reserve\<close>: the new capacity.\<close>

partial_function (option) vec_double :: "size_t \<Rightarrow> size_t \<Rightarrow> size_t \<Rightarrow> size_t run" where
  "vec_double c len additional =
     (if sz_sub c len < additional then vec_double (sz_mul c 2) len additional else ret c)"

definition a3_vec_reserve :: "mem \<Rightarrow> alloc_env \<Rightarrow> a3_vec \<Rightarrow> size_t \<Rightarrow> (mem \<times> a3_vec) run" where
  "a3_vec_reserve m env v additional =
     (if sz_add (v_len v) additional \<le> v_cap v then ret (m, v)
      else if v_buf v = Null then
        bind_run (vec_alloc m env (sz_mul additional (v_elem_size v)) (v_elem_align v)) (\<lambda>(m1, p).
          ret (m1, v\<lparr>v_cap := additional, v_buf := p\<rparr>))
      else bind_run (vec_double (v_cap v) (v_len v) additional) (\<lambda>c.
        bind_run (vec_alloc m env (sz_mul c (v_elem_size v)) (v_elem_align v)) (\<lambda>(m1, p).
        bind_run (c_memcpy m1 p (v_buf v) (sz_mul (v_len v) (v_elem_size v))) (\<lambda>m2.
        bind_run (a3_shim_aligned_free m2 (v_buf v)) (\<lambda>m3.
          ret (m3, v\<lparr>v_cap := c, v_buf := p\<rparr>))))))"

definition a3_vec_write_ptr :: "mem \<Rightarrow> alloc_env \<Rightarrow> a3_vec \<Rightarrow> (mem \<times> a3_vec \<times> ptr) run" where
  "a3_vec_write_ptr m env v = bind_run (a3_vec_reserve m env v 1) (\<lambda>(m1, v1).
     let i = v_len v1; v2 = v1\<lparr>v_len := sz_add i 1\<rparr> in ret (m1, v2, a3_vec_index v2 i))"

definition a3_vec_pop :: "a3_vec \<Rightarrow> a3_vec \<times> ptr" where
  "a3_vec_pop v = (if v_buf v = Null \<or> v_len v = 0 then (v, Null)
     else (let v1 = v\<lparr>v_len := sz_sub (v_len v) 1\<rparr> in (v1, a3_vec_index v1 (v_len v1))))"

definition a3_vec_destroy :: "mem \<Rightarrow> a3_vec \<Rightarrow> (mem \<times> a3_vec) run" where
  "a3_vec_destroy m v =
     bind_run (if v_buf v \<noteq> Null then a3_shim_aligned_free m (v_buf v) else ret m) (\<lambda>m1.
       ret (m1, v\<lparr>v_len := 0, v_cap := 0\<rparr>))"

definition a3_vec_at :: "a3_vec \<Rightarrow> size_t \<Rightarrow> ptr" where
  "a3_vec_at v i = (if v_len v \<le> i then Null else ptr_plus (v_buf v) (sz_mul i (v_elem_size v)))"

definition a3_vec_first :: "a3_vec \<Rightarrow> ptr" where
  "a3_vec_first v = (if v_buf v = Null then Null else v_buf v)"

section \<open>The macros\<close>

text \<open>\<open>T\<close> is given by \<open>sizeof\<close> and \<open>alignof\<close>; a value of type \<open>T\<close> is its bytes.\<close>

definition vec_init :: "mem \<Rightarrow> alloc_env \<Rightarrow> size_t \<Rightarrow> size_t \<Rightarrow> (mem \<times> a3_vec) run" where
  "vec_init m env sz align = a3_vec_init m env sz align 8"

definition vec_init_with_capacity ::
  "mem \<Rightarrow> alloc_env \<Rightarrow> size_t \<Rightarrow> size_t \<Rightarrow> size_t \<Rightarrow> (mem \<times> a3_vec) run" where
  "vec_init_with_capacity m env sz align c = a3_vec_init m env sz align 8"

definition vec_push :: "mem \<Rightarrow> alloc_env \<Rightarrow> a3_vec \<Rightarrow> ptr \<Rightarrow> (mem \<times> a3_vec) run" where
  "vec_push m env v e = bind_run (a3_vec_write_ptr m env v) (\<lambda>(m1, v1, p).
     bind_run (c_memcpy m1 p e (v_elem_size v1)) (\<lambda>m2. ret (m2, v1)))"

definition vec_pop :: "mem \<Rightarrow> size_t \<Rightarrow> size_t \<Rightarrow> a3_vec \<Rightarrow> (a3_vec \<times> u8 list) run" where
  "vec_pop m sz align v =
     assert_c (sz = v_elem_size v \<and> align = v_elem_align v \<and> v_len v \<noteq> 0)
       (let (v1, p) = a3_vec_pop v in bind_run (mem_load m p sz) (\<lambda>x. ret (v1, x)))"

definition vec_at :: "a3_vec \<Rightarrow> size_t \<Rightarrow> ptr" where
  "vec_at v i = a3_vec_at v i"

definition vec_clear :: "mem \<Rightarrow> a3_vec \<Rightarrow> (mem \<times> a3_vec) run" where
  "vec_clear m v = a3_vec_destroy m v"

text \<open>\<open>A3_VEC_FOR_EACH\<close> from the \<open>i\<close>-th element on, with a body that only reads: the values seen.\<close>

function vec_visit :: "mem \<Rightarrow> a3_vec \<Rightarrow> nat \<Rightarrow> u8 list list run" where
  "vec_visit m v i =
     (if i < v_len v then
        bind_run (mem_load m (ptr_plus (a3_vec_first v) (i * v_elem_size v)) (v_elem_size v)) (\<lambda>x.
        bind_run (vec_visit m v (i + 1)) (\<lambda>xs. ret (x # xs)))
      else ret [])"
  by pat_completeness auto
termination
  by (relation "measure (\<lambda>(m, v, i). v_len v - i)") auto

declare vec_visit.simps [simp del]

definition vec_for_each :: "mem \<Rightarrow> a3_vec \<Rightarrow> u8 list list run" where
  "vec_for_each m v = vec_visit m v 0"

end
