(* ===== verification/Vec_Inv.thy ===== *)
theory Vec_Inv
  imports Vec
begin

text \<open>
  The vector as the list of its elements, each a list of bytes; alignment by masking rounds to
  multiples; what reserving, pushing, popping and reading do to the list.
\<close>

section \<open>Alignment\<close>

lemma mask_high:
  fixes v :: nat
  assumes "v < 2 ^ 64" "k \<le> 64"
  shows "v AND (2 ^ 64 - 2 ^ k) = v - v mod 2 ^ k"
proof -
  have "2 ^ 64 - 2 ^ k = push_bit k (mask (64 - k) :: nat)"
    using assms(2) by (simp add: push_bit_eq_mult mask_eq_exp_minus_1 diff_mult_distrib flip: power_add)
  moreover have "v AND push_bit k (mask (64 - k)) = push_bit k (drop_bit k v)"
  proof (rule bit_eqI)
    fix n
    have "bit v n \<Longrightarrow> n < 64" using assms(1) by (metis bit_take_bit_iff take_bit_nat_eq_self_iff)
    then show "bit (v AND push_bit k (mask (64 - k))) n \<longleftrightarrow> bit (push_bit k (drop_bit k v)) n"
      using assms(2) by (auto simp: bit_simps)
  qed
  ultimately show ?thesis by (simp add: push_bit_eq_mult drop_bit_eq_div minus_mod_eq_div_mult [symmetric])
qed

lemma align_down_power:
  assumes "v < size_mod" "k < 64"
  shows "align_down v (2 ^ k) = v - v mod 2 ^ k"
proof -
  have "(2::nat) ^ k < 2 ^ 64" using assms(2) by (intro power_strict_increasing) simp_all
  then have "sz_not (sz_sub (2 ^ k) 1) = 2 ^ 64 - 2 ^ k" by (simp add: sz_not_def size_mod_def)
  then show ?thesis using mask_high [of v k] assms by (simp add: align_down_def size_mod_def)
qed

text \<open>Rounding up gives the least multiple of the alignment that is at least \<open>v\<close>.\<close>

lemma align_up_power:
  assumes "v + 2 ^ k < size_mod" "k < 64"
  shows "align_up v (2 ^ k) = (v + 2 ^ k - 1) div 2 ^ k * 2 ^ k"
proof -
  have "sz_sub (sz_add v (2 ^ k)) 1 = v + 2 ^ k - 1"
    using assms(1) sz_sub_eq [of 1 "v + 2 ^ k"] by (simp add: trans_le_add2)
  then show ?thesis using align_down_power [of "v + 2 ^ k - 1" k] assms
    by (simp add: align_up_def minus_mod_eq_div_mult)
qed

lemma align_up_multiple:
  assumes "v + 2 ^ k < size_mod" "k < 64" "2 ^ k dvd v"
  shows "align_up v (2 ^ k) = v"
proof -
  obtain q where "v = 2 ^ k * q" using assms(3) by auto
  moreover have "(a * q + a - 1) div a = q" if "0 < a" for a :: nat
  proof -
    have "a * q + a - 1 = (a - 1) + q * a" using that by (cases a) simp_all
    then show ?thesis using that by (simp only: div_mult_self1) simp
  qed
  then have "(2 ^ k * q + 2 ^ k - 1) div 2 ^ k = q" by simp
  ultimately show ?thesis using align_up_power [OF assms(1,2)] by (simp add: mult.commute)
qed

section \<open>The elements of a vector\<close>

definition vec_view :: "mem \<Rightarrow> a3_vec \<Rightarrow> u8 list list \<Rightarrow> bool" where
  "vec_view m v xs \<longleftrightarrow> (\<exists>b rest. v_buf v = Ptr b 0 \<and> blocks m b = Some (concat xs @ rest) \<and>
     length (concat xs @ rest) = v_cap v * v_elem_size v) \<and>
     (\<forall>x \<in> set xs. length x = v_elem_size v) \<and> length xs = v_len v \<and> v_len v \<le> v_cap v \<and>
     0 < v_elem_size v \<and> 0 < v_elem_align v \<and> 0 < v_cap v \<and> v_cap v * v_elem_size v < size_mod"

lemma concat_chunks:
  assumes "\<forall>x \<in> set xs. length x = n"
  shows "length (concat xs) = length xs * n"
    and "i < length xs \<Longrightarrow> take n (drop (i * n) (concat xs @ rest)) = xs ! i"
proof -
  show "length (concat xs) = length xs * n" using assms by (induction xs) auto
  show "i < length xs \<Longrightarrow> take n (drop (i * n) (concat xs @ rest)) = xs ! i" using assms
  proof (induction xs arbitrary: i)
    case (Cons x xs)
    then show ?case by (cases i) auto
  qed simp
qed

lemma vec_load:
  assumes "vec_view m v xs" "i < v_len v"
  shows "mem_load m (ptr_plus (v_buf v) (i * v_elem_size v)) (v_elem_size v) = ret (xs ! i)"
proof -
  obtain b rest where b: "v_buf v = Ptr b 0" "blocks m b = Some (concat xs @ rest)"
      and len: "\<forall>x \<in> set xs. length x = v_elem_size v" "length xs = v_len v"
    using assms(1) by (auto simp: vec_view_def)
  have "(i + 1) * v_elem_size v \<le> length (concat xs)"
    unfolding concat_chunks(1) [OF len(1)] len(2) using assms(2) by (intro mult_le_mono) simp_all
  then show ?thesis using b concat_chunks(2) [OF len(1), of i rest] assms(2) len(2)
    by (simp add: mem_load_block algebra_simps)
qed

lemma vec_mul [simp]:
  assumes "vec_view m v xs" "i \<le> v_cap v"
  shows "sz_mul i (v_elem_size v) = i * v_elem_size v"
proof -
  have "i * v_elem_size v \<le> v_cap v * v_elem_size v" using assms(2) by simp
  moreover have "v_cap v * v_elem_size v < size_mod" using assms(1) by (simp add: vec_view_def)
  ultimately show ?thesis by (intro sz_mul_eq) (rule le_less_trans)
qed

lemma vec_cap_bound:
  assumes "vec_view m v xs"
  shows "v_cap v < size_mod"
proof -
  have e: "1 \<le> v_elem_size v" "v_cap v * v_elem_size v < size_mod" using assms by (simp_all add: vec_view_def)
  have "v_cap v * 1 \<le> v_cap v * v_elem_size v" using e(1) by (rule mult_le_mono2)
  then show ?thesis using e(2) by linarith
qed

section \<open>Growth\<close>

lemma vec_double_ok:
  assumes "0 < c" "len \<le> c" "2 * (len + additional) < size_mod" "c < size_mod"
  shows "\<exists>c'. vec_double c len additional = ret c' \<and> len + additional \<le> c' \<and> c \<le> c' \<and>
    (c' = c \<or> c' < 2 * (len + additional))"
  using assms
proof (induction "len + additional - c" arbitrary: c rule: less_induct)
  case less
  show ?case
  proof (cases "c - len < additional")
    case True
    then have c: "sz_mul c 2 = 2 * c" "2 * c < 2 * (len + additional)" using less.prems by (simp_all add: mult.commute)
    then have "\<exists>c'. vec_double (2 * c) len additional = ret c' \<and> len + additional \<le> c' \<and> 2 * c \<le> c' \<and>
        (c' = 2 * c \<or> c' < 2 * (len + additional))"
      using less.prems True by (intro less.hyps) auto
    moreover have "vec_double c len additional = vec_double (2 * c) len additional"
      using True c(1) less.prems by (subst vec_double.simps) (simp add: mult.commute)
    ultimately show ?thesis using c(2) by auto
  next
    case False
    then show ?thesis using less.prems by (subst vec_double.simps) auto
  qed
qed

text \<open>\<open>a3_vec_reserve\<close>: room for the elements asked for, and the same elements; memory other than
  the old storage is kept.\<close>

lemma vec_reserve_ok:
  assumes v: "vec_view m v xs" "v_buf v = Ptr b 0" and m: "mem_ok m" and env: "env_aligned env"
    and fits: "2 * (v_len v + additional) * v_elem_size v < size_mod"
  obtains m' v' where "a3_vec_reserve m env v additional = ret (m', v')" "vec_view m' v' xs" "mem_ok m'"
    "v_len v + additional \<le> v_cap v'" "v_elem_size v' = v_elem_size v" "v_elem_align v' = v_elem_align v"
    "v_len v' = v_len v" "only_moves m (Ptr b 0) m' (v_buf v')"
proof -
  obtain rest where b: "blocks m b = Some (concat xs @ rest)" "length (concat xs @ rest) = v_cap v * v_elem_size v"
    using v by (auto simp: vec_view_def)
  have es: "0 < v_elem_size v" "0 < v_elem_align v" "0 < v_cap v" "v_len v \<le> v_cap v" "length xs = v_len v"
      "v_cap v * v_elem_size v < size_mod" "\<forall>x \<in> set xs. length x = v_elem_size v"
    using v(1) by (simp_all add: vec_view_def)
  have n: "2 * (v_len v + additional) < size_mod" "v_cap v < size_mod"
    using fits es(1,6) by (auto intro: le_less_trans [rotated])
  show thesis
  proof (cases "v_len v + additional \<le> v_cap v")
    case True
    then show thesis using v m n by (intro that [of m v]) (auto simp: a3_vec_reserve_def)
  next
    case False
    obtain c where c: "vec_double (v_cap v) (v_len v) additional = ret c" "v_len v + additional \<le> c" "v_cap v \<le> c"
        "c = v_cap v \<or> c < 2 * (v_len v + additional)"
      using vec_double_ok [OF es(3,4) n(1)] n(2) by blast
    then have "c < 2 * (v_len v + additional)" using False by auto
    then have "c * v_elem_size v < 2 * (v_len v + additional) * v_elem_size v" using es(1) by simp
    then have cs: "c * v_elem_size v < size_mod" using fits by (rule less_trans)
    let ?n = "next_block m" and ?l = "length (concat xs)"
    have l: "?l = v_len v * v_elem_size v" using concat_chunks(1) [OF es(7)] es(5) by simp
    have bn: "b \<noteq> ?n" using mem_ok_fresh [OF m b(1)] .
    let ?fresh = "map (fresh_byte m ?n) [0..<c * v_elem_size v]"
    let ?m1 = "fst (mem_new_block m ?fresh)"
    have lc: "?l \<le> c * v_elem_size v" using c(2) l by simp
    have "blocks ?m1 b = Some (concat xs @ rest)" using b(1) bn by simp
    then have "mem_load ?m1 (Ptr b 0) ?l = ret (take ?l (drop 0 (concat xs @ rest)))"
      by (rule mem_load_block) simp
    then have copy: "c_memcpy ?m1 (Ptr ?n 0) (Ptr b 0) ?l = ret (with_block ?m1 ?n (concat xs @ drop ?l ?fresh))"
      using bn lc by (simp add: c_memcpy_def c_memmove_def ranges_overlap_def mem_store_block)
    let ?m2 = "with_block ?m1 ?n (concat xs @ drop ?l ?fresh)"
    let ?m3 = "?m2\<lparr>blocks := (blocks ?m2)(b := None)\<rparr>"
    let ?v = "v\<lparr>v_cap := c, v_buf := Ptr ?n 0\<rparr>"
    have "vec_alloc m env (sz_mul c (v_elem_size v)) (v_elem_align v) = ret (?m1, Ptr ?n 0)"
      using cs c(2,3) es env
      by (simp add: vec_alloc_def a3_shim_aligned_alloc_def c_malloc_def mem_new_block_def)
    moreover have "sz_mul (v_len v) (v_elem_size v) = ?l" using vec_mul [OF v(1) es(4)] l by simp
    moreover have "a3_shim_aligned_free ?m2 (Ptr b 0) = ret ?m3"
      using b(1) bn by (simp add: a3_shim_aligned_free_def c_free_def)
    ultimately have "a3_vec_reserve m env v additional = ret (?m3, ?v)"
      using False c(1) copy v(2) n by (simp add: a3_vec_reserve_def)
    moreover have "vec_view ?m3 ?v xs" using es cs c(2,3) lc bn by (simp add: vec_view_def)
    moreover have "mem_ok ?m3" using m bn by (auto simp: mem_ok_def with_block_def mem_new_block_def)
    moreover have "only_moves m (Ptr b 0) ?m3 (Ptr ?n 0)" using m bn by (simp add: only_moves_def mem_ok_def)
    ultimately show thesis using c(2) by (intro that [of ?m3 ?v]) auto
  qed
qed

section \<open>Operations\<close>

lemma vec_push_ok:
  assumes v: "vec_view m v xs" "v_buf v = Ptr b 0" and m: "mem_ok m" and env: "env_aligned env"
    and fits: "2 * (v_len v + 1) * v_elem_size v < size_mod"
    and e: "mem_load m e (v_elem_size v) = ret x" "ptr_block e \<noteq> Some b"
  shows "\<exists>m' v'. vec_push m env v e = ret (m', v') \<and> vec_view m' v' (xs @ [x]) \<and> mem_ok m' \<and>
    v_elem_size v' = v_elem_size v \<and> v_elem_align v' = v_elem_align v \<and>
    only_moves m (Ptr b 0) m' (v_buf v')"
proof -
  obtain m1 v1 where r: "a3_vec_reserve m env v 1 = ret (m1, v1)" "vec_view m1 v1 xs" "mem_ok m1"
      "v_len v + 1 \<le> v_cap v1" "v_elem_size v1 = v_elem_size v" "v_elem_align v1 = v_elem_align v" "v_len v1 = v_len v"
      "only_moves m (Ptr b 0) m1 (v_buf v1)"
    by (rule vec_reserve_ok [OF v m env fits])
  obtain b1 rest where b1: "v_buf v1 = Ptr b1 0" "blocks m1 b1 = Some (concat xs @ rest)"
      "length (concat xs @ rest) = v_cap v1 * v_elem_size v1"
    using r(2) by (auto simp: vec_view_def)
  have vw: "0 < v_elem_size v" "length xs = v_len v" "\<forall>x \<in> set xs. length x = v_elem_size v"
      "v_cap v1 * v_elem_size v < size_mod" "0 < v_elem_align v1"
    using r(2,5,7) by (simp_all add: vec_view_def)
  obtain c off bs where ec: "e = Ptr c off" "blocks m c = Some bs" "off + v_elem_size v \<le> length bs"
      "x = take (v_elem_size v) (drop off bs)" "length x = v_elem_size v"
    using e(1) by (elim mem_load_retE)
  have c: "c \<noteq> b" using e(2) ec(1) by simp
  have e1: "mem_load m1 e (v_elem_size v) = ret x" "c \<noteq> b1"
    using only_movesD [OF r(8), of c bs] c ec(2) b1(1) ec by (auto simp: mem_load_block)
  let ?l = "length (concat xs)"
  have l: "?l = v_len v * v_elem_size v" using concat_chunks(1) [OF vw(3)] vw(2) by simp
  have "(v_len v + 1) * v_elem_size v \<le> v_cap v1 * v_elem_size v" using r(4) by (rule mult_le_mono1)
  then have room: "?l + v_elem_size v \<le> length (concat xs @ rest)" using b1(3) l r(5) by simp
  let ?m2 = "with_block m1 b1 (concat xs @ x @ drop (length x) rest)"
  have st: "mem_store m1 (Ptr b1 ?l) x = ret ?m2"
    using mem_store_block [of m1 b1 "concat xs @ rest" ?l x] b1(2) room ec(5) by simp
  have "v_len v < v_cap v1" using r(4) by simp
  then have "sz_mul (v_len v) (v_elem_size v) = ?l" "sz_add (v_len v) 1 = v_len v + 1"
    using vec_mul [OF r(2), of "v_len v"] vec_cap_bound [OF r(2)] r(5) l by simp_all
  then have w: "a3_vec_write_ptr m env v = ret (m1, v1\<lparr>v_len := v_len v + 1\<rparr>, Ptr b1 ?l)"
    using r(1,5,7) b1(1) \<open>v_len v < v_cap v1\<close> by (simp add: a3_vec_write_ptr_def a3_vec_index_def)
  have "vec_push m env v e = ret (?m2, v1\<lparr>v_len := v_len v + 1\<rparr>)"
    using e1 st ec(1) r(5) by (simp add: vec_push_def w c_memcpy_def c_memmove_def ranges_overlap_def)
  moreover have "vec_view ?m2 (v1\<lparr>v_len := v_len v + 1\<rparr>) (xs @ [x])"
    using r vw b1 room ec(5) l by (simp add: vec_view_def)
  moreover have "mem_ok ?m2" using r(3) b1(2) by simp
  moreover have "only_moves m1 (v_buf v1) ?m2 (v_buf v1)" using b1(1) by (intro only_moves_same) auto
  then have "only_moves m (Ptr b 0) ?m2 (v_buf v1)" by (rule only_moves_trans [OF r(8)])
  ultimately show ?thesis using r(5,6) by (intro exI [of _ ?m2] exI [of _ "v1\<lparr>v_len := v_len v + 1\<rparr>"]) simp
qed

lemma vec_pop_ok:
  assumes v: "vec_view m v (xs @ [x])"
  shows "vec_pop m (v_elem_size v) (v_elem_align v) v = ret (v\<lparr>v_len := length xs\<rparr>, x)"
    and "vec_view m (v\<lparr>v_len := length xs\<rparr>) xs"
proof -
  have n: "v_len v = Suc (length xs)" "v_len v \<le> v_cap v" "0 < v_elem_size v" "v_cap v * v_elem_size v < size_mod"
    using v by (simp_all add: vec_view_def)
  then have "v_cap v < size_mod" by (auto intro: le_less_trans [rotated])
  then have sub: "sz_sub (v_len v) 1 = length xs" using n by simp
  show "vec_pop m (v_elem_size v) (v_elem_align v) v = ret (v\<lparr>v_len := length xs\<rparr>, x)"
    using vec_load [OF v, of "length xs"] vec_mul [OF v, of "length xs"] n sub v
    by (auto simp: vec_pop_def a3_vec_pop_def a3_vec_index_def vec_view_def)
  show "vec_view m (v\<lparr>v_len := length xs\<rparr>) xs" using v by (auto simp: vec_view_def)
qed

lemma vec_visit_ok:
  assumes v: "vec_view m v xs"
  shows "vec_visit m v i = ret (drop i xs)"
proof (induction "v_len v - i" arbitrary: i)
  case 0
  then show ?case using v by (subst vec_visit.simps) (simp add: vec_view_def)
next
  case (Suc n)
  then have i: "i < v_len v" "vec_visit m v (i + 1) = ret (drop (i + 1) xs)" by auto
  have "v_buf v \<noteq> Null" "length xs = v_len v" using v by (auto simp: vec_view_def)
  then show ?case using i vec_load [OF v i(1)]
    by (subst vec_visit.simps) (simp add: a3_vec_first_def Cons_nth_drop_Suc)
qed

lemma vec_init_ok:
  assumes "mem_ok m" "env_aligned env" "0 < n" "8 * n < size_mod" "2 ^ k dvd n"
  shows "\<exists>m' v. vec_init m env n (2 ^ k) = ret (m', v) \<and> vec_view m' v [] \<and> mem_ok m' \<and>
    v_elem_size v = n \<and> v_cap v = 8 \<and> v_elem_align v = 2 ^ k \<and> v_buf v = Ptr (next_block m) 0 \<and>
    (\<forall>c. c \<noteq> next_block m \<longrightarrow> blocks m' c = blocks m c)"
proof -
  have le: "2 ^ k \<le> n" using assms(3,5) by (simp add: dvd_imp_le)
  then have k: "n + 2 ^ k < size_mod" using assms(4) by linarith
  then have "(2::nat) ^ k < 2 ^ 64" unfolding size_mod_def by linarith
  then have "k < 64" by (rule power_less_imp_less_exp [rotated]) simp
  then have up: "align_up n (2 ^ k) = n" using align_up_multiple [OF k _ assms(5)] by simp
  let ?m = "fst (mem_new_block m (map (fresh_byte m (next_block m)) [0..<8 * n]))"
  let ?v = "\<lparr>v_cap = 8, v_len = 0, v_elem_size = n, v_elem_align = 2 ^ k, v_buf = Ptr (next_block m) 0\<rparr>"
  have "c_malloc m True (8 * n) = (?m, Ptr (next_block m) 0)" by (simp add: c_malloc_def mem_new_block_def)
  then have "vec_init m env n (2 ^ k) = ret (?m, ?v)"
    using assms(2-4) up by (simp add: vec_init_def a3_vec_init_def vec_alloc_def a3_shim_aligned_alloc_def)
  moreover have "vec_view ?m ?v []" using assms(3,4) by (simp add: vec_view_def)
  moreover have "mem_ok ?m" using assms(1) by simp
  moreover have "blocks ?m c = blocks m c" if "c \<noteq> next_block m" for c using that by (simp add: mem_new_block_def)
  ultimately show ?thesis by (intro exI [of _ ?m] exI [of _ ?v]) simp
qed

text \<open>After \<open>a3_vec_destroy\<close> (\<open>A3_VEC_CLEAR\<close>) the capacity is 0 and doubling it gets nowhere.\<close>

lemma vec_double_zero:
  assumes "0 < additional"
  shows "vec_double 0 0 additional = diverge"
proof -
  have "c = 0 \<and> len = 0 \<longrightarrow> a = 0" if "vec_double c len a = Some r" for c len a r
  proof (rule vec_double.raw_induct [of "\<lambda>c len a r. c = 0 \<and> len = 0 \<longrightarrow> a = 0", OF _ that])
    fix loop c len a r
    assume "\<And>c len a r. loop c len a = Some r \<Longrightarrow> c = 0 \<and> len = 0 \<longrightarrow> a = 0"
      and "(if sz_sub c len < a then loop (sz_mul c 2) len a else ret c) = Some r"
    then show "c = 0 \<and> len = 0 \<longrightarrow> a = 0" by (auto split: if_splits)
  qed
  then show ?thesis using assms by (metis not_None_eq not_less0)
qed

end
