(* ===== verification/Vec_Props.thy ===== *)
theory Vec_Props
  imports Vec_Inv
begin

text \<open>
  The properties of the vector.
\<close>

section \<open>An example vector\<close>

text \<open>A memory with one block of four bytes, the value to push, and a vector of two-byte elements.\<close>

definition ex_env :: alloc_env where
  "ex_env = \<lparr>env_aligned = True, env_malloc = True, env_address = \<lambda>b. 0\<rparr>"

definition ex_vmem :: mem where
  "ex_vmem = \<lparr>blocks = [0 \<mapsto> [1, 2, 3, 4], 1 \<mapsto> [5, 6]], next_block = 2, fresh_byte = \<lambda>b i. 0\<rparr>"

definition ex_vec :: a3_vec where
  "ex_vec = \<lparr>v_cap = 2, v_len = 2, v_elem_size = 2, v_elem_align = 1, v_buf = Ptr 0 0\<rparr>"

lemma ex_vmem_ok: "mem_ok ex_vmem"
  by (simp add: mem_ok_def ex_vmem_def)

lemma ex_vec_view: "vec_view ex_vmem ex_vec [[1, 2], [3, 4]]"
  by (simp add: vec_view_def ex_vmem_def ex_vec_def size_mod_def)

section \<open>Properties\<close>

text \<open>C22: pushing the element at \<open>e\<close> puts its bytes at the end of the vector and keeps the other
  elements, whether or not the storage has to be reallocated (from one capacity to twice it), as long as the sizes do not overflow
  and \<open>e\<close> does not point into the vector.\<close>

theorem vec_push_appends:
  assumes "vec_view m v xs" "mem_ok m" "env_aligned env" "2 * (v_len v + 1) * v_elem_size v < size_mod"
    and "mem_load m e (v_elem_size v) = ret x" "ptr_block e \<noteq> ptr_block (v_buf v)"
  shows "\<exists>m' v'. vec_push m env v e = ret (m', v') \<and> vec_view m' v' (xs @ [x])"
proof -
  obtain b where "v_buf v = Ptr b 0" using assms(1) by (auto simp: vec_view_def)
  then show ?thesis using vec_push_ok [OF assms(1) _ assms(2-5)] assms(6) by auto
qed

theorem vec_push_appends_witness:
  "\<exists>m' v'. vec_push ex_vmem ex_env ex_vec (Ptr 1 0) = ret (m', v') \<and> vec_view m' v' [[1, 2], [3, 4], [5, 6]]"
  using vec_push_appends [OF ex_vec_view ex_vmem_ok, of ex_env "Ptr 1 0" "[5, 6]"]
  by (simp add: ex_env_def ex_vec_def ex_vmem_def size_mod_def mem_load_def mem_range_def)

text \<open>Popping returns the last element and leaves the others; looking up an index returns a
  pointer to that element, or \<open>NULL\<close> past the end; iterating visits all of them in order.\<close>

theorem vec_reads_elements:
  assumes "vec_view m v xs"
  shows "vec_for_each m v = ret xs \<and>
    (\<forall>i. if i < length xs then mem_load m (a3_vec_at v i) (v_elem_size v) = ret (xs ! i) else a3_vec_at v i = Null) \<and>
    (xs \<noteq> [] \<longrightarrow> (\<exists>v'. vec_pop m (v_elem_size v) (v_elem_align v) v = ret (v', last xs) \<and> vec_view m v' (butlast xs)))"
proof (intro conjI allI impI)
  have len: "length xs = v_len v" "v_len v \<le> v_cap v" using assms by (simp_all add: vec_view_def)
  show "vec_for_each m v = ret xs" using vec_visit_ok [OF assms, of 0] by (simp add: vec_for_each_def)
  show "if i < length xs then mem_load m (a3_vec_at v i) (v_elem_size v) = ret (xs ! i) else a3_vec_at v i = Null" for i
    using vec_load [OF assms, of i] vec_mul [OF assms, of i] len by (simp add: a3_vec_at_def)
  assume "xs \<noteq> []"
  then have "vec_view m v (butlast xs @ [last xs])" using assms by simp
  then show "\<exists>v'. vec_pop m (v_elem_size v) (v_elem_align v) v = ret (v', last xs) \<and> vec_view m v' (butlast xs)"
    using vec_pop_ok by blast
qed

theorem vec_reads_elements_witness:
  "vec_for_each ex_vmem ex_vec = ret [[1, 2], [3, 4]] \<and> a3_vec_at ex_vec 2 = Null \<and>
   mem_load ex_vmem (a3_vec_at ex_vec 1) 2 = ret [3, 4] \<and>
   (\<exists>v'. vec_pop ex_vmem 2 1 ex_vec = ret (v', [3, 4]) \<and> vec_view ex_vmem v' [[1, 2]])"
proof -
  have f: "v_elem_size ex_vec = 2" "v_elem_align ex_vec = 1" by (simp_all add: ex_vec_def)
  note p = vec_reads_elements [OF ex_vec_view, unfolded f]
  have "mem_load ex_vmem (a3_vec_at ex_vec 1) 2 = ret [3, 4]"
    using spec [OF conjunct1 [OF conjunct2 [OF p]], of 1] by simp
  moreover have "a3_vec_at ex_vec 2 = Null"
    using spec [OF conjunct1 [OF conjunct2 [OF p]], of 2] by simp
  ultimately show ?thesis using p by simp
qed

text \<open>C39: \<open>A3_VEC_CLEAR\<close> is \<open>a3_vec_destroy\<close>: it releases the storage but keeps the pointer to it, and
  sets the capacity to 0. A push after it never returns: the loop that doubles the capacity stays at 0.\<close>

theorem vec_push_after_clear_loops:
  assumes "vec_view m v xs"
  shows "\<exists>m' v'. a3_vec_destroy m v = ret (m', v') \<and> vec_push m' env v' e = diverge"
proof -
  obtain b bs where b: "v_buf v = Ptr b 0" "blocks m b = Some bs" using assms by (auto simp: vec_view_def)
  let ?m = "m\<lparr>blocks := (blocks m)(b := None)\<rparr>" and ?v = "v\<lparr>v_len := 0, v_cap := 0\<rparr>"
  have "a3_vec_destroy m v = ret (?m, ?v)"
    using b by (simp add: a3_vec_destroy_def a3_shim_aligned_free_def c_free_def)
  moreover have "vec_push ?m env ?v e = diverge"
    using vec_double_zero [of 1] b(1) by (simp add: vec_push_def a3_vec_write_ptr_def a3_vec_reserve_def)
  ultimately show ?thesis by blast
qed

theorem vec_push_after_clear_loops_witness:
  "\<exists>m' v'. a3_vec_destroy ex_vmem ex_vec = ret (m', v') \<and> vec_push m' ex_env v' (Ptr 1 0) = diverge"
  by (rule vec_push_after_clear_loops [OF ex_vec_view])

text \<open>\<open>A3_VEC_INIT\<close> for a type of \<open>n\<close> bytes, a multiple of its alignment, makes an empty vector with
  room for eight elements. \<open>A3_VEC_INIT_WITH_CAPACITY\<close> does just the same: it ignores its capacity.\<close>

theorem vec_init_is_empty:
  assumes "mem_ok m" "env_aligned env" "0 < n" "8 * n < size_mod" "2 ^ k dvd n"
  shows "(\<exists>m' v. vec_init m env n (2 ^ k) = ret (m', v) \<and> vec_view m' v [] \<and> v_elem_size v = n \<and> v_cap v = 8) \<and>
    vec_init_with_capacity m env n (2 ^ k) c = vec_init m env n (2 ^ k)"
  using vec_init_ok [OF assms] by (auto simp: vec_init_def vec_init_with_capacity_def)

theorem vec_init_is_empty_witness:
  "\<exists>m' v. vec_init_with_capacity ex_vmem ex_env 6 2 1000 = ret (m', v) \<and> vec_view m' v [] \<and> v_cap v = 8"
  using vec_init_is_empty [OF ex_vmem_ok, of ex_env 6 1 1000] by (auto simp: ex_env_def size_mod_def)

end
