(* ===== verification/Vec_Seq.thy ===== *)
theory Vec_Seq
  imports Vec_Props
begin

text \<open>
  Sequences of operations on a vector, against a list. The values to push are elsewhere in the memory of the client.
\<close>

section \<open>Operations\<close>

datatype vec_op = Push ptr | Pop | At size_t | Walk

datatype vec_result = Pushed | Element "u8 list" | Slot "u8 list option" | Elements "u8 list list"

text \<open>\<open>At i\<close> reads through the pointer \<open>a3_vec_at\<close> returns, if it is not null.\<close>

fun vec_exec :: "alloc_env \<Rightarrow> size_t \<Rightarrow> size_t \<Rightarrow> vec_op \<Rightarrow> mem \<Rightarrow> a3_vec \<Rightarrow> (vec_result \<times> mem \<times> a3_vec) run" where
  "vec_exec env sz al (Push e) m v = bind_run (vec_push m env v e) (\<lambda>(m1, v1). ret (Pushed, m1, v1))"
| "vec_exec env sz al Pop m v = bind_run (vec_pop m sz al v) (\<lambda>(v1, x). ret (Element x, m, v1))"
| "vec_exec env sz al (At i) m v = (let p = a3_vec_at v i in
     if p = Null then ret (Slot None, m, v)
     else bind_run (mem_load m p sz) (\<lambda>x. ret (Slot (Some x), m, v)))"
| "vec_exec env sz al Walk m v = bind_run (vec_for_each m v) (\<lambda>xs. ret (Elements xs, m, v))"

fun vec_exec_all :: "alloc_env \<Rightarrow> size_t \<Rightarrow> size_t \<Rightarrow> vec_op list \<Rightarrow> mem \<Rightarrow> a3_vec \<Rightarrow> (vec_result list \<times> mem \<times> a3_vec) run" where
  "vec_exec_all env sz al [] m v = ret ([], m, v)"
| "vec_exec_all env sz al (x # xs) m v = bind_run (vec_exec env sz al x m v) (\<lambda>(r, m1, v1).
     bind_run (vec_exec_all env sz al xs m1 v1) (\<lambda>(rs, m2, v2). ret (r # rs, m2, v2)))"

text \<open>On a list of elements; popping the empty one fails the assertion of \<open>A3_VEC_POP\<close>.\<close>

fun list_exec :: "(ptr \<Rightarrow> u8 list) \<Rightarrow> vec_op \<Rightarrow> u8 list list \<Rightarrow> (vec_result \<times> u8 list list) run" where
  "list_exec val (Push e) xs = ret (Pushed, xs @ [val e])"
| "list_exec val Pop xs = (if xs = [] then fail Assert_failed else ret (Element (last xs), butlast xs))"
| "list_exec val (At i) xs = ret (Slot (if i < length xs then Some (xs ! i) else None), xs)"
| "list_exec val Walk xs = ret (Elements xs, xs)"

fun list_exec_all :: "(ptr \<Rightarrow> u8 list) \<Rightarrow> vec_op list \<Rightarrow> u8 list list \<Rightarrow> (vec_result list \<times> u8 list list) run" where
  "list_exec_all val [] xs = ret ([], xs)"
| "list_exec_all val (x # ops) xs = bind_run (list_exec val x xs) (\<lambda>(r, ys).
     bind_run (list_exec_all val ops ys) (\<lambda>(rs, zs). ret (r # rs, zs)))"

section \<open>The invariant of a run\<close>

text \<open>After \<open>n\<close> operations: the vector has at most \<open>n\<close> elements, and is all there is besides the memory \<open>m0\<close> of the client.\<close>

definition vec_seq :: "mem \<Rightarrow> size_t \<Rightarrow> size_t \<Rightarrow> nat \<Rightarrow> mem \<Rightarrow> a3_vec \<Rightarrow> u8 list list \<Rightarrow> bool" where
  "vec_seq m0 sz al n m v xs \<longleftrightarrow> vec_view m v xs \<and> mem_ok m \<and> v_elem_size v = sz \<and> v_elem_align v = al \<and> length xs \<le> n \<and>
     holds_only m0 m (v_buf v)"

lemma vec_seqD:
  assumes "vec_seq m0 sz al n m v xs"
  shows "vec_view m v xs" "mem_ok m" "v_elem_size v = sz" "v_elem_align v = al" "v_len v = length xs" "length xs \<le> n"
    "blocks m0 c = Some bs \<Longrightarrow> blocks m c = Some bs" "blocks m0 c = Some bs \<Longrightarrow> ptr_block (v_buf v) \<noteq> Some c"
    "holds_only m0 m (v_buf v)"
  using assms holds_onlyD [of m0 m "v_buf v" c bs] by (auto simp: vec_seq_def vec_view_def)

lemma vec_seq_push:
  assumes s: "vec_seq m0 sz al n m v xs" and env: "env_aligned env" and fits: "2 * (n + 1) * sz < size_mod"
    and e: "mem_load m0 e sz = ret x"
  shows "\<exists>m1 v1. vec_push m env v e = ret (m1, v1) \<and> vec_seq m0 sz al (n + 1) m1 v1 (xs @ [x])"
proof -
  note d = vec_seqD [OF s]
  obtain b where b: "v_buf v = Ptr b 0" using d(1) by (auto simp: vec_view_def)
  obtain c off bs where c: "e = Ptr c off" "blocks m0 c = Some bs" "off + sz \<le> length bs" "x = take sz (drop off bs)"
    using e by (elim mem_load_retE)
  have "mem_load m e (v_elem_size v) = ret x" "ptr_block e \<noteq> Some b"
    using c d(3) d(7) [OF c(2)] d(8) [OF c(2)] b by (auto simp: mem_load_block)
  moreover have "2 * (v_len v + 1) * v_elem_size v \<le> 2 * (n + 1) * sz" using d(3,5,6) by (intro mult_le_mono) simp_all
  then have "2 * (v_len v + 1) * v_elem_size v < size_mod" using fits by (rule le_less_trans)
  ultimately obtain m1 v1 where p: "vec_push m env v e = ret (m1, v1)" "vec_view m1 v1 (xs @ [x])" "mem_ok m1"
    "v_elem_size v1 = v_elem_size v" "v_elem_align v1 = v_elem_align v"
    "only_moves m (Ptr b 0) m1 (v_buf v1)"
    using vec_push_ok [OF d(1) b d(2) env] by blast
  have "holds_only m0 m1 (v_buf v1)" using holds_only_moves [OF _ p(6)] d(9) b by simp
  then show ?thesis using p d(3,4,6) by (intro exI [of _ m1] exI [of _ v1]) (simp add: vec_seq_def)
qed

lemma vec_exec_like:
  assumes s: "vec_seq m0 sz al n m v xs" and env: "env_aligned env" and fits: "2 * (n + 1) * sz < size_mod"
    and e: "\<And>e. x = Push e \<Longrightarrow> mem_load m0 e sz = ret (val e)"
  shows "vec_exec env sz al x m v = fail Assert_failed \<and> list_exec val x xs = fail Assert_failed \<or>
    (\<exists>r ys m1 v1. vec_exec env sz al x m v = ret (r, m1, v1) \<and> list_exec val x xs = ret (r, ys) \<and> vec_seq m0 sz al (n + 1) m1 v1 ys)"
proof -
  note d = vec_seqD [OF s]
  have next_step: "vec_seq m0 sz al (n + 1) m v xs" using s by (simp add: vec_seq_def)
  show ?thesis
  proof (cases x)
    case (Push e)
    then show ?thesis using vec_seq_push [OF s env fits assms(4)] by fastforce
  next
    case Pop
    show ?thesis
    proof (cases "xs = []")
      case True
      then show ?thesis using Pop d(5) by (simp add: vec_pop_def)
    next
      case False
      then have "vec_view m v (butlast xs @ [last xs])" using d(1) by simp
      note p = vec_pop_ok [OF this]
      have "vec_seq m0 sz al (n + 1) m (v\<lparr>v_len := length (butlast xs)\<rparr>) (butlast xs)"
        using s p(2) d(6) by (simp add: vec_seq_def)
      then show ?thesis using Pop False p(1) d(3,4) by simp
    qed
  next
    case (At i)
    have "v_buf v \<noteq> Null" "v_len v \<le> v_cap v" using d(1) by (auto simp: vec_view_def)
    then have "vec_exec env sz al (At i) m v = ret (Slot (if i < length xs then Some (xs ! i) else None), m, v)"
      using vec_load [OF d(1), of i] vec_mul [OF d(1), of i] d(3,5) by (cases "v_buf v") (simp_all add: a3_vec_at_def)
    then show ?thesis using At next_step by simp
  next
    case Walk
    then show ?thesis using next_step vec_visit_ok [OF d(1), of 0] by (simp add: vec_for_each_def)
  qed
qed

lemma vec_exec_all_like:
  assumes "vec_seq m0 sz al n m v xs" and "env_aligned env" and "2 * (n + length ops) * sz < size_mod"
    and "\<forall>e. Push e \<in> set ops \<longrightarrow> mem_load m0 e sz = ret (val e)"
  shows "vec_exec_all env sz al ops m v = fail Assert_failed \<and> list_exec_all val ops xs = fail Assert_failed \<or>
    (\<exists>rs ys m1 v1. vec_exec_all env sz al ops m v = ret (rs, m1, v1) \<and> list_exec_all val ops xs = ret (rs, ys) \<and>
       vec_seq m0 sz al (n + length ops) m1 v1 ys)"
  using assms(1,3,4)
proof (induction ops arbitrary: n m v xs)
  case Nil
  then show ?case by simp
next
  case (Cons x ops)
  have "2 * (n + 1) * sz \<le> 2 * (n + length (x # ops)) * sz" by (intro mult_le_mono) simp_all
  then have "2 * (n + 1) * sz < size_mod" using Cons.prems(2) by (rule le_less_trans)
  from vec_exec_like [OF Cons.prems(1) assms(2) this, of x val] Cons.prems(3)
  consider "vec_exec env sz al x m v = fail Assert_failed" "list_exec val x xs = fail Assert_failed"
    | r ys m1 v1 where "vec_exec env sz al x m v = ret (r, m1, v1)" "list_exec val x xs = ret (r, ys)"
      "vec_seq m0 sz al (n + 1) m1 v1 ys"
    by auto
  then show ?case
  proof cases
    case 2
    have "2 * (n + 1 + length ops) * sz < size_mod" "\<forall>e. Push e \<in> set ops \<longrightarrow> mem_load m0 e sz = ret (val e)"
      using Cons.prems(2,3) by simp_all
    from Cons.IH [OF 2(3) this] show ?thesis
    proof (elim disjE exE conjE)
      fix rs zs m2 v2
      assume "vec_exec_all env sz al ops m1 v1 = ret (rs, m2, v2)" "list_exec_all val ops ys = ret (rs, zs)"
        "vec_seq m0 sz al (n + 1 + length ops) m2 v2 zs"
      then show ?thesis using 2(1,2) by simp
    qed (use 2(1,2) in simp_all)
  qed simp
qed

text \<open>Releasing the vector leaves the memory of the client.\<close>

lemma vec_destroy_restores:
  assumes "vec_seq m0 sz al n m v xs"
  shows "\<exists>m1 v1. a3_vec_destroy m v = ret (m1, v1) \<and> blocks m1 = blocks m0"
proof -
  obtain b bs where "v_buf v = Ptr b 0" "blocks m b = Some bs" using vec_seqD(1) [OF assms] by (auto simp: vec_view_def)
  then show ?thesis using holds_only_free [of m0 m b] vec_seqD(9) [OF assms]
    by (auto simp: a3_vec_destroy_def a3_shim_aligned_free_def)
qed

section \<open>Property\<close>

text \<open>C4: a vector is a list: on a new vector of elements of \<open>sz\<close> bytes every sequence of pushes, pops, look-ups by index and
  iterations returns, through any number of reallocations, what it returns on a list that starts empty, and stops only
  where a pop of an empty list fails its assertion. Nothing leaks: after \<open>a3_vec_destroy\<close> the memory is what it was before the vector was made.\<close>

theorem vec_runs_like_list:
  assumes "mem_ok m0" "env_aligned env" "0 < sz" "8 * sz < size_mod" "2 ^ k dvd sz"
    and "2 * length ops * sz < size_mod" and "\<forall>e. Push e \<in> set ops \<longrightarrow> mem_load m0 e sz = ret (val e)"
  shows "\<exists>m v. vec_init m0 env sz (2 ^ k) = ret (m, v) \<and>
    (vec_exec_all env sz (2 ^ k) ops m v = fail Assert_failed \<and> list_exec_all val ops [] = fail Assert_failed \<or>
     (\<exists>rs ys m1 v1. vec_exec_all env sz (2 ^ k) ops m v = ret (rs, m1, v1) \<and> list_exec_all val ops [] = ret (rs, ys) \<and>
        vec_view m1 v1 ys \<and> (\<exists>m2 v2. a3_vec_destroy m1 v1 = ret (m2, v2) \<and> blocks m2 = blocks m0)))"
proof -
  obtain m v where i: "vec_init m0 env sz (2 ^ k) = ret (m, v)" "vec_view m v []" "mem_ok m" "v_elem_size v = sz"
    "v_elem_align v = 2 ^ k" "v_buf v = Ptr (next_block m0) 0" "\<forall>c. c \<noteq> next_block m0 \<longrightarrow> blocks m c = blocks m0 c"
    using vec_init_ok [OF assms(1-5)] by blast
  then have "vec_seq m0 sz (2 ^ k) 0 m v []" using assms(1) by (auto simp: vec_seq_def holds_only_def mem_ok_def)
  from vec_exec_all_like [OF this assms(2) _ assms(7)] assms(6)
  have "vec_exec_all env sz (2 ^ k) ops m v = fail Assert_failed \<and> list_exec_all val ops [] = fail Assert_failed \<or>
    (\<exists>rs ys m1 v1. vec_exec_all env sz (2 ^ k) ops m v = ret (rs, m1, v1) \<and> list_exec_all val ops [] = ret (rs, ys) \<and>
       vec_seq m0 sz (2 ^ k) (length ops) m1 v1 ys)" by simp
  then show ?thesis
  proof (elim disjE exE conjE)
    fix rs ys m1 v1
    assume "vec_exec_all env sz (2 ^ k) ops m v = ret (rs, m1, v1)" "list_exec_all val ops [] = ret (rs, ys)"
      "vec_seq m0 sz (2 ^ k) (length ops) m1 v1 ys"
    then show ?thesis using i(1) vec_destroy_restores [of m0 sz "2 ^ k" "length ops" m1 v1 ys] vec_seqD(1) by auto
  qed (use i(1) in auto)
qed

definition ex_vec_ops :: "vec_op list" where
  "ex_vec_ops = replicate 9 (Push (Ptr 1 0)) @ [Push (Ptr 0 1), Pop, At 8, At 9]"

definition ex_val :: "ptr \<Rightarrow> u8 list" where
  "ex_val e = (if e = Ptr 1 0 then [5, 6] else [2, 3])"

lemma ex_vec_ops_run: "list_exec_all ex_val ex_vec_ops [] =
  ret (replicate 10 Pushed @ [Element [2, 3], Slot (Some [5, 6]), Slot None], replicate 9 [5, 6])"
  by (simp add: ex_vec_ops_def ex_val_def numeral_eq_Suc)

lemma ex_vec_ops_ok: "\<forall>e. Push e \<in> set ex_vec_ops \<longrightarrow> mem_load ex_vmem e 2 = ret (ex_val e)" "length ex_vec_ops = 13"
  by (auto simp: ex_vec_ops_def ex_val_def ex_vmem_def mem_load_def mem_range_def)

theorem vec_runs_like_list_witness:
  "\<exists>m v m1 v1. vec_init ex_vmem ex_env 2 2 = ret (m, v) \<and> vec_exec_all ex_env 2 2 ex_vec_ops m v =
     ret (replicate 10 Pushed @ [Element [2, 3], Slot (Some [5, 6]), Slot None], m1, v1)"
  using vec_runs_like_list [OF ex_vmem_ok _ _ _ _ _ ex_vec_ops_ok(1), of ex_env 1] unfolding ex_vec_ops_run
  by (auto simp: ex_vec_ops_ok(2) ex_env_def size_mod_def)

end
