(* ===== verification/Pool.thy ===== *)
theory Pool
  imports Vec_Inv
begin

text \<open>
  The pool allocator of \<open>src/pool.c\<close>: blocks of one size, each an object followed by a slot that
  links the free blocks. An address is an offset into \<open>data\<close>; the object of a block is at the start of the
  block, its slot at \<open>SLOT_OFFSET\<close>. The bytes of the objects and the links of the slots are kept
  apart, as the layout keeps them apart in memory (\<open>pool_layout\<close> below).
\<close>

section \<open>Definitions\<close>

text \<open>A callback is the change it makes to the bytes of the object it is given.\<close>

type_synonym pool_callback = "(u8 list \<Rightarrow> u8 list) option"

record a3_pool =
  p_objs :: "size_t \<Rightarrow> u8 list"
  p_next :: "size_t \<Rightarrow> size_t option"
  p_free :: "size_t option"
  p_obj_size :: size_t
  p_cap :: size_t
  p_zero_blocks :: bool
  p_free_cb :: pool_callback

text \<open>\<open>sizeof\<close> and \<open>alignof\<close> of \<open>A3PoolSlot\<close>, one pointer.\<close>

abbreviation slot_size :: size_t where
  "slot_size \<equiv> 8"

definition slot_offset :: "size_t \<Rightarrow> size_t" where
  "slot_offset obj_size = align_up obj_size slot_size"

definition slot_obj :: "a3_pool \<Rightarrow> size_t \<Rightarrow> size_t" where
  "slot_obj p slot = sz_sub slot (slot_offset (p_obj_size p))"

definition obj_slot :: "a3_pool \<Rightarrow> size_t \<Rightarrow> size_t" where
  "obj_slot p obj = sz_add obj (slot_offset (p_obj_size p))"

definition slot_get_next :: "a3_pool \<Rightarrow> size_t \<Rightarrow> size_t option run" where
  "slot_get_next p slot = require (slot + slot_size \<le> p_cap p) Out_of_bounds (ret (p_next p slot))"

definition slot_set_next :: "a3_pool \<Rightarrow> size_t \<Rightarrow> size_t option \<Rightarrow> a3_pool run" where
  "slot_set_next p slot n = require (slot + slot_size \<le> p_cap p) Out_of_bounds
     (ret (p\<lparr>p_next := (p_next p)(slot := n)\<rparr>))"

definition pool_call :: "pool_callback \<Rightarrow> size_t \<Rightarrow> a3_pool \<Rightarrow> a3_pool" where
  "pool_call cb obj p = (case cb of None \<Rightarrow> p
     | Some f \<Rightarrow> p\<lparr>p_objs := (p_objs p)(obj := f (p_objs p obj))\<rparr>)"

text \<open>One round of the loop of \<open>a3_pool_new\<close>.\<close>

definition pool_link_step :: "size_t \<Rightarrow> pool_callback \<Rightarrow> nat \<Rightarrow> a3_pool \<Rightarrow> a3_pool run" where
  "pool_link_step block_size init_cb i p =
     (let slot = sz_add (sz_mul block_size i) (slot_offset (p_obj_size p)) in
      bind_run (slot_set_next p slot (Some (sz_add (sz_mul (i + 1) block_size) (slot_offset (p_obj_size p))))) (\<lambda>p1.
        ret (pool_call init_cb (slot_obj p1 slot) p1)))"

definition pool_block_size :: "size_t \<Rightarrow> size_t \<Rightarrow> size_t" where
  "pool_block_size obj_size align = align_up (sz_add (slot_offset obj_size) slot_size) align"

definition a3_pool_new :: "bool \<Rightarrow> bool \<Rightarrow> size_t \<Rightarrow> size_t \<Rightarrow> size_t \<Rightarrow> bool \<Rightarrow> pool_callback \<Rightarrow> pool_callback \<Rightarrow>
    a3_pool run" where
  "a3_pool_new ok_pool ok_data obj_size n align zero_blocks init_cb free_cb =
     (let block_size = pool_block_size obj_size align; c = sz_mul n block_size in
      require ok_pool Panicked (assert_c (0 < c) (assert_c (0 < align) (require ok_data Panicked
        (for_run [0..<sz_sub n 1] (pool_link_step block_size init_cb)
          \<lparr>p_objs = \<lambda>a. replicate obj_size 0, p_next = \<lambda>s. None, p_free = Some (slot_offset obj_size),
           p_obj_size = obj_size, p_cap = c, p_zero_blocks = zero_blocks, p_free_cb = free_cb\<rparr>)))))"

definition a3_pool_alloc_block :: "a3_pool \<Rightarrow> (size_t option \<times> a3_pool) run" where
  "a3_pool_alloc_block p = (case p_free p of
       None \<Rightarrow> ret (None, p)
     | Some slot \<Rightarrow> bind_run (slot_get_next p slot) (\<lambda>n.
         bind_run (slot_set_next (p\<lparr>p_free := n\<rparr>) slot None) (\<lambda>p2. ret (Some (slot_obj p2 slot), p2))))"

definition a3_pool_free_block :: "a3_pool \<Rightarrow> size_t option \<Rightarrow> a3_pool run" where
  "a3_pool_free_block p block = (case block of None \<Rightarrow> fail Assert_failed
     | Some obj \<Rightarrow>
         (let p1 = (if p_zero_blocks p then p\<lparr>p_objs := (p_objs p)(obj := replicate (p_obj_size p) 0)\<rparr> else p);
              slot = obj_slot p1 obj in
          require (obj + p_obj_size p \<le> p_cap p) Out_of_bounds
            (bind_run (slot_set_next p1 slot (p_free p1)) (\<lambda>p2. ret (p2\<lparr>p_free := Some slot\<rparr>)))))"

text \<open>\<open>a3_pool_free\<close>: the objects \<open>free_cb\<close> is called on, in order, before the memory is released.\<close>

partial_function (option) pool_walk :: "a3_pool \<Rightarrow> size_t option \<Rightarrow> size_t list run" where
  "pool_walk p current = (case current of None \<Rightarrow> ret []
     | Some slot \<Rightarrow> bind_run (slot_get_next p slot) (\<lambda>n.
         bind_run (pool_walk p n) (\<lambda>os. ret (slot_obj p slot # os))))"

definition a3_pool_free :: "a3_pool \<Rightarrow> size_t list run" where
  "a3_pool_free p = (if p_free_cb p = None then ret [] else pool_walk p (p_free p))"

section \<open>Layout\<close>

text \<open>Block \<open>i\<close> has its object at \<open>i * bs\<close> and its slot at \<open>i * bs + slot_offset\<close>.\<close>

definition slot_at :: "a3_pool \<Rightarrow> size_t \<Rightarrow> nat \<Rightarrow> size_t" where
  "slot_at p bs i = i * bs + slot_offset (p_obj_size p)"

definition pool_shape :: "size_t \<Rightarrow> nat \<Rightarrow> a3_pool \<Rightarrow> bool" where
  "pool_shape bs n p \<longleftrightarrow> p_cap p = n * bs \<and> n * bs < size_mod \<and>
     p_obj_size p \<le> slot_offset (p_obj_size p) \<and> slot_offset (p_obj_size p) + slot_size \<le> bs"

text \<open>The blocks in the list of free ones from \<open>current\<close> on.\<close>

fun pool_chain :: "size_t \<Rightarrow> a3_pool \<Rightarrow> nat list \<Rightarrow> size_t option \<Rightarrow> bool" where
  "pool_chain bs p [] current \<longleftrightarrow> current = None"
| "pool_chain bs p (i # is) current \<longleftrightarrow> current = Some (slot_at p bs i) \<and> pool_chain bs p is (p_next p (slot_at p bs i))"

definition pool_view :: "size_t \<Rightarrow> nat \<Rightarrow> a3_pool \<Rightarrow> nat list \<Rightarrow> bool" where
  "pool_view bs n p is \<longleftrightarrow> pool_shape bs n p \<and> distinct is \<and> set is \<subseteq> {..<n} \<and> pool_chain bs p is (p_free p)"

section \<open>Lemmas\<close>

lemma pool_chain_cong:
  "(\<And>i. i \<in> set is \<Longrightarrow> p_next p' (slot_at p bs i) = p_next p (slot_at p bs i)) \<Longrightarrow> p_obj_size p' = p_obj_size p \<Longrightarrow>
   pool_chain bs p' is c = pool_chain bs p is c"
  by (induction "is" arbitrary: c) (auto simp: slot_at_def)

text \<open>Two blocks do not overlap, and in a block the slot does not overlap the object.\<close>

lemma pool_layout:
  assumes "pool_shape bs n p" "i < j"
  shows "i * bs + p_obj_size p \<le> slot_at p bs i" "slot_at p bs i + slot_size \<le> j * bs"
proof -
  have "(i + 1) * bs \<le> j * bs" using assms(2) by (intro mult_le_mono1) simp
  then show "slot_at p bs i + slot_size \<le> j * bs" "i * bs + p_obj_size p \<le> slot_at p bs i"
    using assms(1) by (auto simp: pool_shape_def slot_at_def)
qed

lemma pool_slot_inj: "pool_shape bs n p \<Longrightarrow> slot_at p bs i = slot_at p bs j \<longleftrightarrow> i = j"
  by (auto simp: pool_shape_def slot_at_def)

lemma pool_slot_bounds:
  assumes "pool_shape bs n p" "i < n"
  shows "slot_at p bs i + slot_size \<le> p_cap p" "slot_obj p (slot_at p bs i) = i * bs"
    "obj_slot p (i * bs) = slot_at p bs i" "i * bs + p_obj_size p \<le> p_cap p"
proof -
  show 1: "slot_at p bs i + slot_size \<le> p_cap p" using pool_layout(2) [OF assms] assms(1) by (simp add: pool_shape_def)
  then have "slot_at p bs i < size_mod" using assms(1) by (simp add: pool_shape_def)
  then show "slot_obj p (slot_at p bs i) = i * bs" "obj_slot p (i * bs) = slot_at p bs i"
    by (simp_all add: slot_obj_def obj_slot_def slot_at_def)
  show "i * bs + p_obj_size p \<le> p_cap p" using 1 pool_layout(1) [OF assms] by simp
qed

lemma pool_alloc_ok:
  assumes "pool_view bs n p (i # is)"
  shows "\<exists>p'. a3_pool_alloc_block p = ret (Some (i * bs), p') \<and> pool_view bs n p' is \<and> p_objs p' = p_objs p"
proof -
  have p: "pool_shape bs n p" "i < n" "i \<notin> set is" "distinct is" "set is \<subseteq> {..<n}"
      "p_free p = Some (slot_at p bs i)" "pool_chain bs p is (p_next p (slot_at p bs i))"
    using assms by (auto simp: pool_view_def)
  let ?p = "p\<lparr>p_free := p_next p (slot_at p bs i), p_next := (p_next p)(slot_at p bs i := None)\<rparr>"
  have "a3_pool_alloc_block p = ret (Some (i * bs), ?p)"
    using pool_slot_bounds [OF p(1,2)] p(6)
    by (simp add: a3_pool_alloc_block_def slot_get_next_def slot_set_next_def slot_obj_def)
  moreover have "pool_chain bs ?p is (p_next p (slot_at p bs i))"
    by (subst pool_chain_cong [of "is" ?p p bs]) (use p(3,7) pool_slot_inj [OF p(1)] in auto)
  ultimately show ?thesis using p by (auto simp: pool_view_def pool_shape_def)
qed

lemma pool_free_block_ok:
  assumes "pool_view bs n p is" "i < n" "i \<notin> set is"
  shows "\<exists>p'. a3_pool_free_block p (Some (i * bs)) = ret p' \<and> pool_view bs n p' (i # is) \<and>
    p_objs p' = (if p_zero_blocks p then (p_objs p)(i * bs := replicate (p_obj_size p) 0) else p_objs p)"
proof -
  have p: "pool_shape bs n p" "pool_chain bs p is (p_free p)" "distinct is" "set is \<subseteq> {..<n}"
    using assms by (auto simp: pool_view_def)
  let ?p1 = "if p_zero_blocks p then p\<lparr>p_objs := (p_objs p)(i * bs := replicate (p_obj_size p) 0)\<rparr> else p"
  let ?p = "?p1\<lparr>p_next := (p_next p)(slot_at p bs i := p_free p), p_free := Some (slot_at p bs i)\<rparr>"
  have "a3_pool_free_block p (Some (i * bs)) = ret ?p"
    using pool_slot_bounds [OF p(1) assms(2)]
    by (simp add: a3_pool_free_block_def slot_set_next_def obj_slot_def Let_def)
  moreover have "pool_chain bs ?p is (p_free p)"
    by (subst pool_chain_cong [of "is" ?p p bs]) (use p(2) assms(3) pool_slot_inj [OF p(1)] in auto)
  moreover have "slot_at ?p bs i = slot_at p bs i" by (simp add: slot_at_def)
  ultimately show ?thesis using p assms(2,3) by (intro exI [of _ ?p]) (auto simp: pool_view_def pool_shape_def)
qed

lemma pool_walk_ok:
  assumes "pool_shape bs n p"
  shows "set is \<subseteq> {..<n} \<Longrightarrow> pool_chain bs p is c \<Longrightarrow> pool_walk p c = ret (map (\<lambda>i. i * bs) is)"
proof (induction "is" arbitrary: c)
  case Nil
  then show ?case by (subst pool_walk.simps) simp
next
  case (Cons i "is")
  then show ?case using pool_slot_bounds [OF assms, of i]
    by (subst pool_walk.simps) (simp add: slot_get_next_def)
qed

section \<open>Making a pool\<close>

lemma align_up_bounds:
  assumes "v + 2 ^ k < size_mod" "k < 64"
  shows "v \<le> align_up v (2 ^ k)" "align_up v (2 ^ k) < v + 2 ^ k" "2 ^ k dvd align_up v (2 ^ k)"
proof -
  define a :: nat where "a = 2 ^ k"
  have a: "0 < a" by (simp add: a_def)
  have u: "align_up v a = (v + a - 1) div a * a" using align_up_power [OF assms] by (simp add: a_def)
  have "(v + a - 1) div a * a + (v + a - 1) mod a = v + a - 1" "(v + a - 1) mod a < a" using a by simp_all
  then have "v \<le> align_up v a" "align_up v a < v + a" using a u by linarith+
  then show "v \<le> align_up v (2 ^ k)" "align_up v (2 ^ k) < v + 2 ^ k" by (simp_all add: a_def)
  show "2 ^ k dvd align_up v (2 ^ k)" using u by (simp add: a_def)
qed

lemma pool_block_size_bounds:
  assumes "obj_size + 16 + 2 ^ k < size_mod" "k < 64"
  shows "obj_size \<le> slot_offset obj_size" "slot_offset obj_size + slot_size \<le> pool_block_size obj_size (2 ^ k)"
proof -
  have "obj_size + 2 ^ 3 < size_mod" using assms(1) by simp
  then have s: "obj_size \<le> align_up obj_size (2 ^ 3)" "align_up obj_size (2 ^ 3) < obj_size + 2 ^ 3"
    by (rule align_up_bounds; simp)+
  then show "obj_size \<le> slot_offset obj_size" by (simp add: slot_offset_def)
  have "slot_offset obj_size + slot_size + 2 ^ k < size_mod" using s assms(1) by (simp add: slot_offset_def)
  then show "slot_offset obj_size + slot_size \<le> pool_block_size obj_size (2 ^ k)"
    using align_up_bounds(1) [of "slot_offset obj_size + slot_size" k] assms(2) by (simp add: pool_block_size_def)
qed

definition callback_bytes :: "pool_callback \<Rightarrow> u8 list \<Rightarrow> u8 list" where
  "callback_bytes cb x = (case cb of None \<Rightarrow> x | Some f \<Rightarrow> f x)"

lemma pool_call_eq: "pool_call cb i p = p\<lparr>p_objs := (p_objs p)(i := callback_bytes cb (p_objs p i))\<rparr>"
  by (simp add: pool_call_def callback_bytes_def split: option.split)

text \<open>After \<open>i\<close> rounds of the loop.\<close>

definition pool_linked :: "size_t \<Rightarrow> nat \<Rightarrow> pool_callback \<Rightarrow> a3_pool \<Rightarrow> nat \<Rightarrow> a3_pool \<Rightarrow> bool" where
  "pool_linked bs n cb p0 i p \<longleftrightarrow> (\<exists>objs nexts. p = p0\<lparr>p_objs := objs, p_next := nexts\<rparr> \<and>
     (\<forall>j < n. objs (j * bs) = (if j < i then callback_bytes cb else (\<lambda>x. x)) (replicate (p_obj_size p0) 0)) \<and>
     (\<forall>j < n. nexts (slot_at p0 bs j) = (if j < i then Some (slot_at p0 bs (j + 1)) else None)))"

lemma pool_link_step_ok:
  assumes "pool_shape bs n p0" "i + 1 < n" "pool_linked bs n cb p0 i p"
  shows "\<exists>p'. pool_link_step bs cb i p = ret p' \<and> pool_linked bs n cb p0 (Suc i) p'"
proof -
  obtain objs nexts where p: "p = p0\<lparr>p_objs := objs, p_next := nexts\<rparr>"
    and objs: "\<forall>j < n. objs (j * bs) = (if j < i then callback_bytes cb else (\<lambda>x. x)) (replicate (p_obj_size p0) 0)"
    and nexts: "\<forall>j < n. nexts (slot_at p0 bs j) = (if j < i then Some (slot_at p0 bs (j + 1)) else None)"
    using assms(3) by (auto simp: pool_linked_def)
  have b: "slot_at p0 bs i + slot_size \<le> p_cap p0" "slot_at p0 bs (i + 1) + slot_size \<le> p_cap p0"
      "slot_obj p0 (slot_at p0 bs i) = i * bs" "p_cap p0 < size_mod"
    using pool_slot_bounds [OF assms(1)] assms(1,2) by (simp_all add: pool_shape_def)
  then have "slot_at p0 bs i < size_mod" "slot_at p0 bs (i + 1) < size_mod" by linarith+
  then have s: "sz_add (sz_mul bs i) (slot_offset (p_obj_size p0)) = slot_at p0 bs i"
      "sz_add (sz_mul (i + 1) bs) (slot_offset (p_obj_size p0)) = slot_at p0 bs (i + 1)"
    by (simp_all add: slot_at_def mult.commute)
  let ?objs = "objs(i * bs := callback_bytes cb (objs (i * bs)))"
  let ?nexts = "nexts(slot_at p0 bs i := Some (slot_at p0 bs (i + 1)))"
  let ?p = "p0\<lparr>p_objs := ?objs, p_next := ?nexts\<rparr>"
  have "pool_link_step bs cb i p = ret ?p"
    using b s by (simp add: pool_link_step_def slot_set_next_def pool_call_eq p slot_obj_def)
  moreover have "0 < bs" using assms(1) by (auto simp: pool_shape_def)
  then have "pool_linked bs n cb p0 (Suc i) ?p"
    using objs nexts assms(2) pool_slot_inj [OF assms(1)] unfolding pool_linked_def
    by (intro exI [of _ ?objs] exI [of _ ?nexts]) (auto simp: less_Suc_eq)
  ultimately show ?thesis by blast
qed

lemma pool_linked_chain:
  assumes "pool_linked bs n cb p0 (n - 1) p" "i < n"
  shows "pool_chain bs p [i..<n] (Some (slot_at p bs i))"
  using assms(2)
proof (induction "n - i" arbitrary: i)
  case (Suc d)
  have s: "slot_at p bs j = slot_at p0 bs j" for j using assms(1) by (auto simp: pool_linked_def slot_at_def)
  have nx: "p_next p (slot_at p bs i) = (if i < n - 1 then Some (slot_at p bs (i + 1)) else None)"
    using assms(1) Suc.prems unfolding s by (auto simp: pool_linked_def)
  show ?case
  proof (cases "i < n - 1")
    case True
    then have "pool_chain bs p [i + 1..<n] (Some (slot_at p bs (i + 1)))" using Suc by simp
    then show ?thesis using Suc.prems nx True by (simp add: upt_conv_Cons)
  next
    case False
    then have "n = Suc i" using Suc.prems by simp
    then show ?thesis using nx by simp
  qed
qed simp

end
