(* ===== verification/Pool_Props.thy ===== *)
theory Pool_Props
  imports Pool
begin

text \<open>
  The properties of the pool allocator. \<open>pool_view bs n p is\<close> says that \<open>p\<close> has \<open>n\<close> blocks of \<open>bs\<close> bytes,
  of which those in the list \<open>is\<close> are free, in the order in which they will be given out.
\<close>

section \<open>An example pool\<close>

text \<open>Three blocks of 16 bytes; block 1 is in use.\<close>

definition ex_pool :: a3_pool where
  "ex_pool = \<lparr>p_objs = \<lambda>a. [7, 7, 7, 7], p_next = [40 \<mapsto> 8], p_free = Some 40, p_obj_size = 4,
     p_cap = 48, p_zero_blocks = True, p_free_cb = Some (\<lambda>x. x)\<rparr>"

lemma ex_slot_offset: "slot_offset 4 = 8"
  using align_up_power [of 4 3] by (simp add: slot_offset_def size_mod_def)

lemma ex_block_size: "pool_block_size 4 (2 ^ 3) = 16"
proof -
  have "align_up 16 (2 ^ 3) = 16" by (rule align_up_multiple) (simp_all add: size_mod_def)
  then show ?thesis by (simp add: pool_block_size_def ex_slot_offset size_mod_def)
qed

lemma ex_pool_view: "pool_view 16 3 ex_pool [2, 0]"
  by (simp add: pool_view_def pool_shape_def slot_at_def ex_pool_def ex_slot_offset size_mod_def)

section \<open>A new pool\<close>

lemma pool_new_ok:
  assumes "1 \<le> n" "k < 64" "obj_size + 16 + 2 ^ k < size_mod" "n * pool_block_size obj_size (2 ^ k) < size_mod"
  shows "\<exists>p. a3_pool_new True True obj_size n (2 ^ k) zero init_cb free_cb = ret p \<and>
    pool_view (pool_block_size obj_size (2 ^ k)) n p [0..<n] \<and>
    (\<forall>i < n. p_objs p (i * pool_block_size obj_size (2 ^ k)) =
      (if i < n - 1 then callback_bytes init_cb (replicate obj_size 0) else replicate obj_size 0)) \<and>
    p_obj_size p = obj_size \<and> p_zero_blocks p = zero \<and> p_free_cb p = free_cb"
proof -
  define bs where "bs = pool_block_size obj_size (2 ^ k)"
  let ?p0 = "\<lparr>p_objs = \<lambda>a. replicate obj_size 0, p_next = \<lambda>s. None, p_free = Some (slot_offset obj_size),
    p_obj_size = obj_size, p_cap = n * bs, p_zero_blocks = zero, p_free_cb = free_cb\<rparr>"
  have b: "obj_size \<le> slot_offset obj_size" "slot_offset obj_size + slot_size \<le> bs" "n * bs < size_mod"
    using pool_block_size_bounds [OF assms(3,2)] assms(4) by (simp_all add: bs_def)
  have "n * 1 \<le> n * bs" using b(2) by (intro mult_le_mono2) simp
  then have "n < size_mod" using b(3) by linarith
  then have n: "sz_mul n bs = n * bs" "sz_sub n 1 = n - 1" "0 < n * bs" using b(2,3) assms(1) by simp_all
  have sh: "pool_shape bs n ?p0" using b by (simp add: pool_shape_def)
  have "\<exists>p. for_run [0..<n - 1] (pool_link_step bs init_cb) ?p0 = ret p \<and> pool_linked bs n init_cb ?p0 (n - 1) p"
  proof (rule for_run_upt_rule [where P = "pool_linked bs n init_cb ?p0"])
    show "pool_linked bs n init_cb ?p0 0 ?p0" by (auto simp: pool_linked_def)
  qed (use pool_link_step_ok [OF sh] in auto)
  then obtain p where p: "for_run [0..<n - 1] (pool_link_step bs init_cb) ?p0 = ret p" "pool_linked bs n init_cb ?p0 (n - 1) p"
    by blast
  have "a3_pool_new True True obj_size n (2 ^ k) zero init_cb free_cb = ret p"
    using p(1) n by (simp add: a3_pool_new_def bs_def [symmetric])
  moreover have "p_free p = Some (slot_at p bs 0)" "pool_shape bs n p"
    using p(2) sh by (auto simp: pool_linked_def slot_at_def pool_shape_def)
  then have "pool_view bs n p [0..<n]" using pool_linked_chain [OF p(2), of 0] assms(1) by (auto simp: pool_view_def)
  moreover have "\<forall>i < n. p_objs p (i * bs) =
      (if i < n - 1 then callback_bytes init_cb (replicate obj_size 0) else replicate obj_size 0)"
    using p(2) by (auto simp: pool_linked_def)
  moreover have "p_obj_size p = obj_size" "p_zero_blocks p = zero" "p_free_cb p = free_cb" using p(2) by (auto simp: pool_linked_def)
  ultimately show ?thesis by (auto simp: bs_def)
qed

section \<open>Properties\<close>

text \<open>Allocation returns a block that is not in use, at a multiple of the block size within the pool, or \<open>NULL\<close> exactly when
  no block is free; giving back a block that is in use makes it the next to be allocated, cleared if the pool was
  made so. No other object changes.\<close>

theorem pool_alloc_and_free:
  assumes "pool_view bs n p is"
  shows "(case is of
      [] \<Rightarrow> a3_pool_alloc_block p = ret (None, p)
    | i # js \<Rightarrow> i < n \<and> (\<exists>p'. a3_pool_alloc_block p = ret (Some (i * bs), p') \<and> pool_view bs n p' js \<and> p_objs p' = p_objs p)) \<and>
    (\<forall>i < n. i \<notin> set is \<longrightarrow> (\<exists>p'. a3_pool_free_block p (Some (i * bs)) = ret p' \<and> pool_view bs n p' (i # is) \<and>
      p_objs p' = (if p_zero_blocks p then (p_objs p)(i * bs := replicate (p_obj_size p) 0) else p_objs p)))"
proof (intro conjI allI impI)
  show "case is of
      [] \<Rightarrow> a3_pool_alloc_block p = ret (None, p)
    | i # js \<Rightarrow> i < n \<and> (\<exists>p'. a3_pool_alloc_block p = ret (Some (i * bs), p') \<and> pool_view bs n p' js \<and> p_objs p' = p_objs p)"
  proof (cases "is")
    case Nil
    then show ?thesis using assms by (simp add: pool_view_def a3_pool_alloc_block_def)
  next
    case (Cons i js)
    then have "pool_view bs n p (i # js)" using assms by simp
    moreover from this have "i < n" by (simp add: pool_view_def)
    ultimately show ?thesis using pool_alloc_ok [of bs n p i js] Cons by simp
  qed
qed (rule pool_free_block_ok [OF assms])

theorem pool_alloc_and_free_witness:
  "(\<exists>p'. a3_pool_alloc_block ex_pool = ret (Some 32, p') \<and> pool_view 16 3 p' [0]) \<and>
   (\<exists>p'. a3_pool_free_block ex_pool (Some 16) = ret p' \<and> pool_view 16 3 p' [1, 2, 0] \<and> p_objs p' 16 = [0, 0, 0, 0])"
proof -
  note p = pool_alloc_and_free [OF ex_pool_view]
  obtain p' where "a3_pool_alloc_block ex_pool = ret (Some 32, p')" "pool_view 16 3 p' [0]"
    using conjunct1 [OF p] by auto
  moreover obtain q where "a3_pool_free_block ex_pool (Some (1 * 16)) = ret q" "pool_view 16 3 q [1, 2, 0]"
      "p_objs q = (p_objs ex_pool)(1 * 16 := replicate 4 0)"
    using spec [OF conjunct2 [OF p], of 1] by (auto simp: ex_pool_def)
  ultimately show ?thesis by (auto simp: numeral_eq_Suc)
qed

text \<open>A new pool has all its blocks free, in order of address, the objects zeroed. \<open>init_cb\<close> is run on
  every object but the last one: the loop that links the blocks stops before it.\<close>

theorem pool_new_links_blocks:
  assumes "1 \<le> n" "k < 64" "obj_size + 16 + 2 ^ k < size_mod" "n * pool_block_size obj_size (2 ^ k) < size_mod"
  shows "\<exists>p. a3_pool_new True True obj_size n (2 ^ k) zero init_cb free_cb = ret p \<and>
    pool_view (pool_block_size obj_size (2 ^ k)) n p [0..<n] \<and>
    (\<forall>i < n. p_objs p (i * pool_block_size obj_size (2 ^ k)) =
      (if i < n - 1 then callback_bytes init_cb (replicate obj_size 0) else replicate obj_size 0))"
  using pool_new_ok [OF assms] by blast

theorem pool_new_links_blocks_witness:
  "\<exists>p bs. a3_pool_new True True 4 2 (2 ^ 3) False (Some (\<lambda>x. [1, 2, 3, 4])) None = ret p \<and>
     p_objs p 0 = [1, 2, 3, 4] \<and> p_objs p bs = [0, 0, 0, 0] \<and> pool_view bs 2 p [0, 1]"
proof -
  obtain p where "a3_pool_new True True 4 2 (2 ^ 3) False (Some (\<lambda>x. [1, 2, 3, 4])) None = ret p"
      "pool_view 16 2 p [0..<2]"
      "\<forall>i < 2. p_objs p (i * 16) = (if i < 2 - 1 then callback_bytes (Some (\<lambda>x. [1, 2, 3, 4])) (replicate 4 0) else replicate 4 0)"
    using pool_new_links_blocks [of 2 3 4 False "Some (\<lambda>x. [1, 2, 3, 4])" None] ex_block_size by (auto simp: size_mod_def)
  moreover from this(3) have "p_objs p 0 = [1, 2, 3, 4]" "p_objs p 16 = [0, 0, 0, 0]"
    by (auto simp: callback_bytes_def numeral_eq_Suc)
  moreover have "[0..<2] = [0, 1]" by (simp add: numeral_2_eq_2)
  ultimately show ?thesis by (intro exI [of _ p] exI [of _ 16]) simp
qed

text \<open>\<open>a3_pool_free\<close> calls \<open>free_cb\<close> on the object of each free block, once, in the order of the free list.\<close>

theorem pool_free_visits_free:
  assumes "pool_view bs n p is" "p_free_cb p \<noteq> None"
  shows "a3_pool_free p = ret (map (\<lambda>i. i * bs) is)"
  using assms pool_walk_ok [of bs n p "is" "p_free p"] by (auto simp: a3_pool_free_def pool_view_def)

theorem pool_free_visits_free_witness: "a3_pool_free ex_pool = ret [32, 0]"
  using pool_free_visits_free [OF ex_pool_view] by (simp add: ex_pool_def)

end
