(* ===== verification/Pool_Mem.thy ===== *)
theory Pool_Mem
  imports Pool_Props
begin

text \<open>
  \<open>src/pool.c\<close> over the byte memory: the objects and the links of the free slots are bytes of one block, and the pool is a block
  of its own. \<open>Pool\<close>, where objects and links are kept apart, is what it implements: every operation here corresponds
  to the one there.
\<close>

section \<open>Pointers as bytes\<close>

text \<open>
  How the platform stores a pointer in eight bytes of memory is a parameter. What the code relies on: a pointer into the block, or
  \<open>NULL\<close>, is read back as it was stored, and zero bytes are \<open>NULL\<close>, as nothing else ends the free list of a new pool.
\<close>

record ptr_codec =
  ptr_bytes :: "ptr \<Rightarrow> u8 list"
  ptr_of :: "u8 list \<Rightarrow> ptr"

definition codec_ok :: "ptr_codec \<Rightarrow> nat \<Rightarrow> size_t \<Rightarrow> bool" where
  "codec_ok pc b c \<longleftrightarrow> ptr_of pc (replicate slot_size 0) = Null \<and> length (ptr_bytes pc Null) = slot_size \<and>
     ptr_of pc (ptr_bytes pc Null) = Null \<and>
     (\<forall>off \<le> c. length (ptr_bytes pc (Ptr b off)) = slot_size \<and> ptr_of pc (ptr_bytes pc (Ptr b off)) = Ptr b off)"

section \<open>The pool\<close>

text \<open>\<open>mp_self\<close> is the pointer to the structure itself, which the client holds.\<close>

record mem_pool =
  mp_self :: ptr
  mp_data :: ptr
  mp_free :: ptr
  mp_obj_size :: size_t
  mp_cap :: size_t
  mp_zero_blocks :: bool
  mp_free_cb :: pool_callback

text \<open>\<open>SLOT_OBJ\<close> and \<open>OBJ_SLOT\<close>; the functions below use \<open>SLOT_OBJ\<close> only on slots that are not \<open>NULL\<close>.\<close>

definition mp_slot_obj :: "mem_pool \<Rightarrow> ptr \<Rightarrow> ptr" where
  "mp_slot_obj p slot = (case slot of Null \<Rightarrow> Null | Ptr b off \<Rightarrow> Ptr b (sz_sub off (slot_offset (mp_obj_size p))))"

definition mp_obj_slot :: "mem_pool \<Rightarrow> ptr \<Rightarrow> ptr" where
  "mp_obj_slot p obj = ptr_plus obj (slot_offset (mp_obj_size p))"

definition mp_get_next :: "ptr_codec \<Rightarrow> mem \<Rightarrow> ptr \<Rightarrow> ptr run" where
  "mp_get_next pc m slot = bind_run (mem_load m slot slot_size) (\<lambda>xs. ret (ptr_of pc xs))"

definition mp_set_next :: "ptr_codec \<Rightarrow> mem \<Rightarrow> ptr \<Rightarrow> ptr \<Rightarrow> mem run" where
  "mp_set_next pc m slot n = mem_store m slot (ptr_bytes pc n)"

text \<open>A callback changes the bytes of the object it gets.\<close>

definition mp_call :: "pool_callback \<Rightarrow> size_t \<Rightarrow> mem \<Rightarrow> ptr \<Rightarrow> mem run" where
  "mp_call cb obj_size m obj = (case cb of None \<Rightarrow> ret m
     | Some f \<Rightarrow> bind_run (mem_load m obj obj_size) (\<lambda>xs. mem_store m obj (f xs)))"

definition mp_link_step :: "ptr_codec \<Rightarrow> mem_pool \<Rightarrow> size_t \<Rightarrow> pool_callback \<Rightarrow> nat \<Rightarrow> mem \<Rightarrow> mem run" where
  "mp_link_step pc p block_size init_cb i m =
     (let slot = ptr_plus (mp_data p) (sz_add (sz_mul block_size i) (slot_offset (mp_obj_size p)));
          next = ptr_plus (mp_data p) (sz_add (sz_mul (i + 1) block_size) (slot_offset (mp_obj_size p))) in
      bind_run (mp_set_next pc m slot next) (\<lambda>m1. mp_call init_cb (mp_obj_size p) m1 (mp_slot_obj p slot)))"

text \<open>\<open>sizeof(A3Pool)\<close> is 48.\<close>

definition mem_pool_new :: "ptr_codec \<Rightarrow> alloc_env \<Rightarrow> mem \<Rightarrow> bool \<Rightarrow> size_t \<Rightarrow> size_t \<Rightarrow> size_t \<Rightarrow> bool \<Rightarrow> pool_callback \<Rightarrow> pool_callback \<Rightarrow>
    (mem \<times> mem_pool) run" where
  "mem_pool_new pc env m ok obj_size n align zero_blocks init_cb free_cb =
     (let block_size = pool_block_size obj_size align; (m1, self) = c_calloc m ok 48; c = sz_mul n block_size in
      require (self \<noteq> Null) Panicked (bind_run (vec_alloc m1 env c align) (\<lambda>(m2, data).
      bind_run (mem_store m2 data (replicate c 0)) (\<lambda>m3.
        let p = \<lparr>mp_self = self, mp_data = data, mp_free = ptr_plus data (slot_offset obj_size), mp_obj_size = obj_size,
              mp_cap = c, mp_zero_blocks = zero_blocks, mp_free_cb = free_cb\<rparr> in
        bind_run (for_run [0..<sz_sub n 1] (mp_link_step pc p block_size init_cb) m3) (\<lambda>m4. ret (m4, p))))))"

definition mem_pool_alloc_block :: "ptr_codec \<Rightarrow> mem \<Rightarrow> mem_pool \<Rightarrow> (ptr \<times> mem \<times> mem_pool) run" where
  "mem_pool_alloc_block pc m p = (if mp_free p = Null then ret (Null, m, p)
     else bind_run (mp_get_next pc m (mp_free p)) (\<lambda>n. bind_run (mp_set_next pc m (mp_free p) Null) (\<lambda>m1.
       ret (mp_slot_obj p (mp_free p), m1, p\<lparr>mp_free := n\<rparr>))))"

definition mem_pool_free_block :: "ptr_codec \<Rightarrow> mem \<Rightarrow> mem_pool \<Rightarrow> ptr \<Rightarrow> (mem \<times> mem_pool) run" where
  "mem_pool_free_block pc m p block = assert_c (block \<noteq> Null)
     (bind_run (if mp_zero_blocks p then mem_store m block (replicate (mp_obj_size p) 0) else ret m) (\<lambda>m1.
      bind_run (mp_set_next pc m1 (mp_obj_slot p block) (mp_free p)) (\<lambda>m2.
        ret (m2, p\<lparr>mp_free := mp_obj_slot p block\<rparr>))))"

text \<open>The loop of \<open>a3_pool_free\<close>, with the objects it calls \<open>free_cb\<close> on; and the whole function.\<close>

partial_function (option) mp_walk :: "ptr_codec \<Rightarrow> mem_pool \<Rightarrow> mem \<Rightarrow> ptr \<Rightarrow> (ptr list \<times> mem) run" where
  "mp_walk pc p m current = (if current = Null then ret ([], m)
     else bind_run (mp_call (mp_free_cb p) (mp_obj_size p) m (mp_slot_obj p current)) (\<lambda>m1.
       bind_run (mp_get_next pc m1 current) (\<lambda>n.
       bind_run (mp_walk pc p m1 n) (\<lambda>(objs, m2). ret (mp_slot_obj p current # objs, m2)))))"

definition mem_pool_free :: "ptr_codec \<Rightarrow> mem \<Rightarrow> mem_pool \<Rightarrow> (ptr list \<times> mem) run" where
  "mem_pool_free pc m p =
     bind_run (if mp_free_cb p = None then ret ([], m) else mp_walk pc p m (mp_free p)) (\<lambda>(objs, m1).
     bind_run (a3_shim_aligned_free m1 (mp_data p)) (\<lambda>m2. bind_run (c_free m2 (mp_self p)) (\<lambda>m3. ret (objs, m3))))"

section \<open>The pool it implements\<close>

definition in_block :: "nat \<Rightarrow> size_t option \<Rightarrow> ptr" where
  "in_block b x = (case x of None \<Rightarrow> Null | Some a \<Rightarrow> Ptr b a)"

text \<open>The bytes from \<open>off\<close> on.\<close>

abbreviation part :: "u8 list \<Rightarrow> nat \<Rightarrow> nat \<Rightarrow> u8 list" where
  "part B off k \<equiv> take k (drop off B)"

definition same_fields :: "nat \<Rightarrow> mem_pool \<Rightarrow> a3_pool \<Rightarrow> bool" where
  "same_fields b q p \<longleftrightarrow> mp_data q = Ptr b 0 \<and> mp_free q = in_block b (p_free p) \<and> mp_obj_size q = p_obj_size p \<and>
     mp_cap q = p_cap p \<and> mp_zero_blocks q = p_zero_blocks p \<and> mp_free_cb q = p_free_cb p"

text \<open>The bytes \<open>B\<close> hold the objects and the links of the \<open>n\<close> blocks.\<close>

definition bytes_hold :: "ptr_codec \<Rightarrow> nat \<Rightarrow> size_t \<Rightarrow> nat \<Rightarrow> u8 list \<Rightarrow> a3_pool \<Rightarrow> bool" where
  "bytes_hold pc b bs n B p \<longleftrightarrow> length B = n * bs \<and>
     (\<forall>i < n. part B (i * bs) (p_obj_size p) = p_objs p (i * bs) \<and>
        ptr_of pc (part B (slot_at p bs i) slot_size) = in_block b (p_next p (slot_at p bs i)))"

definition pool_rep :: "ptr_codec \<Rightarrow> nat \<Rightarrow> size_t \<Rightarrow> nat \<Rightarrow> mem \<Rightarrow> mem_pool \<Rightarrow> a3_pool \<Rightarrow> bool" where
  "pool_rep pc b bs n m q p \<longleftrightarrow> same_fields b q p \<and> (\<exists>B. blocks m b = Some B \<and> bytes_hold pc b bs n B p)"

section \<open>Writing a range of bytes\<close>

definition patch :: "u8 list \<Rightarrow> nat \<Rightarrow> u8 list \<Rightarrow> u8 list" where
  "patch B off xs = take off B @ xs @ drop (off + length xs) B"

lemma mem_store_patch: "blocks m b = Some B \<Longrightarrow> off + length xs \<le> length B \<Longrightarrow> mem_store m (Ptr b off) xs = ret (with_block m b (patch B off xs))"
  by (simp add: mem_store_block patch_def)

lemma length_patch: "off + length xs \<le> length B \<Longrightarrow> length (patch B off xs) = length B"
  by (simp add: patch_def)

lemma part_patch_same: "off + length xs \<le> length B \<Longrightarrow> k = length xs \<Longrightarrow> part (patch B off xs) off k = xs"
  by (simp add: patch_def)

lemma part_patch_other:
  assumes "off + length xs \<le> length B" "off' + k \<le> off \<or> off + length xs \<le> off'"
  shows "part (patch B off xs) off' k = part B off' k"
  using assms(2)
proof
  assume "off' + k \<le> off"
  then show ?thesis using assms(1) by (simp add: take_drop patch_def)
next
  assume "off + length xs \<le> off'"
  then obtain d where "off' = off + length xs + d" by (metis le_Suc_ex)
  then show ?thesis using assms(1) by (simp add: add.commute add.left_commute patch_def)
qed

text \<open>The objects and the slots of a pool are apart.\<close>

lemma pool_apart:
  assumes "pool_shape bs n p" "i \<noteq> j"
  shows "i * bs + p_obj_size p \<le> j * bs \<or> j * bs + p_obj_size p \<le> i * bs"
    "slot_at p bs i + slot_size \<le> slot_at p bs j \<or> slot_at p bs j + slot_size \<le> slot_at p bs i"
    "slot_at p bs i + slot_size \<le> j * bs \<or> j * bs + p_obj_size p \<le> slot_at p bs i"
proof -
  have o: "p_obj_size p \<le> slot_offset (p_obj_size p)" "k * bs \<le> slot_at p bs k" for k
    using assms(1) by (simp_all add: pool_shape_def slot_at_def)
  consider "i < j" | "j < i" using assms(2) by linarith
  then have "i * bs + p_obj_size p \<le> slot_at p bs i \<and> slot_at p bs i + slot_size \<le> j * bs \<or>
      j * bs + p_obj_size p \<le> slot_at p bs j \<and> slot_at p bs j + slot_size \<le> i * bs"
    using pool_layout [OF assms(1)] by metis
  then show "i * bs + p_obj_size p \<le> j * bs \<or> j * bs + p_obj_size p \<le> i * bs"
    "slot_at p bs i + slot_size \<le> slot_at p bs j \<or> slot_at p bs j + slot_size \<le> slot_at p bs i"
    "slot_at p bs i + slot_size \<le> j * bs \<or> j * bs + p_obj_size p \<le> slot_at p bs i"
    using o(2) [of i] o(2) [of j] by linarith+
qed

lemma pool_within:
  assumes "pool_shape bs n p" "i < n" "length B = n * bs"
  shows "i * bs + p_obj_size p \<le> slot_at p bs i" "slot_at p bs i + slot_size \<le> length B" "slot_at p bs i \<le> p_cap p" "i * bs \<le> p_cap p"
    "i * bs + p_obj_size p \<le> length B"
  using pool_layout [OF assms(1,2)] assms by (auto simp: pool_shape_def)

section \<open>Each access\<close>

lemma hold_obj:
  assumes sh: "pool_shape bs n p" and h: "bytes_hold pc b bs n B p" and i: "i < n" and xs: "length xs = p_obj_size p"
  shows "bytes_hold pc b bs n (patch B (i * bs) xs) (p\<lparr>p_objs := (p_objs p)(i * bs := xs)\<rparr>)"
proof -
  let ?B = "patch B (i * bs) xs"
  have len: "length B = n * bs" using h by (simp add: bytes_hold_def)
  have old: "part B (j * bs) (p_obj_size p) = p_objs p (j * bs)"
      "ptr_of pc (part B (slot_at p bs j) slot_size) = in_block b (p_next p (slot_at p bs j))" if "j < n" for j
    using h that by (simp_all add: bytes_hold_def)
  note w = pool_within [OF sh _ len]
  have fits: "i * bs + length xs \<le> length B" using w(5) [OF i] xs by simp
  have "part ?B (j * bs) (p_obj_size p) = ((p_objs p)(i * bs := xs)) (j * bs)" if "j < n" for j
  proof (cases "j = i")
    case False
    moreover have "0 < bs" using sh by (auto simp: pool_shape_def)
    ultimately show ?thesis using part_patch_other [OF fits] pool_apart(1) [OF sh, of j i] xs old(1) [OF that] by simp
  qed (use part_patch_same [OF fits] xs in simp)
  moreover have "part ?B (slot_at p bs j) slot_size = part B (slot_at p bs j) slot_size" if "j < n" for j
    using w(1) [OF i] pool_apart(3) [OF sh, of j i] xs by (intro part_patch_other [OF fits]) (cases "j = i"; auto)
  ultimately show ?thesis using len length_patch [OF fits] old(2) by (simp add: bytes_hold_def slot_at_def)
qed

lemma hold_slot:
  assumes sh: "pool_shape bs n p" and h: "bytes_hold pc b bs n B p" and i: "i < n"
    and xs: "length xs = slot_size" "ptr_of pc xs = in_block b v"
  shows "bytes_hold pc b bs n (patch B (slot_at p bs i) xs) (p\<lparr>p_next := (p_next p)(slot_at p bs i := v)\<rparr>)"
proof -
  let ?B = "patch B (slot_at p bs i) xs"
  have len: "length B = n * bs" using h by (simp add: bytes_hold_def)
  have old: "part B (j * bs) (p_obj_size p) = p_objs p (j * bs)"
      "ptr_of pc (part B (slot_at p bs j) slot_size) = in_block b (p_next p (slot_at p bs j))" if "j < n" for j
    using h that by (simp_all add: bytes_hold_def)
  note w = pool_within [OF sh _ len]
  have fits: "slot_at p bs i + length xs \<le> length B" using w(2) [OF i] xs(1) by simp
  have "ptr_of pc (part ?B (slot_at p bs j) slot_size) = in_block b (((p_next p)(slot_at p bs i := v)) (slot_at p bs j))"
    if "j < n" for j
  proof (cases "j = i")
    case False
    then show ?thesis
      using part_patch_other [OF fits] pool_apart(2) [OF sh, of j i] pool_slot_inj [OF sh, of i j] xs old(2) [OF that] by simp
  qed (use part_patch_same [OF fits] xs in simp)
  moreover have "part ?B (j * bs) (p_obj_size p) = part B (j * bs) (p_obj_size p)" if "j < n" for j
    using w(1) [OF i] pool_apart(3) [OF sh, of i j] xs(1) by (intro part_patch_other [OF fits]) (cases "j = i"; auto)
  ultimately show ?thesis using len length_patch [OF fits] old(1) by (simp add: bytes_hold_def slot_at_def)
qed

text \<open>The same over the memory. A link is \<open>NULL\<close> or an offset into the block.\<close>

definition link_in :: "a3_pool \<Rightarrow> size_t option \<Rightarrow> bool" where
  "link_in p v \<longleftrightarrow> (\<forall>a. v = Some a \<longrightarrow> a \<le> p_cap p)"

lemma get_next_rep:
  assumes "pool_shape bs n p" "blocks m b = Some B" "bytes_hold pc b bs n B p" "i < n"
  shows "mp_get_next pc m (Ptr b (slot_at p bs i)) = ret (in_block b (p_next p (slot_at p bs i)))"
  using pool_within(2) [OF assms(1,4), of B] assms(2-4) by (simp add: mp_get_next_def mem_load_block bytes_hold_def)

lemma set_next_rep:
  assumes "pool_shape bs n p" "blocks m b = Some B" "bytes_hold pc b bs n B p" "i < n" "codec_ok pc b (p_cap p)" "link_in p v"
  shows "\<exists>B'. mp_set_next pc m (Ptr b (slot_at p bs i)) (in_block b v) = ret (with_block m b B') \<and>
    bytes_hold pc b bs n B' (p\<lparr>p_next := (p_next p)(slot_at p bs i := v)\<rparr>)"
proof -
  have xs: "length (ptr_bytes pc (in_block b v)) = slot_size" "ptr_of pc (ptr_bytes pc (in_block b v)) = in_block b v"
    using assms(5,6) by (cases v; simp add: codec_ok_def in_block_def link_in_def)+
  have "slot_at p bs i + slot_size \<le> length B" using pool_within(2) [OF assms(1,4), of B] assms(3) by (simp add: bytes_hold_def)
  then have "mp_set_next pc m (Ptr b (slot_at p bs i)) (in_block b v) =
      ret (with_block m b (patch B (slot_at p bs i) (ptr_bytes pc (in_block b v))))"
    using assms(2) xs(1) by (simp add: mp_set_next_def mem_store_patch)
  then show ?thesis using hold_slot [OF assms(1,3,4) xs] by blast
qed

lemma store_obj_rep:
  assumes "pool_shape bs n p" "blocks m b = Some B" "bytes_hold pc b bs n B p" "i < n" "length xs = p_obj_size p"
  shows "\<exists>B'. mem_store m (Ptr b (i * bs)) xs = ret (with_block m b B') \<and>
    bytes_hold pc b bs n B' (p\<lparr>p_objs := (p_objs p)(i * bs := xs)\<rparr>)"
proof -
  have "i * bs + length xs \<le> length B" using pool_within(5) [OF assms(1,4), of B] assms(3,5) by (simp add: bytes_hold_def)
  then show ?thesis using hold_obj [OF assms(1,3-5)] mem_store_patch [OF assms(2)] by blast
qed

lemma load_obj_rep:
  assumes "pool_shape bs n p" "blocks m b = Some B" "bytes_hold pc b bs n B p" "i < n"
  shows "mem_load m (Ptr b (i * bs)) (p_obj_size p) = ret (p_objs p (i * bs))" "length (p_objs p (i * bs)) = p_obj_size p"
proof -
  have "i * bs + p_obj_size p \<le> length B" "p_objs p (i * bs) = part B (i * bs) (p_obj_size p)"
    using pool_within(5) [OF assms(1,4), of B] assms(3,4) by (simp_all add: bytes_hold_def)
  then show "mem_load m (Ptr b (i * bs)) (p_obj_size p) = ret (p_objs p (i * bs))" "length (p_objs p (i * bs)) = p_obj_size p"
    using mem_load_block [OF assms(2)] by simp_all
qed

definition keeps_size :: "pool_callback \<Rightarrow> bool" where
  "keeps_size cb \<longleftrightarrow> (\<forall>xs. length (callback_bytes cb xs) = length xs)"

lemma call_rep:
  assumes "pool_shape bs n p" "blocks m b = Some B" "bytes_hold pc b bs n B p" "i < n" "keeps_size cb"
  shows "\<exists>B'. mp_call cb (p_obj_size p) m (Ptr b (i * bs)) = ret (with_block m b B') \<and> bytes_hold pc b bs n B' (pool_call cb (i * bs) p)"
proof (cases cb)
  case None
  then show ?thesis using assms(2,3) by (auto simp: mp_call_def pool_call_def intro!: exI [of _ B])
next
  case (Some f)
  note l = load_obj_rep [OF assms(1-4)]
  have "length (f (p_objs p (i * bs))) = p_obj_size p" using assms(5) Some l(2) by (simp add: keeps_size_def callback_bytes_def)
  then show ?thesis using store_obj_rep [OF assms(1-4)] Some l(1) by (simp add: mp_call_def pool_call_def)
qed

end
