(* ===== verification/Pool_Seq.thy ===== *)
theory Pool_Seq
  imports Pool_Props Operations
begin

text \<open>
  Sequences of operations on a pool, with what the client does to the objects it has: a pool behaves like a stack of
  free blocks and an array of objects.
\<close>

section \<open>Operations\<close>

text \<open>\<open>Give None\<close> passes a null pointer; \<open>Fill\<close> and \<open>Look\<close> are the client writing and reading an object.\<close>

datatype pool_op = Alloc | Give "size_t option" | Fill size_t "u8 list" | Look size_t

datatype pool_result = Got "size_t option" | Given | Filled | Object "u8 list"

fun pool_exec :: "pool_op \<Rightarrow> a3_pool \<Rightarrow> (pool_result \<times> a3_pool) run" where
  "pool_exec Alloc p = bind_run (a3_pool_alloc_block p) (\<lambda>(r, p1). ret (Got r, p1))"
| "pool_exec (Give b) p = bind_run (a3_pool_free_block p b) (\<lambda>p1. ret (Given, p1))"
| "pool_exec (Fill a xs) p = ret (Filled, p\<lparr>p_objs := (p_objs p)(a := xs)\<rparr>)"
| "pool_exec (Look a) p = ret (Object (p_objs p a), p)"

section \<open>The stack\<close>

text \<open>The free blocks, the next one to be given out first, and the bytes of every object, by the number of its block.\<close>

type_synonym stack = "nat list \<times> (nat \<Rightarrow> u8 list)"

fun stack_exec :: "size_t \<Rightarrow> size_t \<Rightarrow> bool \<Rightarrow> pool_op \<Rightarrow> stack \<Rightarrow> (pool_result \<times> stack) run" where
  "stack_exec bs sz zero Alloc (free, obj) = (case free of
       [] \<Rightarrow> ret (Got None, free, obj)
     | i # js \<Rightarrow> ret (Got (Some (i * bs)), js, obj))"
| "stack_exec bs sz zero (Give b) (free, obj) = (case b of
       None \<Rightarrow> fail Assert_failed
     | Some a \<Rightarrow> ret (Given, a div bs # free, if zero then obj(a div bs := replicate sz 0) else obj))"
| "stack_exec bs sz zero (Fill a xs) (free, obj) = ret (Filled, free, obj(a div bs := xs))"
| "stack_exec bs sz zero (Look a) (free, obj) = ret (Object (obj (a div bs)), free, obj)"

text \<open>In a new pool \<open>init_cb\<close> has been run on every object but the last.\<close>

abbreviation new_stack :: "nat \<Rightarrow> size_t \<Rightarrow> pool_callback \<Rightarrow> stack" where
  "new_stack n sz init_cb \<equiv> ([0..<n], \<lambda>i. if i < n - 1 then callback_bytes init_cb (replicate sz 0) else replicate sz 0)"

text \<open>The client gives back, writes and reads only blocks it has, and writes no more than an object.\<close>

definition in_use :: "size_t \<Rightarrow> nat \<Rightarrow> nat list \<Rightarrow> size_t \<Rightarrow> bool" where
  "in_use bs n free a \<longleftrightarrow> a mod bs = 0 \<and> a div bs < n \<and> a div bs \<notin> set free"

fun pool_op_ok :: "size_t \<Rightarrow> size_t \<Rightarrow> nat \<Rightarrow> stack \<Rightarrow> pool_op \<Rightarrow> bool" where
  "pool_op_ok bs sz n (free, obj) (Give (Some a)) = in_use bs n free a"
| "pool_op_ok bs sz n (free, obj) (Fill a xs) = (in_use bs n free a \<and> length xs = sz)"
| "pool_op_ok bs sz n (free, obj) (Look a) = in_use bs n free a"
| "pool_op_ok bs sz n (free, obj) x = True"

section \<open>Each operation\<close>

text \<open>What no operation changes.\<close>

definition pool_same :: "a3_pool \<Rightarrow> a3_pool \<Rightarrow> bool" where
  "pool_same p q \<longleftrightarrow> p_obj_size q = p_obj_size p \<and> p_zero_blocks q = p_zero_blocks p \<and> p_free_cb q = p_free_cb p"

lemma pool_alloc_same: "a3_pool_alloc_block p = ret (r, q) \<Longrightarrow> pool_same p q"
  by (auto simp: a3_pool_alloc_block_def slot_get_next_def slot_set_next_def require_def pool_same_def split: option.splits if_splits)

lemma pool_free_same: "a3_pool_free_block p b = ret q \<Longrightarrow> pool_same p q"
  by (auto simp: a3_pool_free_block_def slot_set_next_def require_def pool_same_def Let_def split: option.splits if_splits)

definition pool_stack :: "size_t \<Rightarrow> size_t \<Rightarrow> nat \<Rightarrow> bool \<Rightarrow> pool_callback \<Rightarrow> a3_pool \<Rightarrow> stack \<Rightarrow> bool" where
  "pool_stack bs sz n zero cb p s \<longleftrightarrow> pool_view bs n p (fst s) \<and> p_obj_size p = sz \<and> p_zero_blocks p = zero \<and> p_free_cb p = cb \<and>
     (\<forall>i < n. p_objs p (i * bs) = snd s i)"

lemma in_use_block:
  assumes "pool_view bs n p free" "in_use bs n free a"
  obtains i where "a = i * bs" "i < n" "i \<notin> set free" "a div bs = i" "0 < bs"
proof -
  have bs: "0 < bs" using assms(1) by (auto simp: pool_view_def pool_shape_def)
  have "a = a div bs * bs" using assms(2) by (auto simp: in_use_def)
  then show thesis using assms(2) bs by (intro that [of "a div bs"]) (simp_all add: in_use_def)
qed

lemma pool_alloc_like:
  assumes "pool_stack bs sz n zero cb p (free, obj)"
  shows "agree (pool_stack bs sz n zero cb) (pool_exec Alloc p) (stack_exec bs sz zero Alloc (free, obj))"
proof (cases free)
  case Nil
  then have "a3_pool_alloc_block p = ret (None, p)" using assms by (simp add: pool_stack_def pool_view_def a3_pool_alloc_block_def)
  then show ?thesis using assms Nil by auto
next
  case (Cons i js)
  then obtain q where "a3_pool_alloc_block p = ret (Some (i * bs), q)" "pool_view bs n q js" "p_objs q = p_objs p"
    using assms pool_alloc_ok [of bs n p i js] by (auto simp: pool_stack_def)
  moreover from this(1) have "pool_same p q" by (rule pool_alloc_same)
  ultimately show ?thesis using assms Cons by (auto simp: pool_stack_def pool_same_def)
qed

lemma pool_give_like:
  assumes s: "pool_stack bs sz n zero cb p (free, obj)" and a: "in_use bs n free a"
  shows "agree (pool_stack bs sz n zero cb) (pool_exec (Give (Some a)) p) (stack_exec bs sz zero (Give (Some a)) (free, obj))"
proof -
  have v: "pool_view bs n p free" using s by (simp add: pool_stack_def)
  obtain i where i: "a = i * bs" "i < n" "i \<notin> set free" "a div bs = i" "0 < bs" using in_use_block [OF v a] .
  obtain q where q: "a3_pool_free_block p (Some (i * bs)) = ret q" "pool_view bs n q (i # free)"
      "p_objs q = (if p_zero_blocks p then (p_objs p)(i * bs := replicate (p_obj_size p) 0) else p_objs p)"
    using pool_free_block_ok [OF v i(2,3)] by blast
  moreover have "pool_same p q" using pool_free_same [OF q(1)] .
  ultimately show ?thesis using s i by (auto simp: pool_stack_def pool_same_def)
qed

lemma pool_client_like:
  assumes s: "pool_stack bs sz n zero cb p (free, obj)" and a: "in_use bs n free a"
  shows "agree (pool_stack bs sz n zero cb) (pool_exec (Fill a xs) p) (stack_exec bs sz zero (Fill a xs) (free, obj))"
    "agree (pool_stack bs sz n zero cb) (pool_exec (Look a) p) (stack_exec bs sz zero (Look a) (free, obj))"
proof -
  have v: "pool_view bs n p free" using s by (simp add: pool_stack_def)
  obtain i where i: "a = i * bs" "i < n" "a div bs = i" "0 < bs" using in_use_block [OF v a] .
  let ?q = "p\<lparr>p_objs := (p_objs p)(a := xs)\<rparr>"
  have "pool_view bs n ?q free"
    using v pool_chain_cong [of free ?q p bs] by (auto simp: pool_view_def pool_shape_def)
  then show "agree (pool_stack bs sz n zero cb) (pool_exec (Fill a xs) p) (stack_exec bs sz zero (Fill a xs) (free, obj))"
    using s i by (auto simp: pool_stack_def)
  show "agree (pool_stack bs sz n zero cb) (pool_exec (Look a) p) (stack_exec bs sz zero (Look a) (free, obj))"
    using s i by (auto simp: pool_stack_def agree_def)
qed

interpretation pool_ops: simulation pool_exec "stack_exec bs sz zero" "pool_op_ok bs sz n" "pool_stack bs sz n zero cb"
  for bs sz n zero cb
proof
  fix p s x
  assume p: "pool_stack bs sz n zero cb p s" "pool_op_ok bs sz n s x"
  obtain free obj where s: "s = (free, obj)" by (cases s)
  show "agree (pool_stack bs sz n zero cb) (pool_exec x p) (stack_exec bs sz zero x s)"
  proof (cases x)
    case (Give b)
    then show ?thesis using p pool_give_like unfolding s
      by (cases b) (simp_all add: a3_pool_free_block_def del: stack_exec.simps(1,3,4))
  qed (use p pool_alloc_like pool_client_like in \<open>simp_all add: s del: pool_exec.simps stack_exec.simps\<close>)
qed

section \<open>Property\<close>

text \<open>A pool behaves like a stack of free blocks. On a new pool of \<open>n\<close> blocks every sequence of allocations, of blocks given
  back, and of writes and reads of objects the client has returns what it returns on a stack that starts with all blocks in the
  order of their addresses: an allocation gives the block last given back, or \<open>NULL\<close> exactly when all are in use; an object
  keeps its bytes until its client writes them or, if the pool was made so, gives it back, which clears them; giving back
  \<open>NULL\<close> fails the assertion. At the end \<open>a3_pool_free\<close> calls \<open>free_cb\<close> once on each free block, and on no other.\<close>

theorem pool_runs_like_stack:
  assumes "1 \<le> n" "k < 64" "sz + 16 + 2 ^ k < size_mod" "n * pool_block_size sz (2 ^ k) < size_mod"
    and "ops_ok (stack_exec (pool_block_size sz (2 ^ k)) sz zero) (pool_op_ok (pool_block_size sz (2 ^ k)) sz n) xs
      (new_stack n sz init_cb)"
  shows "\<exists>p. a3_pool_new True True sz n (2 ^ k) zero init_cb free_cb = ret p \<and>
    agree (\<lambda>q (free, obj). a3_pool_free q = ret (if free_cb = None then [] else map (\<lambda>i. i * pool_block_size sz (2 ^ k)) free))
      (run_ops pool_exec xs p)
      (run_ops (stack_exec (pool_block_size sz (2 ^ k)) sz zero) xs
        (new_stack n sz init_cb))"
proof -
  let ?bs = "pool_block_size sz (2 ^ k)"
  let ?obj = "\<lambda>i. if i < n - 1 then callback_bytes init_cb (replicate sz 0) else replicate sz 0"
  obtain p where p: "a3_pool_new True True sz n (2 ^ k) zero init_cb free_cb = ret p" "pool_view ?bs n p [0..<n]"
      "\<forall>i < n. p_objs p (i * ?bs) = ?obj i" "p_obj_size p = sz" "p_zero_blocks p = zero" "p_free_cb p = free_cb"
    using pool_new_ok [OF assms(1-4), of zero init_cb free_cb] by blast
  then have "pool_stack ?bs sz n zero free_cb p ([0..<n], ?obj)" by (simp add: pool_stack_def)
  from pool_ops.runs_agree [OF this assms(5)] show ?thesis using p(1)
    by (auto simp: pool_stack_def pool_view_def a3_pool_free_def intro!: pool_walk_ok elim!: agree_mono)
qed

text \<open>Two blocks of 16 bytes, cleared when they are given back; the third allocation finds none.\<close>

definition ex_pool_ops :: "pool_op list" where
  "ex_pool_ops = [Alloc, Fill 0 [1, 2, 3, 4], Alloc, Alloc, Look 0, Give (Some 0), Alloc, Look 0, Give (Some 16)]"

definition ex_pool_results :: "pool_result list" where
  "ex_pool_results = [Got (Some 0), Filled, Got (Some 16), Got None, Object [1, 2, 3, 4], Given, Got (Some 0), Object [0, 0, 0, 0], Given]"

theorem pool_runs_like_stack_witness:
  "\<exists>p q. a3_pool_new True True 4 2 (2 ^ 3) True None (Some (\<lambda>x. x)) = ret p \<and>
     run_ops pool_exec ex_pool_ops p = ret (ex_pool_results, q) \<and> a3_pool_free q = ret [16]"
proof -
  let ?s = "([0..<2], \<lambda>i. if i < 2 - 1 then callback_bytes None (replicate 4 (0 :: u8)) else replicate 4 0)"
  have u: "[0..<2] = [0, 1]" by (simp add: numeral_2_eq_2)
  have r: "\<exists>obj. run_ops (stack_exec 16 4 True) ex_pool_ops ?s = ret (ex_pool_results, [1], obj)"
    by (simp add: ex_pool_ops_def ex_pool_results_def callback_bytes_def u, simp add: numeral_eq_Suc)
  have "ops_ok (stack_exec 16 4 True) (pool_op_ok 16 4 2) ex_pool_ops ?s"
    by (simp add: ex_pool_ops_def in_use_def u)
  then show ?thesis
    using pool_runs_like_stack [of 2 3 4 True ex_pool_ops None "Some (\<lambda>x. x)"] r unfolding ex_block_size
    by (auto simp: agree_def size_mod_def)
qed

end
