(* ===== verification/Pool_Bytes.thy ===== *)
theory Pool_Bytes
  imports Pool_Mem Pool_Seq Vec_Props
begin

text \<open>
  Sequences of operations on a pool in memory: they return what the stack of \<open>Pool_Seq\<close> returns, by way of the pool
  of \<open>Pool\<close>, and releasing the pool leaves the memory of the client.
\<close>

section \<open>Operations\<close>

text \<open>The client names an object by its offset into the pool's memory.\<close>

definition offset_of :: "ptr \<Rightarrow> size_t option" where
  "offset_of p = (case p of Null \<Rightarrow> None | Ptr b off \<Rightarrow> Some off)"

fun mem_pool_exec :: "ptr_codec \<Rightarrow> pool_op \<Rightarrow> mem \<times> mem_pool \<Rightarrow> (pool_result \<times> mem \<times> mem_pool) run" where
  "mem_pool_exec pc Alloc (m, q) = bind_run (mem_pool_alloc_block pc m q) (\<lambda>(r, m1, q1). ret (Got (offset_of r), m1, q1))"
| "mem_pool_exec pc (Give a) (m, q) = bind_run (mem_pool_free_block pc m q
     (case a of None \<Rightarrow> Null | Some off \<Rightarrow> ptr_plus (mp_data q) off)) (\<lambda>(m1, q1). ret (Given, m1, q1))"
| "mem_pool_exec pc (Fill a xs) (m, q) = bind_run (mem_store m (ptr_plus (mp_data q) a) xs) (\<lambda>m1. ret (Filled, m1, q))"
| "mem_pool_exec pc (Look a) (m, q) = bind_run (mem_load m (ptr_plus (mp_data q) a) (mp_obj_size q)) (\<lambda>xs. ret (Object xs, m, q))"

section \<open>Each operation is that of the pool it implements\<close>

text \<open>The pool has its data in block \<open>b\<close>; the other blocks are \<open>rest\<close>, and \<open>s\<close> among them is the pool's own.\<close>

definition pool_at :: "ptr_codec \<Rightarrow> nat \<Rightarrow> size_t \<Rightarrow> nat \<Rightarrow> nat \<Rightarrow> (nat \<Rightarrow> u8 list option) \<Rightarrow> mem \<times> mem_pool \<Rightarrow> a3_pool \<Rightarrow> bool" where
  "pool_at pc b bs n s rest x p \<longleftrightarrow> pool_rep pc b bs n (fst x) (snd x) p \<and> mp_self (snd x) = Ptr s 0 \<and>
     (\<forall>c. c \<noteq> b \<longrightarrow> blocks (fst x) c = rest c)"

lemma pool_atD:
  assumes "pool_at pc b bs n s rest (m, q) p"
  obtains B where "blocks m b = Some B" "bytes_hold pc b bs n B p" "same_fields b q p" "mp_self q = Ptr s 0"
    "\<forall>c. c \<noteq> b \<longrightarrow> blocks m c = rest c"
  using assms by (auto simp: pool_at_def pool_rep_def)

lemma pool_atI:
  "bytes_hold pc b bs n B p \<Longrightarrow> same_fields b q p \<Longrightarrow> mp_self q = Ptr s 0 \<Longrightarrow> \<forall>c. c \<noteq> b \<longrightarrow> blocks m c = rest c \<Longrightarrow>
   pool_at pc b bs n s rest (with_block m b B, q) p"
  by (auto simp: pool_at_def pool_rep_def)

lemma in_block_simps [simp]: "in_block b None = Null" "in_block b (Some a) = Ptr b a" "in_block b x = Null \<longleftrightarrow> x = None"
  "offset_of (in_block b x) = x"
  by (auto simp: in_block_def offset_of_def split: option.splits)

lemma chain_link: "pool_shape bs n p \<Longrightarrow> pool_chain bs p is c \<Longrightarrow> set is \<subseteq> {..<n} \<Longrightarrow> link_in p c"
  using pool_slot_bounds(1) [of bs n p] by (cases "is") (fastforce simp: link_in_def)+

lemma alloc_at:
  assumes at: "pool_at pc b bs n s rest (m, q) p" and v: "pool_view bs n p is" and pc: "codec_ok pc b (p_cap p)"
  shows "agree (pool_at pc b bs n s rest) (mem_pool_exec pc Alloc (m, q)) (pool_exec Alloc p)"
proof -
  obtain B where B: "blocks m b = Some B" "bytes_hold pc b bs n B p" and f: "same_fields b q p" "mp_self q = Ptr s 0"
    "\<forall>c. c \<noteq> b \<longrightarrow> blocks m c = rest c" using pool_atD [OF at] .
  show ?thesis
  proof (cases "is")
    case Nil
    then have "p_free p = None" using v by (simp add: pool_view_def)
    moreover from this have "mp_free q = Null" using f(1) by (simp add: same_fields_def)
    ultimately show ?thesis using at
      by (auto simp: mem_pool_alloc_block_def a3_pool_alloc_block_def offset_of_def)
  next
    case (Cons i js)
    have sh: "pool_shape bs n p" and i: "i < n" "p_free p = Some (slot_at p bs i)" using v Cons by (auto simp: pool_view_def)
    let ?next = "p_next p (slot_at p bs i)"
    let ?p = "p\<lparr>p_free := ?next, p_next := (p_next p)(slot_at p bs i := None)\<rparr>" and ?q = "q\<lparr>mp_free := in_block b ?next\<rparr>"
    have fr: "mp_free q = Ptr b (slot_at p bs i)" using f(1) i(2) by (simp add: same_fields_def)
    obtain B' where B': "mp_set_next pc m (Ptr b (slot_at p bs i)) Null = ret (with_block m b B')"
        "bytes_hold pc b bs n B' (p\<lparr>p_next := (p_next p)(slot_at p bs i := None)\<rparr>)"
      using set_next_rep [OF sh B i(1) pc, of None] by (auto simp: link_in_def)
    have "slot_obj p (slot_at p bs i) = i * bs" using pool_slot_bounds(2) [OF sh i(1)] .
    then have "mp_slot_obj q (Ptr b (slot_at p bs i)) = Ptr b (i * bs)"
      using f(1) by (simp add: mp_slot_obj_def slot_obj_def same_fields_def)
    then have "mem_pool_exec pc Alloc (m, q) = ret (Got (Some (i * bs)), with_block m b B', ?q)"
      using fr get_next_rep [OF sh B i(1)] B'(1) by (simp add: mem_pool_alloc_block_def offset_of_def)
    moreover have "pool_exec Alloc p = ret (Got (Some (i * bs)), ?p)"
      using pool_slot_bounds [OF sh i(1)] i(2)
      by (simp add: a3_pool_alloc_block_def slot_get_next_def slot_set_next_def slot_obj_def)
    moreover have "pool_at pc b bs n s rest (with_block m b B', ?q) ?p"
      using B'(2) f by (intro pool_atI) (simp_all add: same_fields_def bytes_hold_def slot_at_def)
    ultimately show ?thesis by auto
  qed
qed

lemma give_at:
  assumes at: "pool_at pc b bs n s rest (m, q) p" and v: "pool_view bs n p is" and pc: "codec_ok pc b (p_cap p)"
    and a: "in_use bs n is a"
  shows "agree (pool_at pc b bs n s rest) (mem_pool_exec pc (Give (Some a)) (m, q)) (pool_exec (Give (Some a)) p)"
proof -
  obtain B where B: "blocks m b = Some B" "bytes_hold pc b bs n B p" and f: "same_fields b q p" "mp_self q = Ptr s 0"
    "\<forall>c. c \<noteq> b \<longrightarrow> blocks m c = rest c" using pool_atD [OF at] .
  have sh: "pool_shape bs n p" and ch: "pool_chain bs p is (p_free p)" "set is \<subseteq> {..<n}" using v by (auto simp: pool_view_def)
  obtain i where i: "a = i * bs" "i < n" using in_use_block [OF v a] .
  let ?p1 = "if p_zero_blocks p then p\<lparr>p_objs := (p_objs p)(i * bs := replicate (p_obj_size p) 0)\<rparr> else p"
  let ?z = "if mp_zero_blocks q then mem_store m (Ptr b (i * bs)) (replicate (mp_obj_size q) 0) else ret m"
  have "\<exists>B1. ?z = ret (with_block m b B1) \<and> bytes_hold pc b bs n B1 ?p1"
    using store_obj_rep [OF sh B i(2), of "replicate (p_obj_size p) 0"] B f(1)
    by (cases "p_zero_blocks p") (auto simp: same_fields_def intro!: exI [of _ B])
  then obtain B1 where B1: "?z = ret (with_block m b B1)" "bytes_hold pc b bs n B1 ?p1" by blast
  have sh1: "pool_shape bs n ?p1" "codec_ok pc b (p_cap ?p1)" "link_in ?p1 (p_free p)" "slot_at ?p1 bs i = slot_at p bs i"
    using sh pc chain_link [OF sh ch] by (simp_all add: pool_shape_def link_in_def slot_at_def)
  have b1: "blocks (with_block m b B1) b = Some B1" by simp
  let ?p2 = "?p1\<lparr>p_next := (p_next ?p1)(slot_at p bs i := p_free p)\<rparr>"
  obtain B2 where B2: "mp_set_next pc (with_block m b B1) (Ptr b (slot_at p bs i)) (in_block b (p_free p)) = ret (with_block m b B2)"
      "bytes_hold pc b bs n B2 ?p2"
    using set_next_rep [OF sh1(1) b1 B1(2) i(2) sh1(2,3)] unfolding sh1(4) by auto
  have os: "mp_obj_slot q (Ptr b (i * bs)) = Ptr b (slot_at p bs i)"
    using f(1) by (simp add: mp_obj_slot_def same_fields_def slot_at_def)
  have "mem_pool_exec pc (Give (Some a)) (m, q) = ret (Given, with_block m b B2, q\<lparr>mp_free := Ptr b (slot_at p bs i)\<rparr>)"
    using B1(1) B2(1) os f(1) i(1) by (simp add: mem_pool_free_block_def same_fields_def)
  moreover have "pool_exec (Give (Some a)) p = ret (Given, ?p2\<lparr>p_free := Some (slot_at p bs i)\<rparr>)"
    using pool_slot_bounds [OF sh i(2)] i(1)
    by (simp add: a3_pool_free_block_def slot_set_next_def obj_slot_def Let_def)
  moreover have "pool_at pc b bs n s rest (with_block m b B2, q\<lparr>mp_free := Ptr b (slot_at p bs i)\<rparr>) (?p2\<lparr>p_free := Some (slot_at p bs i)\<rparr>)"
    using B2(2) f by (intro pool_atI) (simp_all add: same_fields_def bytes_hold_def slot_at_def)
  ultimately show ?thesis by auto
qed

lemma client_at:
  assumes at: "pool_at pc b bs n s rest (m, q) p" and v: "pool_view bs n p is" and a: "in_use bs n is a"
  shows "length xs = p_obj_size p \<Longrightarrow> agree (pool_at pc b bs n s rest) (mem_pool_exec pc (Fill a xs) (m, q)) (pool_exec (Fill a xs) p)"
    "agree (pool_at pc b bs n s rest) (mem_pool_exec pc (Look a) (m, q)) (pool_exec (Look a) p)"
proof -
  obtain B where B: "blocks m b = Some B" "bytes_hold pc b bs n B p" and f: "same_fields b q p" "mp_self q = Ptr s 0"
    "\<forall>c. c \<noteq> b \<longrightarrow> blocks m c = rest c" using pool_atD [OF at] .
  have sh: "pool_shape bs n p" using v by (simp add: pool_view_def)
  obtain i where i: "a = i * bs" "i < n" using in_use_block [OF v a] .
  have d: "ptr_plus (mp_data q) a = Ptr b (i * bs)" "mp_obj_size q = p_obj_size p" using f(1) i(1) by (simp_all add: same_fields_def)
  show "agree (pool_at pc b bs n s rest) (mem_pool_exec pc (Look a) (m, q)) (pool_exec (Look a) p)"
    using d load_obj_rep(1) [OF sh B i(2)] at i(1) by (auto simp: agree_def)
  assume xs: "length xs = p_obj_size p"
  obtain B' where B': "mem_store m (Ptr b (i * bs)) xs = ret (with_block m b B')"
      "bytes_hold pc b bs n B' (p\<lparr>p_objs := (p_objs p)(i * bs := xs)\<rparr>)"
    using store_obj_rep [OF sh B i(2) xs] by blast
  have "pool_at pc b bs n s rest (with_block m b B', q) (p\<lparr>p_objs := (p_objs p)(i * bs := xs)\<rparr>)"
    using B'(2) f by (intro pool_atI) (simp_all add: same_fields_def)
  then show "agree (pool_at pc b bs n s rest) (mem_pool_exec pc (Fill a xs) (m, q)) (pool_exec (Fill a xs) p)"
    using d(1) B'(1) i(1) by auto
qed

section \<open>Sequences\<close>

definition bytes_stack :: "ptr_codec \<Rightarrow> nat \<Rightarrow> size_t \<Rightarrow> size_t \<Rightarrow> nat \<Rightarrow> bool \<Rightarrow> pool_callback \<Rightarrow> nat \<Rightarrow> (nat \<Rightarrow> u8 list option) \<Rightarrow>
    mem \<times> mem_pool \<Rightarrow> stack \<Rightarrow> bool" where
  "bytes_stack pc b bs sz n zero cb s rest x st \<longleftrightarrow> codec_ok pc b (n * bs) \<and>
     (\<exists>p. pool_at pc b bs n s rest x p \<and> pool_stack bs sz n zero cb p st)"

lemma stack_cap: "pool_stack bs sz n zero cb p st \<Longrightarrow> p_cap p = n * bs"
  by (simp add: pool_stack_def pool_view_def pool_shape_def)

lemma exec_at:
  assumes at: "pool_at pc b bs n s rest x p" and st: "pool_stack bs sz n zero cb p st" and ok: "pool_op_ok bs sz n st op"
    and pc: "codec_ok pc b (n * bs)"
  shows "agree (pool_at pc b bs n s rest) (mem_pool_exec pc op x) (pool_exec op p)"
proof -
  obtain m q where x: "x = (m, q)" by (cases x)
  obtain free obj where s: "st = (free, obj)" by (cases st)
  have v: "pool_view bs n p free" "p_obj_size p = sz" "codec_ok pc b (p_cap p)"
    using st pc stack_cap [OF st] by (simp_all add: pool_stack_def s)
  note at' = at [unfolded x]
  show ?thesis
  proof (cases op)
    case (Give a)
    then show ?thesis using give_at [OF at' v(1,3)] ok unfolding s x
      by (cases a) (simp_all add: mem_pool_free_block_def a3_pool_free_block_def)
  next
    case (Fill a xs)
    then have "in_use bs n free a" "length xs = p_obj_size p" using ok v(2) by (simp_all add: s)
    from client_at(1) [OF at' v(1) this] show ?thesis unfolding Fill x .
  next
    case (Look a)
    then have "in_use bs n free a" using ok by (simp add: s)
    from client_at(2) [OF at' v(1) this] show ?thesis unfolding Look x .
  qed (use alloc_at [OF at' v(1,3)] x in simp)
qed

interpretation pool_bytes: simulation "mem_pool_exec pc" "stack_exec bs sz zero" "pool_op_ok bs sz n" "bytes_stack pc b bs sz n zero cb s rest"
  for pc bs sz zero n b cb s rest
proof
  fix x st op
  assume "bytes_stack pc b bs sz n zero cb s rest x st" and ok: "pool_op_ok bs sz n st op"
  then obtain p where p: "pool_at pc b bs n s rest x p" "pool_stack bs sz n zero cb p st" "codec_ok pc b (n * bs)"
    by (auto simp: bytes_stack_def)
  have "agree (\<lambda>x st. \<exists>p. pool_at pc b bs n s rest x p \<and> pool_stack bs sz n zero cb p st) (mem_pool_exec pc op x) (stack_exec bs sz zero op st)"
    using agree_trans [OF exec_at [OF p(1,2) ok p(3)] pool_ops.simulates [OF p(2) ok]] .
  then show "agree (bytes_stack pc b bs sz n zero cb s rest) (mem_pool_exec pc op x) (stack_exec bs sz zero op st)"
    by (rule agree_mono) (use p(3) in \<open>simp add: bytes_stack_def\<close>)
qed

section \<open>Making and releasing a pool\<close>

text \<open>The objects \<open>free_cb\<close> is called on are those of the chain.\<close>

lemma walk_at:
  assumes pc: "codec_ok pc b (p_cap p)" and cb: "keeps_size (mp_free_cb q)" "mp_obj_size q = p_obj_size p"
  shows "pool_shape bs n p \<Longrightarrow> pool_chain bs p is c \<Longrightarrow> set is \<subseteq> {..<n} \<Longrightarrow> blocks m b = Some B \<Longrightarrow> bytes_hold pc b bs n B p \<Longrightarrow>
    \<exists>B'. mp_walk pc q m (in_block b c) = ret (map (\<lambda>i. Ptr b (i * bs)) is, with_block m b B')"
  using assms
proof (induction "is" arbitrary: c p m B)
  case Nil
  then show ?case by (subst mp_walk.simps) (auto intro!: exI [of _ B])
next
  case (Cons i "is")
  then have i: "i < n" "c = Some (slot_at p bs i)" "pool_chain bs p is (p_next p (slot_at p bs i))" by simp_all
  let ?p = "pool_call (mp_free_cb q) (i * bs) p"
  obtain B1 where B1: "mp_call (mp_free_cb q) (p_obj_size p) m (Ptr b (i * bs)) = ret (with_block m b B1)" "bytes_hold pc b bs n B1 ?p"
    using call_rep [OF Cons.prems(1,4,5) i(1) cb(1)] by blast
  have p: "pool_shape bs n ?p" "p_next ?p = p_next p" "slot_at ?p bs = slot_at p bs" "p_cap ?p = p_cap p" "p_obj_size ?p = p_obj_size p"
    using Cons.prems(1) by (simp_all add: pool_call_eq pool_shape_def slot_at_def fun_eq_iff)
  have "pool_chain bs ?p is (p_next p (slot_at p bs i))" using i(3) pool_chain_cong [of "is" ?p p bs] p(2,5) by simp
  moreover have b1: "blocks (with_block m b B1) b = Some B1" by simp
  ultimately obtain B' where "mp_walk pc q (with_block m b B1) (in_block b (p_next p (slot_at p bs i))) =
      ret (map (\<lambda>i. Ptr b (i * bs)) is, with_block (with_block m b B1) b B')"
    using Cons.IH [of ?p _ "with_block m b B1" B1] Cons.prems p B1(2) by auto
  moreover have "mp_get_next pc (with_block m b B1) (Ptr b (slot_at p bs i)) = ret (in_block b (p_next p (slot_at p bs i)))"
    using get_next_rep [OF p(1) b1 B1(2) i(1)] by (simp add: p(2,3))
  moreover have "mp_slot_obj q (Ptr b (slot_at p bs i)) = Ptr b (i * bs)"
    using pool_slot_bounds(2) [OF Cons.prems(1) i(1)] Cons.prems(8) by (simp add: mp_slot_obj_def slot_obj_def)
  ultimately show ?case using B1(1) i(2) Cons.prems(8) by (subst mp_walk.simps) auto
qed

definition linking :: "ptr_codec \<Rightarrow> nat \<Rightarrow> size_t \<Rightarrow> nat \<Rightarrow> nat \<Rightarrow> (nat \<Rightarrow> u8 list option) \<Rightarrow> mem_pool \<Rightarrow> mem \<Rightarrow> a3_pool \<Rightarrow> bool" where
  "linking pc b bs n s rest q m p \<longleftrightarrow> pool_at pc b bs n s rest (m, q) p \<and> pool_shape bs n p"

lemma link_step_at:
  assumes l: "linking pc b bs n s rest q m p" and pc: "codec_ok pc b (n * bs)" and cb: "keeps_size cb" and i: "i + 1 < n"
  shows "\<exists>m' p'. mp_link_step pc q bs cb i m = ret m' \<and> pool_link_step bs cb i p = ret p' \<and> linking pc b bs n s rest q m' p'"
proof -
  have sh: "pool_shape bs n p" using l by (simp add: linking_def)
  obtain B where B: "blocks m b = Some B" "bytes_hold pc b bs n B p" and f: "same_fields b q p" "mp_self q = Ptr s 0"
    "\<forall>c. c \<noteq> b \<longrightarrow> blocks m c = rest c" using l unfolding linking_def by (auto elim: pool_atD)
  have i': "i < n" using i by simp
  have cap: "p_cap p = n * bs" "p_cap p < size_mod" using sh by (simp_all add: pool_shape_def)
  have sl: "slot_at p bs i + slot_size \<le> p_cap p" "slot_at p bs (i + 1) + slot_size \<le> p_cap p" "slot_obj p (slot_at p bs i) = i * bs"
    using pool_slot_bounds [OF sh] i by simp_all
  then have "slot_at p bs i < size_mod" "slot_at p bs (i + 1) < size_mod" using cap(2) by linarith+
  then have at: "sz_add (sz_mul bs i) (slot_offset (p_obj_size p)) = slot_at p bs i"
      "sz_add (sz_mul (i + 1) bs) (slot_offset (p_obj_size p)) = slot_at p bs (i + 1)"
    by (simp_all add: slot_at_def mult.commute)
  let ?p1 = "p\<lparr>p_next := (p_next p)(slot_at p bs i := Some (slot_at p bs (i + 1)))\<rparr>"
  have "link_in p (Some (slot_at p bs (i + 1)))" "codec_ok pc b (p_cap p)" using sl(2) pc cap(1) by (simp_all add: link_in_def)
  then obtain B1 where B1: "mp_set_next pc m (Ptr b (slot_at p bs i)) (Ptr b (slot_at p bs (i + 1))) = ret (with_block m b B1)"
      "bytes_hold pc b bs n B1 ?p1"
    using set_next_rep [OF sh B i', of "Some (slot_at p bs (i + 1))"] by auto
  have sh1: "pool_shape bs n ?p1" using sh by (simp add: pool_shape_def)
  have b1: "blocks (with_block m b B1) b = Some B1" by simp
  obtain B2 where B2: "mp_call cb (p_obj_size p) (with_block m b B1) (Ptr b (i * bs)) = ret (with_block m b B2)"
      "bytes_hold pc b bs n B2 (pool_call cb (i * bs) ?p1)"
    using call_rep [OF sh1 b1 B1(2) i' cb] by auto
  have "mp_link_step pc q bs cb i m = ret (with_block m b B2)"
    using B1(1) B2(1) at f(1) sl(3) by (simp add: mp_link_step_def same_fields_def mp_slot_obj_def slot_obj_def del: sz_add_eq sz_mul_eq)
  moreover have "pool_link_step bs cb i p = ret (pool_call cb (i * bs) ?p1)"
    using at sl(1,3) by (simp add: pool_link_step_def slot_set_next_def slot_obj_def)
  moreover have "linking pc b bs n s rest q (with_block m b B2) (pool_call cb (i * bs) ?p1)"
    unfolding linking_def using B2(2) f sh1
    by (auto intro!: pool_atI simp: same_fields_def pool_call_eq pool_shape_def)
  ultimately show ?thesis by blast
qed

lemma bytes_new:
  assumes "mem_ok m0" "env_aligned env" "1 \<le> n" "k < 64" "sz + 16 + 2 ^ k < size_mod" "n * pool_block_size sz (2 ^ k) < size_mod"
    and pc: "codec_ok pc (next_block m0 + 1) (n * pool_block_size sz (2 ^ k))" and cb: "keeps_size init_cb"
    and new: "a3_pool_new True True sz n (2 ^ k) zero init_cb free_cb = ret p"
  shows "\<exists>m q. mem_pool_new pc env m0 True sz n (2 ^ k) zero init_cb free_cb = ret (m, q) \<and>
    pool_at pc (next_block m0 + 1) (pool_block_size sz (2 ^ k)) n (next_block m0)
      ((blocks m0)(next_block m0 \<mapsto> replicate 48 0)) (m, q) p"
proof -
  define bs s b where "bs = pool_block_size sz (2 ^ k)" and "s = next_block m0" and "b = next_block m0 + 1"
  let ?rest = "(blocks m0)(s \<mapsto> replicate 48 0)"
  let ?p0 = "\<lparr>p_objs = \<lambda>a. replicate sz 0, p_next = \<lambda>s. None, p_free = Some (slot_offset sz),
    p_obj_size = sz, p_cap = n * bs, p_zero_blocks = zero, p_free_cb = free_cb\<rparr>"
  let ?q = "\<lparr>mp_self = Ptr s 0, mp_data = Ptr b 0, mp_free = Ptr b (slot_offset sz), mp_obj_size = sz,
    mp_cap = n * bs, mp_zero_blocks = zero, mp_free_cb = free_cb\<rparr>"
  have bnd: "sz \<le> slot_offset sz" "slot_offset sz + slot_size \<le> bs" "n * bs < size_mod"
    using pool_block_size_bounds [OF assms(5,4)] assms(6) by (simp_all add: bs_def)
  have "n * 1 \<le> n * bs" using bnd(2) by (intro mult_le_mono2) simp
  then have "n < size_mod" using bnd(3) by linarith
  then have n: "sz_mul n bs = n * bs" "sz_sub n 1 = n - 1" "0 < n * bs" using bnd(2,3) assms(3) by simp_all
  have sh: "pool_shape bs n ?p0" using bnd by (simp add: pool_shape_def)
  define m1 where "m1 = fst (c_calloc m0 True 48)"
  define m2 where "m2 = fst (c_malloc m1 True (n * bs))"
  define m3 where "m3 = with_block m2 b (replicate (n * bs) 0)"
  have nb: "next_block m1 = b" "c_calloc m0 True 48 = (m1, Ptr s 0)" "blocks m1 = ?rest"
    by (simp_all add: m1_def c_calloc_def mem_new_block_def s_def b_def)
  have v: "vec_alloc m1 env (n * bs) (2 ^ k) = ret (m2, Ptr b 0)"
    using assms(2) n(3) nb(1) by (simp add: vec_alloc_def a3_shim_aligned_alloc_def m2_def c_malloc_def mem_new_block_def)
  have m2: "\<exists>B. blocks m2 b = Some B \<and> length B = n * bs" "\<And>c. c \<noteq> b \<Longrightarrow> blocks m2 c = ?rest c"
    using nb(1,3) by (simp_all add: m2_def c_malloc_def mem_new_block_def)
  then have st: "mem_store m2 (Ptr b 0) (replicate (n * bs) 0) = ret m3" by (auto simp: mem_store_block m3_def)
  have "bytes_hold pc b bs n (replicate (n * bs) 0) ?p0" unfolding bytes_hold_def
  proof (intro conjI allI impI)
    fix i assume i: "i < n"
    note w = pool_within [OF sh i, of "replicate (n * bs) (0 :: u8)"]
    show "part (replicate (n * bs) 0) (i * bs) (p_obj_size ?p0) = p_objs ?p0 (i * bs)" using w(5) by (simp add: min_def)
    have "part (replicate (n * bs) (0 :: u8)) (slot_at ?p0 bs i) slot_size = replicate slot_size 0" using w(2) by (simp add: min_def)
    then show "ptr_of pc (part (replicate (n * bs) 0) (slot_at ?p0 bs i) slot_size) = in_block b (p_next ?p0 (slot_at ?p0 bs i))"
      using pc by (simp add: codec_ok_def)
  qed simp
  then have l: "linking pc b bs n s ?rest ?q m3 ?p0"
    unfolding linking_def m3_def using sh m2(2) by (auto intro!: pool_atI simp: same_fields_def)
  have pc': "codec_ok pc b (n * bs)" using pc by (simp add: b_def bs_def)
  have "\<exists>m p'. for_run [0..<n - 1] (mp_link_step pc ?q bs init_cb) m3 = ret m \<and>
      for_run [0..<n - 1] (pool_link_step bs init_cb) ?p0 = ret p' \<and> linking pc b bs n s ?rest ?q m p'"
    by (rule for_run_pair [where R = "linking pc b bs n s ?rest ?q", OF _ l]) (use link_step_at [OF _ pc' cb] in auto)
  then obtain m p' where m: "for_run [0..<n - 1] (mp_link_step pc ?q bs init_cb) m3 = ret m"
      "for_run [0..<n - 1] (pool_link_step bs init_cb) ?p0 = ret p'" "linking pc b bs n s ?rest ?q m p'" by blast
  have "p' = p" using new m(2) n by (simp add: a3_pool_new_def bs_def [symmetric])
  moreover have "mem_pool_new pc env m0 True sz n (2 ^ k) zero init_cb free_cb = ret (m, ?q)"
    using m(1) n nb(2) v st by (simp add: mem_pool_new_def bs_def [symmetric])
  ultimately show ?thesis using m(3) unfolding linking_def bs_def s_def b_def by blast
qed

lemma free_at:
  assumes at: "pool_at pc b bs n s ((blocks m0)(s \<mapsto> own)) (m, q) p" and v: "pool_view bs n p free"
    and pc: "codec_ok pc b (n * bs)" and cb: "keeps_size (p_free_cb p)" and m0: "s \<noteq> b" "blocks m0 s = None" "blocks m0 b = None"
  shows "\<exists>m'. mem_pool_free pc m q = ret (if p_free_cb p = None then [] else map (\<lambda>i. Ptr b (i * bs)) free, m') \<and> blocks m' = blocks m0"
proof -
  obtain B where B: "blocks m b = Some B" "bytes_hold pc b bs n B p" and f: "same_fields b q p" "mp_self q = Ptr s 0"
    "\<forall>c. c \<noteq> b \<longrightarrow> blocks m c = ((blocks m0)(s \<mapsto> own)) c" using pool_atD [OF at] .
  have sh: "pool_shape bs n p" "pool_chain bs p free (p_free p)" "set free \<subseteq> {..<n}" "codec_ok pc b (p_cap p)"
    using v pc by (auto simp: pool_view_def pool_shape_def)
  have q: "mp_free_cb q = p_free_cb p" "mp_obj_size q = p_obj_size p" "mp_free q = in_block b (p_free p)" "mp_data q = Ptr b 0"
    using f(1) by (simp_all add: same_fields_def)
  have "\<exists>B'. mp_walk pc q m (mp_free q) = ret (map (\<lambda>i. Ptr b (i * bs)) free, with_block m b B')"
    unfolding q(3) by (rule walk_at [OF sh(4) _ q(2) sh(1-3) B]) (simp add: q(1) cb)
  then have "\<exists>B'. (if mp_free_cb q = None then ret ([], m) else mp_walk pc q m (mp_free q)) =
      ret (if p_free_cb p = None then [] else map (\<lambda>i. Ptr b (i * bs)) free, with_block m b B')"
    using q(1) B(1) by (auto intro!: exI [of _ B])
  then obtain B' where w: "(if mp_free_cb q = None then ret ([], m) else mp_walk pc q m (mp_free q)) =
      ret (if p_free_cb p = None then [] else map (\<lambda>i. Ptr b (i * bs)) free, with_block m b B')" by blast
  let ?m = "with_block m b B'\<lparr>blocks := (blocks (with_block m b B'))(b := None, s := None)\<rparr>"
  have "mem_pool_free pc m q = ret (if p_free_cb p = None then [] else map (\<lambda>i. Ptr b (i * bs)) free, ?m)"
    unfolding mem_pool_free_def w using f m0(1) q(4) by (simp add: a3_shim_aligned_free_def c_free_def)
  moreover have "blocks ?m = blocks m0" using f(3) m0 by (auto simp: fun_eq_iff with_block_def)
  ultimately show ?thesis by blast
qed

section \<open>Property\<close>

text \<open>C5: a pool in memory behaves like a stack of free blocks. On a new pool of \<open>n\<close> blocks every sequence of allocations, of
  blocks given back, and of writes and reads of objects the client has makes no access C leaves undefined, and returns what it returns
  on a stack that starts with all blocks in the order of their addresses: an allocation gives the block last given back, or \<open>NULL\<close>
  exactly when all are in use; an object keeps its bytes, whatever is done to other blocks and to the links of the free ones, until its
  client writes them or, if the pool was made so, gives it back, which clears them; giving back \<open>NULL\<close> fails the assertion. At the
  end \<open>a3_pool_free\<close> calls \<open>free_cb\<close> once on each free block, and on no other, and nothing leaks: the memory is that of before
  the pool was made. The platform stores pointers as \<open>codec_ok\<close> says, and callbacks write only the object they get.\<close>

theorem pool_bytes_like_stack:
  assumes "mem_ok m0" "env_aligned env" "1 \<le> n" "k < 64" "sz + 16 + 2 ^ k < size_mod" "n * pool_block_size sz (2 ^ k) < size_mod"
    and "codec_ok pc (next_block m0 + 1) (n * pool_block_size sz (2 ^ k))" "keeps_size init_cb" "keeps_size free_cb"
    and "ops_ok (stack_exec (pool_block_size sz (2 ^ k)) sz zero) (pool_op_ok (pool_block_size sz (2 ^ k)) sz n) xs (new_stack n sz init_cb)"
  shows "\<exists>m q. mem_pool_new pc env m0 True sz n (2 ^ k) zero init_cb free_cb = ret (m, q) \<and>
    agree (\<lambda>(m1, q1) (free, obj). \<exists>m2. blocks m2 = blocks m0 \<and> mem_pool_free pc m1 q1 =
        ret (if free_cb = None then [] else map (\<lambda>i. ptr_plus (mp_data q) (i * pool_block_size sz (2 ^ k))) free, m2))
      (run_ops (mem_pool_exec pc) xs (m, q))
      (run_ops (stack_exec (pool_block_size sz (2 ^ k)) sz zero) xs (new_stack n sz init_cb))"
proof -
  let ?bs = "pool_block_size sz (2 ^ k)" and ?s = "next_block m0" and ?b = "next_block m0 + 1"
  let ?rest = "(blocks m0)(?s \<mapsto> replicate 48 0)"
  obtain p where p: "a3_pool_new True True sz n (2 ^ k) zero init_cb free_cb = ret p"
      "pool_stack ?bs sz n zero free_cb p (new_stack n sz init_cb)"
    using pool_new_ok [OF assms(3-6), of zero init_cb free_cb] by (auto simp: pool_stack_def)
  then obtain m q where q: "mem_pool_new pc env m0 True sz n (2 ^ k) zero init_cb free_cb = ret (m, q)"
      "pool_at pc ?b ?bs n ?s ?rest (m, q) p"
    using bytes_new [OF assms(1-8)] by blast
  then have d: "ptr_plus (mp_data q) a = Ptr ?b a" for a by (auto elim: pool_atD simp: same_fields_def)
  have m0: "?s \<noteq> ?b" "blocks m0 ?s = None" "blocks m0 ?b = None" using assms(1) by (simp_all add: mem_ok_def)
  have "bytes_stack pc ?b ?bs sz n zero free_cb ?s ?rest (m, q) (new_stack n sz init_cb)"
    using assms(7) p(2) q(2) by (auto simp: bytes_stack_def)
  from pool_bytes.runs_agree [OF this assms(10)]
  have "agree (\<lambda>(m1, q1) (free, obj). \<exists>m2. blocks m2 = blocks m0 \<and> mem_pool_free pc m1 q1 =
        ret (if free_cb = None then [] else map (\<lambda>i. Ptr ?b (i * ?bs)) free, m2))
      (run_ops (mem_pool_exec pc) xs (m, q)) (run_ops (stack_exec ?bs sz zero) xs (new_stack n sz init_cb))"
  proof (rule agree_mono)
    fix x st
    assume r: "bytes_stack pc ?b ?bs sz n zero free_cb ?s ?rest x st"
    obtain m1 q1 free obj where x: "x = (m1, q1)" "st = (free, obj)" by (metis surj_pair)
    obtain p1 where "pool_at pc ?b ?bs n ?s ?rest (m1, q1) p1" "pool_view ?bs n p1 free" "p_free_cb p1 = free_cb"
      using r by (auto simp: bytes_stack_def pool_stack_def x)
    then show "(\<lambda>(m1, q1) (free, obj). \<exists>m2. blocks m2 = blocks m0 \<and> mem_pool_free pc m1 q1 =
        ret (if free_cb = None then [] else map (\<lambda>i. Ptr ?b (i * ?bs)) free, m2)) x st"
      using free_at [OF _ _ assms(7) _ m0] assms(9) unfolding x by fastforce
  qed
  from this [folded d] q(1) show ?thesis by blast
qed

text \<open>Two blocks of 16 bytes on a platform that stores an offset as one byte.\<close>

definition ex_codec :: ptr_codec where
  "ex_codec = \<lparr>ptr_bytes = \<lambda>p. (case p of Null \<Rightarrow> 0 | Ptr b off \<Rightarrow> of_nat (off + 1)) # replicate 7 0,
     ptr_of = \<lambda>xs. if xs ! 0 = 0 then Null else Ptr 3 (unat (xs ! 0) - 1)\<rparr>"

lemma ex_codec_ok: "codec_ok ex_codec 3 32"
proof -
  have "unat (of_nat (off + 1) :: u8) = off + 1" if "off \<le> 32" for off
    using that by (simp add: unat_of_nat take_bit_nat_eq_self del: of_nat_add of_nat_Suc)
  moreover from this have "(of_nat (off + 1) :: u8) \<noteq> 0" if "off \<le> 32" for off
    using that by (metis Suc_eq_plus1 nat.distinct(1) unat_0)
  ultimately show ?thesis by (auto simp: codec_ok_def ex_codec_def simp del: of_nat_add of_nat_Suc)
qed

theorem pool_bytes_like_stack_witness:
  "\<exists>m q m1 q1 m2. mem_pool_new ex_codec ex_env ex_vmem True 4 2 (2 ^ 3) True None (Some (\<lambda>x. x)) = ret (m, q) \<and>
     run_ops (mem_pool_exec ex_codec) ex_pool_ops (m, q) = ret (ex_pool_results, m1, q1) \<and>
     mem_pool_free ex_codec m1 q1 = ret ([ptr_plus (mp_data q) 16], m2) \<and> blocks m2 = blocks ex_vmem"
proof -
  let ?s = "([0..<2], \<lambda>i. if i < 2 - 1 then callback_bytes None (replicate 4 (0 :: u8)) else replicate 4 0)"
  have u: "[0..<2] = [0, 1]" by (simp add: numeral_2_eq_2)
  have r: "\<exists>obj. run_ops (stack_exec 16 4 True) ex_pool_ops ?s = ret (ex_pool_results, [1], obj)"
    by (simp add: ex_pool_ops_def ex_pool_results_def callback_bytes_def u, simp add: numeral_eq_Suc)
  have "ops_ok (stack_exec 16 4 True) (pool_op_ok 16 4 2) ex_pool_ops ?s"
    by (simp add: ex_pool_ops_def in_use_def u)
  moreover have "next_block ex_vmem + 1 = 3" by (simp add: ex_vmem_def)
  ultimately show ?thesis
    using pool_bytes_like_stack [OF ex_vmem_ok, of ex_env 2 3 4 ex_codec None "Some (\<lambda>x. x)" True ex_pool_ops] r ex_codec_ok
    unfolding ex_block_size by (auto simp: agree_def size_mod_def ex_env_def keeps_size_def callback_bytes_def)
qed

end
