(* ===== verification/Pq.thy ===== *)
theory Pq
  imports Prelude
begin

text \<open>
  The priority queue of \<open>src/include/a3/pq.h\<close>, a binary heap in an array that is indexed from 1. The
  source calls the index functions \<open>pq_parent\<close> and \<open>pq_left_child\<close>, names it does not define
  (nor \<open>INLINE\<close>); they are read as \<open>a3_pq_parent\<close> and \<open>a3_pq_left_child\<close> here.
\<close>

section \<open>Definitions\<close>

record 'a pq =
  pq_data :: "'a list option"
  pq_len :: size_t
  pq_cap :: size_t
  pq_max_cap :: size_t

definition pq_parent :: "size_t \<Rightarrow> size_t" where
  "pq_parent i = i div 2"

definition pq_left_child :: "size_t \<Rightarrow> size_t" where
  "pq_left_child i = sz_mul i 2"

definition pq_right_child :: "size_t \<Rightarrow> size_t" where
  "pq_right_child i = sz_add (sz_mul i 2) 1"

text \<open>\<open>z\<close> is the value of zeroed memory.\<close>

definition pq_init :: "bool \<Rightarrow> 'a \<Rightarrow> 'a pq \<Rightarrow> size_t \<Rightarrow> size_t \<Rightarrow> 'a pq run" where
  "pq_init ok z q initial_cap max_cap = assert_c (pq_data q = None) (require ok Panicked
     (ret \<lparr>pq_data = Some (replicate initial_cap z), pq_len = 0, pq_cap = initial_cap, pq_max_cap = max_cap\<rparr>))"

definition pq_elements :: "'a pq \<Rightarrow> 'a list run" where
  "pq_elements q = (case pq_data q of None \<Rightarrow> fail Null_deref | Some d \<Rightarrow> ret d)"

definition pq_peek :: "'a pq \<Rightarrow> 'a option run" where
  "pq_peek q = (if pq_len q = 0 then ret None
     else bind_run (pq_elements q) (\<lambda>d. bind_run (array_get d 0) (\<lambda>x. ret (Some x))))"

definition pq_get :: "'a pq \<Rightarrow> size_t \<Rightarrow> 'a run" where
  "pq_get q i = assert_c (0 < i) (assert_c (i - 1 < pq_len q)
     (bind_run (pq_elements q) (\<lambda>d. array_get d (i - 1))))"

definition pq_set :: "'a pq \<Rightarrow> size_t \<Rightarrow> 'a \<Rightarrow> 'a pq run" where
  "pq_set q i item = assert_c (0 < i) (assert_c (i - 1 < pq_cap q)
     (bind_run (pq_elements q) (\<lambda>d. bind_run (array_set d (i - 1) item) (\<lambda>d'. ret (q\<lparr>pq_data := Some d'\<rparr>)))))"

text \<open>The loop of \<open>A3_PQ_ENQUEUE\<close>.\<close>

function pq_sift_up :: "('a \<Rightarrow> 'a \<Rightarrow> int) \<Rightarrow> 'a pq \<Rightarrow> 'a \<Rightarrow> size_t \<Rightarrow> ('a pq \<times> size_t) run" where
  "pq_sift_up cmp q item i =
     (if 1 < i then bind_run (pq_get q (pq_parent i)) (\<lambda>p.
        if 0 < cmp p item
        then bind_run (pq_get q (pq_parent i)) (\<lambda>p'. bind_run (pq_set q i p') (\<lambda>q'.
          pq_sift_up cmp q' item (pq_parent i)))
        else ret (q, i))
      else ret (q, i))"
  by pat_completeness auto
termination
  by (relation "measure (\<lambda>(cmp, q, item, i). i)") (auto simp: pq_parent_def)

declare pq_sift_up.simps [simp del]

definition pq_enqueue :: "('a \<Rightarrow> 'a \<Rightarrow> int) \<Rightarrow> 'a pq \<Rightarrow> 'a \<Rightarrow> 'a pq run" where
  "pq_enqueue cmp q item = assert_c (sz_add (pq_len q) 1 < pq_cap q)
     (let i = sz_add (pq_len q) 1 in
      bind_run (pq_sift_up cmp (q\<lparr>pq_len := i\<rparr>) item i) (\<lambda>(q', j). pq_set q' j item))"

text \<open>The loop of \<open>A3_PQ_HEAPIFY\<close>.\<close>

partial_function (option) pq_sift_down :: "('a \<Rightarrow> 'a \<Rightarrow> int) \<Rightarrow> 'a pq \<Rightarrow> 'a \<Rightarrow> size_t \<Rightarrow> ('a pq \<times> size_t) run" where
  "pq_sift_down cmp q item i =
     (if i < pq_len q div 2 then
        (let c = pq_left_child i in
         bind_run (if c < pq_len q then bind_run (pq_get q c) (\<lambda>l. bind_run (pq_get q (sz_add c 1)) (\<lambda>r.
             ret (if 0 < cmp l r then sz_add c 1 else c))) else ret c) (\<lambda>min_child.
         bind_run (pq_get q min_child) (\<lambda>x.
           if cmp item x \<le> 0 then ret (q, i)
           else bind_run (pq_set q i x) (\<lambda>q'. pq_sift_down cmp q' item min_child))))
      else ret (q, i))"

definition pq_heapify :: "('a \<Rightarrow> 'a \<Rightarrow> int) \<Rightarrow> 'a pq \<Rightarrow> size_t \<Rightarrow> 'a pq run" where
  "pq_heapify cmp q i = bind_run (pq_get q i) (\<lambda>item.
     bind_run (pq_sift_down cmp q item i) (\<lambda>(q', j). pq_set q' j item))"

text \<open>The argument \<open>this->len--\<close> of \<open>A3_PQ_GET\<close> is evaluated before its body runs: the body sees the old
  length as \<open>i\<close> and the new one as \<open>this->len\<close>.\<close>

definition pq_dequeue :: "('a \<Rightarrow> 'a \<Rightarrow> int) \<Rightarrow> 'a pq \<Rightarrow> ('a option \<times> 'a pq) run" where
  "pq_dequeue cmp q = assert_c (0 < pq_len q) (bind_run (pq_peek q) (\<lambda>r.
     let n = pq_len q; q1 = q\<lparr>pq_len := sz_sub n 1\<rparr> in
     bind_run (pq_get q1 n) (\<lambda>x. bind_run (pq_set q1 1 x) (\<lambda>q2.
     bind_run (pq_heapify cmp q2 1) (\<lambda>q3. ret (r, q3))))))"

section \<open>Heap order\<close>

text \<open>The comparator orders by a key; the first \<open>n\<close> elements are a heap.\<close>

definition cmp_by :: "('a \<Rightarrow> nat) \<Rightarrow> ('a \<Rightarrow> 'a \<Rightarrow> int) \<Rightarrow> bool" where
  "cmp_by key cmp \<longleftrightarrow> (\<forall>x y. 0 < cmp x y \<longleftrightarrow> key y < key x)"

definition pq_heap :: "('a \<Rightarrow> nat) \<Rightarrow> 'a list \<Rightarrow> nat \<Rightarrow> bool" where
  "pq_heap key d n \<longleftrightarrow> (\<forall>j. 2 \<le> j \<and> j \<le> n \<longrightarrow> key (d ! (j div 2 - 1)) \<le> key (d ! (j - 1)))"

definition pq_ok :: "('a \<Rightarrow> nat) \<Rightarrow> 'a pq \<Rightarrow> 'a list \<Rightarrow> bool" where
  "pq_ok key q d \<longleftrightarrow> pq_data q = Some d \<and> length d = pq_cap q \<and> pq_len q \<le> pq_cap q \<and> pq_cap q < size_mod \<and>
     pq_heap key d (pq_len q)"

text \<open>While an element is sifted up, the heap has a hole at \<open>i\<close>.\<close>

definition pq_hole :: "('a \<Rightarrow> nat) \<Rightarrow> 'a list \<Rightarrow> nat \<Rightarrow> 'a \<Rightarrow> nat \<Rightarrow> bool" where
  "pq_hole key d n item i \<longleftrightarrow> 1 \<le> i \<and> i \<le> n \<and> n \<le> length d \<and>
     (\<forall>j. 2 \<le> j \<and> j \<le> n \<longrightarrow> j \<noteq> i \<longrightarrow> j div 2 \<noteq> i \<longrightarrow> key (d ! (j div 2 - 1)) \<le> key (d ! (j - 1))) \<and>
     (\<forall>j. 2 \<le> j \<and> j \<le> n \<longrightarrow> j div 2 = i \<longrightarrow> key item \<le> key (d ! (j - 1)) \<and>
        (2 \<le> i \<longrightarrow> key (d ! (i div 2 - 1)) \<le> key (d ! (j - 1))))"

lemma pq_hole_start: "pq_heap key d n \<Longrightarrow> n < length d \<Longrightarrow> pq_hole key d (n + 1) item (n + 1)"
  by (auto simp: pq_heap_def pq_hole_def)

lemma pq_hole_fill:
  assumes "pq_hole key d n item i" "i = 1 \<or> key (d ! (i div 2 - 1)) \<le> key item"
  shows "pq_heap key (d[i - 1 := item]) n"
  unfolding pq_heap_def
proof (intro allI impI)
  fix j assume j: "2 \<le> j \<and> j \<le> n"
  let ?d = "d[i - 1 := item]"
  have i: "1 \<le> i" "i \<le> n" "n \<le> length d" using assms(1) by (simp_all add: pq_hole_def)
  have at: "?d ! (k - 1) = (if k = i then item else d ! (k - 1))" if "1 \<le> k" "k \<le> n" for k
    using that i by (auto simp: nth_list_update)
  have p: "1 \<le> j div 2" "j div 2 \<le> n" "j div 2 \<noteq> j" using j by auto
  consider "j = i" | "j div 2 = i" | "j \<noteq> i" "j div 2 \<noteq> i" by blast
  then show "key (?d ! (j div 2 - 1)) \<le> key (?d ! (j - 1))"
  proof cases
    case 1
    then have "i \<noteq> 1" "j div 2 \<noteq> i" using j p by simp_all
    then show ?thesis using assms(2) at [of j] at [of "j div 2"] j p 1 by simp
  next
    case 2
    then have "key item \<le> key (d ! (j - 1))" using assms(1) j by (simp add: pq_hole_def)
    moreover have "j \<noteq> i" using 2 p by simp
    ultimately show ?thesis using at [of j] at [of "j div 2"] j p 2 by simp
  next
    case 3
    then have "key (d ! (j div 2 - 1)) \<le> key (d ! (j - 1))" using assms(1) j by (simp add: pq_hole_def)
    then show ?thesis using at [of j] at [of "j div 2"] j p 3 by simp
  qed
qed

lemma pq_hole_move:
  assumes h: "pq_hole key d n item i" and i: "2 \<le> i" and gt: "key item < key (d ! (i div 2 - 1))"
  shows "pq_hole key (d[i - 1 := d ! (i div 2 - 1)]) n item (i div 2)"
proof -
  define p e where "p = i div 2" and "e = d[i - 1 := d ! (p - 1)]"
  have b: "i \<le> n" "n \<le> length d" using h by (simp_all add: pq_hole_def)
  have p: "1 \<le> p" "p \<le> n" "p \<noteq> i" "p div 2 \<noteq> i" "p div 2 \<noteq> p" using i b by (auto simp: p_def)
  have at: "e ! (k - 1) = (if k = i then d ! (p - 1) else d ! (k - 1))" if "1 \<le> k" "k \<le> n" for k
    using that i b by (auto simp: nth_list_update e_def)
  have ord: "key (d ! (j div 2 - 1)) \<le> key (d ! (j - 1))" if "2 \<le> j" "j \<le> n" "j \<noteq> i" "j div 2 \<noteq> i" for j
    using h that by (simp add: pq_hole_def)
  have below: "key (d ! (p - 1)) \<le> key (d ! (j - 1))" if "2 \<le> j" "j \<le> n" "j div 2 = i" for j
    using h that i by (simp add: pq_hole_def p_def)
  have 1: "key (e ! (j div 2 - 1)) \<le> key (e ! (j - 1))"
    if j: "2 \<le> j" "j \<le> n" "j \<noteq> p" "j div 2 \<noteq> p" for j
  proof -
    have q: "1 \<le> j div 2" "j div 2 \<le> n" "j \<noteq> i" "j div 2 \<noteq> j" using j by (auto simp: p_def)
    show ?thesis
    proof (cases "j div 2 = i")
      case True
      then show ?thesis using at [of j] at [of i] below [of j] j q i b by simp
    next
      case False
      then show ?thesis using at [of j] at [of "j div 2"] ord [of j] j q by simp
    qed
  qed
  have 2: "key item \<le> key (e ! (j - 1)) \<and> (2 \<le> p \<longrightarrow> key (e ! (p div 2 - 1)) \<le> key (e ! (j - 1)))"
    if j: "2 \<le> j" "j \<le> n" "j div 2 = p" for j
  proof -
    have gp: "key (d ! (p - 1)) \<le> key (e ! (j - 1))"
      using at [of j] ord [of j] j p(3) by (cases "j = i") simp_all
    have "2 \<le> p \<Longrightarrow> key (d ! (p div 2 - 1)) \<le> key (d ! (p - 1))" using ord [of p] p by simp
    moreover have "2 \<le> p \<Longrightarrow> e ! (p div 2 - 1) = d ! (p div 2 - 1)" using at [of "p div 2"] p by auto
    ultimately show ?thesis using gp gt by (auto simp: p_def)
  qed
  have "pq_hole key e n item p" unfolding pq_hole_def using 1 2 p(1,2) b by (simp add: e_def)
  then show ?thesis by (simp add: e_def p_def)
qed

end
