(* ===== verification/Pq_Props.thy ===== *)
theory Pq_Props
  imports Pq
begin

text \<open>
  The properties of the priority queue: enqueueing is right, dequeueing is not.
\<close>

section \<open>Sifting up\<close>

lemma pq_get_ok:
  "pq_data q = Some d \<Longrightarrow> 1 \<le> i \<Longrightarrow> i \<le> pq_len q \<Longrightarrow> pq_len q \<le> length d \<Longrightarrow> pq_get q i = ret (d ! (i - 1))"
  by (cases i) (simp_all add: pq_get_def pq_elements_def)

lemma pq_set_ok:
  "pq_data q = Some d \<Longrightarrow> length d = pq_cap q \<Longrightarrow> 1 \<le> i \<Longrightarrow> i \<le> pq_cap q \<Longrightarrow>
   pq_set q i x = ret (q\<lparr>pq_data := Some (d[i - 1 := x])\<rparr>)"
  by (cases i) (simp_all add: pq_set_def pq_elements_def)

text \<open>Moving the parent into the hole and the hole to the parent keeps the elements.\<close>

lemma mset_move_hole:
  assumes "i < n" "p < n" "i \<noteq> p" "n \<le> length d"
  shows "mset (take n (d[i := d ! p, p := x])) = mset (take n (d[i := x]))"
proof -
  let ?t = "(take n d)[i := x]"
  have "?t[i := ?t ! p, p := ?t ! i] = (take n d)[i := d ! p, p := x]" using assms by (simp add: list_update_overwrite)
  moreover have "mset (?t[i := ?t ! p, p := ?t ! i]) = mset ?t" using assms by (intro mset_swap) simp_all
  ultimately show ?thesis by (simp add: take_update_swap)
qed

lemma pq_sift_up_ok:
  assumes "cmp_by key cmp" "pq_data q = Some d" "length d = pq_cap q" "pq_len q \<le> pq_cap q"
    and "pq_hole key d (pq_len q) item i"
  shows "\<exists>d' j. pq_sift_up cmp q item i = ret (q\<lparr>pq_data := Some d'\<rparr>, j) \<and> length d' = pq_cap q \<and>
    1 \<le> j \<and> j \<le> pq_len q \<and> pq_heap key (d'[j - 1 := item]) (pq_len q) \<and>
    mset (take (pq_len q) (d'[j - 1 := item])) = mset (take (pq_len q) (d[i - 1 := item]))"
  using assms(2-5)
proof (induction i arbitrary: q d rule: less_induct)
  case (less i)
  let ?n = "pq_len q"
  have i: "1 \<le> i" "i \<le> ?n" "?n \<le> length d" using less.prems(4) by (simp_all add: pq_hole_def)
  have q: "q\<lparr>pq_data := Some d\<rparr> = q" using less.prems(1) by simp
  have stop: ?case if "pq_sift_up cmp q item i = ret (q, i)" "i = 1 \<or> key (d ! (i div 2 - 1)) \<le> key item"
    using pq_hole_fill [OF less.prems(4) that(2)] that(1) less.prems(2) i q by (intro exI [of _ d] exI [of _ i]) simp
  show ?case
  proof (cases "1 < i")
    case False
    then show ?thesis using i by (intro stop) (simp_all add: pq_sift_up.simps [of cmp q])
  next
    case True
    let ?p = "i div 2"
    have p: "1 \<le> ?p" "?p < i" "?p \<le> ?n" using True i by auto
    have get: "pq_get q ?p = ret (d ! (?p - 1))" using pq_get_ok [OF less.prems(1) p(1,3) i(3)] .
    show ?thesis
    proof (cases "key item < key (d ! (?p - 1))")
      case False
      then have "\<not> 0 < cmp (d ! (?p - 1)) item" using assms(1) by (simp add: cmp_by_def)
      then show ?thesis using True False get by (intro stop) (simp_all add: pq_sift_up.simps [of cmp q] pq_parent_def)
    next
      case gt: True
      let ?d = "d[i - 1 := d ! (?p - 1)]"
      let ?q = "q\<lparr>pq_data := Some ?d\<rparr>"
      have "0 < cmp (d ! (?p - 1)) item" using assms(1) gt by (simp add: cmp_by_def)
      moreover have "pq_set q i (d ! (?p - 1)) = ret ?q" using pq_set_ok [OF less.prems(1,2) i(1)] i less.prems(3) by simp
      ultimately have step: "pq_sift_up cmp q item i = pq_sift_up cmp ?q item ?p"
        using True get by (subst pq_sift_up.simps) (simp add: pq_parent_def)
      have "pq_hole key ?d ?n item ?p" using pq_hole_move [OF less.prems(4) _ gt] True by simp
      then obtain d' j where r: "pq_sift_up cmp ?q item ?p = ret (?q\<lparr>pq_data := Some d'\<rparr>, j)" "length d' = pq_cap q"
          "1 \<le> j" "j \<le> ?n" "pq_heap key (d'[j - 1 := item]) ?n"
          "mset (take ?n (d'[j - 1 := item])) = mset (take ?n (?d[?p - 1 := item]))"
        using less.IH [OF p(2), of ?q ?d] less.prems(2,3) by auto
      have "mset (take ?n (?d[?p - 1 := item])) = mset (take ?n (d[i - 1 := item]))"
        using p i by (intro mset_move_hole) auto
      then show ?thesis using r step by (intro exI [of _ d'] exI [of _ j]) simp
    qed
  qed
qed

section \<open>An example queue\<close>

definition ex_pq :: "nat pq" where
  "ex_pq = \<lparr>pq_data = Some [2, 5, 3, 0, 0, 0], pq_len = 3, pq_cap = 6, pq_max_cap = 6\<rparr>"

definition ex_cmp :: "nat \<Rightarrow> nat \<Rightarrow> int" where
  "ex_cmp x y = int x - int y"

lemma ex_cmp_by: "cmp_by (\<lambda>x. x) ex_cmp"
  by (simp add: cmp_by_def ex_cmp_def)

lemma ex_pq_ok: "pq_ok (\<lambda>x. x) ex_pq [2, 5, 3, 0, 0, 0]"
proof -
  have "pq_heap (\<lambda>x. x) [2, 5, 3, 0, 0, 0] 3" unfolding pq_heap_def
  proof (intro allI impI)
    fix j :: nat
    assume "2 \<le> j \<and> j \<le> 3"
    then consider "j = 2" | "j = 3" by linarith
    then show "[2, 5, 3, 0, 0, 0] ! (j div 2 - 1) \<le> [2, 5, 3, 0, 0, 0 :: nat] ! (j - 1)" by cases simp_all
  qed
  then show ?thesis by (simp add: pq_ok_def ex_pq_def size_mod_def)
qed

section \<open>Dequeueing\<close>

lemma dequeue_fails:
  assumes "pq_data q = Some d" "length d = pq_cap q" "pq_len q \<le> pq_cap q" "pq_cap q < size_mod"
  shows "pq_dequeue cmp q = fail Assert_failed"
proof (cases "pq_len q = 0")
  case False
  then show ?thesis using assms
    by (simp add: pq_dequeue_def pq_peek_def pq_elements_def pq_get_def Let_def)
qed (simp add: pq_dequeue_def)

section \<open>Properties\<close>

text \<open>Enqueueing keeps the heap order and adds exactly the item, as long as there are two free
  slots (the code asserts that one stays free).\<close>

theorem pq_enqueue_adds:
  assumes "cmp_by key cmp" "pq_ok key q d" "pq_len q + 1 < pq_cap q"
  shows "\<exists>q' d'. pq_enqueue cmp q item = ret q' \<and> pq_ok key q' d' \<and> pq_cap q' = pq_cap q \<and> pq_len q' = pq_len q + 1 \<and>
    mset (take (pq_len q') d') = add_mset item (mset (take (pq_len q) d))"
proof -
  let ?n = "pq_len q" let ?q = "q\<lparr>pq_len := ?n + 1\<rparr>"
  have q: "pq_data q = Some d" "length d = pq_cap q" "pq_cap q < size_mod" "pq_heap key d ?n"
    using assms(2) by (simp_all add: pq_ok_def)
  have "pq_hole key d (?n + 1) item (?n + 1)" using pq_hole_start [OF q(4)] assms(3) q(2) by simp
  then obtain d' j where r: "pq_sift_up cmp ?q item (?n + 1) = ret (?q\<lparr>pq_data := Some d'\<rparr>, j)" "length d' = pq_cap q"
      "1 \<le> j" "j \<le> ?n + 1" "pq_heap key (d'[j - 1 := item]) (?n + 1)"
      "mset (take (?n + 1) (d'[j - 1 := item])) = mset (take (?n + 1) (d[?n := item]))"
    using pq_sift_up_ok [OF assms(1), of ?q d item "?n + 1"] q(1,2) assms(3) by auto
  let ?r = "q\<lparr>pq_len := ?n + 1, pq_data := Some (d'[j - 1 := item])\<rparr>"
  have "pq_enqueue cmp q item = ret ?r"
    using r(1-4) assms(3) q(3) pq_set_ok [of "?q\<lparr>pq_data := Some d'\<rparr>" d' j item] by (simp add: pq_enqueue_def)
  moreover have "pq_ok key ?r (d'[j - 1 := item])" using r(2,5) assms(3) q(3) by (simp add: pq_ok_def)
  moreover have "mset (take (?n + 1) (d[?n := item])) = add_mset item (mset (take ?n d))"
    using assms(3) q(2) by (simp add: take_Suc_conv_app_nth)
  ultimately show ?thesis using r(6) by (intro exI [of _ ?r] exI [of _ "d'[j - 1 := item]"]) simp
qed

theorem pq_enqueue_adds_witness:
  "\<exists>q' d'. pq_enqueue ex_cmp ex_pq 1 = ret q' \<and> pq_ok (\<lambda>x. x) q' d' \<and> mset (take 4 d') = {#1, 2, 5, 3#}"
  using pq_enqueue_adds [OF ex_cmp_by ex_pq_ok, of 1] by (auto simp: ex_pq_def numeral_eq_Suc)

text \<open>The element \<open>A3_PQ_PEEK\<close> returns is a smallest one, and it returns \<open>NULL\<close> exactly on an empty queue.\<close>

theorem pq_peek_is_minimum:
  assumes "pq_ok key q d"
  shows "if pq_len q = 0 then pq_peek q = ret None
    else \<exists>x. pq_peek q = ret (Some x) \<and> x \<in> set (take (pq_len q) d) \<and> (\<forall>y \<in> set (take (pq_len q) d). key x \<le> key y)"
proof (cases "pq_len q = 0")
  case False
  have q: "pq_data q = Some d" "pq_len q \<le> length d" "pq_heap key d (pq_len q)"
    using assms by (simp_all add: pq_ok_def)
  have min: "key (d ! 0) \<le> key (d ! (j - 1))" if "1 \<le> j" "j \<le> pq_len q" for j
    using that
  proof (induction j rule: less_induct)
    case (less j)
    show ?case
    proof (cases "j = 1")
      case False
      then have "j div 2 < j" "1 \<le> j div 2" "j div 2 \<le> pq_len q" "2 \<le> j" using less.prems by auto
      then show ?thesis using less.IH [of "j div 2"] q(3) less.prems unfolding pq_heap_def by (meson order_trans)
    qed simp
  qed
  have "key (d ! 0) \<le> key y" if y: "y \<in> set (take (pq_len q) d)" for y
  proof -
    obtain i where "i < length (take (pq_len q) d)" "y = take (pq_len q) d ! i"
      using y by (auto simp only: in_set_conv_nth)
    then have "i < pq_len q" "y = d ! i" by simp_all
    then show ?thesis using min [of "i + 1"] by simp
  qed
  moreover have "take (pq_len q) d ! 0 \<in> set (take (pq_len q) d)" using False q(2) by (intro nth_mem) simp
  then have "d ! 0 \<in> set (take (pq_len q) d)" using False by simp
  moreover have "0 < length d" using False q(2) by linarith
  then have "pq_peek q = ret (Some (d ! 0))" using False q(1) by (simp add: pq_peek_def pq_elements_def)
  ultimately show ?thesis using False by auto
qed (simp add: pq_peek_def)

theorem pq_peek_is_minimum_witness: "pq_peek ex_pq = ret (Some 2)"
  using pq_peek_is_minimum [OF ex_pq_ok] by (auto simp: ex_pq_def pq_peek_def pq_elements_def)

text \<open>C38: \<open>A3_PQ_DEQUEUE\<close> never returns an element: on any queue its own assertion fails, as it
  takes the last element by an index that the length, already decremented, no longer covers.
  \<open>A3_PQ_HEAPIFY\<close>, on which it relies, changes nothing in a queue of up to three elements,
  whatever their order: its loop stops before the last parent.\<close>

theorem pq_dequeue_asserts:
  assumes "pq_data q = Some d" "length d = pq_cap q" "pq_len q \<le> pq_cap q" "pq_cap q < size_mod"
  shows "pq_dequeue cmp q = fail Assert_failed \<and>
    (1 \<le> pq_len q \<and> pq_len q \<le> 3 \<longrightarrow> pq_heapify cmp q 1 = ret q)"
proof
  show "pq_dequeue cmp q = fail Assert_failed" using dequeue_fails [OF assms] .
  show "1 \<le> pq_len q \<and> pq_len q \<le> 3 \<longrightarrow> pq_heapify cmp q 1 = ret q"
  proof
    assume n: "1 \<le> pq_len q \<and> pq_len q \<le> 3"
    then have "pq_get q 1 = ret (d ! 0)" using pq_get_ok [OF assms(1), of 1] assms(2,3) by simp
    moreover have "\<not> 1 < pq_len q div 2" using n by linarith
    then have "pq_sift_down cmp q (d ! 0) 1 = ret (q, 1)" by (subst pq_sift_down.simps) simp
    moreover have "pq_set q 1 (d ! 0) = ret q"
      using pq_set_ok [OF assms(1,2), of 1 "d ! 0"] assms(1-3) n by simp
    ultimately show "pq_heapify cmp q 1 = ret q" by (simp add: pq_heapify_def)
  qed
qed

theorem pq_dequeue_asserts_witness:
  "pq_dequeue ex_cmp ex_pq = fail Assert_failed \<and> pq_heapify ex_cmp (ex_pq\<lparr>pq_data := Some [9, 5, 3, 0, 0, 0]\<rparr>) 1 =
    ret (ex_pq\<lparr>pq_data := Some [9, 5, 3, 0, 0, 0]\<rparr>)"
  using pq_dequeue_asserts [of ex_pq _ ex_cmp] pq_dequeue_asserts [of "ex_pq\<lparr>pq_data := Some [9, 5, 3, 0, 0, 0]\<rparr>" _ ex_cmp]
  by (simp add: ex_pq_def size_mod_def)

end
