(* ===== verification/Pq_Seq.thy ===== *)
theory Pq_Seq
  imports Pq_Props Operations
begin

text \<open>
  Sequences of operations on a priority queue, against a multiset.
\<close>

section \<open>Operations\<close>

datatype 'a pq_op = Enqueue 'a | Peek | Dequeue

text \<open>Of an element only the key is compared, as the code does not say which of several smallest ones it returns.\<close>

datatype pq_result = Added | Least "nat option"

fun pq_exec :: "('a \<Rightarrow> nat) \<Rightarrow> ('a \<Rightarrow> 'a \<Rightarrow> int) \<Rightarrow> 'a pq_op \<Rightarrow> 'a pq \<Rightarrow> (pq_result \<times> 'a pq) run" where
  "pq_exec key cmp (Enqueue x) q = bind_run (pq_enqueue cmp q x) (\<lambda>q'. ret (Added, q'))"
| "pq_exec key cmp Peek q = bind_run (pq_peek q) (\<lambda>r. ret (Least (map_option key r), q))"
| "pq_exec key cmp Dequeue q = bind_run (pq_dequeue cmp q) (\<lambda>(r, q'). ret (Least (map_option key r), q'))"

definition least_key :: "('a \<Rightarrow> nat) \<Rightarrow> 'a multiset \<Rightarrow> nat option" where
  "least_key key b = (if b = {#} then None else Some (Min (key ` set_mset b)))"

fun bag_exec :: "('a \<Rightarrow> nat) \<Rightarrow> size_t \<Rightarrow> 'a pq_op \<Rightarrow> 'a multiset \<Rightarrow> (pq_result \<times> 'a multiset) run" where
  "bag_exec key c (Enqueue x) b = assert_c (size b + 1 < c) (ret (Added, add_mset x b))"
| "bag_exec key c Peek b = ret (Least (least_key key b), b)"
| "bag_exec key c Dequeue b = fail Assert_failed"

definition pq_bag :: "('a \<Rightarrow> nat) \<Rightarrow> size_t \<Rightarrow> 'a pq \<Rightarrow> 'a multiset \<Rightarrow> bool" where
  "pq_bag key c q b \<longleftrightarrow> pq_cap q = c \<and> (pq_len q = 0 \<or> pq_len q < c) \<and> (\<exists>d. pq_ok key q d \<and> b = mset (take (pq_len q) d))"

section \<open>Each operation\<close>

lemma pq_bag_size: "pq_bag key c q b \<Longrightarrow> size b = pq_len q"
  by (auto simp: pq_bag_def pq_ok_def)

definition peeks_least :: "('a \<Rightarrow> nat) \<Rightarrow> 'a pq \<Rightarrow> 'a multiset \<Rightarrow> bool" where
  "peeks_least key q b \<longleftrightarrow> (if b = {#} then pq_peek q = ret None
     else \<exists>x. pq_peek q = ret (Some x) \<and> x \<in># b \<and> (\<forall>y \<in># b. key x \<le> key y))"

lemma pq_bag_peek: "pq_bag key c q b \<Longrightarrow> peeks_least key q b"
  using pq_peek_is_minimum [of key q] unfolding pq_bag_def peeks_least_def
  by (elim conjE exE) (auto simp: pq_ok_def split: if_splits)

lemma peeks_least_key:
  assumes "peeks_least key q b"
  shows "\<exists>r. pq_peek q = ret r \<and> map_option key r = least_key key b"
proof (cases "b = {#}")
  case False
  then obtain x where x: "pq_peek q = ret (Some x)" "x \<in># b" "\<forall>y \<in># b. key x \<le> key y"
    using assms by (auto simp: peeks_least_def)
  then have "Min (key ` set_mset b) = key x" by (intro Min_eqI) auto
  then show ?thesis using x(1) False by (simp add: least_key_def)
qed (use assms in \<open>simp add: peeks_least_def least_key_def\<close>)

lemma pq_exec_bag:
  assumes cmp: "cmp_by key cmp" and b: "pq_bag key c q b"
  shows "agree (pq_bag key c) (pq_exec key cmp x q) (bag_exec key c x b)"
proof (cases x)
  case (Enqueue y)
  obtain d where d: "pq_cap q = c" "pq_ok key q d" "b = mset (take (pq_len q) d)" "pq_len q = 0 \<or> pq_len q < c"
    using b by (auto simp: pq_bag_def)
  note n = pq_bag_size [OF b]
  show ?thesis
  proof (cases "pq_len q + 1 < c")
    case True
    then obtain q' d' where q': "pq_enqueue cmp q y = ret q'" "pq_ok key q' d'" "pq_cap q' = c" "pq_len q' = pq_len q + 1"
        "mset (take (pq_len q') d') = add_mset y b"
      using pq_enqueue_adds [OF cmp d(2), of y] d(1,3) by auto
    then have "pq_bag key c q' (add_mset y b)" using q'(2-5) True by (auto simp: pq_bag_def)
    then show ?thesis using q'(1) True n Enqueue by auto
  next
    case False
    have "pq_len q + 1 < size_mod" using d by (auto simp: pq_ok_def size_mod_def)
    then show ?thesis using False Enqueue n d(1) by (simp add: pq_enqueue_def)
  qed
next
  case Peek
  then show ?thesis using peeks_least_key [OF pq_bag_peek [OF b]] b by auto
next
  case Dequeue
  then show ?thesis using dequeue_fails [of q _ cmp] b by (auto simp: pq_bag_def pq_ok_def)
qed

lemma pq_simulates: "cmp_by key cmp \<Longrightarrow> simulation (pq_exec key cmp) (bag_exec key c) (\<lambda>b x. True) (pq_bag key c)"
  by unfold_locales (rule pq_exec_bag)

section \<open>Property\<close>

text \<open>C32: a priority queue is equivalent to a multiset, as far as it works. From \<open>A3_PQ_INIT\<close> on, every sequence of enqueues
  and peeks makes no invalid access and returns what it returns on a multiset: an enqueue adds its element as long as two slots are
  free, and otherwise fails its assertion; a peek gives an element of the queue with the least key, or \<open>NULL\<close> exactly on an
  empty queue. A dequeue fails an assertion wherever it stands.\<close>

theorem pq_runs_like_bag:
  assumes "cmp_by key cmp" "pq_data q = None" "c < size_mod"
  shows "\<exists>q1. pq_init True z q c mc = ret q1 \<and>
    agree (\<lambda>q' b. if b = {#} then pq_peek q' = ret None
        else \<exists>x. pq_peek q' = ret (Some x) \<and> x \<in># b \<and> (\<forall>y \<in># b. key x \<le> key y))
      (run_ops (pq_exec key cmp) xs q1) (run_ops (bag_exec key c) xs {#})"
proof -
  let ?q = "\<lparr>pq_data = Some (replicate c z), pq_len = 0, pq_cap = c, pq_max_cap = mc\<rparr>"
  have "pq_bag key c ?q {#}" using assms(3) by (simp add: pq_bag_def pq_ok_def pq_heap_def)
  from simulation.runs_agree [OF pq_simulates [OF assms(1)] this ops_ok_always]
  have "agree (peeks_least key) (run_ops (pq_exec key cmp) xs ?q) (run_ops (bag_exec key c) xs {#})"
    by (rule agree_mono) (rule pq_bag_peek)
  moreover have "pq_init True z q c mc = ret ?q" using assms(2) by (simp add: pq_init_def)
  ultimately show ?thesis unfolding peeks_least_def [abs_def] by blast
qed

text \<open>Three elements go into a queue of five slots; a dequeue fails.\<close>

theorem pq_runs_like_bag_witness:
  "\<exists>q q'. pq_init True 0 (ex_pq\<lparr>pq_data := None\<rparr>) 5 5 = ret q \<and>
     run_ops (pq_exec (\<lambda>x. x) ex_cmp) [Peek, Enqueue 5, Enqueue 2, Peek, Enqueue 3, Peek] q =
       ret ([Least None, Added, Added, Least (Some 2), Added, Least (Some 2)], q') \<and> pq_peek q' = ret (Some 2) \<and>
     run_ops (pq_exec (\<lambda>x. x) ex_cmp) [Enqueue 5, Dequeue] q = fail Assert_failed"
proof -
  let ?xs = "[Peek, Enqueue 5, Enqueue 2, Peek, Enqueue 3, Peek]"
  have "run_ops (bag_exec (\<lambda>x. x) 5) ?xs {#} = ret ([Least None, Added, Added, Least (Some 2), Added, Least (Some 2)], {#2, 3, 5#})"
    "run_ops (bag_exec (\<lambda>x. x) 5) [Enqueue (5::nat), Dequeue] {#} = fail Assert_failed"
    by (simp_all add: least_key_def)
  then show ?thesis
    using pq_runs_like_bag [OF ex_cmp_by, of "ex_pq\<lparr>pq_data := None\<rparr>" 5 0 5 ?xs]
      pq_runs_like_bag [OF ex_cmp_by, of "ex_pq\<lparr>pq_data := None\<rparr>" 5 0 5 "[Enqueue 5, Dequeue]"]
    by (auto simp: agree_def size_mod_def)
qed

end
