(* ===== verification/Log.thy ===== *)
theory Log
  imports Str_Search
begin

text \<open>
  Logging, \<open>src/log.c\<close> and \<open>src/include/a3/log_internal.h\<close>: the runtime level, taken from the environment, and
  the filter. What a call formats is given as the text; an output stream is a number, and
  what was written to it is returned.
\<close>

section \<open>Levels\<close>

type_synonym log_level = int

definition log_trace :: log_level where "log_trace = 0"
definition log_debug :: log_level where "log_debug = 1"
definition log_info :: log_level where "log_info = 2"
definition log_warn :: log_level where "log_warn = 3"
definition log_error :: log_level where "log_error = 4"
definition log_invalid :: log_level where "log_invalid = - 1"

text \<open>The names of the levels, in the order in which they are tried.\<close>

definition log_names :: "(u8 list \<times> log_level) list" where
  "log_names = [([116, 114, 97, 99, 101], log_trace), ([100, 101, 98, 117, 103], log_debug),
     ([105, 110, 102, 111], log_info), ([119, 97, 114, 110], log_warn), ([101, 114, 114, 111, 114], log_error)]"

text \<open>The static variables \<open>LOG_OUTPUT\<close> and \<open>A3_PRIV_LOG_LEVEL\<close>.\<close>

record log_state =
  log_output :: "nat option"
  log_priv_level :: log_level

definition log_start :: log_state where
  "log_start = \<lparr>log_output = None, log_priv_level = log_invalid\<rparr>"

section \<open>Operations\<close>

text \<open>\<open>A3_CS\<close> of a literal: a block of its own, with the zero byte C adds.\<close>

definition cs_literal :: "mem \<Rightarrow> u8 list \<Rightarrow> mem \<times> a3_cstring" where
  "cs_literal m name = (let (m', p) = mem_new_block m (name @ [0]) in (m', a3_cstring_new p (length name)))"

fun log_match :: "mem \<Rightarrow> a3_cstring \<Rightarrow> (u8 list \<times> log_level) list \<Rightarrow> log_level \<Rightarrow> log_level run" where
  "log_match m env [] level = ret level"
| "log_match m env ((name, l) # rest) level =
     (let (m', lit) = cs_literal m name in
      bind_run (a3_string_cmpi m' env lit) (\<lambda>c. if c = 0 then ret l else log_match m env rest level))"

text \<open>\<open>env\<close> is what \<open>getenv\<close> returns.\<close>

definition a3_log_init :: "mem \<Rightarrow> ptr \<Rightarrow> nat option \<Rightarrow> log_level \<Rightarrow> log_state run" where
  "a3_log_init m env out level = bind_run (a3_cstring_from m env) (\<lambda>s.
     bind_run (if s_ptr s \<noteq> Null then log_match m s log_names level else ret level) (\<lambda>l.
       ret \<lparr>log_output = out, log_priv_level = l\<rparr>))"

definition a3_log_init_default :: "mem \<Rightarrow> ptr \<Rightarrow> nat \<Rightarrow> log_state run" where
  "a3_log_init_default m env err = a3_log_init m env (Some err) log_invalid"

definition a3_log_impl :: "log_state \<Rightarrow> u8 list \<Rightarrow> (nat \<times> u8 list) run" where
  "a3_log_impl st msg = (case log_output st of None \<Rightarrow> fail Null_deref | Some f \<Rightarrow> ret (f, msg @ [10]))"

definition a3_log :: "mem \<Rightarrow> ptr \<Rightarrow> nat \<Rightarrow> log_state \<Rightarrow> log_level \<Rightarrow> u8 list \<Rightarrow>
    (log_state \<times> (nat \<times> u8 list) option) run" where
  "a3_log m env err st level msg =
     bind_run (if level = log_invalid then a3_log_init_default m env err else ret st) (\<lambda>st1.
       if level < log_priv_level st1 then ret (st1, None)
       else bind_run (a3_log_impl st1 msg) (\<lambda>w. ret (st1, Some w)))"

section \<open>The macros of log.h\<close>

text \<open>The text of a call: \<open>"%s (%d): "\<close> with the file and the line, then the message.\<close>

definition log_prefix :: "u8 list \<Rightarrow> nat \<Rightarrow> u8 list" where
  "log_prefix file line = file @ [32, 40] @ dec_text line @ [41, 58, 32]"

definition a3_log_f :: "mem \<Rightarrow> ptr \<Rightarrow> nat \<Rightarrow> log_state \<Rightarrow> log_level \<Rightarrow> u8 list \<Rightarrow> nat \<Rightarrow> u8 list \<Rightarrow>
    (log_state \<times> (nat \<times> u8 list) option) run" where
  "a3_log_f m env err st level file line msg = a3_log m env err st level (log_prefix file line @ msg)"

text \<open>
  \<open>A3_TRACE\<close> to \<open>A3_ERROR\<close> and their \<open>_F\<close> forms: nothing is compiled for a level below \<open>A3_LOG_LEVEL\<close>, here \<open>compiled\<close>.
  \<open>A3_ERRNO\<close> puts the text of the error and its number before the message.
\<close>

definition log_macro :: "log_level \<Rightarrow> log_level \<Rightarrow> mem \<Rightarrow> ptr \<Rightarrow> nat \<Rightarrow> log_state \<Rightarrow> u8 list \<Rightarrow> nat \<Rightarrow> u8 list \<Rightarrow>
    (log_state \<times> (nat \<times> u8 list) option) run" where
  "log_macro compiled level m env err st file line msg =
     (if compiled \<le> level then a3_log_f m env err st level file line msg else ret (st, None))"

definition dec_int :: "int \<Rightarrow> u8 list" where
  "dec_int n = (if n < 0 then 45 # dec_text (nat (- n)) else dec_text (nat n))"

text \<open>
  The shims of \<open>src/shim/strerror\<close>, as what they do to the buffer they are given: the C string they return. The GNU
  function may return a string of its own (\<open>Inl\<close>) or fill the buffer with the text (\<open>Inr\<close>).
\<close>

definition strerror_fill :: "u8 list \<Rightarrow> u8 list \<Rightarrow> u8 list" where
  "strerror_fill msg buf = (let out = take (length buf - 1) msg @ [0] in out @ drop (length out) buf)"

fun shim_strerror_gnu :: "u8 list + u8 list \<Rightarrow> u8 list \<Rightarrow> u8 list" where
  "shim_strerror_gnu (Inl own) buf = own @ [0]"
| "shim_strerror_gnu (Inr msg) buf = strerror_fill msg buf"

definition shim_strerror_xsi :: "u8 list \<Rightarrow> u8 list \<Rightarrow> u8 list" where
  "shim_strerror_xsi msg buf = strerror_fill msg buf"

definition shim_strerror_s :: "u8 list \<Rightarrow> u8 list \<Rightarrow> u8 list" where
  "shim_strerror_s msg buf = strerror_fill msg buf"

text \<open>\<open>A3_ERRNO\<close> gives the shim a buffer of 32 zero bytes.\<close>

definition log_errno :: "log_level \<Rightarrow> mem \<Rightarrow> ptr \<Rightarrow> nat \<Rightarrow> log_state \<Rightarrow> u8 list \<Rightarrow> nat \<Rightarrow> (u8 list \<Rightarrow> u8 list) \<Rightarrow> int \<Rightarrow> u8 list \<Rightarrow>
    (log_state \<times> (nat \<times> u8 list) option) run" where
  "log_errno compiled m env err st file line strerror code msg =
     (if compiled \<le> log_error
      then a3_log_f m env err st log_error file line
        (takeWhile (\<lambda>x. x \<noteq> 0) (strerror (replicate 32 0)) @ [32, 40] @ dec_int code @ [41, 32] @ msg)
      else ret (st, None))"

section \<open>Lemmas\<close>

lemma string_cmpi_correct:
  assumes "mem_load m (s_ptr l) (s_len l) = ret xs" and "mem_load m (s_ptr r) (s_len r) = ret ys"
  shows "\<exists>c. a3_string_cmpi m l r = ret c \<and>
    (c = 0 \<longleftrightarrow> length xs = length ys \<and> map c_tolower (c_prefix xs) = map c_tolower (c_prefix ys))"
proof -
  have p: "s_ptr l \<noteq> Null" "s_ptr r \<noteq> Null" "length xs = s_len l" "length ys = s_len r"
    using assms by (auto elim: mem_load_retE)
  show ?thesis
  proof (cases "s_len l = s_len r")
    case True
    then show ?thesis using p strncmp_correct [OF assms(1), of "s_ptr r" ys 0 c_tolower] assms(2)
        cmp_bytes_zero_iff [of xs ys c_tolower]
      by (simp add: a3_string_cmpi_def a3_shim_strncasecmp_def)
  qed (use p in \<open>simp add: a3_string_cmpi_def\<close>)
qed

lemma log_match_correct:
  assumes m: "mem_ok m" "mem_load m (s_ptr s) (s_len s) = ret xs" "0 \<notin> set xs"
    and names: "\<forall>(name, l) \<in> set names. 0 \<notin> set name \<and> map c_tolower name = name"
  shows "log_match m s names level = ret (case map_of names (map c_tolower xs) of None \<Rightarrow> level | Some l \<Rightarrow> l)"
  using names
proof (induction names)
  case (Cons nl names)
  obtain name l where nl: "nl = (name, l)" by (cases nl)
  then have n: "0 \<notin> set name" "map c_tolower name = name" using Cons.prems by auto
  let ?m = "fst (mem_new_block m (name @ [0]))"
  let ?r = "\<lparr>s_ptr = Ptr (next_block m) 0, s_len = length name\<rparr>"
  have "mem_load ?m (s_ptr s) (s_len s) = ret xs" using mem_load_new_block [OF m(1,2)] .
  moreover have "mem_load ?m (s_ptr ?r) (s_len ?r) = ret name" by (simp add: mem_load_block)
  ultimately obtain c where c: "a3_string_cmpi ?m s ?r = ret c"
      "c = 0 \<longleftrightarrow> length xs = length name \<and> map c_tolower (c_prefix xs) = map c_tolower (c_prefix name)"
    using string_cmpi_correct [of ?m s xs ?r name] by blast
  have pre: "c_prefix ys = ys" if "0 \<notin> set ys" for ys :: "u8 list"
    using that nul_free_prefix [of ys] by (simp add: nul_free_def)
  have "c = 0 \<longleftrightarrow> map c_tolower xs = name"
    using c(2) pre [OF m(3)] pre [OF n(1)] n(2) by (metis length_map)
  moreover have "cs_literal m name = (?m, ?r)"
    by (simp add: cs_literal_def mem_new_block_def a3_cstring_new_def)
  ultimately show ?case using c(1) nl Cons by auto
qed simp

end
