(* ===== verification/Log_Props.thy ===== *)
theory Log_Props
  imports Log
begin

text \<open>
  The properties of the logging filter.
\<close>

section \<open>An example environment\<close>

text \<open>Block 0 holds the environment's string WARN.\<close>

definition ex_env_mem :: mem where
  "ex_env_mem = \<lparr>blocks = [0 \<mapsto> [87, 65, 82, 78, 0]], next_block = 1, fresh_byte = \<lambda>b i. 0\<rparr>"

lemma ex_env_mem_ok: "mem_ok ex_env_mem"
  by (simp add: mem_ok_def ex_env_mem_def)

section \<open>Properties\<close>

text \<open>C36: \<open>a3_log_init\<close> takes the level that the environment names, in upper or lower case, and the
  given one if there is no such variable or it names no level.\<close>

theorem log_init_reads_environment:
  assumes "mem_ok m" and "env = Null \<or> (\<exists>b rest. env = Ptr b 0 \<and> blocks m b = Some (xs @ 0 # rest) \<and> 0 \<notin> set xs)"
  shows "a3_log_init m env out level = ret \<lparr>log_output = out, log_priv_level =
    (if env = Null then level else case map_of log_names (map c_tolower xs) of None \<Rightarrow> level | Some l \<Rightarrow> l)\<rparr>"
proof (cases env)
  case Null
  then show ?thesis
    by (simp add: a3_log_init_def a3_cstring_from_def a3_string_from_def a3_s_null_def a3_s_const_def)
next
  case (Ptr c off)
  then obtain b rest where b: "env = Ptr b 0" "blocks m b = Some (xs @ 0 # rest)" "0 \<notin> set xs" using assms(2) by auto
  have "takeWhile (\<lambda>x. x \<noteq> 0) (xs @ 0 # rest) = xs" using b(3) by (auto simp: takeWhile_append)
  then have s: "a3_cstring_from m env = ret \<lparr>s_ptr = env, s_len = length xs\<rparr>"
    using b by (simp add: a3_cstring_from_def a3_string_from_def c_strlen_def a3_string_new_def a3_s_const_def)
  have "mem_load m env (length xs) = ret xs" using b by (simp add: mem_load_block)
  moreover have "\<forall>(name, l) \<in> set log_names. 0 \<notin> set name \<and> map c_tolower name = name"
    by (simp add: log_names_def c_tolower_def)
  ultimately show ?thesis
    using log_match_correct [OF assms(1), of "\<lparr>s_ptr = env, s_len = length xs\<rparr>" xs log_names level] b(1,3) s
    by (simp add: a3_log_init_def)
qed

theorem log_init_reads_environment_witness:
  "a3_log_init ex_env_mem (Ptr 0 0) (Some 2) log_trace = ret \<lparr>log_output = Some 2, log_priv_level = log_warn\<rparr>"
  using log_init_reads_environment [OF ex_env_mem_ok, of "Ptr 0 0" "[87, 65, 82, 78]" "Some 2" log_trace]
  by (simp add: ex_env_mem_def c_tolower_def log_names_def)

text \<open>Once the log has an output, a message is written to it, with a newline, exactly when its level is not
  below the runtime level, and logging changes no state. Before \<open>a3_log_init\<close> a message of any regular level
  goes through a null stream: \<open>a3_log\<close> tests the level of the message, not the runtime level, for being
  uninitialised.\<close>

theorem log_filters_by_level:
  assumes "0 \<le> level"
  shows "(log_output st = Some f \<longrightarrow> a3_log m env err st level msg =
      ret (st, if log_priv_level st \<le> level then Some (f, msg @ [10]) else None)) \<and>
    a3_log m env err log_start level msg = fail Null_deref"
  using assms by (auto simp: a3_log_def a3_log_impl_def log_start_def log_invalid_def)

theorem log_filters_by_level_witness:
  "a3_log ex_env_mem Null 2 \<lparr>log_output = Some 1, log_priv_level = log_info\<rparr> log_warn [72] =
     ret (\<lparr>log_output = Some 1, log_priv_level = log_info\<rparr>, Some (1, [72, 10])) \<and>
   a3_log ex_env_mem Null 2 log_start log_error [72] = fail Null_deref"
  using log_filters_by_level [of log_warn "\<lparr>log_output = Some 1, log_priv_level = log_info\<rparr>" 1 ex_env_mem Null 2 "[72]"]
    log_filters_by_level [of log_error "\<lparr>log_output = Some 1, log_priv_level = log_info\<rparr>" 1 ex_env_mem Null 2 "[72]"]
  by (simp add: log_warn_def log_error_def log_info_def)

text \<open>A logging macro writes a line, with the file, the line number and the message, exactly if its level is at
  least the one compiled in and the one set at run time.\<close>

theorem log_macro_filters:
  assumes "0 \<le> level" and "log_output st = Some f"
  shows "log_macro compiled level m env err st file line msg = ret (st,
    if compiled \<le> level \<and> log_priv_level st \<le> level
    then Some (f, file @ [32, 40] @ dec_text line @ [41, 58, 32] @ msg @ [10]) else None)"
  using assms by (simp add: log_macro_def a3_log_f_def log_prefix_def a3_log_def a3_log_impl_def log_invalid_def)

theorem log_macro_filters_witness:
  "log_macro log_debug log_warn ex_env_mem Null 2 \<lparr>log_output = Some 1, log_priv_level = log_info\<rparr> [97] 7 [72] =
     ret (\<lparr>log_output = Some 1, log_priv_level = log_info\<rparr>, Some (1, [97, 32, 40] @ dec_text 7 @ [41, 58, 32, 72, 10]))"
  using log_macro_filters [of log_warn "\<lparr>log_output = Some 1, log_priv_level = log_info\<rparr>" 1 log_debug ex_env_mem Null 2 "[97]" 7 "[72]"]
  by (simp add: log_warn_def log_info_def log_debug_def)

text \<open>\<open>A3_ERRNO\<close> shows at most 31 bytes of a text that \<open>strerror_r\<close> writes to its buffer.\<close>

theorem log_errno_truncates:
  assumes "log_output st = Some f" and "log_priv_level st \<le> log_error" and "compiled \<le> log_error"
  shows "log_errno compiled m env err st file line (shim_strerror_xsi txt) code msg = ret (st, Some (f,
    log_prefix file line @ takeWhile (\<lambda>x. x \<noteq> 0) (take 31 txt) @ [32, 40] @ dec_int code @ [41, 32] @ msg @ [10]))"
proof -
  have "takeWhile (\<lambda>x. x \<noteq> 0) (xs @ 0 # ys) = takeWhile (\<lambda>x. x \<noteq> 0) xs" for xs ys :: "u8 list"
    by (induction xs) simp_all
  then show ?thesis using assms
    by (simp add: log_errno_def a3_log_f_def a3_log_def a3_log_impl_def log_error_def log_invalid_def
        shim_strerror_xsi_def strerror_fill_def)
qed

theorem log_errno_truncates_witness:
  "log_errno log_debug ex_env_mem Null 2 \<lparr>log_output = Some 1, log_priv_level = log_info\<rparr> [97] 7 (shim_strerror_xsi (replicate 40 120)) 2 [72] =
     ret (\<lparr>log_output = Some 1, log_priv_level = log_info\<rparr>,
       Some (1, log_prefix [97] 7 @ replicate 31 120 @ [32, 40] @ dec_int 2 @ [41, 32, 72, 10]))"
  using log_errno_truncates [of "\<lparr>log_output = Some 1, log_priv_level = log_info\<rparr>" 1 log_debug]
  by (simp add: log_info_def log_error_def log_debug_def)

end
