(* ===== verification/Util.thy ===== *)
theory Util
  imports Log_Props
begin

text \<open>
  The macros of \<open>util.h\<close>: minimum and maximum with their repeated evaluation of an argument, panics, unwrapping, early
  returns, and the address of a structure from that of a field. What a panic prints goes through the log.
\<close>

section \<open>Minimum and maximum\<close>

text \<open>The arguments of a macro are expressions: each gives a value and the state after it.\<close>

type_synonym 's expr = "'s \<Rightarrow> int \<times> 's"

definition c_min :: "'s expr \<Rightarrow> 's expr \<Rightarrow> 's expr" where
  "c_min a b s = (let (x, s1) = a s; (y, s2) = b s1 in if x < y then a s2 else b s2)"

definition c_max :: "'s expr \<Rightarrow> 's expr \<Rightarrow> 's expr" where
  "c_max a b s = (let (x, s1) = a s; (y, s2) = b s1 in if y < x then a s2 else b s2)"

definition pure_expr :: "'s expr \<Rightarrow> bool" where
  "pure_expr a \<longleftrightarrow> (\<forall>s. snd (a s) = s)"

section \<open>Panics\<close>

text \<open>What is written to the log, with the stream, and the outcome.\<close>

type_synonym 'a logged = "(nat \<times> u8 list) option \<times> 'a run"

fun log_then :: "(log_state \<times> (nat \<times> u8 list) option) run \<Rightarrow> 'a run \<Rightarrow> 'a logged" where
  "log_then (Some (Inr (st, out))) k = (out, k)"
| "log_then (Some (Inl e)) k = (None, fail e)"
| "log_then None k = (None, diverge)"

text \<open>The surroundings of a macro: memory, environment, \<open>stderr\<close>, log, file and line.\<close>

record place =
  pl_mem :: mem
  pl_env :: ptr
  pl_err :: nat
  pl_log :: log_state
  pl_file :: "u8 list"
  pl_line :: nat

definition place_log :: "place \<Rightarrow> log_level \<Rightarrow> u8 list \<Rightarrow> (log_state \<times> (nat \<times> u8 list) option) run" where
  "place_log pl level msg = a3_log (pl_mem pl) (pl_env pl) (pl_err pl) (pl_log pl) level msg"

definition panic_fmt :: "place \<Rightarrow> u8 list \<Rightarrow> 'a logged" where
  "panic_fmt pl msg = log_then
     (place_log pl log_error ([80, 65, 78, 73, 67, 32] @ log_prefix (pl_file pl) (pl_line pl) @ msg)) (fail Panicked)"

definition a3_panic :: "place \<Rightarrow> u8 list \<Rightarrow> 'a logged" where
  "a3_panic pl msg = panic_fmt pl msg"

definition a3_unreachable :: "place \<Rightarrow> 'a logged" where
  "a3_unreachable pl = a3_panic pl [85, 78, 82, 69, 65, 67, 72, 65, 66, 76, 69]"

section \<open>Unwrapping\<close>

text \<open>\<open>#X\<close> is the text of the expression. A value that is kept is the result; \<open>0\<close> stands for \<open>NULL\<close> and \<open>false\<close>.\<close>

definition unwrap_panic :: "place \<Rightarrow> u8 list \<Rightarrow> 'a logged" where
  "unwrap_panic pl src = panic_fmt pl ([85, 78, 87, 82, 65, 80, 40] @ src @ [41])"

definition a3_unwrapn :: "place \<Rightarrow> u8 list \<Rightarrow> int \<Rightarrow> int logged" where
  "a3_unwrapn pl src x = (if x = 0 then unwrap_panic pl src else (None, ret x))"

definition a3_unwrapni :: "place \<Rightarrow> u8 list \<Rightarrow> int \<Rightarrow> int logged" where
  "a3_unwrapni pl src x = a3_unwrapn pl src x"

definition a3_unwrapsd :: "place \<Rightarrow> u8 list \<Rightarrow> int \<Rightarrow> unit logged" where
  "a3_unwrapsd pl src x = (if x < 0 then unwrap_panic pl src else (None, ret ()))"

definition a3_unwrapnd :: "place \<Rightarrow> u8 list \<Rightarrow> int \<Rightarrow> unit logged" where
  "a3_unwrapnd pl src x = (if x = 0 then unwrap_panic pl src else (None, ret ()))"

definition a3_unwraps :: "place \<Rightarrow> u8 list \<Rightarrow> int \<Rightarrow> int logged" where
  "a3_unwraps pl src x = (if x < 0 then unwrap_panic pl src else (None, ret x))"

section \<open>Early returns\<close>

text \<open>\<open>Some e\<close>: the enclosing function returns \<open>e\<close>; \<open>None\<close>: it goes on.\<close>

definition a3_tryb_map :: "int \<Rightarrow> 'r \<Rightarrow> 'r option" where
  "a3_tryb_map t e = (if t = 0 then Some e else None)"

definition a3_try_cond :: "int \<Rightarrow> (int \<Rightarrow> bool) \<Rightarrow> 'r \<Rightarrow> 'r option" where
  "a3_try_cond t c e = (if c t then Some e else None)"

definition a3_tryb :: "int \<Rightarrow> int option" where
  "a3_tryb t = a3_tryb_map t 0"

definition a3_tryb_msg :: "place \<Rightarrow> int \<Rightarrow> log_level \<Rightarrow> u8 list \<Rightarrow> int option logged" where
  "a3_tryb_msg pl t level msg = (if t = 0
     then log_then (place_log pl level (log_prefix (pl_file pl) (pl_line pl) @ msg)) (ret (Some 0))
     else (None, ret None))"

definition a3_ret_map :: "int \<Rightarrow> 'r \<Rightarrow> 'r \<Rightarrow> 'r" where
  "a3_ret_map f t e = (if f \<noteq> 0 then t else e)"

text \<open>\<open>A3_TRY\<close> counts its arguments; with three, the condition comes before the result.\<close>

datatype try_args = Try1 int | Try2 int int | Try3 int "int \<Rightarrow> bool" int

fun a3_try :: "try_args \<Rightarrow> int option" where
  "a3_try (Try1 t) = a3_tryb t"
| "a3_try (Try2 t e) = a3_tryb_map t e"
| "a3_try (Try3 t c e) = a3_try_cond t c e"

section \<open>Structures around a field\<close>

definition a3_container_of :: "size_t \<Rightarrow> size_t \<Rightarrow> size_t" where
  "a3_container_of field_ptr offset = sz_sub field_ptr offset"

section \<open>Properties\<close>

lemma min_max_pure:
  assumes "pure_expr a" and "pure_expr b"
  shows "c_min a b s = (min (fst (a s)) (fst (b s)), s)" "c_max a b s = (max (fst (a s)) (fst (b s)), s)"
proof -
  obtain x y where "a s = (x, s)" "b s = (y, s)" using assms unfolding pure_expr_def by (metis prod.collapse)
  then show "c_min a b s = (min (fst (a s)) (fst (b s)), s)" "c_max a b s = (max (fst (a s)) (fst (b s)), s)"
    by (simp_all add: c_min_def c_max_def)
qed

text \<open>An argument with an effect has it twice.\<close>

lemma c_min_effect: "c_min (\<lambda>s. (s, s + 1)) (\<lambda>s. (10, s)) 3 = (4, 5)"
  by (simp add: c_min_def)

lemma container_of_field:
  assumes "p < size_mod" and "off < size_mod"
  shows "a3_container_of (sz_add p off) off = p"
proof (cases "p + off < size_mod")
  case False
  then have "(p + off) mod size_mod = p + off - size_mod" using assms by (simp add: mod_if)
  then show ?thesis using assms False by (simp add: a3_container_of_def sz_add_def sz_sub_def)
qed (use assms in \<open>simp add: a3_container_of_def sz_add_def sz_sub_def\<close>)

text \<open>Each unwrapping macro gives its value, and writes nothing, exactly if that is not an error. Otherwise the program stops:
  with a line in the log that names the place and the expression if the log has an output and lets errors through, but
  before \<open>a3_log_init\<close> by writing to a null stream instead of aborting.\<close>

theorem unwrap_or_panic:
  "(x \<noteq> 0 \<longrightarrow> a3_unwrapn pl src x = (None, ret x) \<and> a3_unwrapnd pl src x = (None, ret ())) \<and>
   (0 \<le> x \<longrightarrow> a3_unwraps pl src x = (None, ret x) \<and> a3_unwrapsd pl src x = (None, ret ())) \<and>
   (\<forall>f. log_output (pl_log pl) = Some f \<longrightarrow> log_priv_level (pl_log pl) \<le> log_error \<longrightarrow>
     (unwrap_panic pl src :: int logged) = (Some (f, [80, 65, 78, 73, 67, 32] @ log_prefix (pl_file pl) (pl_line pl) @
        [85, 78, 87, 82, 65, 80, 40] @ src @ [41, 10]), fail Panicked)) \<and>
   (pl_log pl = log_start \<longrightarrow> (unwrap_panic pl src :: int logged) = (None, fail Null_deref)) \<and>
   (x = 0 \<longrightarrow> a3_unwrapn pl src x = unwrap_panic pl src \<and> a3_unwrapnd pl src x = unwrap_panic pl src) \<and>
   (x < 0 \<longrightarrow> a3_unwraps pl src x = unwrap_panic pl src \<and> a3_unwrapsd pl src x = unwrap_panic pl src)"
  by (simp add: a3_unwrapn_def a3_unwrapnd_def a3_unwraps_def a3_unwrapsd_def unwrap_panic_def panic_fmt_def place_log_def
      a3_log_def a3_log_impl_def log_start_def log_error_def log_invalid_def)

end
