(* ===== verification/Rc.thy ===== *)
theory Rc
  imports Prelude
begin

text \<open>
  The reference count of \<open>src/include/a3/rc.h\<close>: a \<open>uint32_t\<close> in the object, with the default type of
  \<open>A3_REFCOUNTED\<close>, and a refinement to natural numbers.
\<close>

section \<open>Definitions\<close>

text \<open>\<open>rc_calls\<close> counts the calls of the destructor given to \<open>A3_UNREF_D\<close>.\<close>

record rc =
  rc_count :: "32 word"
  rc_calls :: nat

definition rc_init :: rc where
  "rc_init = \<lparr>rc_count = 1, rc_calls = 0\<rparr>"

definition rc_ref :: "rc \<Rightarrow> rc" where
  "rc_ref r = r\<lparr>rc_count := rc_count r + 1\<rparr>"

definition rc_unref :: "rc \<Rightarrow> rc run" where
  "rc_unref r = assert_c (0 < rc_count r) (ret (r\<lparr>rc_count := rc_count r - 1\<rparr>))"

definition rc_unref_d :: "rc \<Rightarrow> rc run" where
  "rc_unref_d r = assert_c (0 < rc_count r)
     (let r1 = r\<lparr>rc_count := rc_count r - 1\<rparr> in
      ret (if rc_count r1 = 0 then r1\<lparr>rc_calls := rc_calls r1 + 1\<rparr> else r1))"

datatype rc_op = Rc_ref | Rc_unref | Rc_unref_d

fun rc_step :: "rc_op \<Rightarrow> rc \<Rightarrow> rc run" where
  "rc_step Rc_ref r = ret (rc_ref r)"
| "rc_step Rc_unref r = rc_unref r"
| "rc_step Rc_unref_d r = rc_unref_d r"

abbreviation rc_run :: "rc_op list \<Rightarrow> rc \<Rightarrow> rc run" where
  "rc_run ops \<equiv> for_run ops rc_step"

section \<open>The count as a number\<close>

text \<open>The references held, and the calls of the destructor; \<open>None\<close> if one too many is released.\<close>

fun rc_spec_step :: "rc_op \<Rightarrow> nat \<times> nat \<Rightarrow> (nat \<times> nat) option" where
  "rc_spec_step Rc_ref (n, c) = Some (n + 1, c)"
| "rc_spec_step Rc_unref (n, c) = (if n = 0 then None else Some (n - 1, c))"
| "rc_spec_step Rc_unref_d (n, c) = (if n = 0 then None else Some (n - 1, if n = 1 then c + 1 else c))"

fun rc_spec :: "rc_op list \<Rightarrow> nat \<times> nat \<Rightarrow> (nat \<times> nat) option" where
  "rc_spec [] s = Some s"
| "rc_spec (x # ops) s = Option.bind (rc_spec_step x s) (rc_spec ops)"

definition rc_abs :: "nat \<times> nat \<Rightarrow> rc" where
  "rc_abs s = \<lparr>rc_count = of_nat (fst s), rc_calls = snd s\<rparr>"

lemma rc_count_word:
  assumes "n < 2 ^ 32"
  shows "(of_nat n :: 32 word) = 0 \<longleftrightarrow> n = 0" "0 < (of_nat n :: 32 word) \<longleftrightarrow> 0 < n"
  using assms by (cases "n = 0"; auto simp: word_of_nat_eq_0_iff word_gt_0 dest: dvd_imp_le)+

lemma rc_step_refines:
  assumes "n + 1 < 2 ^ 32"
  shows "rc_step x (rc_abs (n, c)) = (case rc_spec_step x (n, c) of None \<Rightarrow> fail Assert_failed | Some s \<Rightarrow> ret (rc_abs s))"
proof (cases "n = 0")
  case True
  then show ?thesis by (cases x) (simp_all add: rc_abs_def rc_ref_def rc_unref_def rc_unref_d_def)
next
  case False
  have "(of_nat n :: 32 word) - 1 = of_nat (n - 1)" using False by (simp add: of_nat_diff)
  moreover have "(of_nat (n - 1) :: 32 word) = 0 \<longleftrightarrow> n - 1 = 0" using rc_count_word(1) [of "n - 1"] assms by simp
  moreover have "0 < (of_nat n :: 32 word)" using rc_count_word(2) [of n] assms False by simp
  ultimately show ?thesis using False
    by (cases x) (auto simp: rc_abs_def rc_ref_def rc_unref_def rc_unref_d_def add.commute)
qed

lemma rc_run_refines:
  assumes "n + length ops < 2 ^ 32"
  shows "rc_run ops (rc_abs (n, c)) = (case rc_spec ops (n, c) of None \<Rightarrow> fail Assert_failed | Some s \<Rightarrow> ret (rc_abs s))"
  using assms
proof (induction ops arbitrary: n c)
  case (Cons x ops)
  show ?case
  proof (cases "rc_spec_step x (n, c)")
    case None
    then show ?thesis using rc_step_refines [of n x c] Cons.prems by simp
  next
    case (Some s)
    then have "fst s + length ops < 2 ^ 32" using Cons.prems by (cases x) (auto split: if_splits)
    then show ?thesis using Some rc_step_refines [of n x c] Cons.IH [of "fst s" "snd s"] Cons.prems by simp
  qed
qed simp

section \<open>Property\<close>

text \<open>For any sequence of \<open>A3_REF\<close>, \<open>A3_UNREF\<close> and \<open>A3_UNREF_D\<close> on a new object, short enough
  for the 32-bit count not to wrap, the count is the number of references held, the
  destructor is called exactly each time \<open>A3_UNREF_D\<close> releases the last one, and releasing a
  reference that is not held fails the assertion.\<close>

theorem rc_counts_references:
  assumes "length ops + 1 < 2 ^ 32"
  shows "rc_run ops rc_init = (case rc_spec ops (1, 0) of
      None \<Rightarrow> fail Assert_failed
    | Some (held, calls) \<Rightarrow> ret \<lparr>rc_count = of_nat held, rc_calls = calls\<rparr>)"
proof -
  have "rc_init = rc_abs (1, 0)" by (simp add: rc_init_def rc_abs_def)
  then show ?thesis using rc_run_refines [of 1 ops 0] assms
    by (auto simp: rc_abs_def split: option.split)
qed

theorem rc_counts_references_witness:
  "rc_run [Rc_ref, Rc_unref_d, Rc_ref, Rc_unref, Rc_unref_d] rc_init = ret \<lparr>rc_count = 0, rc_calls = 1\<rparr>"
  using rc_counts_references [of "[Rc_ref, Rc_unref_d, Rc_ref, Rc_unref, Rc_unref_d]"] by simp

end
