(* ===== verification/Rc_Ptr.thy ===== *)
theory Rc_Ptr
  imports Rc
begin

text \<open>
  The smart pointers of \<open>src/include/a3/rc.hh\<close>: objects with a reference count, and \<open>Rc\<close> variables
  that share them. The count of an object is the number of references to it, it is destroyed exactly
  when the last one goes, and no operation touches a destroyed object.
\<close>

section \<open>State\<close>

text \<open>
  \<open>objs\<close> has the reference count of each object that is alive, \<open>handles\<close> the \<open>Rc\<close> variables in scope
  with their \<open>ptr\<close>, \<open>store\<close> the state of the allocator behind \<open>new\<close> and \<open>delete\<close>. \<open>raw\<close> is a ghost: the
  references that plain pointers of the client hold. The destructor of \<open>T\<close> itself does nothing.
\<close>

record ('a, 'p) rcp_state =
  store :: 'p
  objs :: "'a \<Rightarrow> rc option"
  handles :: "nat \<Rightarrow> 'a option option"
  raw :: "'a \<Rightarrow> nat"

type_synonym ('a, 'p) allocate = "'p \<Rightarrow> ('a option \<times> 'p) run"
type_synonym ('a, 'p) release = "'a \<Rightarrow> 'p \<Rightarrow> 'p run"

definition rcp_obj :: "('a, 'p) rcp_state \<Rightarrow> 'a \<Rightarrow> rc run" where
  "rcp_obj s a = (case objs s a of None \<Rightarrow> fail Use_after_free | Some r \<Rightarrow> ret r)"

definition rcp_get :: "('a, 'p) rcp_state \<Rightarrow> nat \<Rightarrow> 'a option run" where
  "rcp_get s v = (case handles s v of None \<Rightarrow> fail Use_after_free | Some p \<Rightarrow> ret p)"

definition rcp_set :: "nat \<Rightarrow> 'a option \<Rightarrow> ('a, 'p) rcp_state \<Rightarrow> ('a, 'p) rcp_state" where
  "rcp_set v p s = s\<lparr>handles := (handles s)(v \<mapsto> p)\<rparr>"

section \<open>RefCounted\<close>

text \<open>\<open>ref\<close>, the destructor with its assertion, \<open>destroy\<close> and \<open>unref\<close>, through the macros of \<open>rc.h\<close>.\<close>

definition rcp_ref :: "'a \<Rightarrow> ('a, 'p) rcp_state \<Rightarrow> ('a, 'p) rcp_state run" where
  "rcp_ref a s = bind_run (rcp_obj s a) (\<lambda>r. ret (s\<lparr>objs := (objs s)(a \<mapsto> rc_ref r)\<rparr>))"

definition rcp_destructor :: "'a \<Rightarrow> ('a, 'p) rcp_state \<Rightarrow> ('a, 'p) rcp_state run" where
  "rcp_destructor a s = bind_run (rcp_obj s a) (\<lambda>r. assert_c (rc_count r = 0) (ret s))"

definition rcp_destroy :: "('a, 'p) release \<Rightarrow> 'a \<Rightarrow> ('a, 'p) rcp_state \<Rightarrow> ('a, 'p) rcp_state run" where
  "rcp_destroy release a s = bind_run (rcp_destructor a s) (\<lambda>s1.
     bind_run (release a (store s1)) (\<lambda>p. ret (s1\<lparr>store := p, objs := (objs s1)(a := None)\<rparr>)))"

definition rcp_unref :: "('a, 'p) release \<Rightarrow> 'a \<Rightarrow> ('a, 'p) rcp_state \<Rightarrow> ('a, 'p) rcp_state run" where
  "rcp_unref release a s = bind_run (rcp_obj s a) (\<lambda>r. bind_run (rc_unref_d r) (\<lambda>r'.
     (let s1 = s\<lparr>objs := (objs s)(a \<mapsto> r')\<rparr> in
      if rc_calls r' = rc_calls r then ret s1 else rcp_destroy release a s1)))"

definition rcp_ref_count :: "('a, 'p) rcp_state \<Rightarrow> 'a \<Rightarrow> 32 word run" where
  "rcp_ref_count s a = bind_run (rcp_obj s a) (\<lambda>r. ret (rc_count r))"

text \<open>\<open>new T\<close>, whose constructor sets the count to 1; an \<open>operator new\<close> that may fail gives null.\<close>

definition rcp_new :: "('a, 'p) allocate \<Rightarrow> ('a, 'p) rcp_state \<Rightarrow> ('a option \<times> ('a, 'p) rcp_state) run" where
  "rcp_new alloc s = bind_run (alloc (store s)) (\<lambda>(r, p).
     ret (r, case r of None \<Rightarrow> s\<lparr>store := p\<rparr> | Some a \<Rightarrow> s\<lparr>store := p, objs := (objs s)(a \<mapsto> rc_init)\<rparr>))"

section \<open>Rc\<close>

definition rcp_ref_if :: "'a option \<Rightarrow> ('a, 'p) rcp_state \<Rightarrow> ('a, 'p) rcp_state run" where
  "rcp_ref_if p s = (case p of None \<Rightarrow> ret s | Some a \<Rightarrow> rcp_ref a s)"

definition rcp_unref_if :: "('a, 'p) release \<Rightarrow> 'a option \<Rightarrow> ('a, 'p) rcp_state \<Rightarrow> ('a, 'p) rcp_state run" where
  "rcp_unref_if release p s = (case p of None \<Rightarrow> ret s | Some a \<Rightarrow> rcp_unref release a s)"

text \<open>The constructor from a pointer, the copy constructor, the move constructor.\<close>

definition rcp_construct :: "nat \<Rightarrow> 'a option \<Rightarrow> ('a, 'p) rcp_state \<Rightarrow> ('a, 'p) rcp_state run" where
  "rcp_construct v target s = rcp_ref_if target (rcp_set v target s)"

definition rcp_copy :: "nat \<Rightarrow> nat \<Rightarrow> ('a, 'p) rcp_state \<Rightarrow> ('a, 'p) rcp_state run" where
  "rcp_copy v other s = bind_run (rcp_get s other) (\<lambda>p. rcp_ref_if p (rcp_set v p s))"

definition rcp_move :: "nat \<Rightarrow> nat \<Rightarrow> ('a, 'p) rcp_state \<Rightarrow> ('a, 'p) rcp_state run" where
  "rcp_move v other s = bind_run (rcp_get s other) (\<lambda>p. ret (rcp_set other None (rcp_set v p s)))"

definition rcp_copy_assign :: "('a, 'p) release \<Rightarrow> nat \<Rightarrow> nat \<Rightarrow> ('a, 'p) rcp_state \<Rightarrow> ('a, 'p) rcp_state run" where
  "rcp_copy_assign release v other s =
     (if other = v then ret s
      else bind_run (rcp_get s v) (\<lambda>p. bind_run (rcp_unref_if release p s) (\<lambda>s1.
        bind_run (rcp_get s1 other) (\<lambda>q. rcp_ref_if q (rcp_set v q s1)))))"

text \<open>
  The statements of the move assignment. It has no \<open>return\<close>, and flowing off its end is undefined:
  the operator as written never returns a value.
\<close>

definition rcp_move_assign_body :: "('a, 'p) release \<Rightarrow> nat \<Rightarrow> nat \<Rightarrow> ('a, 'p) rcp_state \<Rightarrow> ('a, 'p) rcp_state run" where
  "rcp_move_assign_body release v other s =
     bind_run (rcp_get s v) (\<lambda>p. bind_run (rcp_unref_if release p s) (\<lambda>s1.
       bind_run (rcp_get s1 other) (\<lambda>q. ret (rcp_set other None (rcp_set v q s1)))))"

definition rcp_move_assign :: "('a, 'p) release \<Rightarrow> nat \<Rightarrow> nat \<Rightarrow> ('a, 'p) rcp_state \<Rightarrow> ('a, 'p) rcp_state run" where
  "rcp_move_assign release v other s = bind_run (rcp_move_assign_body release v other s) (\<lambda>s1. fail No_return)"

definition rcp_destruct :: "('a, 'p) release \<Rightarrow> nat \<Rightarrow> ('a, 'p) rcp_state \<Rightarrow> ('a, 'p) rcp_state run" where
  "rcp_destruct release v s = bind_run (rcp_get s v) (\<lambda>p. bind_run
     (case p of None \<Rightarrow> ret s
      | Some a \<Rightarrow> bind_run (rcp_ref_count s a) (\<lambda>c. assert_c (c \<noteq> 0) (rcp_unref release a s)))
     (\<lambda>s1. ret (s1\<lparr>handles := (handles s1)(v := None)\<rparr>)))"

definition rcp_adopt :: "nat \<Rightarrow> 'a option \<Rightarrow> ('a, 'p) rcp_state \<Rightarrow> ('a, 'p) rcp_state" where
  "rcp_adopt v target s = rcp_set v target s"

definition rcp_create :: "('a, 'p) allocate \<Rightarrow> nat \<Rightarrow> ('a, 'p) rcp_state \<Rightarrow> ('a, 'p) rcp_state run" where
  "rcp_create alloc v s = bind_run (rcp_new alloc s) (\<lambda>(target, s1). ret (rcp_adopt v target s1))"

text \<open>\<open>operator*\<close> and \<open>operator->\<close> give the object, \<open>operator bool\<close> whether there is one.\<close>

definition rcp_deref :: "('a, 'p) rcp_state \<Rightarrow> nat \<Rightarrow> 'a run" where
  "rcp_deref s v = bind_run (rcp_get s v) (\<lambda>p. case p of None \<Rightarrow> fail Assert_failed | Some a \<Rightarrow> ret a)"

definition rcp_bool :: "('a, 'p) rcp_state \<Rightarrow> nat \<Rightarrow> bool run" where
  "rcp_bool s v = bind_run (rcp_get s v) (\<lambda>p. ret (p \<noteq> None))"

end
