(* ===== verification/Rc_Own.thy ===== *)
theory Rc_Own
  imports Rc_Ptr
begin

text \<open>
  Ownership: in a well-formed state the count of every object is the number of \<open>Rc\<close> variables and
  plain references to it, and it is alive exactly if that number is positive. The operations of a
  well-formed program keep this, over any allocator that meets the contract \<open>object_store\<close>.
\<close>

section \<open>Programs over reference-counted objects\<close>

datatype 'a rcp_op =
    New_object                  \<comment> \<open>a plain \<open>new T\<close>\<close>
  | Raw_ref 'a                  \<comment> \<open>\<open>ref()\<close> and \<open>unref()\<close> by the client, public with \<open>A3_REF_PUBLIC\<close>\<close>
  | Raw_unref 'a
  | Construct nat "'a option"
  | Copy nat nat
  | Move nat nat
  | Copy_assign nat nat
  | Move_assign nat nat
  | Destruct nat
  | Adopt nat "'a option"
  | Create nat

text \<open>The references plain pointers hold after \<open>new T\<close> and when an object is adopted.\<close>

fun rcp_exec :: "('a, 'p) allocate \<Rightarrow> ('a, 'p) release \<Rightarrow> 'a rcp_op \<Rightarrow> ('a, 'p) rcp_state \<Rightarrow> ('a, 'p) rcp_state run" where
  "rcp_exec alloc release New_object s = bind_run (rcp_new alloc s) (\<lambda>(r, s1).
     ret (case r of None \<Rightarrow> s1 | Some a \<Rightarrow> s1\<lparr>raw := (raw s1)(a := 1)\<rparr>))"
| "rcp_exec alloc release (Raw_ref a) s = bind_run (rcp_ref a s) (\<lambda>s1. ret (s1\<lparr>raw := (raw s1)(a := raw s1 a + 1)\<rparr>))"
| "rcp_exec alloc release (Raw_unref a) s = bind_run (rcp_unref release a s) (\<lambda>s1. ret (s1\<lparr>raw := (raw s1)(a := raw s1 a - 1)\<rparr>))"
| "rcp_exec alloc release (Construct v p) s = rcp_construct v p s"
| "rcp_exec alloc release (Copy v w) s = rcp_copy v w s"
| "rcp_exec alloc release (Move v w) s = rcp_move v w s"
| "rcp_exec alloc release (Copy_assign v w) s = rcp_copy_assign release v w s"
| "rcp_exec alloc release (Move_assign v w) s = rcp_move_assign release v w s"
| "rcp_exec alloc release (Destruct v) s = rcp_destruct release v s"
| "rcp_exec alloc release (Adopt v p) s = ret (case p of None \<Rightarrow> rcp_adopt v None s
     | Some a \<Rightarrow> rcp_adopt v p (s\<lparr>raw := (raw s)(a := raw s a - 1)\<rparr>))"
| "rcp_exec alloc release (Create v) s = rcp_create alloc v s"

definition refs :: "(nat \<Rightarrow> 'a option option) \<Rightarrow> 'a \<Rightarrow> nat" where
  "refs h a = card {v. h v = Some (Some a)}"

definition owned :: "('a, 'p) rcp_state \<Rightarrow> 'a \<Rightarrow> nat" where
  "owned s a = refs (handles s) a + raw s a"

text \<open>
  What the scopes of C++ and the use of plain pointers demand: variables are constructed once and
  used while in scope; plain pointers are passed only to objects that someone owns, and adopted or
  released only if they own a reference.
\<close>

fun rcp_allowed :: "('a, 'p) rcp_state \<Rightarrow> 'a rcp_op \<Rightarrow> bool" where
  "rcp_allowed s New_object = True"
| "rcp_allowed s (Raw_ref a) = (0 < owned s a)"
| "rcp_allowed s (Raw_unref a) = (0 < raw s a)"
| "rcp_allowed s (Construct v p) = (handles s v = None \<and> (case p of None \<Rightarrow> True | Some a \<Rightarrow> 0 < owned s a))"
| "rcp_allowed s (Copy v w) = (handles s v = None \<and> handles s w \<noteq> None)"
| "rcp_allowed s (Move v w) = (handles s v = None \<and> handles s w \<noteq> None)"
| "rcp_allowed s (Copy_assign v w) = (handles s v \<noteq> None \<and> handles s w \<noteq> None)"
| "rcp_allowed s (Move_assign v w) = (handles s v \<noteq> None \<and> handles s w \<noteq> None)"
| "rcp_allowed s (Destruct v) = (handles s v \<noteq> None)"
| "rcp_allowed s (Adopt v p) = (handles s v = None \<and> (case p of None \<Rightarrow> True | Some a \<Rightarrow> 0 < raw s a))"
| "rcp_allowed s (Create v) = (handles s v = None)"

text \<open>The count of an object stays below \<open>2 ^ 32\<close>.\<close>

definition rcp_small :: "('a, 'p) rcp_state \<Rightarrow> bool" where
  "rcp_small s \<longleftrightarrow> (\<forall>a. owned s a + 1 < 2 ^ 32)"

text \<open>A sequence of operations, and that each of them is allowed when its turn comes.\<close>

definition rcp_run :: "('a, 'p) allocate \<Rightarrow> ('a, 'p) release \<Rightarrow> 'a rcp_op list \<Rightarrow> ('a, 'p) rcp_state \<Rightarrow> ('a, 'p) rcp_state run" where
  "rcp_run alloc release ops s = for_run ops (rcp_exec alloc release) s"

fun rcp_valid :: "('a, 'p) allocate \<Rightarrow> ('a, 'p) release \<Rightarrow> 'a rcp_op list \<Rightarrow> ('a, 'p) rcp_state \<Rightarrow> bool" where
  "rcp_valid alloc release [] s = rcp_small s"
| "rcp_valid alloc release (op # ops) s = (rcp_small s \<and> rcp_allowed s op \<and>
     (case rcp_exec alloc release op s of Some (Inr s') \<Rightarrow> rcp_valid alloc release ops s' | _ \<Rightarrow> True))"

definition rcp_start :: "'p \<Rightarrow> ('a, 'p) rcp_state" where
  "rcp_start p = \<lparr>store = p, objs = Map.empty, handles = Map.empty, raw = (\<lambda>a. 0)\<rparr>"

section \<open>Counting references\<close>

lemma refs_update:
  assumes "finite (dom h)"
  shows "refs (h(v := x)) a + (if h v = Some (Some a) then 1 else 0) = refs h a + (if x = Some (Some a) then 1 else 0)"
proof -
  define A where "A = {u. h u = Some (Some a)} - {v}"
  have f: "finite A" unfolding A_def using assms by (rule finite_subset [rotated]) (auto simp: dom_def)
  moreover have "v \<notin> A" by (simp add: A_def)
  ultimately have c: "card (insert v A) = card A + 1" by simp
  have "{u. (h(v := x)) u = Some (Some a)} = (if x = Some (Some a) then insert v A else A)" by (auto simp: A_def)
  then have 1: "refs (h(v := x)) a = card A + (if x = Some (Some a) then 1 else 0)" unfolding refs_def using c by simp
  have "{u. h u = Some (Some a)} = (if h v = Some (Some a) then insert v A else A)" by (auto simp: A_def)
  then have 2: "refs h a = card A + (if h v = Some (Some a) then 1 else 0)" unfolding refs_def using c by simp
  show ?thesis unfolding 1 2 by simp
qed

lemma refs_handle:
  assumes "finite (dom h)" "h v = Some (Some a)"
  shows "0 < refs h a"
  using refs_update [OF assms(1), of v None a] assms(2) by simp

lemma refs_two:
  assumes "finite (dom h)" "h v = Some (Some a)" "h w = Some (Some a)" "v \<noteq> w"
  shows "2 \<le> refs h a"
proof -
  have "0 < refs (h(v := None)) a" using assms by (intro refs_handle [of _ w]) auto
  then show ?thesis using refs_update [OF assms(1), of v None a] assms(2) by simp
qed

text \<open>One reference more or fewer to the target of a pointer, and what an update of a variable does to the
  number of references.\<close>

definition gain :: "'a option \<Rightarrow> ('a \<Rightarrow> nat) \<Rightarrow> 'a \<Rightarrow> nat" where
  "gain p n a = n a + (if p = Some a then 1 else 0)"

definition lose :: "'a option \<Rightarrow> ('a \<Rightarrow> nat) \<Rightarrow> 'a \<Rightarrow> nat" where
  "lose p n a = n a - (if p = Some a then 1 else 0)"

definition target :: "'a option option \<Rightarrow> 'a option" where
  "target x = Option.bind x (\<lambda>p. p)"

lemma target_simps [simp]: "target None = None" "target (Some p) = p"
  by (simp_all add: target_def)

lemma target_eq: "target x = Some a \<longleftrightarrow> x = Some (Some a)"
  by (cases x) simp_all

lemma gain_lose_None [simp]: "gain None n = n" "lose None n = n"
  by (simp_all add: gain_def lose_def fun_eq_iff)

lemma lose_gain_same [simp]: "lose p (gain p n) = n"
  by (simp add: gain_def lose_def fun_eq_iff)

lemma owned_update:
  assumes "finite (dom (handles s))" "handles s' = (handles s)(v := x)" "raw s' = raw s"
  shows "owned s' = lose (target (handles s v)) (gain (target x) (owned s))"
proof (rule ext)
  fix a
  show "owned s' a = lose (target (handles s v)) (gain (target x) (owned s)) a"
    using refs_update [OF assms(1), of v x a] unfolding owned_def assms(2,3) gain_def lose_def target_eq
    by (auto split: if_splits)
qed

text \<open>The objects match a number \<open>n a\<close> of references to each \<open>a\<close>.\<close>

definition rcp_match :: "('p \<Rightarrow> bool) \<Rightarrow> ('p \<Rightarrow> 'a set) \<Rightarrow> ('a \<Rightarrow> nat) \<Rightarrow> ('a, 'p) rcp_state \<Rightarrow> bool" where
  "rcp_match good live n s \<longleftrightarrow> good (store s) \<and> live (store s) = {a. 0 < n a} \<and>
     objs s = (\<lambda>a. if n a = 0 then None else Some (rc_abs (n a, 0)))"

definition rcp_inv :: "('p \<Rightarrow> bool) \<Rightarrow> ('p \<Rightarrow> 'a set) \<Rightarrow> ('a, 'p) rcp_state \<Rightarrow> bool" where
  "rcp_inv good live s \<longleftrightarrow> finite (dom (handles s)) \<and> rcp_match good live (owned s) s"

lemma rcp_match_fields [simp]:
  "rcp_match good live n (s\<lparr>handles := h\<rparr>) = rcp_match good live n s"
  "rcp_match good live n (s\<lparr>raw := k\<rparr>) = rcp_match good live n s"
  by (simp_all add: rcp_match_def)

lemma match_ref:
  assumes "rcp_match good live n s" "0 < n a" "n a + 1 < 2 ^ 32"
  shows "\<exists>s'. rcp_ref a s = ret s' \<and> rcp_match good live (n(a := n a + 1)) s' \<and> handles s' = handles s \<and> raw s' = raw s"
proof -
  have "objs s a = Some (rc_abs (n a, 0))" using assms(1,2) by (simp add: rcp_match_def)
  moreover have "rc_ref (rc_abs (n a, 0)) = rc_abs (n a + 1, 0)" by (simp add: rc_ref_def rc_abs_def add.commute)
  ultimately show ?thesis using assms(1,2)
    by (auto simp: rcp_ref_def rcp_obj_def rcp_match_def fun_eq_iff)
qed

lemma match_ref_if:
  assumes "rcp_match good live n s" "\<And>a. p = Some a \<Longrightarrow> 0 < n a \<and> n a + 1 < 2 ^ 32"
  shows "\<exists>s'. rcp_ref_if p s = ret s' \<and> rcp_match good live (gain p n) s' \<and> handles s' = handles s \<and> raw s' = raw s"
proof (cases p)
  case (Some a)
  then have "gain p n = n(a := n a + 1)" by (auto simp: gain_def fun_eq_iff)
  then show ?thesis using match_ref [of good live n s a] assms Some by (simp add: rcp_ref_if_def)
qed (use assms(1) in \<open>simp add: rcp_ref_if_def\<close>)

section \<open>Over an allocator\<close>

text \<open>
  The contract of the allocator: \<open>live\<close> is the set of blocks given out; \<open>new\<close> gives out one that is
  not live, or none, and \<open>delete\<close> takes back a live one.
\<close>

locale object_store =
  fixes alloc :: "('a, 'p) allocate" and release :: "('a, 'p) release"
    and good :: "'p \<Rightarrow> bool" and live :: "'p \<Rightarrow> 'a set"
  assumes alloc_law: "good p \<Longrightarrow> \<exists>r p'. alloc p = ret (r, p') \<and> good p' \<and>
      (case r of None \<Rightarrow> live p' = live p | Some a \<Rightarrow> a \<notin> live p \<and> live p' = insert a (live p))"
    and release_law: "good p \<Longrightarrow> a \<in> live p \<Longrightarrow> \<exists>p'. release a p = ret p' \<and> good p' \<and> live p' = live p - {a}"
begin

lemma match_unref:
  assumes m: "rcp_match good live n s" and n: "0 < n a" "n a + 1 < 2 ^ 32"
  shows "\<exists>s'. rcp_unref release a s = ret s' \<and> rcp_match good live (n(a := n a - 1)) s' \<and> handles s' = handles s \<and> raw s' = raw s"
proof -
  have obj: "objs s a = Some (rc_abs (n a, 0))" using m n by (simp add: rcp_match_def)
  have un: "rc_unref_d (rc_abs (n a, 0)) = ret (rc_abs (n a - 1, if n a = 1 then 1 else 0))"
    using rc_step_refines [of "n a" Rc_unref_d 0] n by simp
  show ?thesis
  proof (cases "n a = 1")
    case True
    obtain p where p: "release a (store s) = ret p" "good p" "live p = live (store s) - {a}"
      using release_law [of "store s" a] m n(1) by (auto simp: rcp_match_def)
    have "rc_unref_d (rc_abs (1, 0)) = ret (rc_abs (0, 1))" using un True by simp
    then show ?thesis using obj p m True
      by (auto simp: rcp_unref_def rcp_destroy_def rcp_destructor_def rcp_obj_def rc_abs_def rcp_match_def fun_eq_iff)
  next
    case False
    then show ?thesis using obj un m n
      by (auto simp: rcp_unref_def rcp_obj_def rc_abs_def rcp_match_def fun_eq_iff)
  qed
qed

lemma match_new:
  assumes "rcp_match good live n s"
  shows "\<exists>r s'. rcp_new alloc s = ret (r, s') \<and> handles s' = handles s \<and> raw s' = raw s \<and>
    (case r of None \<Rightarrow> rcp_match good live n s' | Some a \<Rightarrow> n a = 0 \<and> rcp_match good live (n(a := 1)) s')"
proof -
  obtain r p where p: "alloc (store s) = ret (r, p)" "good p"
      "case r of None \<Rightarrow> live p = live (store s) | Some a \<Rightarrow> a \<notin> live (store s) \<and> live p = insert a (live (store s))"
    using alloc_law [of "store s"] assms by (auto simp: rcp_match_def)
  have "rc_init = rc_abs (1, 0)" by (simp add: rc_init_def rc_abs_def)
  then show ?thesis using p assms
    by (cases r) (auto simp: rcp_new_def rcp_match_def fun_eq_iff)
qed

lemma match_unref_if:
  assumes "rcp_match good live n s" "\<And>a. p = Some a \<Longrightarrow> 0 < n a \<and> n a + 1 < 2 ^ 32"
  shows "\<exists>s'. rcp_unref_if release p s = ret s' \<and> rcp_match good live (lose p n) s' \<and> handles s' = handles s \<and> raw s' = raw s"
proof (cases p)
  case (Some a)
  then have "lose p n = n(a := n a - 1)" by (auto simp: lose_def fun_eq_iff)
  then show ?thesis using match_unref [of n s a] assms Some by (simp add: rcp_unref_if_def)
qed (use assms(1) in \<open>simp add: rcp_unref_if_def\<close>)

lemma rcp_invI:
  assumes "rcp_match good live n s'" "owned s' = n" "finite (dom (handles s'))"
  shows "rcp_inv good live s'"
  using assms by (simp add: rcp_inv_def)

text \<open>A handle in scope has a target that is alive and whose count does not wrap.\<close>

lemma handle_owned:
  assumes "rcp_inv good live s" "rcp_small s" "handles s v = Some (Some a)"
  shows "0 < owned s a \<and> owned s a + 1 < 2 ^ 32"
  using assms refs_handle [of "handles s" v a] by (auto simp: rcp_inv_def rcp_small_def owned_def)

lemma construct_keeps:
  assumes inv: "rcp_inv good live s" "rcp_small s" and "handles s v = None"
    and p: "\<And>a. p = Some a \<Longrightarrow> 0 < owned s a"
  shows "\<exists>s'. rcp_construct v p s = ret s' \<and> rcp_inv good live s'"
proof -
  have fin: "finite (dom (handles s))" and m: "rcp_match good live (owned s) (rcp_set v p s)"
    using inv(1) by (simp_all add: rcp_inv_def rcp_set_def)
  obtain s' where s': "rcp_ref_if p (rcp_set v p s) = ret s'" "rcp_match good live (gain p (owned s)) s'"
      "handles s' = (handles s)(v := Some p)" "raw s' = raw s"
    using match_ref_if [OF m, of p] p inv(2) by (auto simp: rcp_small_def rcp_set_def)
  then show ?thesis using owned_update [OF fin s'(3,4)] assms(3) fin
    by (auto simp: rcp_construct_def intro!: rcp_invI [OF s'(2)])
qed

lemma copy_keeps:
  assumes inv: "rcp_inv good live s" "rcp_small s" and "handles s v = None" "handles s w = Some p"
  shows "\<exists>s'. rcp_copy v w s = ret s' \<and> rcp_inv good live s'"
proof -
  have "rcp_copy v w s = rcp_construct v p s" using assms(4) by (simp add: rcp_copy_def rcp_get_def rcp_construct_def)
  then show ?thesis using construct_keeps [OF inv assms(3), of p] handle_owned [OF inv, of w] assms(4) by auto
qed

lemma move_keeps:
  assumes inv: "rcp_inv good live s" and h: "handles s v = None" "handles s w = Some p"
  shows "\<exists>s'. rcp_move v w s = ret s' \<and> rcp_inv good live s'"
proof -
  let ?s1 = "rcp_set v p s" and ?s2 = "rcp_set w None (rcp_set v p s)"
  have fin: "finite (dom (handles s))" and m: "rcp_match good live (owned s) ?s2"
    using inv by (simp_all add: rcp_inv_def rcp_set_def)
  have "owned ?s1 = gain p (owned s)" using owned_update [OF fin, of ?s1 v "Some p"] h(1) by (simp add: rcp_set_def)
  moreover have "owned ?s2 = lose p (owned ?s1)"
    using owned_update [of ?s1 ?s2 w "Some None"] fin h by (auto simp: rcp_set_def)
  ultimately show ?thesis using h m fin
    by (auto simp: rcp_move_def rcp_get_def rcp_set_def intro!: rcp_invI [of "owned s"])
qed

lemma destruct_keeps:
  assumes inv: "rcp_inv good live s" "rcp_small s" and h: "handles s v = Some p"
  shows "\<exists>s'. rcp_destruct release v s = ret s' \<and> rcp_inv good live s'"
proof -
  have fin: "finite (dom (handles s))" and m: "rcp_match good live (owned s) s" using inv(1) by (simp_all add: rcp_inv_def)
  have own: "0 < owned s a \<and> owned s a + 1 < 2 ^ 32" if "p = Some a" for a using handle_owned [OF inv] h that by simp
  obtain s1 where s1: "rcp_unref_if release p s = ret s1" "rcp_match good live (lose p (owned s)) s1"
      "handles s1 = handles s" "raw s1 = raw s"
    using match_unref_if [OF m own] by blast
  have "rcp_destruct release v s = ret (s1\<lparr>handles := (handles s1)(v := None)\<rparr>)"
  proof (cases p)
    case None
    then show ?thesis using h s1(1) by (simp add: rcp_destruct_def rcp_get_def rcp_unref_if_def)
  next
    case (Some a)
    then have "objs s a = Some (rc_abs (owned s a, 0))" using m own by (simp add: rcp_match_def)
    moreover have "(of_nat (owned s a) :: 32 word) \<noteq> 0" using rc_count_word(1) [of "owned s a"] own [OF Some] by simp
    ultimately show ?thesis using h s1(1) Some
      by (simp add: rcp_destruct_def rcp_get_def rcp_unref_if_def rcp_ref_count_def rcp_obj_def rc_abs_def)
  qed
  moreover have "owned (s1\<lparr>handles := (handles s1)(v := None)\<rparr>) = lose p (owned s)"
    using owned_update [OF fin, of "s1\<lparr>handles := (handles s1)(v := None)\<rparr>" v None] h s1(3,4) by simp
  ultimately show ?thesis using s1 fin by (auto intro!: rcp_invI [of "lose p (owned s)"])
qed

lemma copy_assign_keeps:
  assumes inv: "rcp_inv good live s" "rcp_small s" and h: "handles s v = Some p" "handles s w = Some q"
  shows "\<exists>s'. rcp_copy_assign release v w s = ret s' \<and> rcp_inv good live s'"
proof (cases "w = v")
  case True
  then show ?thesis using inv(1) by (simp add: rcp_copy_assign_def)
next
  case False
  have fin: "finite (dom (handles s))" and m: "rcp_match good live (owned s) s" using inv(1) by (simp_all add: rcp_inv_def)
  have own: "0 < owned s a \<and> owned s a + 1 < 2 ^ 32" if "handles s u = Some (Some a)" for a u
    using handle_owned [OF inv that] .
  obtain s1 where s1: "rcp_unref_if release p s = ret s1" "rcp_match good live (lose p (owned s)) s1"
      "handles s1 = handles s" "raw s1 = raw s"
    using match_unref_if [OF m, of p] own [of v] h(1) by auto
  have both: "0 < lose p (owned s) a \<and> lose p (owned s) a + 1 < 2 ^ 32" if "q = Some a" for a
    using refs_two [OF fin, of v a w] own [of w a] h False that by (auto simp: lose_def owned_def)
  have "rcp_match good live (lose p (owned s)) (rcp_set v q s1)" using s1(2) by (simp add: rcp_set_def)
  then obtain s' where s': "rcp_ref_if q (rcp_set v q s1) = ret s'" "rcp_match good live (gain q (lose p (owned s))) s'"
      "handles s' = (handles s)(v := Some q)" "raw s' = raw s"
    using match_ref_if [of good live "lose p (owned s)" "rcp_set v q s1" q] both s1(3,4) by (auto simp: rcp_set_def)
  have "lose p (gain q (owned s)) = gain q (lose p (owned s))"
    using own [of v] h(1) by (auto simp: lose_def gain_def fun_eq_iff)
  then have "owned s' = gain q (lose p (owned s))" using owned_update [OF fin s'(3,4)] h(1) by simp
  then show ?thesis using s1 s' h False fin
    by (auto simp: rcp_copy_assign_def rcp_get_def intro!: rcp_invI [OF s'(2)])
qed

text \<open>The statements of the move assignment would be right, also when a variable is assigned to itself
  (which leaves it null).\<close>

lemma move_assign_body_keeps:
  assumes inv: "rcp_inv good live s" "rcp_small s" and h: "handles s v = Some p" "handles s w = Some q"
  shows "\<exists>s'. rcp_move_assign_body release v w s = ret s' \<and> rcp_inv good live s' \<and>
    handles s' = (handles s)(v \<mapsto> q, w \<mapsto> None)"
proof -
  have fin: "finite (dom (handles s))" and m: "rcp_match good live (owned s) s" using inv(1) by (simp_all add: rcp_inv_def)
  have own: "0 < owned s a \<and> owned s a + 1 < 2 ^ 32" if "handles s u = Some (Some a)" for a u
    using handle_owned [OF inv that] .
  obtain s1 where s1: "rcp_unref_if release p s = ret s1" "rcp_match good live (lose p (owned s)) s1"
      "handles s1 = handles s" "raw s1 = raw s"
    using match_unref_if [OF m, of p] own [of v] h(1) by auto
  let ?t = "rcp_set v q s1" and ?u = "rcp_set w None (rcp_set v q s1)"
  have "owned ?t = lose p (gain q (owned s))"
    using owned_update [OF fin, of ?t v "Some q"] s1(3,4) h(1) by (simp add: rcp_set_def)
  moreover have "owned ?u = lose (if w = v then q else q) (owned ?t)"
    using owned_update [of ?t ?u w "Some None"] fin h s1(3) by (auto simp: rcp_set_def)
  moreover have "lose q (lose p (gain q (owned s))) = lose p (owned s)" by (auto simp: lose_def gain_def fun_eq_iff)
  ultimately have "owned ?u = lose p (owned s)" by simp
  moreover have "rcp_match good live (lose p (owned s)) ?u" using s1(2) by (simp add: rcp_set_def)
  ultimately have "rcp_inv good live ?u" using fin s1(3) by (intro rcp_invI [of "lose p (owned s)"]) (auto simp: rcp_set_def)
  then show ?thesis using s1 h by (auto simp: rcp_move_assign_body_def rcp_get_def rcp_set_def)
qed

text \<open>Operations that make an object or change a plain reference.\<close>

lemma owned_cong: "handles s1 = handles s \<Longrightarrow> raw s1 = raw s \<Longrightarrow> owned s1 = owned s"
  by (rule ext) (simp add: owned_def)

lemma owned_raw: "owned (s\<lparr>raw := (raw s)(a := k)\<rparr>) = (owned s)(a := refs (handles s) a + k)"
  by (simp add: owned_def fun_eq_iff)

lemma new_object_keeps:
  assumes inv: "rcp_inv good live s"
  shows "\<exists>s'. rcp_exec alloc release New_object s = ret s' \<and> rcp_inv good live s'"
proof -
  have fin: "finite (dom (handles s))" and m: "rcp_match good live (owned s) s" using inv by (simp_all add: rcp_inv_def)
  obtain r s1 where s1: "rcp_new alloc s = ret (r, s1)" "handles s1 = handles s" "raw s1 = raw s"
      "case r of None \<Rightarrow> rcp_match good live (owned s) s1
        | Some a \<Rightarrow> owned s a = 0 \<and> rcp_match good live ((owned s)(a := 1)) s1"
    using match_new [OF m] by blast
  have o1: "owned s1 = owned s" using owned_cong [OF s1(2,3)] .
  show ?thesis
  proof (cases r)
    case None
    then show ?thesis using s1 o1 fin by (auto intro!: rcp_invI [of "owned s"])
  next
    case (Some a)
    then have "refs (handles s1) a = 0" using s1(2,4) by (simp add: owned_def)
    then show ?thesis using s1 o1 fin Some owned_raw [of s1 a 1] by (auto intro!: rcp_invI [of "(owned s)(a := 1)"])
  qed
qed

lemma create_keeps:
  assumes inv: "rcp_inv good live s" and h: "handles s v = None"
  shows "\<exists>s'. rcp_create alloc v s = ret s' \<and> rcp_inv good live s'"
proof -
  have fin: "finite (dom (handles s))" and m: "rcp_match good live (owned s) s" using inv by (simp_all add: rcp_inv_def)
  obtain r s1 where s1: "rcp_new alloc s = ret (r, s1)" "handles s1 = handles s" "raw s1 = raw s"
      "case r of None \<Rightarrow> rcp_match good live (owned s) s1
        | Some a \<Rightarrow> owned s a = 0 \<and> rcp_match good live ((owned s)(a := 1)) s1"
    using match_new [OF m] by blast
  have "owned (rcp_adopt v r s1) = gain r (owned s)"
    using owned_update [OF fin, of "rcp_adopt v r s1" v "Some r"] s1(2,3) h by (simp add: rcp_adopt_def rcp_set_def)
  moreover have "rcp_match good live (gain r (owned s)) s1"
  proof (cases r)
    case (Some a)
    then have "gain r (owned s) = (owned s)(a := 1)" using s1(4) by (auto simp: gain_def fun_eq_iff)
    then show ?thesis using s1(4) Some by simp
  qed (use s1(4) in simp)
  ultimately show ?thesis using s1 fin
    by (auto simp: rcp_create_def rcp_adopt_def rcp_set_def intro!: rcp_invI [of "gain r (owned s)"])
qed

lemma adopt_keeps:
  assumes inv: "rcp_inv good live s" and h: "handles s v = None" and p: "\<And>a. p = Some a \<Longrightarrow> 0 < raw s a"
  shows "\<exists>s'. rcp_exec alloc release (Adopt v p) s = ret s' \<and> rcp_inv good live s'"
proof -
  have fin: "finite (dom (handles s))" and m: "rcp_match good live (owned s) s" using inv by (simp_all add: rcp_inv_def)
  define t where "t = (case p of None \<Rightarrow> s | Some a \<Rightarrow> s\<lparr>raw := (raw s)(a := raw s a - 1)\<rparr>)"
  have t: "handles t = handles s" "rcp_match good live (owned s) t" "owned t = lose p (owned s)"
    using m p owned_raw [of s] by (auto simp: t_def lose_def owned_def fun_eq_iff split: option.split)
  have "owned (rcp_set v p t) = gain p (lose p (owned s))"
    using owned_update [of t "rcp_set v p t" v "Some p"] fin t h by (simp add: rcp_set_def)
  moreover have "gain p (lose p (owned s)) = owned s" using p by (auto simp: gain_def lose_def owned_def fun_eq_iff)
  ultimately have "rcp_inv good live (rcp_set v p t)"
    using t fin by (intro rcp_invI [of "owned s"]) (auto simp: rcp_set_def)
  then show ?thesis by (cases p) (simp_all add: rcp_adopt_def t_def)
qed

lemma raw_ref_keeps:
  assumes inv: "rcp_inv good live s" "rcp_small s" and "0 < owned s a"
  shows "\<exists>s'. rcp_exec alloc release (Raw_ref a) s = ret s' \<and> rcp_inv good live s'"
proof -
  have fin: "finite (dom (handles s))" and m: "rcp_match good live (owned s) s" using inv(1) by (simp_all add: rcp_inv_def)
  obtain s1 where s1: "rcp_ref a s = ret s1" "rcp_match good live ((owned s)(a := owned s a + 1)) s1"
      "handles s1 = handles s" "raw s1 = raw s"
    using match_ref [OF m assms(3)] inv(2) by (auto simp: rcp_small_def)
  have "owned (s1\<lparr>raw := (raw s1)(a := raw s1 a + 1)\<rparr>) = (owned s)(a := owned s a + 1)"
    unfolding owned_raw owned_cong [OF s1(3,4)] by (simp add: owned_def s1(3,4))
  then have "rcp_inv good live (s1\<lparr>raw := (raw s1)(a := raw s1 a + 1)\<rparr>)"
    using s1 fin by (intro rcp_invI [of "(owned s)(a := owned s a + 1)"]) simp_all
  then show ?thesis using s1(1) by simp
qed

lemma raw_unref_keeps:
  assumes inv: "rcp_inv good live s" "rcp_small s" and "0 < raw s a"
  shows "\<exists>s'. rcp_exec alloc release (Raw_unref a) s = ret s' \<and> rcp_inv good live s'"
proof -
  have fin: "finite (dom (handles s))" and m: "rcp_match good live (owned s) s" using inv(1) by (simp_all add: rcp_inv_def)
  have "0 < owned s a" using assms(3) by (simp add: owned_def)
  then obtain s1 where s1: "rcp_unref release a s = ret s1" "rcp_match good live ((owned s)(a := owned s a - 1)) s1"
      "handles s1 = handles s" "raw s1 = raw s"
    using match_unref [OF m] inv(2) by (auto simp: rcp_small_def)
  have "owned (s1\<lparr>raw := (raw s1)(a := raw s1 a - 1)\<rparr>) = (owned s)(a := owned s a - 1)"
    unfolding owned_raw owned_cong [OF s1(3,4)] using assms(3) by (simp add: owned_def s1(3,4))
  then have "rcp_inv good live (s1\<lparr>raw := (raw s1)(a := raw s1 a - 1)\<rparr>)"
    using s1 fin by (intro rcp_invI [of "(owned s)(a := owned s a - 1)"]) simp_all
  then show ?thesis using s1(1) by simp
qed

section \<open>Programs\<close>

lemma exec_keeps:
  assumes inv: "rcp_inv good live s" "rcp_small s" and allowed: "rcp_allowed s op"
  shows "case op of
      Move_assign v w \<Rightarrow> rcp_exec alloc release op s = fail No_return
    | _ \<Rightarrow> \<exists>s'. rcp_exec alloc release op s = ret s' \<and> rcp_inv good live s'"
proof (cases op)
  case (Move_assign v w)
  then obtain p q where "handles s v = Some p" "handles s w = Some q" using allowed by auto
  from move_assign_body_keeps [OF inv this] show ?thesis using Move_assign by (auto simp: rcp_move_assign_def)
next
  case (Construct v p)
  then show ?thesis using allowed construct_keeps [OF inv, of v p] by (cases p) auto
next
  case (Adopt v p)
  then show ?thesis using allowed adopt_keeps [OF inv(1), of v p] by (cases p) auto
qed (use allowed new_object_keeps [OF inv(1)] raw_ref_keeps [OF inv] raw_unref_keeps [OF inv] copy_keeps [OF inv]
    move_keeps [OF inv(1)] destruct_keeps [OF inv] copy_assign_keeps [OF inv] create_keeps [OF inv(1)] in auto)

lemma run_keeps:
  assumes "rcp_inv good live s" "rcp_valid alloc release ops s"
  shows "(\<exists>s'. rcp_run alloc release ops s = ret s' \<and> rcp_inv good live s' \<and> rcp_small s') \<or>
    (\<exists>v w. Move_assign v w \<in> set ops) \<and> rcp_run alloc release ops s = fail No_return"
  using assms
proof (induction ops arbitrary: s)
  case (Cons op ops)
  have k: "case op of
      Move_assign v w \<Rightarrow> rcp_exec alloc release op s = fail No_return
    | _ \<Rightarrow> \<exists>s'. rcp_exec alloc release op s = ret s' \<and> rcp_inv good live s'"
    using exec_keeps [of s op] Cons.prems by simp
  consider v w where "op = Move_assign v w" "rcp_exec alloc release op s = fail No_return"
    | s' where "rcp_exec alloc release op s = ret s'" "rcp_inv good live s'"
    using k by (cases op) auto
  then show ?case
  proof cases
    case 1
    then show ?thesis by (auto simp: rcp_run_def)
  next
    case 2
    then show ?thesis using Cons.IH [of s'] Cons.prems by (auto simp: rcp_run_def)
  qed
qed (simp add: rcp_run_def)

lemma start_inv: "good p \<Longrightarrow> live p = {} \<Longrightarrow> rcp_inv good live (rcp_start p)"
  by (simp add: rcp_inv_def rcp_start_def rcp_match_def owned_def refs_def fun_eq_iff)

end

end
