(* ===== verification/Rc_Pool.thy ===== *)
theory Rc_Pool
  imports Rc_Own Pool_Props
begin

text \<open>
  Reference-counted objects in a pool: a class whose \<open>operator new\<close> and \<open>operator delete\<close> are those
  of \<open>src/include/a3/pool.h\<close>, shared by the pointers of \<open>rc.hh\<close>.
\<close>

section \<open>A class allocated from a pool\<close>

text \<open>\<open>A3_POOL_OF\<close> and \<open>A3_POOL_STORAGE\<close> take the size and alignment of the class and no callbacks.\<close>

definition pool_of :: "bool \<Rightarrow> bool \<Rightarrow> size_t \<Rightarrow> size_t \<Rightarrow> size_t \<Rightarrow> bool \<Rightarrow> pool_callback \<Rightarrow> pool_callback \<Rightarrow> a3_pool run" where
  "pool_of ok_pool ok_data size_of align_of n zero_blocks init_cb free_cb =
     a3_pool_new ok_pool ok_data size_of n align_of zero_blocks init_cb free_cb"

definition pool_storage :: "bool \<Rightarrow> bool \<Rightarrow> size_t \<Rightarrow> size_t \<Rightarrow> size_t \<Rightarrow> bool \<Rightarrow> a3_pool run" where
  "pool_storage ok_pool ok_data size_of align_of n zero_blocks = pool_of ok_pool ok_data size_of align_of n zero_blocks None None"

definition pool_op_new :: "size_t \<Rightarrow> size_t \<Rightarrow> (size_t, a3_pool) allocate" where
  "pool_op_new size_of sz p = assert_c (sz = size_of) (bind_run (a3_pool_alloc_block p) (\<lambda>(r, p').
     if r = None then ret (None, p') else ret (r, p')))"

definition pool_op_delete :: "size_t option \<Rightarrow> a3_pool \<Rightarrow> a3_pool run" where
  "pool_op_delete ptr p = assert_c (ptr \<noteq> None) (a3_pool_free_block p ptr)"

text \<open>\<open>new T\<close> and \<open>delete\<close> of a pointer that is not null, for an object of \<open>size_of\<close> bytes.\<close>

abbreviation class_new :: "size_t \<Rightarrow> (size_t, a3_pool) allocate" where
  "class_new size_of \<equiv> pool_op_new size_of size_of"

definition class_delete :: "(size_t, a3_pool) release" where
  "class_delete a p = pool_op_delete (Some a) p"

section \<open>A pool is an object store\<close>

lemma pool_chain_unique:
  assumes "pool_shape bs n p"
  shows "pool_chain bs p is c \<Longrightarrow> pool_chain bs p js c \<Longrightarrow> is = js"
proof (induction "is" arbitrary: js c)
  case Nil
  then show ?case by (cases js) auto
next
  case (Cons i "is")
  then obtain j js' where js: "js = j # js'" by (cases js) auto
  then have "i = j" using Cons.prems pool_slot_inj [OF assms] by auto
  then show ?case using Cons js by auto
qed

lemma pool_view_unique: "pool_view bs n p is \<Longrightarrow> pool_view bs n p js \<Longrightarrow> is = js"
  using pool_chain_unique by (auto simp: pool_view_def)

definition pool_good :: "size_t \<Rightarrow> nat \<Rightarrow> a3_pool \<Rightarrow> bool" where
  "pool_good bs n p \<longleftrightarrow> (\<exists>is. pool_view bs n p is)"

definition pool_live :: "size_t \<Rightarrow> nat \<Rightarrow> a3_pool \<Rightarrow> size_t set" where
  "pool_live bs n p = (\<Union>is \<in> {is. pool_view bs n p is}. (\<lambda>i. i * bs) ` ({..<n} - set is))"

lemma pool_live_eq:
  assumes "pool_view bs n p is"
  shows "pool_live bs n p = (\<lambda>i. i * bs) ` ({..<n} - set is)"
proof -
  have "{js. pool_view bs n p js} = {is}" using assms pool_view_unique [OF _ assms] by blast
  then show ?thesis by (simp add: pool_live_def)
qed

lemma pool_block_inj: "pool_view bs n p is \<Longrightarrow> i * bs = j * bs \<longleftrightarrow> i = j"
  by (auto simp: pool_view_def pool_shape_def)

lemma pool_live_block: "pool_view bs n p is \<Longrightarrow> i * bs \<in> pool_live bs n p \<longleftrightarrow> i < n \<and> i \<notin> set is"
  using pool_block_inj by (fastforce simp: pool_live_eq)

interpretation pool_store: object_store "class_new size_of" class_delete "pool_good bs n" "pool_live bs n"
  for size_of bs n
proof unfold_locales
  fix p
  assume "pool_good bs n p"
  then obtain vs where v: "pool_view bs n p vs" by (auto simp: pool_good_def)
  show "\<exists>r p'. class_new size_of p = ret (r, p') \<and> pool_good bs n p' \<and>
    (case r of None \<Rightarrow> pool_live bs n p' = pool_live bs n p
     | Some a \<Rightarrow> a \<notin> pool_live bs n p \<and> pool_live bs n p' = insert a (pool_live bs n p))"
  proof (cases vs)
    case Nil
    then have "a3_pool_alloc_block p = ret (None, p)" using v by (simp add: pool_view_def a3_pool_alloc_block_def)
    then show ?thesis using v by (auto simp: pool_op_new_def pool_good_def)
  next
    case (Cons i js)
    then obtain p' where p': "a3_pool_alloc_block p = ret (Some (i * bs), p')" "pool_view bs n p' js"
      using pool_alloc_ok [of bs n p i js] v by auto
    have "i < n" "i \<notin> set js" using v Cons by (auto simp: pool_view_def)
    then have "insert i ({..<n} - set vs) = {..<n} - set js" using Cons by auto
    then have "pool_live bs n p' = insert (i * bs) (pool_live bs n p)"
      using pool_live_eq [OF v] pool_live_eq [OF p'(2)] by (metis image_insert)
    then show ?thesis using p' pool_live_block [OF v, of i] Cons by (auto simp: pool_op_new_def pool_good_def)
  qed
next
  fix p a
  assume "pool_good bs n p" and a: "a \<in> pool_live bs n p"
  then obtain vs where v: "pool_view bs n p vs" by (auto simp: pool_good_def)
  then obtain i where i: "a = i * bs" "i < n" "i \<notin> set vs" using a by (auto simp: pool_live_eq)
  then obtain p' where p': "a3_pool_free_block p (Some a) = ret p'" "pool_view bs n p' (i # vs)"
    using pool_free_block_ok [OF v i(2,3)] by auto
  have "pool_live bs n p' = pool_live bs n p - {a}"
    unfolding pool_live_eq [OF v] pool_live_eq [OF p'(2)] i(1) using pool_block_inj [OF v] by auto
  then show "\<exists>p'. class_delete a p = ret p' \<and> pool_good bs n p' \<and> pool_live bs n p' = pool_live bs n p - {a}"
    using p' by (auto simp: class_delete_def pool_op_delete_def pool_good_def)
qed

section \<open>An example\<close>

text \<open>Three free blocks of 16 bytes; two objects shared by three variables.\<close>

definition ex_free_pool :: a3_pool where
  "ex_free_pool = ex_pool\<lparr>p_next := [8 \<mapsto> 24, 24 \<mapsto> 40], p_free := Some 8\<rparr>"

lemma ex_free_pool_view: "pool_view 16 3 ex_free_pool [0, 1, 2]"
  by (simp add: pool_view_def pool_shape_def slot_at_def ex_free_pool_def ex_pool_def ex_slot_offset size_mod_def)

definition ex_rc_program :: "size_t rcp_op list" where
  "ex_rc_program = [Create 1, Create 2, Copy 3 1, Copy_assign 2 2, Copy_assign 2 3, Destruct 1]"

lemma refs_le: "finite (dom h) \<Longrightarrow> refs h a \<le> card (dom h)"
  unfolding refs_def by (rule card_mono) auto

lemma ex_small:
  assumes "finite (dom (handles s))" "card (dom (handles s)) \<le> 9" "raw s = (\<lambda>a. 0)"
  shows "rcp_small s"
proof -
  have "owned s a \<le> 9" for a using refs_le [OF assms(1), of a] assms(2,3) by (simp add: owned_def)
  then have "owned s a + 1 < 2 ^ 32" for a by (rule le_less_trans [OF add_right_mono]) simp
  then show ?thesis by (simp add: rcp_small_def)
qed

lemmas ex_rc_defs = rcp_create_def rcp_new_def rcp_adopt_def rcp_set_def rcp_get_def rcp_copy_def rcp_copy_assign_def
  rcp_ref_if_def rcp_unref_if_def rcp_ref_def rcp_unref_def rcp_destroy_def rcp_destructor_def rcp_obj_def rcp_ref_count_def rcp_destruct_def
  rc_init_def rc_ref_def rc_unref_d_def rcp_start_def pool_op_new_def pool_op_delete_def class_delete_def

lemmas ex_pool_defs = a3_pool_alloc_block_def a3_pool_free_block_def slot_get_next_def slot_set_next_def slot_obj_def
  obj_slot_def ex_free_pool_def ex_pool_def ex_slot_offset size_mod_def

lemma ex_rc_valid: "rcp_valid (class_new 4) class_delete ex_rc_program (rcp_start ex_free_pool)"
  by (simp add: ex_rc_program_def ex_rc_defs ex_pool_defs ex_small)

section \<open>Property\<close>

text \<open>C2: any well-formed program over \<open>Rc\<close> pointers, started on a pool whose blocks are all free, never
  touches a destroyed object and fails no assertion: it runs to its end, unless it reaches a move assignment,
  which has no \<open>return\<close>. At the end a block is back in the pool exactly if no variable and no plain pointer owns
  it, every other object has as its count the number of its owners, and every variable that is not null can be
  dereferenced.\<close>

theorem rc_pool_owned_blocks:
  assumes "pool_view bs n p is" and "set is = {..<n}"
    and "rcp_valid (class_new size_of) class_delete ops (rcp_start p)"
  shows "(\<exists>s js. rcp_run (class_new size_of) class_delete ops (rcp_start p) = ret s \<and> pool_view bs n (store s) js \<and>
      (\<forall>i < n. i \<in> set js \<longleftrightarrow> owned s (i * bs) = 0) \<and>
      (\<forall>a. 0 < owned s a \<longrightarrow> rcp_ref_count s a = ret (of_nat (owned s a))) \<and>
      (\<forall>v a. handles s v = Some (Some a) \<longrightarrow> rcp_deref s v = ret a \<and> 0 < owned s a)) \<or>
    (\<exists>v w. Move_assign v w \<in> set ops) \<and> rcp_run (class_new size_of) class_delete ops (rcp_start p) = fail No_return"
proof -
  have "rcp_inv (pool_good bs n) (pool_live bs n) (rcp_start p)"
    using assms(1,2) by (intro pool_store.start_inv) (auto simp: pool_good_def pool_live_eq)
  from pool_store.run_keeps [OF this assms(3)] show ?thesis
  proof (elim disjE exE conjE)
    fix s
    assume run: "rcp_run (class_new size_of) class_delete ops (rcp_start p) = ret s"
      and inv: "rcp_inv (pool_good bs n) (pool_live bs n) s" "rcp_small s"
    then obtain js where js: "pool_view bs n (store s) js" by (auto simp: rcp_inv_def rcp_match_def pool_good_def)
    have m: "pool_live bs n (store s) = {a. 0 < owned s a}"
        "objs s = (\<lambda>a. if owned s a = 0 then None else Some (rc_abs (owned s a, 0)))"
      using inv(1) by (auto simp: rcp_inv_def rcp_match_def)
    have "i \<in> set js \<longleftrightarrow> owned s (i * bs) = 0" if "i < n" for i
      using pool_live_block [OF js, of i] m(1) that by auto
    moreover have "rcp_ref_count s a = ret (of_nat (owned s a))" if "0 < owned s a" for a
      using m(2) that by (simp add: rcp_ref_count_def rcp_obj_def rc_abs_def)
    moreover have "rcp_deref s v = ret a \<and> 0 < owned s a" if "handles s v = Some (Some a)" for v a
      using pool_store.handle_owned [OF inv that] that by (simp add: rcp_deref_def rcp_get_def)
    ultimately show ?thesis using run js by blast
  qed blast
qed

theorem rc_pool_owned_blocks_witness:
  "\<exists>s js. rcp_run (class_new 4) class_delete ex_rc_program (rcp_start ex_free_pool) = ret s \<and> pool_view 16 3 (store s) js \<and>
     handles s = [2 \<mapsto> Some 0, 3 \<mapsto> Some 0] \<and> rcp_deref s 2 = ret 0 \<and> 0 < owned s 0 \<and> 0 \<notin> set js"
proof -
  have "set [0, 1, 2] = {..<3::nat}" by auto
  from rc_pool_owned_blocks [OF ex_free_pool_view this ex_rc_valid]
  obtain s js where s: "rcp_run (class_new 4) class_delete ex_rc_program (rcp_start ex_free_pool) = ret s"
      "pool_view 16 3 (store s) js" "\<forall>i < 3. i \<in> set js \<longleftrightarrow> owned s (i * 16) = 0"
      "\<forall>v a. handles s v = Some (Some a) \<longrightarrow> rcp_deref s v = ret a \<and> 0 < owned s a"
    by (auto simp: ex_rc_program_def)
  moreover from s(1) have "handles s = [2 \<mapsto> Some 0, 3 \<mapsto> Some 0]"
    by (auto simp: rcp_run_def ex_rc_program_def ex_rc_defs ex_pool_defs fun_eq_iff)
  moreover have "handles s 2 = Some (Some 0) \<longrightarrow> rcp_deref s 2 = ret 0 \<and> 0 < owned s 0" using s(4) by blast
  moreover have "0 \<in> set js \<longleftrightarrow> owned s 0 = 0" using s(3) by (auto dest: spec [of _ 0])
  ultimately show ?thesis by auto
qed

end
