(* ===== verification/Cpp_Error.thy ===== *)
theory Cpp_Error
  imports Prelude
begin

text \<open>
  \<open>Option\<close> of \<open>src/include/a3/option.hh\<close>, and the errors of \<open>src/include/a3/error.hh\<close>: chains of causes and how
  they are printed. What the virtual functions of an error return is data of the object; a
  reference is the address of an object.
\<close>

section \<open>Option\<close>

text \<open>Dereferencing an empty option is undefined.\<close>

definition opt_deref :: "'a option \<Rightarrow> 'a run" where
  "opt_deref x = (case x of None \<Rightarrow> fail Null_deref | Some v \<Rightarrow> ret v)"

text \<open>For an option of a reference, the address it holds: \<open>value\<close> throws \<open>std::bad_optional_access\<close> where the others are undefined.\<close>

definition opt_value :: "'r option \<Rightarrow> 'r run" where
  "opt_value x = (case x of None \<Rightarrow> fail Thrown | Some r \<Rightarrow> ret r)"

definition opt_arrow :: "'r option \<Rightarrow> 'r run" where
  "opt_arrow x = opt_deref x"

text \<open>A reference to the content, which is at address \<open>r\<close>.\<close>

definition opt_as_ref :: "'r \<Rightarrow> 'a option \<Rightarrow> 'r option" where
  "opt_as_ref r x = (if x = None then None else Some r)"

definition opt_map :: "'a option \<Rightarrow> ('a \<Rightarrow> 'b run) \<Rightarrow> 'b option run" where
  "opt_map x f = (if x = None then ret None
     else bind_run (opt_deref x) (\<lambda>v. bind_run (f v) (\<lambda>u. ret (Some u))))"

definition opt_map_or_else :: "'a option \<Rightarrow> 'b run \<Rightarrow> ('a \<Rightarrow> 'b run) \<Rightarrow> 'b run" where
  "opt_map_or_else x fallback f = (if x = None then fallback else bind_run (opt_map x f) opt_deref)"

definition opt_map_or :: "'a option \<Rightarrow> 'b \<Rightarrow> ('a \<Rightarrow> 'b run) \<Rightarrow> 'b run" where
  "opt_map_or x fallback f = (if x = None then ret fallback else bind_run (opt_map x f) opt_deref)"

text \<open>The overloads for a constant option work on a copy.\<close>

definition opt_map_const :: "'a option \<Rightarrow> ('a \<Rightarrow> 'b run) \<Rightarrow> 'b option run" where
  "opt_map_const x f = (let copy = x in opt_map copy f)"

definition opt_map_or_else_const :: "'a option \<Rightarrow> 'b run \<Rightarrow> ('a \<Rightarrow> 'b run) \<Rightarrow> 'b run" where
  "opt_map_or_else_const x fallback f = (let copy = x in opt_map_or_else copy fallback f)"

definition opt_map_or_const :: "'a option \<Rightarrow> 'b \<Rightarrow> ('a \<Rightarrow> 'b run) \<Rightarrow> 'b run" where
  "opt_map_or_const x fallback f = (let copy = x in opt_map_or copy fallback f)"

lemma opt_cases:
  "opt_map None f = ret None" "opt_map (Some v) f = bind_run (f v) (\<lambda>u. ret (Some u))"
  "opt_map_or_else None d f = d" "opt_map_or_else (Some v) d f = f v"
  "opt_map_or None w f = ret w" "opt_map_or (Some v) w f = f v"
proof -
  have "bind_run (bind_run (f v) (\<lambda>u. ret (Some u))) opt_deref = f v"
    by (cases "f v") (auto simp: bind_run_def opt_deref_def split: sum.split)
  then show "opt_map_or_else (Some v) d f = f v" "opt_map_or (Some v) w f = f v"
    by (simp_all add: opt_map_or_else_def opt_map_or_def opt_map_def opt_deref_def)
qed (simp_all add: opt_map_def opt_map_or_else_def opt_map_or_def opt_deref_def)

section \<open>Errors\<close>

text \<open>What \<open>source\<close> and \<open>description\<close> return.\<close>

record error_obj =
  e_source :: "nat option"
  e_description :: "string option"

type_synonym error_store = "nat \<Rightarrow> error_obj option"

definition error_at :: "error_store \<Rightarrow> nat \<Rightarrow> error_obj run" where
  "error_at st a = (case st a of None \<Rightarrow> fail Use_after_free | Some e \<Rightarrow> ret e)"

text \<open>The default \<open>source\<close> of the base class.\<close>

definition error_base_source :: "nat option" where
  "error_base_source = None"

text \<open>\<open>ErrorWrapper\<close> of a value that streams as \<open>msg\<close>, and \<open>ErrorContext\<close> around the error at \<open>src\<close>.\<close>

definition error_wrapper :: "string \<Rightarrow> error_obj" where
  "error_wrapper msg = \<lparr>e_source = error_base_source, e_description = Some msg\<rparr>"

definition error_context :: "nat \<Rightarrow> string \<Rightarrow> error_obj" where
  "error_context src description = \<lparr>e_source = Some src, e_description = Some description\<rparr>"

text \<open>
  \<open>Result::with_context\<close>, where the class \<open>Result\<close> is declared elsewhere: what \<open>is_ok()\<close> says and the members \<open>m_ok\<close> and \<open>m_err\<close>,
  the address of an error, are arguments. The callback gets \<open>m_ok\<close> on both paths.
\<close>

definition result_with_context :: "bool \<Rightarrow> 'v \<Rightarrow> nat \<Rightarrow> ('v \<Rightarrow> string) \<Rightarrow> error_obj + 'v" where
  "result_with_context is_ok m_ok m_err f =
     (if is_ok then Inr m_ok else (let desc = f m_ok in Inl (error_context m_err desc)))"

text \<open>\<open>Chain\<close>: a pointer to the current error, null at the end.\<close>

type_synonym chain = "nat option"

definition chain_null :: chain where
  "chain_null = None"

definition chain_of :: "nat \<Rightarrow> chain" where
  "chain_of err = Some err"

definition chain_next :: "error_store \<Rightarrow> chain \<Rightarrow> chain run" where
  "chain_next st c = (case c of None \<Rightarrow> ret None
     | Some a \<Rightarrow> bind_run (error_at st a) (\<lambda>e. opt_map_or (e_source e) None (\<lambda>v. ret (Some v))))"

definition chain_post_next :: "error_store \<Rightarrow> chain \<Rightarrow> (chain \<times> chain) run" where
  "chain_post_next st c = bind_run (chain_next st c) (\<lambda>c'. ret (c, c'))"

definition chain_eq :: "chain \<Rightarrow> chain \<Rightarrow> bool" where
  "chain_eq c d \<longleftrightarrow> c = d"

definition chain_get :: "chain \<Rightarrow> nat run" where
  "chain_get c = (case c of None \<Rightarrow> fail Null_deref | Some a \<Rightarrow> ret a)"

definition error_begin :: "nat \<Rightarrow> chain" where
  "error_begin err = chain_of err"

definition error_end :: chain where
  "error_end = chain_null"

text \<open>The loop of \<open>operator<<\<close> over the chain, and the whole output.\<close>

partial_function (option) print_causes :: "error_store \<Rightarrow> chain \<Rightarrow> string run" where
  "print_causes st c = (if chain_eq c error_end then ret []
     else bind_run (chain_get c) (\<lambda>a. bind_run (error_at st a) (\<lambda>e.
       bind_run (chain_next st c) (\<lambda>c'. bind_run (print_causes st c') (\<lambda>rest.
         ret (''  * '' @ (case e_description e of None \<Rightarrow> ''UNKNOWN'' | Some d \<Rightarrow> d) @ [CHR 0x0A] @ rest))))))"

definition error_print :: "error_store \<Rightarrow> nat \<Rightarrow> string run" where
  "error_print st err = bind_run (error_at st err) (\<lambda>e. bind_run (print_causes st (error_begin err)) (\<lambda>rest.
     ret (''Error: '' @ (case e_description e of None \<Rightarrow> '''' | Some d \<Rightarrow> d) @ '' caused by: '' @ [CHR 0x0A] @ rest)))"

section \<open>The message of an error code\<close>

text \<open>
  \<open>m_message { 32, '\0' }\<close> has braces, so it is the string of these two bytes, not 32 zero bytes.
  \<open>strerror_r\<close> or \<open>strerror_s\<close> writes at most the given number of bytes, the last of them a zero byte.
\<close>

definition code_buffer :: string where
  "code_buffer = [CHR 0x20, CHR 0x00]"

definition code_fill :: "string \<Rightarrow> string \<Rightarrow> string" where
  "code_fill msg buf = (let out = take (length buf - 1) msg @ [CHR 0x00] in out @ drop (length out) buf)"

text \<open>The GNU function may return a string of its own (\<open>Inl\<close>) or fill the buffer (\<open>Inr\<close>); the others fill it.\<close>

fun error_code_message :: "string + string \<Rightarrow> string" where
  "error_code_message (Inl own) = takeWhile (\<lambda>c. c \<noteq> CHR 0x00) own"
| "error_code_message (Inr msg) = takeWhile (\<lambda>c. c \<noteq> CHR 0x00) (code_fill msg code_buffer)"

section \<open>Lemmas\<close>

text \<open>The errors of a chain, from the one at \<open>c\<close> on.\<close>

fun error_path :: "error_store \<Rightarrow> chain \<Rightarrow> error_obj list \<Rightarrow> bool" where
  "error_path st c [] \<longleftrightarrow> c = None"
| "error_path st c (e # es) \<longleftrightarrow> (\<exists>a. c = Some a \<and> st a = Some e \<and> error_path st (e_source e) es)"

definition cause_line :: "error_obj \<Rightarrow> string" where
  "cause_line e = ''  * '' @ (case e_description e of None \<Rightarrow> ''UNKNOWN'' | Some d \<Rightarrow> d) @ [CHR 0x0A]"

lemma chain_next_source: "st a = Some e \<Longrightarrow> chain_next st (Some a) = ret (e_source e)"
  by (cases "e_source e") (simp_all add: chain_next_def error_at_def opt_cases)

lemma print_causes_path: "error_path st c es \<Longrightarrow> print_causes st c = ret (concat (map cause_line es))"
proof (induction es arbitrary: c)
  case Nil
  then show ?case by (subst print_causes.simps) (simp add: chain_eq_def error_end_def chain_null_def)
next
  case (Cons e es)
  then obtain a where a: "c = Some a" "st a = Some e" "error_path st (e_source e) es" by auto
  have "print_causes st c = bind_run (print_causes st (e_source e)) (\<lambda>rest. ret (cause_line e @ rest))"
    using a(1,2) chain_next_source [of st a e]
    by (subst print_causes.simps)
      (simp add: chain_eq_def error_end_def chain_null_def chain_get_def error_at_def cause_line_def)
  then show ?case using Cons.IH [OF a(3)] by simp
qed

text \<open>A chain that comes back to itself has no path.\<close>

lemma error_path_unique: "error_path st c es \<Longrightarrow> error_path st c fs \<Longrightarrow> es = fs"
proof (induction es arbitrary: c fs)
  case Nil
  then show ?case by (cases fs) auto
next
  case (Cons e es)
  then show ?case by (cases fs) auto
qed

section \<open>Properties\<close>

text \<open>C28: printing an error whose causes form a finite chain returns: its own description, and one line for every
  error of the chain, from the error itself (which is listed as its first cause) to the innermost source, with
  \<open>UNKNOWN\<close> for those without a description.\<close>

theorem error_print_lists_chain:
  assumes "error_path st (Some err) (e # es)"
  shows "error_print st err = ret (''Error: '' @ (case e_description e of None \<Rightarrow> '''' | Some d \<Rightarrow> d) @ '' caused by: '' @ [CHR 0x0A] @
    concat (map cause_line (e # es)))"
proof -
  have "st err = Some e" using assms by auto
  then show ?thesis using print_causes_path [OF assms]
    by (simp add: error_print_def error_at_def error_begin_def chain_of_def)
qed

theorem error_print_lists_chain_witness:
  "error_print [1 \<mapsto> error_context 2 ''open'', 2 \<mapsto> error_wrapper ''EPERM''] 1 =
   ret (''Error: open caused by: '' @ [CHR 0x0A] @ ''  * open'' @ [CHR 0x0A] @ ''  * EPERM'' @ [CHR 0x0A])"
  using error_print_lists_chain [of "[1 \<mapsto> error_context 2 ''open'', 2 \<mapsto> error_wrapper ''EPERM'']" 1
      "error_context 2 ''open''" "[error_wrapper ''EPERM'']"]
  by (simp add: error_context_def error_wrapper_def error_base_source_def cause_line_def)

text \<open>Where \<open>strerror_r\<close> or \<open>strerror_s\<close> fills the buffer, the message of an \<open>ErrorWrapper\<close> of an error code is at most the
  first byte of the msg, because the buffer has two bytes; only a string of its own is kept whole.\<close>

theorem error_code_message_truncated:
  "error_code_message (Inr msg) = takeWhile (\<lambda>c. c \<noteq> CHR 0x00) (take 1 msg) \<and> length (error_code_message (Inr msg)) \<le> 1"
proof (cases msg)
  case (Cons c cs)
  then show ?thesis by (simp add: code_fill_def code_buffer_def)
qed (simp add: code_fill_def code_buffer_def)

end
