(* ===== verification/Cpp_Str.thy ===== *)
theory Cpp_Str
  imports Str_Props
begin

text \<open>
  The C++ side of \<open>src/include/a3/str.h\<close>: accessors, the view of a string, and what makes strings keys of the
  standard containers: \<open>operator==\<close>, \<open>operator!=\<close> and \<open>std::hash\<close>. The hash of a view is a parameter, a function of
  the bytes.
\<close>

section \<open>Definitions\<close>

definition a3_string_cstr :: "a3_cstring \<Rightarrow> ptr" where
  "a3_string_cstr s = s_ptr s"

definition a3_string_ptr :: "a3_string \<Rightarrow> ptr" where
  "a3_string_ptr s = s_ptr s"

definition a3_string_cptr :: "a3_cstring \<Rightarrow> ptr" where
  "a3_string_cptr s = s_ptr s"

definition a3_string_len :: "a3_cstring \<Rightarrow> size_t" where
  "a3_string_len s = s_len s"

text \<open>The bytes a \<open>std::string_view\<close> of the string reads.\<close>

definition string_view :: "mem \<Rightarrow> a3_cstring \<Rightarrow> u8 list run" where
  "string_view m s = mem_load m (s_ptr s) (s_len s)"

definition cstring_eq :: "mem \<Rightarrow> a3_cstring \<Rightarrow> a3_cstring \<Rightarrow> bool run" where
  "cstring_eq m lhs rhs = bind_run (a3_string_cmp m lhs rhs) (\<lambda>c. ret (c = 0))"

definition cstring_ne :: "mem \<Rightarrow> a3_cstring \<Rightarrow> a3_cstring \<Rightarrow> bool run" where
  "cstring_ne m lhs rhs = bind_run (cstring_eq m lhs rhs) (\<lambda>b. ret (\<not> b))"

definition string_hash :: "(u8 list \<Rightarrow> size_t) \<Rightarrow> mem \<Rightarrow> a3_string \<Rightarrow> size_t run" where
  "string_hash H m s = bind_run (string_view m s) (\<lambda>xs. ret (H xs))"

definition cstring_hash :: "(u8 list \<Rightarrow> size_t) \<Rightarrow> mem \<Rightarrow> a3_cstring \<Rightarrow> size_t run" where
  "cstring_hash H m s = bind_run (string_view m s) (\<lambda>xs. ret (H xs))"

text \<open>Without \<open>std::string_view\<close> the hash is that of a \<open>std::string\<close>, which copies the bytes; it does not take a null pointer.\<close>

definition std_string :: "mem \<Rightarrow> ptr \<Rightarrow> size_t \<Rightarrow> u8 list run" where
  "std_string m p n = mem_load m p n"

definition string_hash_copy :: "(u8 list \<Rightarrow> size_t) \<Rightarrow> mem \<Rightarrow> a3_string \<Rightarrow> size_t run" where
  "string_hash_copy H m s = bind_run (std_string m (s_ptr s) (s_len s)) (\<lambda>xs. ret (H xs))"

definition cstring_hash_copy :: "(u8 list \<Rightarrow> size_t) \<Rightarrow> mem \<Rightarrow> a3_cstring \<Rightarrow> size_t run" where
  "cstring_hash_copy H m s = bind_run (std_string m (s_ptr s) (s_len s)) (\<lambda>xs. ret (H xs))"

lemma hash_copy_same: "string_hash_copy H m s = string_hash H m s" "cstring_hash_copy H m s = cstring_hash H m s"
  by (simp_all add: string_hash_copy_def cstring_hash_copy_def string_hash_def cstring_hash_def string_view_def std_string_def)

text \<open>The deleter of \<open>util.hh\<close> for memory from \<open>malloc\<close>.\<close>

definition malloc_deleter :: "mem \<Rightarrow> ptr \<Rightarrow> mem run" where
  "malloc_deleter m p = c_free m p"

section \<open>Properties\<close>

text \<open>C27: on strings without a zero byte \<open>operator==\<close> is equality of the bytes and \<open>operator!=\<close> its negation, so that
  equal strings have equal hashes, which the standard containers need. In general two strings are equal as soon as
  they have the same length and agree up to their first zero byte.\<close>

theorem cstring_eq_is_equality:
  assumes "string_view m l = ret xs" and "string_view m r = ret ys"
  shows "\<exists>b. cstring_eq m l r = ret b \<and> cstring_ne m l r = ret (\<not> b) \<and>
    b = (length xs = length ys \<and> takeWhile (\<lambda>x. x \<noteq> 0) xs = takeWhile (\<lambda>x. x \<noteq> 0) ys) \<and>
    (nul_free xs \<and> nul_free ys \<longrightarrow> b = (xs = ys) \<and> (b \<longrightarrow> cstring_hash H m l = cstring_hash H m r))"
proof -
  have cmp: "a3_string_cmp m l r = ret (string_cmp_bytes xs ys)"
    using string_cmp_correct [of m l xs r ys] assms by (simp add: string_view_def)
  have zero: "string_cmp_bytes xs ys = 0 \<longleftrightarrow> length xs = length ys \<and> c_prefix xs = c_prefix ys"
    by (rule string_cmp_zero_iff)
  have free: "string_cmp_bytes xs ys = 0 \<longleftrightarrow> xs = ys" if "nul_free xs \<and> nul_free ys"
    using zero nul_free_prefix [of xs] nul_free_prefix [of ys] that by auto
  have "cstring_hash H m l = cstring_hash H m r" if "xs = ys" using assms that by (simp add: cstring_hash_def)
  then show ?thesis using cmp zero free
    by (intro exI [of _ "string_cmp_bytes xs ys = 0"]) (simp add: cstring_eq_def cstring_ne_def c_prefix_def)
qed

text \<open>Two strings that are equal but have different bytes, behind a zero byte.\<close>

definition ex_nul_mem :: mem where
  "ex_nul_mem = \<lparr>blocks = [0 \<mapsto> [97, 0, 98], 1 \<mapsto> [97, 0, 99]], next_block = 2, fresh_byte = \<lambda>b i. 0\<rparr>"

theorem cstring_eq_is_equality_witness:
  "cstring_eq ex_mem ex_hello ex_lo = ret False \<and>
   cstring_eq ex_nul_mem (a3_cs_obj (Ptr 0 0) 3) (a3_cs_obj (Ptr 1 0) 3) = ret True \<and>
   string_view ex_nul_mem (a3_cs_obj (Ptr 0 0) 3) \<noteq> string_view ex_nul_mem (a3_cs_obj (Ptr 1 0) 3)"
proof -
  have v: "string_view ex_nul_mem (a3_cs_obj (Ptr 0 0) 3) = ret [97, 0, 98]"
      "string_view ex_nul_mem (a3_cs_obj (Ptr 1 0) 3) = ret [97, 0, 99]"
    by (simp_all add: string_view_def a3_cs_obj_def mem_load_block ex_nul_mem_def)
  have "string_view ex_mem ex_hello = ret [72, 101, 108, 108, 111]" "string_view ex_mem ex_lo = ret [108, 111]"
    using ex_loads by (simp_all add: string_view_def)
  from cstring_eq_is_equality [OF this, of "\<lambda>xs. 0"] cstring_eq_is_equality [OF v, of "\<lambda>xs. 0"]
  show ?thesis using v by (elim exE conjE) simp
qed

end
