(* ===== verification/Out_Of_Memory.thy ===== *)
theory Out_Of_Memory
  imports Buffer_Props Ht_Props
begin

text \<open>
  What the buffer and the hash table do when the allocation to grow them fails: neither checks the pointer it gets.
\<close>

section \<open>The buffer\<close>

text \<open>The storage has to be reallocated for \<open>n\<close> more bytes.\<close>

definition buf_must_grow :: "mem \<Rightarrow> a3_buffer \<Rightarrow> nat \<Rightarrow> bool" where
  "buf_must_grow m b n \<longleftrightarrow> buf_room b < n \<and> s_len (b_data b) - length (buf_contents m b) < n \<and>
     length (buf_contents m b) + n \<le> b_max_cap b"

lemma realloc_oom:
  assumes "s_ptr s = Ptr k 0" "blocks m k \<noteq> None"
  shows "a3_string_realloc m False s n = fail Null_deref"
  using assms by (auto simp: a3_string_realloc_def c_realloc_def mem_set_def mem_range_def)

lemma ensure_cap_oom:
  assumes inv: "buf_inv m b" and extra: "4 * extra < size_mod"
  shows "a3_buf_ensure_cap m False b extra =
    (if buf_must_grow m b extra then fail Null_deref else a3_buf_ensure_cap m True b extra)"
proof -
  let ?b = "buf_norm b" and ?n = "length (buf_contents m b)" and ?L = "s_len (b_data b)"
  have inv': "buf_inv m ?b" using inv by simp
  note i = buf_inv_bounds [OF inv] and i' = buf_inv_bounds [OF inv']
  have n: "?n = b_tail b - b_head b" "?n = b_tail ?b - b_head ?b" using i(5) by simp_all
  have bound: "4 * ?L < size_mod" using inv by (auto simp: buf_inv_def)
  have add: "sz_add ?n extra = ?n + extra" "sz_add ?L extra = ?L + extra"
    using bound extra i n by (simp_all)
  note ops = buf_index_ops(4) [OF inv] buf_index_ops(2,3) [OF inv']
  show ?thesis
  proof (cases "buf_must_grow m b extra")
    case True
    then have grow: "buf_room b < extra" "?n + extra \<le> b_max_cap b" "?L - ?n < extra" by (simp_all add: buf_must_grow_def)
    have big: "?L < b_max_cap b" using grow i n by linarith
    have "2 * (?L + extra) \<le> size_mod" using bound extra by simp
    moreover have "0 < max (max ?L 8) (b_max_cap b)" by (simp add: less_max_iff_disj)
    ultimately obtain c where "double_until (max (max ?L 8) (b_max_cap b)) (?L + extra) = ret c"
      using double_until_correct [of "max (max ?L 8) (b_max_cap b)" "?L + extra"] by auto
    moreover obtain k where "s_ptr (b_data b) = Ptr k 0" "blocks m k \<noteq> None"
      using inv big by (auto simp: buf_inv_def)
    ultimately show ?thesis using grow inv ops n add True
      by (simp add: a3_buf_ensure_cap_def buf_room_def realloc_oom)
  next
    case False
    then consider "extra \<le> buf_room b" | "b_max_cap b < ?n + extra" | "extra \<le> ?L - ?n"
      unfolding buf_must_grow_def by linarith
    then show ?thesis using inv ops n add False
      by cases (simp_all add: a3_buf_ensure_cap_def buf_room_def)
  qed
qed

text \<open>C29: when the C library has no memory left, \<open>a3_buf_write_str\<close> is what it is with memory as long as the string fits into the storage
  at hand, moved to its front if need be, or is refused for the maximal capacity. Otherwise it does not report a failure:
  \<open>a3_string_realloc\<close> writes the final zero byte through the null pointer it gets.
\<close>

theorem buf_write_out_of_memory:
  assumes "buf_inv m b" and "mem_load m (s_ptr s) (s_len s) = ret ys" and "4 * length ys < size_mod"
  shows "a3_buf_write_str m False b s =
    (if buf_must_grow m b (length ys) then fail Null_deref else a3_buf_write_str m True b s)"
proof -
  have len: "length ys = s_len s" using assms(2) by (auto elim: mem_load_retE)
  have "s_len s + (b_tail b - b_head b) < size_mod"
    using assms(1,3) len by (auto simp: buf_inv_def)
  then have "sz_add (s_len s) (b_tail b - b_head b) = s_len s + (b_tail b - b_head b)" by simp
  then have "\<not> b_max_cap b < sz_add (s_len s) (b_tail b - b_head b)" if "buf_must_grow m b (s_len s)"
    using that buf_inv_bounds(5) [OF assms(1)] by (simp add: buf_must_grow_def)
  then show ?thesis
    using assms(1,3) buf_index_ops(2) [OF assms(1)] ensure_cap_oom [OF assms(1), of "s_len s"]
    by (simp add: a3_buf_write_str_def len)
qed

text \<open>\<open>ex_buf2\<close> holds 4 bytes in a storage of 7 and may grow to 16: there is room for 3 more after compaction, not for 5.\<close>

theorem buf_write_out_of_memory_witness:
  "a3_buf_write_str ex_mem False ex_buf2 \<lparr>s_ptr = Ptr 2 0, s_len = 5\<rparr> = fail Null_deref"
proof -
  have load: "mem_load ex_mem (Ptr 2 0) 5 = ret [0, 0, 0, 0, 0]"
    by (simp add: mem_load_block ex_blocks)
  have grow: "buf_must_grow ex_mem ex_buf2 (length [0, 0, 0, 0, 0 :: u8])"
    using ex_buf2_ok(2) ex_buf_fields(3,7) by (simp add: buf_must_grow_def ex_buf2_def)
  show ?thesis using buf_write_out_of_memory [OF ex_buf2_ok(1), of "\<lparr>s_ptr = Ptr 2 0, s_len = 5\<rparr>" "[0, 0, 0, 0, 0]"] load
    unfolding if_P [OF grow] by (simp add: size_mod_def)
qed

section \<open>The hash table\<close>

lemma insert_at_null:
  assumes "entries t = []" "0 < cap t" "h \<noteq> 0" shows "ht_insert_at p t h k v = fail Out_of_bounds"
  using assms by (simp add: ht_insert_at_def) (subst ht_insert_loop.simps, simp add: array_get_def)

lemma rehash_null:
  assumes "entries t = []" "0 < cap t" "set is \<subseteq> {..<length prev}"
  shows "for_run is (ht_rehash_step p prev) t = fail Out_of_bounds \<or> for_run is (ht_rehash_step p prev) t = ret t"
  using assms(3)
proof (induction "is")
  case (Cons i "is")
  then show ?case using insert_at_null [OF assms(1,2)] by (auto simp: ht_rehash_step_def)
qed simp

lemma resize_null:
  assumes "length (entries t) = cap t" "cap t < c"
  shows "ht_resize p False t c = fail Out_of_bounds \<or> ht_resize p False t c = ret (t\<lparr>cap := c, entries := []\<rparr>)"
proof -
  let ?t = "t\<lparr>cap := c, entries := []\<rparr>"
  have "for_run [0..<cap t] (ht_rehash_step p (entries t)) ?t = fail Out_of_bounds \<or>
      for_run [0..<cap t] (ht_rehash_step p (entries t)) ?t = ret ?t"
    by (rule rehash_null) (use assms in auto)
  then show ?thesis using assms(2) by (simp add: ht_resize_def ht_calloc_def)
qed

text \<open>C30: when a growing table has reached its load factor and there is no memory left for a larger array, no insertion reports a failure,
  not even that of a key that is there: rehashing, or else the insertion itself, goes through the null pointer \<open>calloc\<close> returned.
\<close>

theorem ht_insert_out_of_memory:
  assumes "ht_inv valid p t" "can_grow t" "cap t * 90 \<le> ht_size t * 100"
  shows "ht_insert p False t k v = fail Out_of_bounds"
proof -
  have i: "length (entries t) = cap t" "0 < cap t" "cap t < 2 ^ 63" "ht_size t \<le> cap t" "cap t * 100 < size_mod"
    using assms(1) ht_wfD by (auto simp: ht_inv_def)
  have grow: "sz_mul (cap t) 2 = cap t * 2" "sz_mul (cap t) 90 = cap t * 90" "sz_mul (ht_size t) 100 = ht_size t * 100"
    using i by (auto simp: sz_mul_def size_mod_def)
  let ?t = "t\<lparr>cap := cap t * 2, entries := []\<rparr>"
  have "ht_hash p u k \<noteq> 0" for u by (simp add: ht_hash_def Let_def)
  then have "ht_insert_at p (?t\<lparr>ht_size := n\<rparr>) (ht_hash p (?t\<lparr>ht_size := n\<rparr>) k) k v = fail Out_of_bounds" for n
    using i(2) by (intro insert_at_null) simp_all
  then show ?thesis using assms(2,3) resize_null [OF i(1), of "cap t * 2" p] i(2) grow
    by (auto simp: ht_insert_def ht_grow_def ht_load_factor_def Let_def)
qed

definition ex_full :: "(nat, nat) ht" where
  "ex_full = ex_table\<lparr>can_grow := True, ht_size := 4\<rparr>"

theorem ht_insert_out_of_memory_witness: "ht_insert ex_params False ex_full 5 51 = fail Out_of_bounds"
proof (rule ht_insert_out_of_memory)
  have "ht_hash p (ex_table\<lparr>can_grow := True\<rparr>) = ht_hash p ex_table" for p by (simp add: fun_eq_iff ht_hash_def)
  then have "ht_wf (\<lambda>k. True) ex_params ex_full" using ex_inv by (simp add: ex_full_def ht_inv_def) (simp add: ht_wf_def)
  then show "ht_inv (\<lambda>k. True) ex_params ex_full" using ex_inv by (simp add: ht_inv_def ex_full_def ex_fields)
qed (simp_all add: ex_full_def ex_fields)

end
