(* ===== verification/Spec2Isabelle.thy ===== *)
theory Spec2Isabelle
  imports Ht_Equiv Str_Props Buffer_Seq Ll_Seq Sll_Seq Cache_Seq Spmc_Empty Spmc_Ra_Props Shims Vec_Seq Pool_Bytes
    Pq_Seq Util Rc_Pool Cpp_Error Cpp_Str Out_Of_Memory
begin

text \<open>
  A verification development for liba3, a C library of containers and utilities.

  \<^bold>\<open>The program.\<close> The library is a set of small components. The hash table
  (\<open>src/include/a3/ht.h\<close>) is a macro-generated Robin Hood table; the cache
  (\<open>cache.h\<close>) keeps one such table and adds access bits and an eviction index. Strings
  (\<open>str.h\<close>, \<open>src/str.c\<close>) are pointers with a length; the byte buffer (\<open>buffer.h\<close>,
  \<open>src/buffer.c\<close>) owns one string and calls the string functions to copy, print numbers,
  reallocate and search; the log (\<open>log_internal.h\<close>, \<open>src/log.c\<close>) reads its level with
  them. The lists (\<open>ll.h\<close>, \<open>sll.h\<close>) are intrusive. The ring queue (\<open>spmc.h\<close>, \<open>src/spmc.c\<close>)
  is shared between one producer and many consumers. The vector (\<open>vec.h\<close>, \<open>src/vec.c\<close>) and the
  pool (\<open>src/pool.c\<close>) manage raw memory from the aligned allocation shim. The priority queue
  (\<open>pq.h\<close>) and the reference count (\<open>rc.h\<close>) stand alone. C++ headers wrap some of this: \<open>rc.hh\<close> makes the
  reference count a smart pointer, whose objects may come from a pool by the macros of \<open>pool.h\<close>;
  \<open>option.hh\<close> and \<open>error.hh\<close> are small value types; \<open>str.h\<close> compares and hashes strings. Shims under
  \<open>src/shim\<close> stand in for what a platform may lack. The theories follow this structure.

  \<^bold>\<open>Theories.\<close>
  \<^item> \<open>Prelude\<close>: outcomes of C code (return, failed assertion, panic, undefined access, divergence) with
    their sequencing, loops, arrays, and 64-bit sizes with wrap-around. \<open>Mem\<close>: the byte memory and the memory
    functions of the C library; an access C leaves undefined is an error outcome, so a theorem that an operation
    returns also says that it makes no such access. Its last section says which blocks an operation leaves alone (\<open>only_moves\<close>)
    and what is left when a structure is destroyed (\<open>holds_only\<close>), so the sequences on buffers and vectors also say that
    nothing leaks. \<open>Operations\<close> runs sequences of operations, and its locale \<open>simulation\<close> carries agreement with an abstract
    structure from one operation to all sequences; \<open>Ht_Equiv\<close>, \<open>Ll_Seq\<close>, \<open>Sll_Seq\<close>, \<open>Pool_Seq\<close>,
    \<open>Pool_Bytes\<close> and \<open>Pq_Seq\<close> use it.
  \<^item> \<open>Ht\<close> has the definitions of \<open>ht.h\<close>, in its order, one for each method; \<open>Ht_Slots\<close> the
    probe sequences and the invariant (every entry is within reach of its home slot, probe counts never drop by more
    than one along a run, an empty slot exists), \<open>Ht_Inv\<close> insertion, \<open>Ht_Shift\<close> the
    backward shift of a deletion, \<open>Ht_Map\<close> the table as a map and rehashing, \<open>Ht_Props\<close> the
    properties of the operations and \<open>Ht_Equiv\<close> those of sequences of operations: a table, growing or
    fixed, against a finite map with a counter. The contract of comparator and hash function is the locale \<open>ht_keys\<close>.
  \<^item> \<open>Cache\<close>, \<open>Cache_Inv\<close>, \<open>Cache_Props\<close>: \<open>cache.h\<close> on top of it: eviction always finds a victim in a full cache,
    as a block of access bits is reset when it would become full. \<open>Cache_Seq\<close> composes cache, table and strings: what
    sequences of operations on a string-keyed cache return, remove and report. Clearing removes at least half of the entries, not all.
  \<^item> \<open>Str\<close> has \<open>str.h\<close>, \<open>src/str.c\<close> and the shims for \<open>memmem\<close> and \<open>strncasecmp\<close>;
    \<open>Str_Lemmas\<close>, \<open>Str_Copy\<close>, \<open>Str_Search\<close> (locales \<open>memmem_shim\<close> and \<open>memmem_exact\<close> for what
    a substring search promises, interpreted by the two shims: the fallback of \<open>src/shim/memmem/missing.c\<close>, which misses a match at the
    very end, and the function of the C library, which is specified by its documentation; strings as keys of a hash table) and \<open>Str_Props\<close>
    relate it to lists of bytes.
  \<^item> \<open>Buffer\<close> has \<open>buffer.h\<close> and \<open>src/buffer.c\<close>; \<open>Buffer_Inv\<close> the well-formedness and the contents of a
    buffer, \<open>Buffer_Write\<close>, \<open>Buffer_Ops\<close>, \<open>Buffer_Token\<close> the operations, \<open>Buffer_Fmt\<close> formatted writing, \<open>Buffer_Props\<close> the properties
    of the operations, \<open>Buffer_Seq\<close> sequences of them against a bounded queue of bytes. \<open>Out_Of_Memory\<close>: a buffer or
    a hash table that has to grow and cannot.
  \<^item> \<open>Fifo\<close> is the contract of a queue as a locale; \<open>Ll\<close>, \<open>Ll_Lists\<close>, \<open>Ll_Ops\<close> and \<open>Sll\<close>, \<open>Sll_Ops\<close> are
    \<open>ll.h\<close> and \<open>sll.h\<close> over a heap of links, with the interpretations of the contract; \<open>List_Props\<close>. \<open>Ll_Seq\<close> and \<open>Sll_Seq\<close> run sequences of operations on several
    lists of one heap against the lists of \<open>List_Spec\<close>, by the frame lemmas of \<open>Ll_Lists\<close>, \<open>Ll_Ops\<close> and \<open>Sll_Ops\<close>.
  \<^item> \<open>Transition\<close> is the invariant rule for transition systems as a locale; \<open>Spmc\<close> has \<open>spmc.h\<close> and
    \<open>src/spmc.c\<close> as a step relation with one step for each atomic operation, the local variables of
    each thread being part of its program counter; \<open>Spmc_Tickets\<close> who owns which ticket, \<open>Spmc_Inv\<close> the invariant, in three parts
    (counters, ownership of tickets, contents of slots), and the interpretation; \<open>Spmc_Props\<close>.
    \<open>Spmc_Run\<close> has infinite runs whose steps are labelled with the thread that makes them, and fairness;
    \<open>Spmc_Live\<close> the progress of each call under it, and \<open>Spmc_Progress\<close> the properties; \<open>Spmc_Empty\<close> what a try that returns
    \<open>NULL\<close> has seen. \<open>Shims\<close> has the atomics shim for Windows, instruction by instruction,
    on x86 with its store buffers: for arbitrary clients its operations are the single, sequentially consistent steps that \<open>Spmc\<close> is made of,
    but for a failing compare-exchange, which takes two.
  \<^item> \<open>Weak_Mem\<close> has the atomic operations with their memory orders, over messages with timestamps and views. \<open>Spmc_Ra\<close> is
    \<open>src/spmc.c\<close> again over that memory, with the orders the code names; \<open>Spmc_Ra_Inv\<close> its invariant, \<open>Spmc_Ra_Steps\<close> that
    every step keeps it, and \<open>Spmc_Ra_Props\<close> the interpretation and the properties: what a consumer takes is what was
    enqueued, and it sees all that the producer did before.
  \<^item> \<open>Vec\<close> has \<open>vec.h\<close>, \<open>src/vec.c\<close> and the aligned allocation shim, \<open>Vec_Inv\<close> and \<open>Vec_Props\<close> its
    theory, \<open>Vec_Seq\<close> sequences of operations against a list; \<open>Pool\<close>, \<open>Pool_Props\<close>: \<open>src/pool.c\<close> with the objects and
    the links of the free slots kept apart, \<open>Pool_Seq\<close> sequences against a stack of free blocks. \<open>Pool_Mem\<close> has
    \<open>src/pool.c\<close> again over the byte memory, where both are bytes of one block and a link is read back through the
    encoding of pointers (\<open>ptr_codec\<close>); \<open>Pool_Bytes\<close> shows that every operation there is the one of \<open>Pool\<close>, and joins this
    with \<open>Pool_Seq\<close>: two refinement steps from bytes to the stack. \<open>Pq\<close>, \<open>Pq_Props\<close>: \<open>pq.h\<close>, \<open>Pq_Seq\<close> sequences against
    a multiset;
    \<open>Log\<close>, \<open>Log_Props\<close>: \<open>src/log.c\<close>, \<open>log_internal.h\<close>, \<open>log.h\<close> and the \<open>strerror\<close> shims; \<open>Util\<close>: \<open>util.h\<close>,
    whose panics go through the log; \<open>Rc\<close>: \<open>rc.h\<close>.
  \<^item> \<open>Rc_Ptr\<close> has \<open>rc.hh\<close> over a store of objects, \<open>Rc_Own\<close> programs over its pointers and, in the locale
    \<open>object_store\<close>, what every operation keeps if \<open>new\<close> and \<open>delete\<close> keep their contract; \<open>Rc_Pool\<close> interprets it by
    classes allocated from a pool. \<open>Cpp_Error\<close> has \<open>option.hh\<close> and \<open>error.hh\<close>, \<open>Cpp_Str\<close> the C++ part of \<open>str.h\<close>.

  \<^bold>\<open>State.\<close> A structure of the code is a record with the same fields; a function that changes a
  structure or the memory returns the new one. Whether an allocation succeeds is an argument. Callbacks, hash
  functions, comparators, the bytes of fresh memory and the text that \<open>vsnprintf\<close> produces are parameters.

  \<^bold>\<open>Loops.\<close> No fuel is used: a loop is a structurally recursive function, a function with a
  termination proof, or a \<open>partial_function\<close> whose result \<open>None\<close> means that it does not
  return. Properties of the last kind state that the code returns (lookup, insertion, iteration, tokens), or that it
  does not (initialising a queue with more than \<open>2 ^ 63\<close> slots, pushing onto a cleared vector).

  \<^bold>\<open>Bounds.\<close> Sizes are kept at 64 bits; theorems that need a sum or product not to wrap say so.
  The counters of the ring queue are assumed not to wrap (\<open>spmc_bounded\<close> and \<open>ra_bounded\<close>, about \<open>2 ^ 64\<close> tickets); the Windows shim
  asserts less, \<open>2 ^ 63 - 1\<close>. A reference count is assumed to stay below \<open>2 ^ 32\<close> (\<open>rcp_small\<close>), as the type of the
  count demands. A growing table is followed as long as its counter is below \<open>2 ^ 54\<close> at
  an insertion, so that its capacity cannot wrap.

  \<^bold>\<open>What is not modelled.\<close> The memory orders beyond their release and acquire reading: a sequentially
  consistent operation is no more than an acquire and release in \<open>Weak_Mem\<close>, and there are no fences and no load that reads
  from a later store. The progress of the calls is proved for sequentially consistent runs only. The numeric addresses of
  blocks, except where the allocation shim aligns them, and the bytes of a pointer: what \<open>Pool_Mem\<close> needs of them is \<open>codec_ok\<close>, that a pointer is read back as it was stored and
  that zero bytes are \<open>NULL\<close>;
  the queue as a client of the machine of \<open>Shims\<close>, and Windows on other processors than x86; how \<open>vsnprintf\<close> formats; what a panic prints, except in \<open>Util\<close> (elsewhere a panic is the outcome \<open>Panicked\<close>, as if the log
  were initialised);
  the class \<open>Result\<close>, as \<open>a3/result.hh\<close> is not part of the repository (its members are arguments of
  \<open>result_with_context\<close>); the destructors and members of the classes
  that clients reference-count; HighwayHash, \<open>_strnicmp\<close> and \<open>_aligned_malloc\<close>, which are parameters; the headers that only
  declare or choose a compiler's spelling.

  \<^bold>\<open>Plan.\<close> Left to do: sequences of operations on a cache whose allocations fail, which of the
  memory orders of the queue are needed, and the queue as a client of the machine of \<open>Shims\<close>.
\<close>

end
